(* ===== verification/Prelude.thy ===== *)
theory Prelude
  imports Main "HOL-Library.Word" "HOL-Library.Sublist"
begin

text \<open>
  Shared ground of the development: how a run of the C code can end, the unsigned
  arithmetic of the source, the byte constants it uses, and the generic lemmas on
  lists and results that the component theories rest on.

  A C function that may stop the process becomes a function into \<open>'a res\<close>. The left
  summand names the reason: \<open>bug()\<close> and \<open>die()\<close> of \<^verbatim>\<open>utility.c\<close>,
  \<open>vsf_sysutil_exit()\<close>, or \<open>Overrun\<close>, a memory access the C standard leaves undefined
  (outside its object, through a null pointer, or of a byte never written). \<open>Hang\<close> marks a loop
  that has used up the number of rounds the model grants it. No function of the program returns
  \<open>Overrun\<close> or \<open>Hang\<close> on purpose: that they cannot occur is what the theorems show.
\<close>

section \<open>Results\<close>

datatype fault = Bug string | Die string | Exit int | Overrun | Hang

type_synonym 'a res = "fault + 'a"

text \<open>The ends that the program chooses itself when the outside world fails it or the session is over.\<close>

fun benign :: "fault \<Rightarrow> bool" where
  "benign (Die s) \<longleftrightarrow> True"
| "benign (Exit n) \<longleftrightarrow> True"
| "benign (Bug s) \<longleftrightarrow> False"
| "benign Overrun \<longleftrightarrow> False"
| "benign Hang \<longleftrightarrow> False"

lemma benign_no_hang: "(\<And>e. r = Inl e \<Longrightarrow> benign e) \<Longrightarrow> r \<noteq> Inl Hang"
  by (cases r) auto

fun rbind :: "'a res \<Rightarrow> ('a \<Rightarrow> 'b res) \<Rightarrow> 'b res" where
  "rbind (Inl e) f = Inl e"
| "rbind (Inr x) f = f x"

fun rfold :: "('a \<Rightarrow> 'b \<Rightarrow> 'b res) \<Rightarrow> 'a list \<Rightarrow> 'b \<Rightarrow> 'b res" where
  "rfold f [] s = Inr s"
| "rfold f (x # xs) s = rbind (f x s) (rfold f xs)"

text \<open>A loop body run a fixed number of times.\<close>

fun rtimes :: "nat \<Rightarrow> ('b \<Rightarrow> 'b res) \<Rightarrow> 'b \<Rightarrow> 'b res" where
  "rtimes 0 f s = Inr s"
| "rtimes (Suc n) f s = rbind (f s) (rtimes n f)"

lemma rbind_eq_Inr: "rbind m f = Inr y \<longleftrightarrow> (\<exists>x. m = Inr x \<and> f x = Inr y)"
  by (cases m) auto

lemma rbind_eq_Inl: "rbind m f = Inl e \<longleftrightarrow> m = Inl e \<or> (\<exists>x. m = Inr x \<and> f x = Inl e)"
  by (cases m) auto

lemma rbind_assoc: "rbind (rbind m f) g = rbind m (\<lambda>x. rbind (f x) g)"
  by (cases m) auto

lemma rbind_Inr_right [simp]: "rbind m Inr = m"
  by (cases m) auto

lemma rfold_Nil_fun [simp]: "rfold f [] = Inr"
  by (rule ext) simp

lemma rfold_append: "rfold f (xs @ ys) s = rbind (rfold f xs s) (rfold f ys)"
proof (induction xs arbitrary: s)
  case (Cons x xs)
  then have "rfold f (xs @ ys) = (\<lambda>t. rbind (rfold f xs t) (rfold f ys))" by blast
  then show ?case by (simp add: rbind_assoc)
qed simp

section \<open>Unsigned arithmetic and limits\<close>

text \<open>
  \<open>unsigned int\<close> has 32 bits on the target (StarSemi STR8132, ARM). A value is kept as a
  \<open>nat\<close> and every sum that the C code forms in an \<open>unsigned int\<close> is reduced by \<open>u32\<close>.
\<close>

definition INT_MAX :: nat where
  "INT_MAX = 2147483647"

definition u32 :: "nat \<Rightarrow> nat" where
  "u32 n = n mod 4294967296"

lemma u32_small [simp]: "n < 4294967296 \<Longrightarrow> u32 n = n"
  by (simp add: u32_def)

lemma u32_less [simp]: "u32 n < 4294967296"
  by (simp add: u32_def)

lemma u32_mult_add: "u32 (u32 a * b + c) = u32 (a * b + c)"
proof -
  have "(a mod 4294967296 * b + c) mod 4294967296 = ((a * b) mod 4294967296 + c) mod 4294967296"
    by (metis mod_add_left_eq mod_mult_left_eq)
  then show ?thesis by (simp add: u32_def mod_add_left_eq)
qed

text \<open>Shifting in new low bits adds them.\<close>

lemma push_bit_or_low: "(d::nat) < 2 ^ n \<Longrightarrow> or (push_bit n v) d = v * 2 ^ n + d"
proof -
  assume "d < 2 ^ n"
  then have "take_bit n d = d" by (simp add: take_bit_nat_eq_self)
  then have "and (push_bit n v) d = 0"
    by (metis bit_and_iff bit_push_bit_iff_nat bit_take_bit_iff bit_eqI linorder_not_less bit_0_eq
        bot_apply bot_bool_def)
  then have "push_bit n v + d = or (push_bit n v) d" by (rule disjunctive_add_eq_or)
  then show ?thesis by (simp add: push_bit_eq_mult)
qed

text \<open>Conversion of an \<open>unsigned int\<close> difference to \<open>int\<close>.\<close>

definition sint32 :: "int \<Rightarrow> int" where
  "sint32 v = (v + 2147483648) mod 4294967296 - 2147483648"

lemma sint32_small [simp]: "-2147483648 \<le> v \<Longrightarrow> v < 2147483648 \<Longrightarrow> sint32 v = v"
  by (simp add: sint32_def)

section \<open>Bytes\<close>

abbreviation NUL :: char where "NUL \<equiv> CHR 0x00"
abbreviation LF :: char where "LF \<equiv> CHR 0x0A"
abbreviation CR :: char where "CR \<equiv> CHR 0x0D"

text \<open>The value of a byte; \<open>char\<close> is unsigned on the target.\<close>

abbreviation ord :: "char \<Rightarrow> nat" where "ord c \<equiv> of_char c"

text \<open>What a C function sees of a buffer that it treats as a NUL-terminated string.\<close>

definition cstr :: "string \<Rightarrow> string" where
  "cstr s = takeWhile (\<lambda>c. c \<noteq> NUL) s"

lemma cstr_no_NUL [simp]: "NUL \<notin> set s \<Longrightarrow> cstr s = s"
  unfolding cstr_def by (rule takeWhile_eq_all_conv [THEN iffD2]) auto

lemma cstr_Nil [simp]: "cstr [] = []"
  by (simp add: cstr_def)

lemma cstr_NUL_free [simp]: "NUL \<notin> set (cstr s)"
  by (auto simp: cstr_def dest: set_takeWhileD)

lemma length_cstr_le [simp]: "length (cstr s) \<le> length s"
  by (simp add: cstr_def length_takeWhile_le)

section \<open>Collections of the development\<close>

named_theorems str_spec \<open>what a string operation computes on the text it holds\<close>
named_theorems fault_simps \<open>equations for the ways a call ends\<close>

declare rbind_eq_Inr [fault_simps] rbind_eq_Inl [fault_simps]

section \<open>Lists\<close>

lemma take_list_update_splice:
  "take i xs @ ys @ drop (i + length ys) xs = zs \<Longrightarrow> i + length ys \<le> length xs \<Longrightarrow>
   length zs = length xs"
  by auto

lemma map_the_Some: "None \<notin> set xs \<Longrightarrow> map Some (map the xs) = xs"
  by (induction xs) auto

lemma map_the_eq: "None \<notin> set xs \<Longrightarrow> xs = map Some ys \<longleftrightarrow> map the xs = ys"
  by (metis map_the_Some map_map map_idI comp_apply option.sel)

lemma list_all_take: "list_all P xs \<Longrightarrow> list_all P (take n xs)"
  by (auto simp: list_all_iff dest: in_set_takeD)

lemma take_eq_prefix_iff: "length p \<le> length s \<Longrightarrow> take (length p) s = p \<longleftrightarrow> prefix p s"
  by (metis append_take_drop_id prefixI append_eq_conv_conj prefix_def)

end
