(* ===== verification/Sysutil.thy ===== *)
theory Sysutil
  imports Prelude
begin

text \<open>
  The helpers of \<^verbatim>\<open>apps/vsftpd-2.2.0/sysutil.c\<close> that the rest of the server calls: guarded
  allocation and copying, character classes, number parsing and printing, and the read and write
  loops over a file descriptor. The C library is taken in the \<open>C\<close> locale; \<open>atoi\<close> saturates at the
  ends of \<open>long\<close>, which has 32 bits on the target.

  A buffer is a list of cells. A cell is \<open>None\<close> until something is stored in it, so reading memory
  fresh from \<open>malloc\<close> is an \<open>Overrun\<close>. A pointer into a buffer is the buffer and an offset; the
  null pointer has no buffer. Exhaustion of memory, which ends the process by \<open>die()\<close>, is
  left out: \<open>malloc\<close> and \<open>realloc\<close> succeed here.
\<close>

section \<open>Memory\<close>

type_synonym cell = "char option"
type_synonym mem = "cell list option"
type_synonym ptr = "mem \<times> nat"

text \<open>A constant C string, with its terminator.\<close>

definition text_ptr :: "string \<Rightarrow> ptr" where
  "text_ptr t = (Some (map Some t @ [Some NUL]), 0)"

definition null_ptr :: ptr where
  "null_ptr = (None, 0)"

definition vsf_sysutil_malloc :: "nat \<Rightarrow> cell list res" where
  "vsf_sysutil_malloc sz =
     (if sz = 0 \<or> sz > INT_MAX
      then Inl (Bug ''zero or big size in vsf_sysutil_malloc'')
      else Inr (replicate sz None))"

text \<open>\<open>realloc\<close> keeps the common prefix; a null pointer makes it \<open>malloc\<close>.\<close>

definition vsf_sysutil_realloc :: "mem \<Rightarrow> nat \<Rightarrow> cell list res" where
  "vsf_sysutil_realloc p sz =
     (if sz = 0 \<or> sz > INT_MAX
      then Inl (Bug ''zero or big size in vsf_sysutil_realloc'')
      else (case p of
              None \<Rightarrow> Inr (replicate sz None)
            | Some bs \<Rightarrow> Inr (take sz bs @ replicate (sz - length bs) None)))"

definition vsf_sysutil_free :: "mem \<Rightarrow> unit res" where
  "vsf_sysutil_free p =
     (case p of None \<Rightarrow> Inl (Bug ''vsf_sysutil_free got a null pointer'') | Some _ \<Rightarrow> Inr ())"

text \<open>Reading \<open>n\<close> bytes at a pointer, and storing bytes at an offset of a buffer.\<close>

definition mem_read :: "ptr \<Rightarrow> nat \<Rightarrow> string res" where
  "mem_read p n =
     (case p of
        (None, off) \<Rightarrow> Inl Overrun
      | (Some bs, off) \<Rightarrow>
          if off + n \<le> length bs \<and> None \<notin> set (take n (drop off bs))
          then Inr (map the (take n (drop off bs)))
          else Inl Overrun)"

definition mem_write :: "mem \<Rightarrow> nat \<Rightarrow> string \<Rightarrow> mem res" where
  "mem_write p off t =
     (case p of
        None \<Rightarrow> Inl Overrun
      | Some bs \<Rightarrow>
          if off + length t \<le> length bs
          then Inr (Some (take off bs @ map Some t @ drop (off + length t) bs))
          else Inl Overrun)"

definition vsf_sysutil_memcpy :: "mem \<Rightarrow> nat \<Rightarrow> ptr \<Rightarrow> nat \<Rightarrow> mem res" where
  "vsf_sysutil_memcpy dest doff src sz =
     (if sz = 0 then Inr dest
      else if sz > INT_MAX then Inl (Die ''possible negative value to memcpy?'')
      else rbind (mem_read src sz) (mem_write dest doff))"

definition vsf_sysutil_memclr :: "mem \<Rightarrow> nat \<Rightarrow> mem res" where
  "vsf_sysutil_memclr dest sz =
     (if sz = 0 then Inr dest else mem_write dest 0 (replicate sz NUL))"

text \<open>
  \<open>memcmp\<close> compares bytes as unsigned; only the sign of its result is specified, and the source
  uses no more.
\<close>

fun memcmp_bytes :: "string \<Rightarrow> string \<Rightarrow> int" where
  "memcmp_bytes (a # as) (b # bs) =
     (if ord a = ord b then memcmp_bytes as bs else if ord a < ord b then -1 else 1)"
| "memcmp_bytes _ _ = 0"

definition vsf_sysutil_memcmp :: "ptr \<Rightarrow> ptr \<Rightarrow> nat \<Rightarrow> int res" where
  "vsf_sysutil_memcmp p q sz =
     (if sz = 0 then Inr 0
      else rbind (mem_read p sz) (\<lambda>s. rbind (mem_read q sz) (\<lambda>t. Inr (memcmp_bytes s t))))"

definition vsf_sysutil_strlen :: "string \<Rightarrow> nat res" where
  "vsf_sysutil_strlen t =
     (let ret = u32 (length t)
      in if ret > INT_MAX div 8 then Inl (Die ''string suspiciously long'') else Inr ret)"

definition vsf_sysutil_strdup :: "string \<Rightarrow> string" where
  "vsf_sysutil_strdup t = t"

section \<open>Characters\<close>

definition vsf_sysutil_toupper :: "char \<Rightarrow> char" where
  "vsf_sysutil_toupper c =
     (if 97 \<le> ord c \<and> ord c \<le> 122 then char_of (ord c - 32) else c)"

definition vsf_sysutil_isspace :: "char \<Rightarrow> bool" where
  "vsf_sysutil_isspace c \<longleftrightarrow> ord c = 32 \<or> 9 \<le> ord c \<and> ord c \<le> 13"

text \<open>
  The three tests before the call of \<open>isprint\<close> are the source's own; \<open>177\<close> is decimal there.
\<close>

definition vsf_sysutil_isprint :: "char \<Rightarrow> bool" where
  "vsf_sysutil_isprint c \<longleftrightarrow>
     (if ord c \<le> 31 then False
      else if ord c = 177 then False
      else if 128 \<le> ord c \<and> ord c \<le> 159 then False
      else 32 \<le> ord c \<and> ord c \<le> 126)"

definition vsf_sysutil_isdigit :: "char \<Rightarrow> bool" where
  "vsf_sysutil_isdigit c \<longleftrightarrow> 48 \<le> ord c \<and> ord c \<le> 57"

definition vsf_sysutil_isalnum :: "char \<Rightarrow> bool" where
  "vsf_sysutil_isalnum c \<longleftrightarrow>
     vsf_sysutil_isdigit c \<or>
     65 \<le> ord c \<and> ord c \<le> 90 \<or> 97 \<le> ord c \<and> ord c \<le> 122"

definition digit_val :: "char \<Rightarrow> nat" where
  "digit_val c = ord c - 48"

section \<open>Numbers\<close>

text \<open>The digits \<open>printf\<close> writes in a base up to ten.\<close>

fun base_str :: "nat \<Rightarrow> nat \<Rightarrow> string" where
  "base_str b n =
     (if b < 2 \<or> n < b then [char_of (48 + n)] else base_str b (n div b) @ [char_of (48 + n mod b)])"

declare base_str.simps [simp del]

text \<open>Value of a string of digits, most significant first.\<close>

definition base_val :: "nat \<Rightarrow> string \<Rightarrow> nat" where
  "base_val b s = foldl (\<lambda>v c. v * b + digit_val c) 0 s"

text \<open>\<open>atoi\<close> of the C library: white space, a sign, digits; saturating.\<close>

definition clamp_long :: "int \<Rightarrow> int" where
  "clamp_long v = max (-2147483648) (min 2147483647 v)"

definition vsf_sysutil_atoi :: "string \<Rightarrow> int" where
  "vsf_sysutil_atoi s =
     (let t = dropWhile vsf_sysutil_isspace s in
      case t of
        [] \<Rightarrow> 0
      | c # u \<Rightarrow>
          if c = CHR ''-'' then clamp_long (- int (base_val 10 (takeWhile vsf_sysutil_isdigit u)))
          else if c = CHR ''+'' then clamp_long (int (base_val 10 (takeWhile vsf_sysutil_isdigit u)))
          else clamp_long (int (base_val 10 (takeWhile vsf_sysutil_isdigit t))))"

text \<open>
  The loop of \<open>vsf_sysutil_a_to_filesize_t\<close>: from the last character to the first, with a growing
  multiplier. It is run on the reversed string.
\<close>

fun a_to_filesize_loop :: "string \<Rightarrow> int \<Rightarrow> int \<Rightarrow> int" where
  "a_to_filesize_loop [] result mult = result"
| "a_to_filesize_loop (c # cs) result mult =
     (if ord c < 48 \<or> ord c > 57 then 0
      else a_to_filesize_loop cs (result + int (digit_val c) * mult) (mult * 10))"

definition vsf_sysutil_a_to_filesize_t :: "string \<Rightarrow> int res" where
  "vsf_sysutil_a_to_filesize_t s =
     rbind (vsf_sysutil_strlen s) (\<lambda>len.
       if len > 15 then Inr 0 else Inr (a_to_filesize_loop (rev s) 0 1))"

definition vsf_sysutil_ulong_to_str :: "nat \<Rightarrow> string" where
  "vsf_sysutil_ulong_to_str n = base_str 10 n"

definition vsf_sysutil_filesize_t_to_str :: "int \<Rightarrow> string" where
  "vsf_sysutil_filesize_t_to_str v =
     (if v < 0 then CHR ''-'' # base_str 10 (nat (- v)) else base_str 10 (nat v))"

definition vsf_sysutil_uint_to_octal :: "nat \<Rightarrow> string" where
  "vsf_sysutil_uint_to_octal n = (if n = 0 then ''0'' else CHR ''0'' # base_str 8 n)"

fun octal_loop :: "string \<Rightarrow> bool \<Rightarrow> nat \<Rightarrow> nat" where
  "octal_loop [] seen_non_zero_digit result = result"
| "octal_loop (c # cs) seen_non_zero_digit result =
     (if \<not> vsf_sysutil_isdigit c \<or> ord c > 55 then result
      else
        let seen = (if c \<noteq> CHR ''0'' then True else seen_non_zero_digit) in
        octal_loop cs seen (if seen then u32 (u32 (result * 8) + digit_val c) else result))"

definition vsf_sysutil_octal_to_uint :: "string \<Rightarrow> nat" where
  "vsf_sysutil_octal_to_uint s = octal_loop s False 0"

section \<open>Facts about numbers\<close>

lemma base_val_Nil [simp]: "base_val b [] = 0"
  by (simp add: base_val_def)

lemma base_val_snoc [simp]: "base_val b (s @ [c]) = base_val b s * b + digit_val c"
  by (simp add: base_val_def)

lemma ord_digit [simp]: "d < 10 \<Longrightarrow> ord (char_of (48 + d)) = 48 + d"
  by (simp add: of_char_of)

lemma digit_val_digit [simp]: "d < 10 \<Longrightarrow> digit_val (char_of (48 + d)) = d"
  by (simp add: digit_val_def)

lemma base_val_base_str:
  "2 \<le> b \<Longrightarrow> b \<le> 10 \<Longrightarrow> base_val b (base_str b n) = n"
proof (induction b n rule: base_str.induct)
  case (1 b n)
  show ?case
  proof (cases "n < b")
    case True
    then show ?thesis using "1.prems" base_val_snoc [of b "[]" "char_of (48 + n)"]
      by (simp add: base_str.simps [of b n])
  next
    case False
    then have "base_val b (base_str b (n div b)) = n div b" using 1 by simp
    moreover have "n mod b < 10" using "1.prems" mod_less_divisor [of b n] by linarith
    ultimately show ?thesis using False "1.prems" by (simp add: base_str.simps [of b n])
  qed
qed

text \<open>Every character written is a digit below the base.\<close>

lemma base_str_digits:
  "2 \<le> b \<Longrightarrow> b \<le> 10 \<Longrightarrow> c \<in> set (base_str b n) \<Longrightarrow> 48 \<le> ord c \<and> ord c < 48 + b"
proof (induction b n rule: base_str.induct)
  case (1 b n)
  have m: "n mod b < b" using "1.prems" by simp
  then have m10: "n mod b < 10" using "1.prems" by linarith
  show ?case
  proof (cases "n < b")
    case True
    then show ?thesis using "1.prems" by (auto simp: base_str.simps [of b n])
  next
    case False
    then have "c \<in> set (base_str b (n div b)) \<or> c = char_of (48 + n mod b)"
      using "1.prems" by (auto simp: base_str.simps [of b n])
    then show ?thesis using 1 False m m10 by auto
  qed
qed

lemma base_str_nonempty [simp]: "base_str b n \<noteq> []"
  by (subst base_str.simps) simp

text \<open>No leading zero, except for zero itself.\<close>

lemma base_str_hd: "2 \<le> b \<Longrightarrow> b \<le> 10 \<Longrightarrow> 0 < n \<Longrightarrow> hd (base_str b n) \<noteq> CHR ''0''"
proof (induction b n rule: base_str.induct)
  case (1 b n)
  show ?case
  proof (cases "n < b")
    case True
    then have "ord (char_of (48 + n)) \<noteq> ord (CHR ''0'')" using "1.prems" by simp
    then have "char_of (48 + n) \<noteq> CHR ''0''" by metis
    then show ?thesis using True by (simp add: base_str.simps [of b n])
  next
    case False
    then have "hd (base_str b (n div b)) \<noteq> CHR ''0''"
      using 1 by (simp add: div_greater_zero_iff)
    then show ?thesis using False "1.prems" by (simp add: base_str.simps [of b n])
  qed
qed

lemma length_base_str: "2 \<le> b \<Longrightarrow> 0 < k \<Longrightarrow> n < b ^ k \<Longrightarrow> length (base_str b n) \<le> k"
proof (induction k arbitrary: n)
  case (Suc k)
  show ?case
  proof (cases "n < b \<or> k = 0")
    case True
    then have "n < b" using Suc.prems by auto
    then show ?thesis by (simp add: base_str.simps [of b n])
  next
    case False
    then have "n div b < b ^ k" using Suc.prems by (simp add: less_mult_imp_div_less mult.commute)
    then have "length (base_str b (n div b)) \<le> k" using Suc False by simp
    then show ?thesis using False Suc.prems by (simp add: base_str.simps [of b n])
  qed
qed simp

abbreviation all_digits :: "string \<Rightarrow> bool" where
  "all_digits s \<equiv> list_all vsf_sysutil_isdigit s"

lemma all_digits_base_str: "2 \<le> b \<Longrightarrow> b \<le> 10 \<Longrightarrow> all_digits (base_str b n)"
  by (fastforce simp: list_all_iff vsf_sysutil_isdigit_def dest: base_str_digits)

text \<open>The loop from the right computes the value read from the left.\<close>

lemma a_to_filesize_loop_val:
  "all_digits s \<Longrightarrow> a_to_filesize_loop (rev s) r m = r + m * int (base_val 10 s)"
proof (induction s arbitrary: r m rule: rev_induct)
  case (snoc c s)
  then show ?case by (simp add: vsf_sysutil_isdigit_def algebra_simps)
qed simp

lemma a_to_filesize_loop_bad:
  "\<not> all_digits s \<Longrightarrow> a_to_filesize_loop (rev s) r m = 0"
  by (induction s arbitrary: r m rule: rev_induct) (auto simp: vsf_sysutil_isdigit_def)

lemma base_val_bound: "all_digits s \<Longrightarrow> base_val 10 s < 10 ^ length s"
proof (induction s rule: rev_induct)
  case (snoc c s)
  then have "base_val 10 s + 1 \<le> 10 ^ length s" and "digit_val c \<le> 9"
    by (auto simp: vsf_sysutil_isdigit_def digit_val_def)
  then show ?case by simp
qed simp

lemma foldl_base: "foldl (\<lambda>v c. v * b + digit_val c) v s = v * b ^ length s + base_val b s"
proof (induction s arbitrary: v)
  case (Cons c s)
  have "base_val b (c # s) = digit_val c * b ^ length s + base_val b s"
    using Cons [of "digit_val c"] by (simp add: base_val_def)
  then show ?case using Cons [of "v * b + digit_val c"] by (simp add: algebra_simps)
qed simp

lemma base_val_Cons: "base_val b (c # s) = digit_val c * b ^ length s + base_val b s"
  using foldl_base [of b "digit_val c" s] by (simp add: base_val_def)

abbreviation is_octal :: "char \<Rightarrow> bool" where
  "is_octal c \<equiv> vsf_sysutil_isdigit c \<and> ord c \<le> 55"

lemma octal_loop_val:
  "seen \<or> r = 0 \<Longrightarrow> r < 4294967296 \<Longrightarrow>
   octal_loop s seen r =
     u32 (r * 8 ^ length (takeWhile is_octal s) + base_val 8 (takeWhile is_octal s))"
proof (induction s arbitrary: seen r)
  case (Cons c s)
  show ?case
  proof (cases "is_octal c")
    case True
    let ?seen = "if c \<noteq> CHR ''0'' then True else seen"
    let ?r = "if ?seen then u32 (u32 (r * 8) + digit_val c) else r"
    let ?t = "takeWhile is_octal s"
    have r: "?r = u32 (r * 8 + digit_val c)"
      using Cons.prems by (auto simp: u32_def mod_add_left_eq digit_val_def)
    have s1: "?seen \<or> ?r = 0" using Cons.prems by auto
    have s2: "?r < 4294967296" unfolding r by simp
    have "octal_loop (c # s) seen r = octal_loop s ?seen ?r"
      using True by (simp add: Let_def not_le)
    also have "\<dots> = u32 (?r * 8 ^ length ?t + base_val 8 ?t)"
      by (rule Cons.IH [OF s1 s2])
    also have "\<dots> = u32 ((r * 8 + digit_val c) * 8 ^ length ?t + base_val 8 ?t)"
      unfolding r by (rule u32_mult_add)
    also have "\<dots> = u32 (r * 8 ^ length (takeWhile is_octal (c # s))
                         + base_val 8 (takeWhile is_octal (c # s)))"
      using True by (simp add: base_val_Cons algebra_simps)
    finally show ?thesis .
  next
    case False
    then have f: "\<not> vsf_sysutil_isdigit c \<or> 55 < ord c" by auto
    then have "octal_loop (c # s) seen r = r" by auto
    moreover have "takeWhile is_octal (c # s) = []" using f by auto
    ultimately show ?thesis using Cons.prems by simp
  qed
qed simp

text \<open>
  \<open>vsf_sysutil_octal_to_uint\<close> returns, for every string, the value of its longest prefix of
  octal digits, reduced modulo \<open>2 ^ 32\<close>: leading zeros are skipped, the scan stops at the first
  other character, and a value too large for \<open>unsigned int\<close> wraps around.
\<close>

theorem octal_to_uint_value:
  "vsf_sysutil_octal_to_uint s = base_val 8 (takeWhile is_octal s) mod 4294967296"
  unfolding vsf_sysutil_octal_to_uint_def
  by (subst octal_loop_val) (auto simp: u32_def)

lemma takeWhile_all_digits: "all_digits s \<Longrightarrow> takeWhile vsf_sysutil_isdigit s = s"
  by (auto simp: list_all_iff takeWhile_eq_all_conv)

lemma takeWhile_octal_base_str: "takeWhile is_octal (base_str 8 n) = base_str 8 n"
  by (auto simp: takeWhile_eq_all_conv vsf_sysutil_isdigit_def dest!: base_str_digits [rotated 2])

lemma octal_octal:
  assumes "n < 4294967296"
  shows "vsf_sysutil_octal_to_uint (vsf_sysutil_uint_to_octal n) = n"
proof -
  have "takeWhile is_octal (vsf_sysutil_uint_to_octal n) = vsf_sysutil_uint_to_octal n"
    using takeWhile_octal_base_str [of n]
    by (simp add: vsf_sysutil_uint_to_octal_def vsf_sysutil_isdigit_def)
  moreover have "base_val 8 (vsf_sysutil_uint_to_octal n) = n"
    by (simp add: vsf_sysutil_uint_to_octal_def base_val_Cons base_val_base_str digit_val_def)
  ultimately have "u32 (base_val 8 (takeWhile is_octal (vsf_sysutil_uint_to_octal n))) = n"
    using assms by (simp only: u32_small)
  then show ?thesis by (simp add: vsf_sysutil_octal_to_uint_def octal_loop_val)
qed

text \<open>
  An \<open>unsigned int\<close> printed by \<open>vsf_sysutil_uint_to_octal\<close> (file modes and umasks in the log
  and in replies) is read back unchanged by \<open>vsf_sysutil_octal_to_uint\<close>.
\<close>

theorem octal_roundtrip:
  assumes "n < 4294967296"
  shows "vsf_sysutil_octal_to_uint (vsf_sysutil_uint_to_octal n) = n"
  by (rule octal_octal [OF assms])

lemma strlen_ok: "length s \<le> INT_MAX div 8 \<Longrightarrow> vsf_sysutil_strlen s = Inr (length s)"
  by (simp add: vsf_sysutil_strlen_def INT_MAX_def)



lemma atoi_decimal:
  assumes "n \<le> INT_MAX"
  shows "vsf_sysutil_atoi (vsf_sysutil_ulong_to_str n) = int n"
proof -
  have d: "all_digits (base_str 10 k)" for k by (simp add: all_digits_base_str)
  obtain c t where ct: "base_str 10 n = c # t" by (cases "base_str 10 n") auto
  have "vsf_sysutil_isdigit c" using d [of n] ct by simp
  then have "\<not> vsf_sysutil_isspace c" and "c \<noteq> CHR ''-''" and "c \<noteq> CHR ''+''"
    by (auto simp: vsf_sysutil_isdigit_def vsf_sysutil_isspace_def)
  moreover have "takeWhile vsf_sysutil_isdigit (c # t) = c # t"
    using d [of n] ct takeWhile_all_digits by metis
  moreover have "base_val 10 (c # t) = n" using base_val_base_str [of 10 n] ct by simp
  ultimately show ?thesis
    using assms
    by (simp add: vsf_sysutil_ulong_to_str_def vsf_sysutil_atoi_def ct clamp_long_def INT_MAX_def
        Let_def)
qed

text \<open>
  A number printed in decimal by \<open>vsf_sysutil_ulong_to_str\<close> is read back by
  \<open>vsf_sysutil_atoi\<close>, and a file size printed by \<open>vsf_sysutil_filesize_t_to_str\<close> is read back by
  \<open>vsf_sysutil_a_to_filesize_t\<close>, as long as the reader's range holds it.
\<close>

theorem decimal_roundtrip:
  assumes "n \<le> INT_MAX" and "m < 10 ^ 15"
  shows "vsf_sysutil_atoi (vsf_sysutil_ulong_to_str n) = int n \<and>
         vsf_sysutil_a_to_filesize_t (vsf_sysutil_filesize_t_to_str (int m)) = Inr (int m)"
proof
  show "vsf_sysutil_atoi (vsf_sysutil_ulong_to_str n) = int n" by (rule atoi_decimal [OF assms(1)])
  have d: "all_digits (base_str 10 k)" for k by (simp add: all_digits_base_str)
  have "length (base_str 10 m) \<le> 15" using length_base_str [of 10 15 m] assms(2) by simp
  then show "vsf_sysutil_a_to_filesize_t (vsf_sysutil_filesize_t_to_str (int m)) = Inr (int m)"
    using d [of m]
    by (simp add: vsf_sysutil_a_to_filesize_t_def vsf_sysutil_filesize_t_to_str_def strlen_ok
        INT_MAX_def a_to_filesize_loop_val base_val_base_str)
qed

end
