(* ===== verification/Text.thy ===== *)
theory Text
  imports Sysutil
begin

text \<open>
  What the string operations of \<^verbatim>\<open>str.c\<close> mean, on plain lists of bytes: search, split,
  replacement, padding, lines. The theory \<open>Mystr\<close> proves that the buffer code computes exactly these
  functions, and the components above the string library are written over them.
\<close>

section \<open>Search\<close>

record str_locate_result =
  found :: bool
  index :: nat
  char_found :: char

definition not_found :: str_locate_result where
  "not_found = \<lparr>found = False, index = 0, char_found = NUL\<rparr>"

text \<open>First and last position of a non-empty text.\<close>

fun first_sub :: "string \<Rightarrow> string \<Rightarrow> nat option" where
  "first_sub t [] = None"
| "first_sub t (c # s) = (if prefix t (c # s) then Some 0 else map_option Suc (first_sub t s))"

fun last_sub :: "string \<Rightarrow> string \<Rightarrow> nat option" where
  "last_sub t [] = None"
| "last_sub t (c # s) =
     (case last_sub t s of
        Some i \<Rightarrow> Some (Suc i)
      | None \<Rightarrow> if prefix t (c # s) then Some 0 else None)"

definition located :: "nat option \<Rightarrow> str_locate_result" where
  "located r = (case r of None \<Rightarrow> not_found | Some i \<Rightarrow> not_found\<lparr>found := True, index := i\<rparr>)"

definition t_locate_text :: "string \<Rightarrow> string \<Rightarrow> str_locate_result" where
  "t_locate_text s t = located (if t = [] then None else first_sub t s)"

definition t_locate_text_reverse :: "string \<Rightarrow> string \<Rightarrow> str_locate_result" where
  "t_locate_text_reverse s t = located (if t = [] then None else last_sub t s)"

fun t_locate_chars_from :: "nat \<Rightarrow> string \<Rightarrow> string \<Rightarrow> str_locate_result" where
  "t_locate_chars_from i [] cs = not_found"
| "t_locate_chars_from i (c # s) cs =
     (if c \<in> set cs then \<lparr>found = True, index = i, char_found = c\<rparr>
      else t_locate_chars_from (Suc i) s cs)"

definition t_locate_chars :: "string \<Rightarrow> string \<Rightarrow> str_locate_result" where
  "t_locate_chars s cs = t_locate_chars_from 0 s cs"

text \<open>An occurrence of a text at a position.\<close>

definition occurs_at :: "string \<Rightarrow> string \<Rightarrow> nat \<Rightarrow> bool" where
  "occurs_at t s i \<longleftrightarrow> i + length t \<le> length s \<and> take (length t) (drop i s) = t"

lemma occurs_at_0: "occurs_at t s 0 \<longleftrightarrow> prefix t s"
  using take_eq_prefix_iff [of t s] prefix_length_le [of t s] by (auto simp: occurs_at_def)

lemma occurs_at_Suc: "occurs_at t (c # s) (Suc i) \<longleftrightarrow> occurs_at t s i"
  by (simp add: occurs_at_def)

lemma first_sub_Some_iff:
  assumes "t \<noteq> []"
  shows "first_sub t s = Some i \<longleftrightarrow> occurs_at t s i \<and> (\<forall>j < i. \<not> occurs_at t s j)"
proof (induction s arbitrary: i)
  case Nil
  then show ?case using assms by (simp add: occurs_at_def)
next
  case (Cons c s)
  show ?case
  proof (cases i)
    case 0
    then show ?thesis by (auto simp: occurs_at_0 split: if_splits)
  next
    case (Suc k)
    then show ?thesis using Cons [of k]
      by (auto simp: occurs_at_Suc occurs_at_0 less_Suc_eq_0_disj)
  qed
qed

lemma first_sub_None_iff:
  assumes "t \<noteq> []"
  shows "first_sub t s = None \<longleftrightarrow> (\<forall>i. \<not> occurs_at t s i)"
proof (induction s)
  case Nil
  then show ?case using assms by (simp add: occurs_at_def)
next
  case (Cons c s)
  have "(\<forall>i. \<not> occurs_at t (c # s) i) \<longleftrightarrow> \<not> prefix t (c # s) \<and> (\<forall>i. \<not> occurs_at t s i)"
    by (metis occurs_at_0 occurs_at_Suc not0_implies_Suc)
  then show ?case using Cons by auto
qed

lemma last_sub_None_iff:
  assumes "t \<noteq> []"
  shows "last_sub t s = None \<longleftrightarrow> (\<forall>i. \<not> occurs_at t s i)"
proof (induction s)
  case Nil
  then show ?case using assms by (simp add: occurs_at_def)
next
  case (Cons c s)
  have "(\<forall>i. \<not> occurs_at t (c # s) i) \<longleftrightarrow> \<not> prefix t (c # s) \<and> (\<forall>i. \<not> occurs_at t s i)"
    by (metis occurs_at_0 occurs_at_Suc not0_implies_Suc)
  then show ?case using Cons by (auto split: option.splits)
qed

lemma last_sub_Some_iff:
  assumes "t \<noteq> []"
  shows "last_sub t s = Some i \<longleftrightarrow> occurs_at t s i \<and> (\<forall>j > i. \<not> occurs_at t s j)"
proof (induction s arbitrary: i)
  case Nil
  then show ?case using assms by (simp add: occurs_at_def)
next
  case (Cons c s)
  have all: "(\<forall>j > i. \<not> occurs_at t (c # s) j) \<longleftrightarrow> (\<forall>j. i < Suc j \<longrightarrow> \<not> occurs_at t s j)"
    by (metis Suc_less_eq less_Suc_eq_0_disj not0_implies_Suc not_less0 occurs_at_Suc)
  show ?case
  proof (cases i)
    case 0
    then show ?thesis using all last_sub_None_iff [OF assms, of s]
      by (auto simp: occurs_at_0 split: option.splits)
  next
    case (Suc k)
    then show ?thesis using all Cons [of k]
      by (auto simp: occurs_at_Suc split: option.splits if_splits)
  qed
qed

lemma first_sub_bound: "t \<noteq> [] \<Longrightarrow> first_sub t s = Some i \<Longrightarrow> i + length t \<le> length s"
  by (simp add: first_sub_Some_iff occurs_at_def)

lemma last_sub_bound: "t \<noteq> [] \<Longrightarrow> last_sub t s = Some i \<Longrightarrow> i + length t \<le> length s"
  by (simp add: last_sub_Some_iff occurs_at_def)

text \<open>A text found at a position splits the string there.\<close>

lemma occurs_at_split: "occurs_at t s i \<Longrightarrow> s = take i s @ t @ drop (i + length t) s"
  by (metis append_take_drop_id drop_drop add.commute occurs_at_def)

lemma first_sub_char:
  "first_sub [c] s =
     (if c \<in> set s then Some (length (takeWhile (\<lambda>x. x \<noteq> c) s)) else None)"
  by (induction s) auto

section \<open>Splitting\<close>

text \<open>
  The left part and the right part around the first (last) occurrence; without an occurrence
  the source keeps the whole text on the left and empties the right.
\<close>

definition t_split_text :: "string \<Rightarrow> string \<Rightarrow> string \<times> string" where
  "t_split_text s t =
     (let r = t_locate_text s t
      in if found r then (take (index r) s, drop (index r + length t) s) else (s, []))"

definition t_split_text_reverse :: "string \<Rightarrow> string \<Rightarrow> string \<times> string" where
  "t_split_text_reverse s t =
     (let r = t_locate_text_reverse s t
      in if found r then (take (index r) s, drop (index r + length t) s) else (s, []))"

definition t_split_char :: "string \<Rightarrow> char \<Rightarrow> string \<times> string" where
  "t_split_char s c = t_split_text s [c]"

lemma found_located [simp]: "found (located r) \<longleftrightarrow> r \<noteq> None"
  by (cases r) (auto simp: located_def not_found_def)

lemma index_located [simp]: "index (located (Some i)) = i"
  by (simp add: located_def not_found_def)

lemma t_split_text_cases:
  assumes "t \<noteq> []"
  obtains (miss) "first_sub t s = None" "t_split_text s t = (s, [])"
  | (hit) i where "first_sub t s = Some i" "i + length t \<le> length s"
      "t_split_text s t = (take i s, drop (i + length t) s)"
proof (cases "first_sub t s")
  case None
  then show ?thesis using miss assms by (simp add: t_split_text_def t_locate_text_def Let_def)
next
  case (Some i)
  then show ?thesis using hit [of i] assms first_sub_bound
    by (simp add: t_split_text_def t_locate_text_def Let_def)
qed

lemma t_split_text_empty [simp]: "t_split_text s [] = (s, [])"
  by (simp add: t_split_text_def t_locate_text_def Let_def located_def not_found_def)

lemma t_split_char_eq:
  "t_split_char s c =
     (takeWhile (\<lambda>x. x \<noteq> c) s, if c \<in> set s then tl (dropWhile (\<lambda>x. x \<noteq> c) s) else [])"
proof -
  have d: "drop (Suc (length (takeWhile P s))) s = tl (dropWhile P s)" for P
    by (simp add: dropWhile_eq_drop tl_drop drop_Suc)
  have t: "take (length (takeWhile P s)) s = takeWhile P s" for P
    by (metis takeWhile_eq_take)
  have k: "s = takeWhile (\<lambda>x. x \<noteq> c) s" if "c \<notin> set s"
    by (rule sym) (use that in \<open>auto simp: takeWhile_eq_all_conv\<close>)
  show ?thesis
    using d t [of "\<lambda>x. x \<noteq> c"] k
    by (cases "c \<in> set s")
      (simp_all add: t_split_char_def t_split_text_def t_locate_text_def first_sub_char Let_def
        del: takeWhile_eq_all_conv)
qed

lemma length_split_rhs:
  "snd (t_split_text s t) \<noteq> [] \<Longrightarrow> length (snd (t_split_text s t)) < length s"
proof (cases "t = []")
  case False
  assume ne: "snd (t_split_text s t) \<noteq> []"
  from False have "0 < length t" by simp
  with False ne show ?thesis
    by (cases rule: t_split_text_cases [of t s, case_names miss hit])
      (auto intro!: diff_less)
qed simp

section \<open>Replacement and padding\<close>

function t_replace_text :: "string \<Rightarrow> string \<Rightarrow> string \<Rightarrow> string" where
  "t_replace_text from to s =
     (let (l, r) = t_split_text s from;
          head = l @ (if length l < length s then to else [])
      in if r = [] then head else head @ t_replace_text from to r)"
  by pat_completeness auto
termination
proof (relation "measure (\<lambda>(f, t, s). length s)")
  fix fr to s x l r
  assume "x = t_split_text s fr" "(l, r) = x" "r \<noteq> []"
  then show "((fr, to, r), fr, to, s) \<in> measure (\<lambda>(f, t, s). length s)"
    using length_split_rhs [of s fr] by (cases "t_split_text s fr") auto
qed simp

declare t_replace_text.simps [simp del]

text \<open>For a single character the loop replaces every occurrence.\<close>

lemma t_replace_text_char:
  "t_replace_text [c] to s = concat (map (\<lambda>x. if x = c then to else [x]) s)"
proof (induction "length s" arbitrary: s rule: less_induct)
  case less
  let ?f = "\<lambda>x. if x = c then to else [x]"
  have keep: "concat (map ?f xs) = xs" if "c \<notin> set xs" for xs
    using that by (induction xs) auto
  show ?case
  proof (cases "c \<in> set s")
    case False
    then have "t_split_text s [c] = (s, [])" using t_split_char_eq [of s c]
      by (auto simp: t_split_char_def takeWhile_eq_all_conv)
    then show ?thesis using False keep by (simp add: t_replace_text.simps [of "[c]" to s])
  next
    case True
    then obtain l r where s: "s = l @ c # r" and l: "c \<notin> set l"
      by (meson split_list_first)
    have sp: "t_split_text s [c] = (l, r)"
      using t_split_char_eq [of s c] l s by (auto simp: t_split_char_def takeWhile_append dropWhile_append)
    have "t_replace_text [c] to r = concat (map ?f r)" using less [of r] s by simp
    then have "t_replace_text [c] to s = l @ to @ concat (map ?f r)"
      using sp s by (subst t_replace_text.simps) (auto simp: Let_def)
    then show ?thesis using s l keep by simp
  qed
qed

definition t_replace_char :: "string \<Rightarrow> char \<Rightarrow> char \<Rightarrow> string" where
  "t_replace_char s from to = map (\<lambda>c. if c = from then to else c) s"

definition t_upper :: "string \<Rightarrow> string" where
  "t_upper s = map vsf_sysutil_toupper s"

definition t_rpad :: "string \<Rightarrow> nat \<Rightarrow> string" where
  "t_rpad s w = s @ replicate (w - length s) CHR '' ''"

definition t_lpad :: "string \<Rightarrow> nat \<Rightarrow> string" where
  "t_lpad s w = replicate (w - length s) CHR '' '' @ s"

section \<open>Lines\<close>

text \<open>
  \<open>str_getline\<close> keeps a position; the text from the position on determines what it does. The
  lines of a text end at a line feed or at the end, and a text that ends in a line feed has
  no further empty line.
\<close>

function t_lines :: "string \<Rightarrow> string list" where
  "t_lines s =
     (if s = [] then []
      else takeWhile (\<lambda>c. c \<noteq> LF) s # t_lines (drop 1 (dropWhile (\<lambda>c. c \<noteq> LF) s)))"
  by pat_completeness auto
termination
proof (relation "measure length")
  fix s :: string
  assume s: "s \<noteq> []"
  then have "0 < length s" by simp
  then have "length (dropWhile (\<lambda>c. c \<noteq> LF) s) - 1 < length s"
    using length_dropWhile_le [of "\<lambda>c. c \<noteq> LF" s] by linarith
  then show "(drop 1 (dropWhile (\<lambda>c. c \<noteq> LF) s), s) \<in> measure length" by simp
qed simp

declare t_lines.simps [simp del]

lemma t_lines_Nil [simp]: "t_lines [] = []"
  by (simp add: t_lines.simps)

text \<open>Text built from lines without line feeds has exactly those lines.\<close>

lemma t_lines_concat:
  "\<forall>l \<in> set ls. LF \<notin> set l \<Longrightarrow> t_lines (concat (map (\<lambda>l. l @ [LF]) ls)) = ls"
proof (induction ls)
  case (Cons l ls)
  have "takeWhile (\<lambda>c. c \<noteq> LF) (l @ LF # u) = l" and "dropWhile (\<lambda>c. c \<noteq> LF) (l @ LF # u) = LF # u"
    for u
    using Cons.prems by (auto simp: takeWhile_tail dropWhile_append3 intro!: takeWhile_append2)
  then show ?case using Cons by (simp add: t_lines.simps [of "l @ LF # u" for u])
qed simp

lemma t_lines_no_LF: "l \<in> set (t_lines s) \<Longrightarrow> LF \<notin> set l"
proof (induction s rule: t_lines.induct)
  case (1 s)
  then show ?case by (cases "s = []") (auto simp: t_lines.simps [of s] dest: set_takeWhileD)
qed

end
