(* ===== verification/Mystr.thy ===== *)
theory Mystr
  imports Text
begin

text \<open>
  The string library \<^verbatim>\<open>apps/vsftpd-2.2.0/str.c\<close>, buffer by buffer. A string owns a
  heap buffer of \<open>alloc_bytes\<close> bytes, of which \<open>len\<close> are text and one more is a NUL. Every function
  of the file is modelled with its guards, its unsigned arithmetic and its memory accesses; static
  scratch strings are passed in and returned. Two arguments of one call are taken to be different
  objects, as they are in every call of the server.

  The second half shows that each operation is safe and computes the function of theory \<open>Text\<close>.
\<close>

section \<open>State\<close>

record mystr =
  p_buf :: mem
  len :: nat
  alloc_bytes :: nat

definition INIT_MYSTR :: mystr where
  "INIT_MYSTR = \<lparr>p_buf = None, len = 0, alloc_bytes = 0\<rparr>"

section \<open>Allocation\<close>

definition s_setbuf :: "mystr \<Rightarrow> cell list \<Rightarrow> mystr res" where
  "s_setbuf s newbuf =
     (if p_buf s \<noteq> None then Inl (Bug ''p_buf not NULL when setting it'')
      else Inr (s\<lparr>p_buf := Some newbuf\<rparr>))"

definition str_free :: "mystr \<Rightarrow> mystr" where
  "str_free s = s\<lparr>p_buf := None, len := 0, alloc_bytes := 0\<rparr>"

definition private_str_alloc_memchunk :: "mystr \<Rightarrow> ptr \<Rightarrow> nat \<Rightarrow> mystr res" where
  "private_str_alloc_memchunk s src n =
     (let buf_needed = u32 (n + 1) in
      rbind
        (if buf_needed > alloc_bytes s
         then rbind (vsf_sysutil_malloc buf_needed) (\<lambda>b.
              rbind (s_setbuf (str_free s) b) (\<lambda>s'.
              Inr (s'\<lparr>alloc_bytes := buf_needed\<rparr>)))
         else Inr s) (\<lambda>s1.
      rbind (vsf_sysutil_memcpy (p_buf s1) 0 src n) (\<lambda>b1.
      rbind (mem_write b1 n [NUL]) (\<lambda>b2.
      Inr (s1\<lparr>p_buf := b2, len := n\<rparr>)))))"

definition private_str_append_memchunk :: "mystr \<Rightarrow> ptr \<Rightarrow> nat \<Rightarrow> mystr res" where
  "private_str_append_memchunk s src n =
     (let buf_needed = u32 (u32 (len s + n) + 1) in
      rbind
        (if buf_needed > alloc_bytes s
         then rbind (vsf_sysutil_realloc (p_buf s) buf_needed) (\<lambda>b.
              Inr (s\<lparr>p_buf := Some b, alloc_bytes := buf_needed\<rparr>))
         else Inr s) (\<lambda>s1.
      rbind (vsf_sysutil_memcpy (p_buf s1) (len s1) src n) (\<lambda>b1.
      rbind (mem_write b1 (u32 (len s1 + n)) [NUL]) (\<lambda>b2.
      Inr (s1\<lparr>p_buf := b2, len := u32 (len s1 + n)\<rparr>)))))"

definition str_alloc_text :: "mystr \<Rightarrow> string \<Rightarrow> mystr res" where
  "str_alloc_text s src =
     rbind (vsf_sysutil_strlen src) (private_str_alloc_memchunk s (text_ptr src))"

definition str_copy :: "mystr \<Rightarrow> mystr \<Rightarrow> mystr res" where
  "str_copy dest src = private_str_alloc_memchunk dest (p_buf src, 0) (len src)"

fun alt_term_len :: "cell list \<Rightarrow> char \<Rightarrow> nat res" where
  "alt_term_len [] term = Inl Overrun"
| "alt_term_len (None # cs) term = Inl Overrun"
| "alt_term_len (Some c # cs) term =
     (if c = term then Inr 0 else rbind (alt_term_len cs term) (\<lambda>n. Inr (Suc n)))"

definition str_alloc_alt_term :: "mystr \<Rightarrow> cell list \<Rightarrow> char \<Rightarrow> mystr res" where
  "str_alloc_alt_term s src term =
     rbind (alt_term_len src term) (\<lambda>n. private_str_alloc_memchunk s (Some src, 0) (u32 n))"

definition str_alloc_ulong :: "mystr \<Rightarrow> nat \<Rightarrow> mystr res" where
  "str_alloc_ulong s n = str_alloc_text s (vsf_sysutil_ulong_to_str n)"

definition str_alloc_filesize_t :: "mystr \<Rightarrow> int \<Rightarrow> mystr res" where
  "str_alloc_filesize_t s v = str_alloc_text s (vsf_sysutil_filesize_t_to_str v)"

definition str_trunc :: "mystr \<Rightarrow> nat \<Rightarrow> mystr res" where
  "str_trunc s trunc_len =
     (if trunc_len \<ge> alloc_bytes s
      then Inl (Bug ''trunc_len not smaller than alloc_bytes in str_trunc'')
      else rbind (mem_write (p_buf s) trunc_len [NUL]) (\<lambda>b.
           Inr (s\<lparr>p_buf := b, len := trunc_len\<rparr>)))"

definition str_getbuf :: "mystr \<Rightarrow> mystr res" where
  "str_getbuf s =
     (if p_buf s = None
      then if len s \<noteq> 0 \<or> alloc_bytes s \<noteq> 0
           then Inl (Bug ''p_buf NULL and len or alloc_bytes != 0 in str_getbuf'')
           else private_str_alloc_memchunk s null_ptr 0
      else Inr s)"

definition str_empty :: "mystr \<Rightarrow> mystr res" where
  "str_empty s = rbind (str_getbuf s) (\<lambda>s1. str_trunc s1 0)"

definition str_reserve :: "mystr \<Rightarrow> nat \<Rightarrow> mystr res" where
  "str_reserve s res_len =
     (let r = u32 (res_len + 1) in
      rbind
        (if r > alloc_bytes s
         then rbind (vsf_sysutil_realloc (p_buf s) r) (\<lambda>b.
              Inr (s\<lparr>p_buf := Some b, alloc_bytes := r\<rparr>))
         else Inr s) (\<lambda>s1.
      rbind (mem_write (p_buf s1) (u32 (r + 4294967295)) [NUL]) (\<lambda>b.
      Inr (s1\<lparr>p_buf := b\<rparr>))))"

definition str_isempty :: "mystr \<Rightarrow> bool" where
  "str_isempty s \<longleftrightarrow> len s = 0"

definition str_getlen :: "mystr \<Rightarrow> nat" where
  "str_getlen s = len s"

text \<open>The C string a caller sees through the pointer that \<open>str_getbuf\<close> returns.\<close>

definition mem_cstr :: "mem \<Rightarrow> string res" where
  "mem_cstr p =
     (case p of
        None \<Rightarrow> Inl Overrun
      | Some bs \<Rightarrow> rbind (alt_term_len bs NUL) (mem_read (Some bs, 0)))"

definition str_cstr :: "mystr \<Rightarrow> (mystr \<times> string) res" where
  "str_cstr s = rbind (str_getbuf s) (\<lambda>s1. rbind (mem_cstr (p_buf s1)) (\<lambda>t. Inr (s1, t)))"

definition str_strdup :: "mystr \<Rightarrow> (mystr \<times> string) res" where
  "str_strdup s = rbind (str_cstr s) (\<lambda>(s1, t). Inr (s1, vsf_sysutil_strdup t))"

section \<open>Comparison\<close>

definition str_equal_internal :: "ptr \<Rightarrow> nat \<Rightarrow> ptr \<Rightarrow> nat \<Rightarrow> int res" where
  "str_equal_internal buf1 buf1_len buf2 buf2_len =
     (let minlen = (if buf2_len < buf1_len then buf2_len else buf1_len) in
      rbind (vsf_sysutil_memcmp buf1 buf2 minlen) (\<lambda>retval.
        if retval \<noteq> 0 \<or> buf1_len = buf2_len then Inr retval
        else Inr (sint32 (int buf1_len - int buf2_len))))"

definition str_strcmp :: "mystr \<Rightarrow> mystr \<Rightarrow> int res" where
  "str_strcmp s1 s2 = str_equal_internal (p_buf s1, 0) (len s1) (p_buf s2, 0) (len s2)"

definition str_equal :: "mystr \<Rightarrow> mystr \<Rightarrow> bool res" where
  "str_equal s1 s2 = rbind (str_strcmp s1 s2) (\<lambda>r. Inr (r = 0))"

definition str_equal_text :: "mystr \<Rightarrow> string \<Rightarrow> bool res" where
  "str_equal_text s t =
     rbind (vsf_sysutil_strlen t) (\<lambda>cmplen.
     rbind (str_equal_internal (p_buf s, 0) (len s) (text_ptr t) cmplen) (\<lambda>r. Inr (r = 0)))"

section \<open>Appending, padding, replacing\<close>

definition str_append_str :: "mystr \<Rightarrow> mystr \<Rightarrow> mystr res" where
  "str_append_str s other = private_str_append_memchunk s (p_buf other, 0) (len other)"

definition str_append_text :: "mystr \<Rightarrow> string \<Rightarrow> mystr res" where
  "str_append_text s src =
     rbind (vsf_sysutil_strlen src) (private_str_append_memchunk s (text_ptr src))"

definition str_append_char :: "mystr \<Rightarrow> char \<Rightarrow> mystr res" where
  "str_append_char s c = private_str_append_memchunk s (Some [Some c], 0) 1"

definition str_append_ulong :: "mystr \<Rightarrow> nat \<Rightarrow> mystr res" where
  "str_append_ulong s n = str_append_text s (vsf_sysutil_ulong_to_str n)"

definition str_append_filesize_t :: "mystr \<Rightarrow> int \<Rightarrow> mystr res" where
  "str_append_filesize_t s v = str_append_text s (vsf_sysutil_filesize_t_to_str v)"

text \<open>The loops that rewrite a string in place, one byte at a time.\<close>

fun buf_map_loop :: "(char \<Rightarrow> char) \<Rightarrow> nat \<Rightarrow> nat \<Rightarrow> mystr \<Rightarrow> mystr res" where
  "buf_map_loop f 0 i s = Inr s"
| "buf_map_loop f (Suc k) i s =
     rbind (mem_read (p_buf s, i) 1) (\<lambda>t.
     rbind (mem_write (p_buf s) i (map f t)) (\<lambda>b.
     buf_map_loop f k (Suc i) (s\<lparr>p_buf := b\<rparr>)))"

definition str_upper :: "mystr \<Rightarrow> mystr res" where
  "str_upper s = buf_map_loop vsf_sysutil_toupper (len s) 0 s"

definition str_replace_char :: "mystr \<Rightarrow> char \<Rightarrow> char \<Rightarrow> mystr res" where
  "str_replace_char s from to = buf_map_loop (\<lambda>c. if c = from then to else c) (len s) 0 s"

definition str_replace_unprintable :: "mystr \<Rightarrow> char \<Rightarrow> mystr res" where
  "str_replace_unprintable s new_char =
     buf_map_loop (\<lambda>c. if \<not> vsf_sysutil_isprint c then new_char else c) (len s) 0 s"

definition str_rpad :: "mystr \<Rightarrow> nat \<Rightarrow> mystr res" where
  "str_rpad s min_width =
     (if len s \<ge> min_width then Inr s
      else rtimes (min_width - len s) (\<lambda>t. str_append_char t CHR '' '') s)"

definition str_lpad :: "mystr \<Rightarrow> mystr \<Rightarrow> nat \<Rightarrow> (mystr \<times> mystr) res" where
  "str_lpad s_tmp_str s min_width =
     (if len s \<ge> min_width then Inr (s_tmp_str, s)
      else
        rbind (str_empty s_tmp_str) (\<lambda>t0.
        rbind (rtimes (min_width - len s) (\<lambda>t. str_append_char t CHR '' '') t0) (\<lambda>t1.
        rbind (str_append_str t1 s) (\<lambda>t2.
        rbind (str_copy s t2) (\<lambda>s1. Inr (t2, s1))))))"

section \<open>Searching\<close>

text \<open>
  The first argument of \<open>locate_loop\<close> counts the positions still to try, so that it follows
  \<open>for (i = 0; i <= len - text_len; i++)\<close>; the reverse loop counts its index down.
\<close>

fun locate_loop :: "nat \<Rightarrow> nat \<Rightarrow> mystr \<Rightarrow> string \<Rightarrow> nat \<Rightarrow> str_locate_result res" where
  "locate_loop 0 i s t n = Inr not_found"
| "locate_loop (Suc k) i s t n =
     rbind (vsf_sysutil_memcmp (p_buf s, i) (text_ptr t) n) (\<lambda>r.
       if r = 0 then Inr (not_found\<lparr>found := True, index := i\<rparr>)
       else locate_loop k (Suc i) s t n)"

definition str_locate_text :: "mystr \<Rightarrow> string \<Rightarrow> str_locate_result res" where
  "str_locate_text s t =
     rbind (vsf_sysutil_strlen t) (\<lambda>text_len.
       if text_len = 0 \<or> text_len > len s then Inr not_found
       else locate_loop (len s - text_len + 1) 0 s t text_len)"

fun locate_rev_loop :: "nat \<Rightarrow> mystr \<Rightarrow> string \<Rightarrow> nat \<Rightarrow> str_locate_result res" where
  "locate_rev_loop 0 s t n =
     rbind (vsf_sysutil_memcmp (p_buf s, 0) (text_ptr t) n) (\<lambda>r.
       if r = 0 then Inr (not_found\<lparr>found := True, index := 0\<rparr>) else Inr not_found)"
| "locate_rev_loop (Suc i) s t n =
     rbind (vsf_sysutil_memcmp (p_buf s, Suc i) (text_ptr t) n) (\<lambda>r.
       if r = 0 then Inr (not_found\<lparr>found := True, index := Suc i\<rparr>)
       else locate_rev_loop i s t n)"

definition str_locate_text_reverse :: "mystr \<Rightarrow> string \<Rightarrow> str_locate_result res" where
  "str_locate_text_reverse s t =
     rbind (vsf_sysutil_strlen t) (\<lambda>text_len.
       if text_len = 0 \<or> text_len > len s then Inr not_found
       else locate_rev_loop (len s - text_len) s t text_len)"

text \<open>A two-byte C string made of a character; for the NUL character it is empty.\<close>

definition ministr :: "char \<Rightarrow> string" where
  "ministr c = cstr [c]"

definition str_locate_char :: "mystr \<Rightarrow> char \<Rightarrow> str_locate_result res" where
  "str_locate_char s look_char = str_locate_text s (ministr look_char)"

definition str_locate_str :: "mystr \<Rightarrow> mystr \<Rightarrow> (mystr \<times> str_locate_result) res" where
  "str_locate_str s look =
     rbind (str_cstr look) (\<lambda>(look1, t).
     rbind (str_locate_text s t) (\<lambda>r. Inr (look1, r)))"

definition str_locate_str_reverse :: "mystr \<Rightarrow> mystr \<Rightarrow> (mystr \<times> str_locate_result) res" where
  "str_locate_str_reverse s look =
     rbind (str_cstr look) (\<lambda>(look1, t).
     rbind (str_locate_text_reverse s t) (\<lambda>r. Inr (look1, r)))"

fun locate_chars_loop :: "nat \<Rightarrow> nat \<Rightarrow> mystr \<Rightarrow> string \<Rightarrow> str_locate_result res" where
  "locate_chars_loop 0 i s chars = Inr not_found"
| "locate_chars_loop (Suc k) i s chars =
     rbind (mem_read (p_buf s, i) 1) (\<lambda>t.
       case find (\<lambda>p. [p] = t) chars of
         Some p \<Rightarrow> Inr \<lparr>found = True, index = i, char_found = p\<rparr>
       | None \<Rightarrow> locate_chars_loop k (Suc i) s chars)"

definition str_locate_chars :: "mystr \<Rightarrow> string \<Rightarrow> str_locate_result res" where
  "str_locate_chars s chars =
     rbind (vsf_sysutil_strlen chars) (\<lambda>num_chars.
       locate_chars_loop (len s) 0 s (take num_chars chars))"

section \<open>Splitting\<close>

definition str_split_text_common ::
  "mystr \<Rightarrow> mystr \<Rightarrow> string \<Rightarrow> bool \<Rightarrow> (mystr \<times> mystr) res" where
  "str_split_text_common src rhs text is_reverse =
     rbind (vsf_sysutil_strlen text) (\<lambda>search_len.
     rbind (if is_reverse then str_locate_text_reverse src text else str_locate_text src text) (\<lambda>r.
       if \<not> found r then rbind (str_empty rhs) (\<lambda>rhs1. Inr (src, rhs1))
       else
         let indexx = index r in
         if u32 (indexx + search_len) > len src then Inl (Bug ''indexx invalid in str_split_text'')
         else
           rbind (private_str_alloc_memchunk rhs (p_buf src, indexx + search_len)
                    (len src - indexx - search_len)) (\<lambda>rhs1.
           rbind (str_trunc src indexx) (\<lambda>src1. Inr (src1, rhs1)))))"

definition str_split_text :: "mystr \<Rightarrow> mystr \<Rightarrow> string \<Rightarrow> (mystr \<times> mystr) res" where
  "str_split_text src rhs text = str_split_text_common src rhs text False"

definition str_split_text_reverse :: "mystr \<Rightarrow> mystr \<Rightarrow> string \<Rightarrow> (mystr \<times> mystr) res" where
  "str_split_text_reverse src rhs text = str_split_text_common src rhs text True"

definition str_split_char :: "mystr \<Rightarrow> mystr \<Rightarrow> char \<Rightarrow> (mystr \<times> mystr) res" where
  "str_split_char src rhs c = str_split_text src rhs (ministr c)"

definition str_split_char_reverse :: "mystr \<Rightarrow> mystr \<Rightarrow> char \<Rightarrow> (mystr \<times> mystr) res" where
  "str_split_char_reverse src rhs c = str_split_text_reverse src rhs (ministr c)"

text \<open>
  \<open>str_replace_text\<close> with its two static strings. The first argument of the loop grants rounds;
  \<open>len s + 1\<close> are enough because each round but the last consumes part of the text.
\<close>

fun replace_text_loop ::
  "nat \<Rightarrow> mystr \<times> mystr \<Rightarrow> mystr \<Rightarrow> string \<Rightarrow> string \<Rightarrow> ((mystr \<times> mystr) \<times> mystr) res" where
  "replace_text_loop 0 st s from to = Inl Hang"
| "replace_text_loop (Suc k) (lhs_chunk, rhs_chunk) s from to =
     (let lhs_len = str_getlen lhs_chunk in
      rbind (str_split_text lhs_chunk rhs_chunk from) (\<lambda>(lhs1, rhs1).
      rbind (str_append_str s lhs1) (\<lambda>s1.
      rbind (if str_getlen lhs1 < lhs_len then str_append_text s1 to else Inr s1) (\<lambda>s2.
      rbind (str_copy lhs1 rhs1) (\<lambda>lhs2.
        if \<not> str_isempty lhs2 then replace_text_loop k (lhs2, rhs1) s2 from to
        else Inr ((lhs2, rhs1), s2))))))"

definition str_replace_text ::
  "mystr \<times> mystr \<Rightarrow> mystr \<Rightarrow> string \<Rightarrow> string \<Rightarrow> ((mystr \<times> mystr) \<times> mystr) res" where
  "str_replace_text statics s from to =
     rbind (str_copy (fst statics) s) (\<lambda>lhs.
     replace_text_loop (len s + 1) (lhs, snd statics) (str_free s) from to)"

section \<open>Parts of a string\<close>

definition str_left :: "mystr \<Rightarrow> mystr \<Rightarrow> nat \<Rightarrow> mystr res" where
  "str_left s out chars =
     (if chars > len s then Inl (Bug ''chars invalid in str_left'')
      else private_str_alloc_memchunk out (p_buf s, 0) chars)"

definition str_right :: "mystr \<Rightarrow> mystr \<Rightarrow> nat \<Rightarrow> mystr res" where
  "str_right s out chars =
     (if chars > len s then Inl (Bug ''chars invalid in str_right'')
      else private_str_alloc_memchunk out (p_buf s, len s - chars) chars)"

definition str_mid_to_end :: "mystr \<Rightarrow> mystr \<Rightarrow> nat \<Rightarrow> mystr res" where
  "str_mid_to_end s out indexx =
     (if indexx > len s then Inl (Bug ''invalid indexx in str_mid_to_end'')
      else private_str_alloc_memchunk out (p_buf s, indexx) (len s - indexx))"

definition str_get_char_at :: "mystr \<Rightarrow> nat \<Rightarrow> char res" where
  "str_get_char_at s indexx =
     (if indexx \<ge> len s then Inl (Bug ''bad indexx in str_get_char_at'')
      else rbind (mem_read (p_buf s, indexx) 1) (\<lambda>t. Inr (hd t)))"

fun buf_exists_loop :: "(char \<Rightarrow> bool) \<Rightarrow> nat \<Rightarrow> nat \<Rightarrow> mystr \<Rightarrow> bool res" where
  "buf_exists_loop P 0 i s = Inr False"
| "buf_exists_loop P (Suc k) i s =
     rbind (mem_read (p_buf s, i) 1) (\<lambda>t.
       if list_ex P t then Inr True else buf_exists_loop P k (Suc i) s)"

definition str_contains_space :: "mystr \<Rightarrow> bool res" where
  "str_contains_space s = buf_exists_loop vsf_sysutil_isspace (len s) 0 s"

definition str_all_space :: "mystr \<Rightarrow> bool res" where
  "str_all_space s =
     rbind (buf_exists_loop (\<lambda>c. \<not> vsf_sysutil_isspace c) (len s) 0 s) (\<lambda>b. Inr (\<not> b))"

definition str_contains_unprintable :: "mystr \<Rightarrow> bool res" where
  "str_contains_unprintable s = buf_exists_loop (\<lambda>c. \<not> vsf_sysutil_isprint c) (len s) 0 s"

definition str_atoi :: "mystr \<Rightarrow> (mystr \<times> int) res" where
  "str_atoi s = rbind (str_cstr s) (\<lambda>(s1, t). Inr (s1, vsf_sysutil_atoi t))"

definition str_a_to_filesize_t :: "mystr \<Rightarrow> (mystr \<times> int) res" where
  "str_a_to_filesize_t s =
     rbind (str_cstr s) (\<lambda>(s1, t). rbind (vsf_sysutil_a_to_filesize_t t) (\<lambda>v. Inr (s1, v)))"

definition str_octal_to_uint :: "mystr \<Rightarrow> (mystr \<times> nat) res" where
  "str_octal_to_uint s = rbind (str_cstr s) (\<lambda>(s1, t). Inr (s1, vsf_sysutil_octal_to_uint t))"

section \<open>Lines\<close>

fun line_scan :: "nat \<Rightarrow> nat \<Rightarrow> mystr \<Rightarrow> nat res" where
  "line_scan 0 pos s = Inr pos"
| "line_scan (Suc k) pos s =
     rbind (mem_read (p_buf s, pos) 1) (\<lambda>t.
       if t \<noteq> [LF] then line_scan k (Suc pos) s else Inr pos)"

text \<open>Result, the source string, the line and the new position.\<close>

definition str_getline :: "mystr \<Rightarrow> mystr \<Rightarrow> nat \<Rightarrow> (bool \<times> mystr \<times> mystr \<times> nat) res" where
  "str_getline s line_str start_pos =
     (let buf_len = str_getlen s in
      rbind (str_getbuf s) (\<lambda>s1.
        if start_pos > buf_len then Inl (Bug ''p_pos out of range in str_getline'')
        else
          rbind (str_empty line_str) (\<lambda>line1.
            if start_pos = buf_len then Inr (False, s1, line1, start_pos)
            else
              rbind (line_scan (buf_len - start_pos) start_pos s1) (\<lambda>curr_pos.
              rbind (if curr_pos < buf_len
                     then rbind (mem_read (p_buf s1, curr_pos) 1) (\<lambda>t.
                          Inr (if t = [LF] then curr_pos + 1 else curr_pos))
                     else Inr curr_pos) (\<lambda>next_pos.
              rbind (private_str_alloc_memchunk line1 (p_buf s1, start_pos) (curr_pos - start_pos))
                (\<lambda>line2. Inr (True, s1, line2, next_pos)))))))"

fun contains_line_loop ::
  "nat \<Rightarrow> mystr \<Rightarrow> mystr \<Rightarrow> mystr \<Rightarrow> nat \<Rightarrow> (mystr \<times> mystr \<times> bool) res" where
  "contains_line_loop 0 s cur line_str pos = Inl Hang"
| "contains_line_loop (Suc k) s cur line_str pos =
     rbind (str_getline s cur pos) (\<lambda>(got, s1, curr1, pos1).
       if \<not> got then Inr (s1, curr1, False)
       else rbind (str_equal curr1 line_str) (\<lambda>e.
              if e then Inr (s1, curr1, True) else contains_line_loop k s1 curr1 line_str pos1))"

text \<open>The static \<open>s_curr_line_str\<close> is the first argument; the loop has at most \<open>len s + 1\<close> rounds.\<close>

definition str_contains_line :: "mystr \<Rightarrow> mystr \<Rightarrow> mystr \<Rightarrow> (mystr \<times> mystr \<times> bool) res" where
  "str_contains_line s_curr_line_str s line_str =
     contains_line_loop (len s + 1) s s_curr_line_str line_str 0"

end
