(* ===== verification/Mystr_Spec.thy ===== *)
theory Mystr_Spec
  imports Mystr
begin

text \<open>
  The string library is safe and does what theory \<open>Text\<close> says. \<open>mystr_ok\<close> is the invariant of a
  string object, \<open>val\<close> the text it holds, and \<open>holds r t\<close> says that a call ended normally with a
  well-formed string holding \<open>t\<close>.
\<close>

section \<open>Invariant and abstraction\<close>

definition mystr_ok :: "mystr \<Rightarrow> bool" where
  "mystr_ok s \<longleftrightarrow>
     (case p_buf s of
        None \<Rightarrow> len s = 0 \<and> alloc_bytes s = 0
      | Some bs \<Rightarrow>
          length bs = alloc_bytes s \<and> len s < alloc_bytes s \<and> alloc_bytes s \<le> INT_MAX \<and>
          None \<notin> set (take (len s) bs) \<and> bs ! len s = Some NUL)"

definition val :: "mystr \<Rightarrow> string" where
  "val s = (case p_buf s of None \<Rightarrow> [] | Some bs \<Rightarrow> map the (take (len s) bs))"

definition holds :: "mystr res \<Rightarrow> string \<Rightarrow> bool" where
  "holds r t \<longleftrightarrow> (case r of Inr s \<Rightarrow> mystr_ok s \<and> val s = t | Inl _ \<Rightarrow> False)"

lemma holdsI [intro]: "r = Inr s \<Longrightarrow> mystr_ok s \<Longrightarrow> val s = t \<Longrightarrow> holds r t"
  by (simp add: holds_def)

lemma holdsE [elim]:
  assumes "holds r t"
  obtains s where "r = Inr s" "mystr_ok s" "val s = t"
  using assms by (auto simp: holds_def split: sum.splits)

lemma holds_Inr [simp]: "holds (Inr s) t \<longleftrightarrow> mystr_ok s \<and> val s = t"
  by (simp add: holds_def)

lemma holds_Inl [simp]: "\<not> holds (Inl e) t"
  by (simp add: holds_def)

lemma holds_rbind:
  assumes "holds r t" and "\<And>s. mystr_ok s \<Longrightarrow> val s = t \<Longrightarrow> Q (f s)"
  shows "Q (rbind r f)"
  using assms(1) by (rule holdsE) (use assms(2) in auto)

text \<open>The two shapes of a well-formed string.\<close>

lemma mystr_ok_cases:
  assumes "mystr_ok s"
  obtains (null) "p_buf s = None" "len s = 0" "alloc_bytes s = 0" "val s = []"
  | (buf) rest where "p_buf s = Some (map Some (val s) @ Some NUL # rest)"
      "len s = length (val s)" "alloc_bytes s = length (val s) + 1 + length rest"
      "alloc_bytes s \<le> INT_MAX"
proof (cases "p_buf s")
  case None
  then show ?thesis using null assms by (simp add: mystr_ok_def val_def)
next
  case (Some bs)
  then have l: "len s < length bs" and h: "None \<notin> set (take (len s) bs)" "bs ! len s = Some NUL"
    and a: "length bs = alloc_bytes s" "alloc_bytes s \<le> INT_MAX"
    using assms by (auto simp: mystr_ok_def)
  have "bs = take (len s) bs @ bs ! len s # drop (Suc (len s)) bs"
    using l by (simp add: id_take_nth_drop)
  moreover have "map Some (val s) = take (len s) bs"
    using h(1) Some map_the_Some by (simp add: val_def)
  ultimately have "p_buf s = Some (map Some (val s) @ Some NUL # drop (Suc (len s)) bs)"
    using Some h(2) by simp
  moreover have v: "len s = length (val s)" using Some l by (simp add: val_def)
  moreover have "alloc_bytes s = length (val s) + 1 + length (drop (Suc (len s)) bs)"
    using a l v by simp
  ultimately show ?thesis using buf a by blast
qed

lemma mystr_ok_buf:
  assumes "mystr_ok s" and "p_buf s \<noteq> None"
  obtains rest where "p_buf s = Some (map Some (val s) @ Some NUL # rest)"
    "alloc_bytes s = length (val s) + 1 + length rest" "alloc_bytes s \<le> INT_MAX"
  using assms(1) by (cases rule: mystr_ok_cases) (use assms(2) that in auto)

lemma mystr_okI:
  assumes "p_buf s = Some (map Some t @ Some NUL # rest)" and "len s = length t"
    and "alloc_bytes s = length t + 1 + length rest" and "alloc_bytes s \<le> INT_MAX"
  shows "mystr_ok s \<and> val s = t"
proof -
  have "take (length t) (map Some t @ Some NUL # rest) = map Some t" by simp
  then show ?thesis using assms by (auto simp: mystr_ok_def val_def nth_append comp_def)
qed

lemma len_val [simp]: "mystr_ok s \<Longrightarrow> len s = length (val s)"
  by (erule mystr_ok_cases) auto

lemma val_bound: "mystr_ok s \<Longrightarrow> length (val s) < INT_MAX"
  by (erule mystr_ok_cases) (auto simp: INT_MAX_def)

lemma mystr_ok_INIT [simp]: "mystr_ok INIT_MYSTR"
  by (simp add: mystr_ok_def INIT_MYSTR_def)

lemma val_INIT [simp]: "val INIT_MYSTR = []"
  by (simp add: val_def INIT_MYSTR_def)

lemma str_free_ok [simp]: "mystr_ok (str_free s)" and val_str_free [simp]: "val (str_free s) = []"
  by (auto simp: mystr_ok_def val_def str_free_def)

lemma str_isempty_val: "mystr_ok s \<Longrightarrow> str_isempty s \<longleftrightarrow> val s = []"
  by (simp add: str_isempty_def)

section \<open>Memory\<close>

lemma mem_read_text [simp]:
  "off + n \<le> length t \<Longrightarrow> mem_read (Some (map Some t @ rest), off) n = Inr (take n (drop off t))"
proof -
  assume a: "off + n \<le> length t"
  have "take n (drop off (map Some t @ rest)) = map Some (take n (drop off t))"
    using a by (simp add: take_map drop_map)
  then show ?thesis using a by (auto simp: mem_read_def comp_def)
qed

lemma mem_read_text_ptr [simp]:
  "n \<le> length t \<Longrightarrow> mem_read (text_ptr t) n = Inr (take n t)"
  unfolding text_ptr_def using mem_read_text [of 0 n t "[Some NUL]"] by simp

text \<open>Reading inside the text of a well-formed string.\<close>

lemma mem_read_val:
  assumes "mystr_ok s" and "off + n \<le> length (val s)" and "0 < n"
  shows "mem_read (p_buf s, off) n = Inr (take n (drop off (val s)))"
  using assms by (auto elim!: mystr_ok_cases)

lemma mem_read_one:
  assumes "mystr_ok s" and "i < length (val s)"
  shows "mem_read (p_buf s, i) 1 = Inr [val s ! i]"
  using mem_read_val [OF assms(1), of i 1] assms(2) by (simp add: take_Suc hd_drop_conv_nth)

lemma mem_write_at:
  "length xs = off \<Longrightarrow> length ys = length t \<Longrightarrow>
   mem_write (Some (xs @ ys @ zs)) off t = Inr (Some (xs @ map Some t @ zs))"
  by (simp add: mem_write_def)

section \<open>The two primitives\<close>

text \<open>
  A source that may be read: \<open>readable src n t\<close> says that copying \<open>n\<close> bytes from \<open>src\<close> yields \<open>t\<close>;
  copying nothing reads nothing, so then any pointer will do.
\<close>

definition readable :: "ptr \<Rightarrow> nat \<Rightarrow> string \<Rightarrow> bool" where
  "readable src n t \<longleftrightarrow> length t = n \<and> (n = 0 \<or> mem_read src n = Inr t)"

lemma readable_zero [simp]: "readable src 0 []"
  by (simp add: readable_def)

lemma readable_text [simp]: "readable (text_ptr t) (length t) t"
  by (simp add: readable_def)

lemma readable_val:
  "mystr_ok s \<Longrightarrow> off + n \<le> length (val s) \<Longrightarrow> readable (p_buf s, off) n (take n (drop off (val s)))"
  by (cases "n = 0") (auto simp: readable_def mem_read_val)

lemma readable_all: "mystr_ok s \<Longrightarrow> readable (p_buf s, 0) (length (val s)) (val s)"
  using readable_val [of s 0 "length (val s)"] by simp

lemma memcpy_readable:
  assumes "readable src n t" and "n < INT_MAX" and "length xs = off" and "length ys = n"
  shows "vsf_sysutil_memcpy (Some (xs @ ys @ zs)) off src n = Inr (Some (xs @ map Some t @ zs))"
  using assms by (auto simp: vsf_sysutil_memcpy_def readable_def mem_write_at)

lemma alloc_memchunk_holds:
  assumes "mystr_ok s" and "readable src n t" and "n < INT_MAX"
  shows "holds (private_str_alloc_memchunk s src n) t"
proof -
  let ?need = "n + 1"
  have n: "u32 (n + 1) = n + 1" "n + 1 \<le> INT_MAX" using assms(3) by (auto simp: INT_MAX_def)
  define r1 where "r1 = (if u32 (n + 1) > alloc_bytes s
         then rbind (vsf_sysutil_malloc (u32 (n + 1))) (\<lambda>b.
              rbind (s_setbuf (str_free s) b) (\<lambda>s'.
              Inr (s'\<lparr>alloc_bytes := u32 (n + 1)\<rparr>)))
         else Inr s)"
  obtain s1 bs where r1: "r1 = Inr s1" and bs: "p_buf s1 = Some bs" "length bs = alloc_bytes s1"
    and a1: "n < alloc_bytes s1" "alloc_bytes s1 \<le> INT_MAX"
  proof (cases "n + 1 > alloc_bytes s")
    case True
    then have "r1 = Inr ((str_free s)\<lparr>p_buf := Some (replicate (n + 1) None), alloc_bytes := n + 1\<rparr>)"
      using n by (simp add: r1_def vsf_sysutil_malloc_def s_setbuf_def str_free_def)
    then show ?thesis using that n by (simp add: str_free_def)
  next
    case False
    then have "r1 = Inr s" using n by (simp add: r1_def)
    moreover obtain rest where "p_buf s = Some (map Some (val s) @ Some NUL # rest)"
      "alloc_bytes s = length (val s) + 1 + length rest" "alloc_bytes s \<le> INT_MAX"
      using assms(1) False by (auto elim: mystr_ok_cases)
    ultimately show ?thesis using that False by simp
  qed
  let ?ys = "take n bs" and ?zs = "drop n bs"
  obtain y ys where yz: "?zs = y # ys" using a1 bs by (cases ?zs) auto
  have yz': "take n bs @ y # ys = bs" by (metis append_take_drop_id yz)
  have lt: "length t = n" using assms(2) by (simp add: readable_def)
  have c: "vsf_sysutil_memcpy (Some bs) 0 src n = Inr (Some (map Some t @ y # ys))"
    using memcpy_readable [OF assms(2,3), of "[]" 0 ?ys "y # ys"] a1 bs by (simp add: yz')
  have w: "mem_write (Some (map Some t @ y # ys)) n [NUL] = Inr (Some (map Some t @ Some NUL # ys))"
    using mem_write_at [of "map Some t" n "[y]" "[NUL]" ys] lt by simp
  have "private_str_alloc_memchunk s src n =
          rbind r1 (\<lambda>s1. rbind (vsf_sysutil_memcpy (p_buf s1) 0 src n) (\<lambda>b1.
          rbind (mem_write b1 n [NUL]) (\<lambda>b2. Inr (s1\<lparr>p_buf := b2, len := n\<rparr>))))"
    by (simp only: private_str_alloc_memchunk_def r1_def Let_def)
  then have "private_str_alloc_memchunk s src n =
          Inr (s1\<lparr>p_buf := Some (map Some t @ Some NUL # ys), len := n\<rparr>)"
    using r1 bs c w by simp
  moreover have "alloc_bytes s1 = length t + 1 + length ys"
    using bs a1 lt arg_cong [OF yz, of length] by simp
  ultimately show ?thesis
    using mystr_okI [of "s1\<lparr>p_buf := Some (map Some t @ Some NUL # ys), len := n\<rparr>" t ys] lt a1
    by simp
qed

text \<open>A request that does not fit in \<open>int\<close> ends the process instead of overrunning a buffer.\<close>

lemma alloc_memchunk_too_big:
  assumes "mystr_ok s" and "INT_MAX \<le> n" and "n < 4294967295"
  shows "private_str_alloc_memchunk s src n =
           Inl (Bug ''zero or big size in vsf_sysutil_malloc'')"
proof -
  have "alloc_bytes s \<le> INT_MAX" using assms(1) by (auto elim: mystr_ok_cases)
  then show ?thesis using assms
    by (auto simp: private_str_alloc_memchunk_def vsf_sysutil_malloc_def Let_def)
qed

lemma append_memchunk_holds:
  assumes "mystr_ok s" and "readable src n t" and "length (val s) + n < INT_MAX"
  shows "holds (private_str_append_memchunk s src n) (val s @ t)"
proof -
  let ?v = "val s" and ?N = "length (val s) + n"
  have n: "u32 ?N = ?N" "u32 (?N + 1) = ?N + 1" "?N + 1 \<le> INT_MAX" "n < INT_MAX"
    using assms(3) by (auto simp: INT_MAX_def)
  define r1 where "r1 = (if ?N + 1 > alloc_bytes s
         then rbind (vsf_sysutil_realloc (p_buf s) (?N + 1)) (\<lambda>b.
              Inr (s\<lparr>p_buf := Some b, alloc_bytes := ?N + 1\<rparr>))
         else Inr s)"
  have "\<exists>s1 rest. r1 = Inr s1 \<and> p_buf s1 = Some (map Some ?v @ rest) \<and> len s1 = length ?v \<and>
          length (map Some ?v @ rest) = alloc_bytes s1 \<and> ?N < alloc_bytes s1 \<and>
          alloc_bytes s1 \<le> INT_MAX"
    using assms(1)
  proof (cases rule: mystr_ok_cases)
    case null
    then show ?thesis using n by (auto simp: r1_def vsf_sysutil_realloc_def)
  next
    case (buf rest)
    show ?thesis
    proof (cases "?N + 1 > alloc_bytes s")
      case True
      let ?bs = "map Some ?v @ Some NUL # rest"
      have "take (?N + 1) ?bs = ?bs" using True buf by simp
      then have "vsf_sysutil_realloc (p_buf s) (?N + 1) =
                   Inr (?bs @ replicate (?N + 1 - length ?bs) None)"
        using buf(1) n(3) by (simp add: vsf_sysutil_realloc_def)
      then have "r1 = Inr (s\<lparr>p_buf := Some (map Some ?v @ Some NUL # rest @
                   replicate (?N + 1 - length ?bs) None), alloc_bytes := ?N + 1\<rparr>)"
        using True by (simp add: r1_def)
      then show ?thesis using True buf n by simp
    next
      case False
      then show ?thesis using buf by (auto simp: r1_def)
    qed
  qed
  then obtain s1 rest where r1: "r1 = Inr s1" and p1: "p_buf s1 = Some (map Some ?v @ rest)"
    and l1: "len s1 = length ?v" and a1: "length (map Some ?v @ rest) = alloc_bytes s1"
      "?N < alloc_bytes s1" "alloc_bytes s1 \<le> INT_MAX"
    by blast
  obtain y ys where yz: "drop n rest = y # ys" using a1 by (cases "drop n rest") auto
  have yz': "take n rest @ y # ys = rest" by (metis append_take_drop_id yz)
  have lt: "length t = n" using assms(2) by (simp add: readable_def)
  have c: "vsf_sysutil_memcpy (p_buf s1) (len s1) src n =
             Inr (Some (map Some ?v @ map Some t @ y # ys))"
    using memcpy_readable [OF assms(2) n(4), of "map Some ?v" _ "take n rest" "y # ys"] a1 l1 p1
    by (simp add: yz')
  have w: "mem_write (Some (map Some ?v @ map Some t @ y # ys)) ?N [NUL] =
             Inr (Some (map Some (?v @ t) @ Some NUL # ys))"
    using mem_write_at [of "map Some (?v @ t)" ?N "[y]" "[NUL]" ys] lt by simp
  have "private_str_append_memchunk s src n =
          rbind r1 (\<lambda>s1. rbind (vsf_sysutil_memcpy (p_buf s1) (len s1) src n) (\<lambda>b1.
          rbind (mem_write b1 (u32 (len s1 + n)) [NUL]) (\<lambda>b2.
          Inr (s1\<lparr>p_buf := b2, len := u32 (len s1 + n)\<rparr>))))"
    by (simp only: private_str_append_memchunk_def r1_def Let_def len_val [OF assms(1)] n)
  then have "private_str_append_memchunk s src n =
          Inr (s1\<lparr>p_buf := Some (map Some (?v @ t) @ Some NUL # ys), len := ?N\<rparr>)"
    using r1 c w l1 n by simp
  moreover have "alloc_bytes s1 = length (?v @ t) + 1 + length ys"
    using a1 lt arg_cong [OF yz, of length] by simp
  ultimately show ?thesis
    using mystr_okI [of "s1\<lparr>p_buf := Some (map Some (?v @ t) @ Some NUL # ys), len := ?N\<rparr>"
        "?v @ t" ys] lt a1 by simp
qed

section \<open>Simple operations\<close>

abbreviation short :: "string \<Rightarrow> bool" where
  "short t \<equiv> length t \<le> INT_MAX div 8"

lemma short_bound: "short t \<Longrightarrow> length t < INT_MAX"
  by (simp add: INT_MAX_def)

lemma str_alloc_text_holds [str_spec]:
  "mystr_ok s \<Longrightarrow> short t \<Longrightarrow> holds (str_alloc_text s t) t"
  by (simp add: str_alloc_text_def strlen_ok alloc_memchunk_holds short_bound)

lemma str_copy_holds [str_spec]:
  "mystr_ok d \<Longrightarrow> mystr_ok s \<Longrightarrow> holds (str_copy d s) (val s)"
  unfolding str_copy_def
  by (rule alloc_memchunk_holds) (auto simp: readable_all val_bound)

lemma short_digits: "n < 4294967296 \<Longrightarrow> length (base_str 10 n) \<le> 10"
  using length_base_str [of 10 10 n] by simp

lemma str_alloc_ulong_holds [str_spec]:
  assumes "mystr_ok s" and "n < 4294967296"
  shows "holds (str_alloc_ulong s n) (vsf_sysutil_ulong_to_str n)"
  unfolding str_alloc_ulong_def
  by (rule str_alloc_text_holds) (use assms short_digits [of n] in
      \<open>auto simp: vsf_sysutil_ulong_to_str_def INT_MAX_def\<close>)

lemma alt_term_len_eq:
  "NUL \<notin> set t \<Longrightarrow> alt_term_len (map Some t @ Some NUL # rest) NUL = Inr (length t)"
  by (induction t) auto

lemma alt_term_len_gen:
  "term \<in> set t \<Longrightarrow>
   alt_term_len (map Some t @ rest) term = Inr (length (takeWhile (\<lambda>c. c \<noteq> term) t))"
  by (induction t) auto

text \<open>\<open>str_alloc_alt_term\<close> takes the bytes before the terminator.\<close>

lemma str_alloc_alt_term_holds [str_spec]:
  assumes "mystr_ok s" and "term \<in> set t" and "length t < INT_MAX"
  shows "holds (str_alloc_alt_term s (map Some t @ rest) term) (takeWhile (\<lambda>c. c \<noteq> term) t)"
proof -
  let ?n = "length (takeWhile (\<lambda>c. c \<noteq> term) t)"
  have n: "?n \<le> length t" by (rule length_takeWhile_le)
  then have "readable (Some (map Some t @ rest), 0) ?n (take ?n t)"
    by (simp add: readable_def)
  moreover have "take ?n t = takeWhile (\<lambda>c. c \<noteq> term) t" by (metis takeWhile_eq_take)
  moreover have "u32 ?n = ?n" "?n < INT_MAX" using n assms(3) by (auto simp: INT_MAX_def)
  ultimately show ?thesis
    using assms by (simp add: str_alloc_alt_term_def alt_term_len_gen alloc_memchunk_holds)
qed

lemma str_trunc_holds [str_spec]:
  assumes "mystr_ok s" and "p_buf s \<noteq> None" and "n \<le> length (val s)"
  shows "holds (str_trunc s n) (take n (val s))"
proof -
  obtain rest where b: "p_buf s = Some (map Some (val s) @ Some NUL # rest)"
    "alloc_bytes s = length (val s) + 1 + length rest" "alloc_bytes s \<le> INT_MAX"
    using assms(1,2) by (rule mystr_ok_buf)
  let ?v = "take n (val s)"
  obtain y ys where y: "drop n (map Some (val s) @ Some NUL # rest) = y # ys"
    using assms(3) by (cases "drop n (map Some (val s) @ Some NUL # rest)") auto
  have "map Some (val s) @ Some NUL # rest = map Some ?v @ y # ys"
    using y assms(3) append_take_drop_id [of n "map Some (val s) @ Some NUL # rest"]
    by (simp add: take_map)
  moreover have "length ?v = n" using assms(3) by simp
  ultimately have "str_trunc s n = Inr (s\<lparr>p_buf := Some (map Some ?v @ Some NUL # ys), len := n\<rparr>)"
    using b assms(3) mem_write_at [of "map Some ?v" n "[y]" "[NUL]" ys]
    by (simp add: str_trunc_def)
  moreover have "alloc_bytes s = length ?v + 1 + length ys"
    using b assms(3) arg_cong [OF y, of length] by simp
  ultimately show ?thesis
    using mystr_okI [of "s\<lparr>p_buf := Some (map Some ?v @ Some NUL # ys), len := n\<rparr>" ?v ys] b
      \<open>length ?v = n\<close> by simp
qed

text \<open>\<open>str_getbuf\<close> leaves the text alone and makes sure there is a buffer.\<close>

lemma str_getbuf_ok:
  assumes "mystr_ok s"
  obtains s1 where "str_getbuf s = Inr s1" "mystr_ok s1" "val s1 = val s" "p_buf s1 \<noteq> None"
  using assms
proof (cases rule: mystr_ok_cases)
  case null
  have h: "holds (private_str_alloc_memchunk s null_ptr 0) []"
    by (rule alloc_memchunk_holds [OF assms]) (simp_all add: INT_MAX_def)
  then obtain s1 where s1: "str_getbuf s = Inr s1" "mystr_ok s1" "val s1 = []"
    using null by (auto simp: str_getbuf_def)
  moreover have "p_buf s1 \<noteq> None"
    using s1(1) null
    by (auto simp: str_getbuf_def private_str_alloc_memchunk_def mem_write_def Let_def fault_simps
        split: if_splits option.splits)
  ultimately show ?thesis using that null by simp
next
  case buf
  then show ?thesis using that assms by (simp add: str_getbuf_def)
qed

lemma str_empty_holds [str_spec]: "mystr_ok s \<Longrightarrow> holds (str_empty s) []"
proof -
  assume "mystr_ok s"
  then obtain s1 where "str_getbuf s = Inr s1" "mystr_ok s1" "val s1 = val s" "p_buf s1 \<noteq> None"
    by (rule str_getbuf_ok)
  then show ?thesis using str_trunc_holds [of s1 0] by (simp add: str_empty_def)
qed

lemma str_append_str_holds [str_spec]:
  "mystr_ok s \<Longrightarrow> mystr_ok t \<Longrightarrow> length (val s @ val t) < INT_MAX \<Longrightarrow>
   holds (str_append_str s t) (val s @ val t)"
  unfolding str_append_str_def
  by (rule append_memchunk_holds) (auto simp: readable_all)

lemma str_append_text_holds [str_spec]:
  "mystr_ok s \<Longrightarrow> short t \<Longrightarrow> length (val s @ t) < INT_MAX \<Longrightarrow>
   holds (str_append_text s t) (val s @ t)"
  by (simp add: str_append_text_def strlen_ok append_memchunk_holds)

lemma str_append_char_holds [str_spec]:
  "mystr_ok s \<Longrightarrow> length (val s) + 1 < INT_MAX \<Longrightarrow> holds (str_append_char s c) (val s @ [c])"
  unfolding str_append_char_def
  by (rule append_memchunk_holds) (simp_all add: readable_def mem_read_def)

section \<open>Appending in a loop\<close>

text \<open>
  What a loop over single-character appends needs of the object it appends to. The padding
  functions and the zero fill of \<open>vsf_sysutil_parse_ipv6\<close> are such loops.
\<close>

locale appendable =
  fixes ok :: "'s \<Rightarrow> bool" and content :: "'s \<Rightarrow> string" and app :: "'s \<Rightarrow> char \<Rightarrow> 's res"
    and bound :: nat
  assumes app_step: "ok s \<Longrightarrow> length (content s) + 1 < bound \<Longrightarrow>
    \<exists>s'. app s c = Inr s' \<and> ok s' \<and> content s' = content s @ [c]"
begin

lemma app_times:
  "ok s \<Longrightarrow> length (content s) + n < bound \<Longrightarrow>
   \<exists>s'. rtimes n (\<lambda>t. app t c) s = Inr s' \<and> ok s' \<and> content s' = content s @ replicate n c"
proof (induction n arbitrary: s)
  case (Suc n)
  then obtain s1 where s1: "app s c = Inr s1" "ok s1" "content s1 = content s @ [c]"
    using app_step [of s c] by auto
  then obtain s2 where "rtimes n (\<lambda>t. app t c) s1 = Inr s2" "ok s2"
    "content s2 = content s1 @ replicate n c"
    using Suc.IH [of s1] Suc.prems by auto
  then show ?case using s1 by (simp add: replicate_app_Cons_same)
qed simp

lemma app_all:
  "ok s \<Longrightarrow> length (content s) + length t < bound \<Longrightarrow>
   \<exists>s'. rfold (\<lambda>c s. app s c) t s = Inr s' \<and> ok s' \<and> content s' = content s @ t"
proof (induction t arbitrary: s)
  case (Cons c t)
  then obtain s1 where s1: "app s c = Inr s1" "ok s1" "content s1 = content s @ [c]"
    using app_step [of s c] by auto
  then show ?case using Cons.IH [of s1] Cons.prems by auto
qed simp

end

interpretation mystr_app: appendable mystr_ok val str_append_char INT_MAX
proof
  fix s c
  assume "mystr_ok s" and "length (val s) + 1 < INT_MAX"
  then have "holds (str_append_char s c) (val s @ [c])" by (rule str_append_char_holds)
  then show "\<exists>s'. str_append_char s c = Inr s' \<and> mystr_ok s' \<and> val s' = val s @ [c]" by blast
qed

lemma str_rpad_holds [str_spec]:
  assumes "mystr_ok s" and "w < INT_MAX"
  shows "holds (str_rpad s w) (t_rpad (val s) w)"
proof (cases "w \<le> length (val s)")
  case True
  then show ?thesis using assms by (simp add: str_rpad_def t_rpad_def)
next
  case False
  then show ?thesis
    using assms mystr_app.app_times [of s "w - length (val s)" "CHR '' ''"]
    by (auto simp: str_rpad_def t_rpad_def)
qed

lemma str_lpad_spec:
  assumes "mystr_ok tmp" and "mystr_ok s" and "w < INT_MAX"
  shows "\<exists>tmp' s'. str_lpad tmp s w = Inr (tmp', s') \<and> mystr_ok tmp' \<and> mystr_ok s' \<and>
           val s' = t_lpad (val s) w"
proof (cases "w \<le> length (val s)")
  case True
  then show ?thesis using assms by (simp add: str_lpad_def t_lpad_def)
next
  case False
  let ?n = "w - length (val s)"
  obtain t0 where t0: "str_empty tmp = Inr t0" "mystr_ok t0" "val t0 = []"
    using str_empty_holds [OF assms(1)] by blast
  obtain t1 where t1: "rtimes ?n (\<lambda>t. str_append_char t CHR '' '') t0 = Inr t1" "mystr_ok t1"
    "val t1 = replicate ?n CHR '' ''"
    using mystr_app.app_times [of t0 ?n "CHR '' ''"] t0 assms(3)
    by (metis add_0 append_Nil le_less_trans diff_le_self list.size(3))
  obtain t2 where t2: "str_append_str t1 s = Inr t2" "mystr_ok t2" "val t2 = t_lpad (val s) w"
    using str_append_str_holds [of t1 s] t1 assms False by (auto simp: t_lpad_def)
  obtain s1 where "str_copy s t2 = Inr s1" "mystr_ok s1" "val s1 = val t2"
    using str_copy_holds [OF assms(2) t2(2)] by blast
  then show ?thesis using t0 t1 t2 False assms(2) by (simp add: str_lpad_def)
qed

section \<open>Loops over the bytes\<close>

lemma set_byte:
  assumes "mystr_ok s" and "i < length (val s)"
  obtains b where "mem_write (p_buf s) i [c] = Inr b"
    "mystr_ok (s\<lparr>p_buf := b\<rparr>)" "val (s\<lparr>p_buf := b\<rparr>) = (val s)[i := c]"
  using assms(1)
proof (cases rule: mystr_ok_cases)
  case (buf rest)
  let ?v = "val s" and ?b = "Some (map Some ((val s)[i := c]) @ Some NUL # rest)"
  have "map Some ?v @ Some NUL # rest =
          map Some (take i ?v) @ [Some (?v ! i)] @ map Some (drop (Suc i) ?v) @ Some NUL # rest"
    using id_take_nth_drop [OF assms(2)] by (metis append.assoc append_Cons append_Nil list.simps(9) map_append)
  then have "mem_write (p_buf s) i [c] = Inr ?b"
    using buf assms(2)
      mem_write_at [of "map Some (take i ?v)" i "[Some (?v ! i)]" "[c]"
        "map Some (drop (Suc i) ?v) @ Some NUL # rest"]
    by (simp add: upd_conv_take_nth_drop)
  moreover have "mystr_ok (s\<lparr>p_buf := ?b\<rparr>) \<and> val (s\<lparr>p_buf := ?b\<rparr>) = ?v[i := c]"
    using buf by (intro mystr_okI [of _ _ rest]) auto
  ultimately show ?thesis using that by blast
qed (use assms(2) in simp)

lemma buf_map_loop_holds:
  "mystr_ok s \<Longrightarrow> i + k = length (val s) \<Longrightarrow>
   holds (buf_map_loop f k i s) (take i (val s) @ map f (drop i (val s)))"
proof (induction k arbitrary: i s)
  case (Suc k)
  then have i: "i < length (val s)" by simp
  obtain b where b: "mem_write (p_buf s) i [f (val s ! i)] = Inr b" "mystr_ok (s\<lparr>p_buf := b\<rparr>)"
    "val (s\<lparr>p_buf := b\<rparr>) = (val s)[i := f (val s ! i)]"
    using set_byte [OF Suc.prems(1) i] by blast
  have "holds (buf_map_loop f k (Suc i) (s\<lparr>p_buf := b\<rparr>))
          (take (Suc i) ((val s)[i := f (val s ! i)]) @ map f (drop (Suc i) ((val s)[i := f (val s ! i)])))"
    using Suc.IH [of "s\<lparr>p_buf := b\<rparr>" "Suc i"] b Suc.prems by simp
  moreover have "drop i (val s) = val s ! i # drop (Suc i) (val s)" using i by (simp add: Cons_nth_drop_Suc)
  ultimately show ?case
    using b mem_read_one [OF Suc.prems(1) i] i by (simp add: take_Suc_conv_app_nth)
qed simp

lemma str_upper_holds [str_spec]: "mystr_ok s \<Longrightarrow> holds (str_upper s) (t_upper (val s))"
  using buf_map_loop_holds [of s 0 "length (val s)"] by (simp add: str_upper_def t_upper_def)

lemma str_replace_char_holds [str_spec]:
  "mystr_ok s \<Longrightarrow> holds (str_replace_char s a b) (t_replace_char (val s) a b)"
  using buf_map_loop_holds [of s 0 "length (val s)"]
  by (simp add: str_replace_char_def t_replace_char_def)

lemma str_replace_unprintable_holds [str_spec]:
  "mystr_ok s \<Longrightarrow>
   holds (str_replace_unprintable s c) (map (\<lambda>x. if \<not> vsf_sysutil_isprint x then c else x) (val s))"
  using buf_map_loop_holds [of s 0 "length (val s)"] by (simp add: str_replace_unprintable_def)

lemma buf_exists_loop_eq:
  "mystr_ok s \<Longrightarrow> i + k = length (val s) \<Longrightarrow>
   buf_exists_loop P k i s = Inr (list_ex P (drop i (val s)))"
proof (induction k arbitrary: i)
  case (Suc k)
  then have i: "i < length (val s)" by simp
  have "drop i (val s) = val s ! i # drop (Suc i) (val s)" using i by (simp add: Cons_nth_drop_Suc)
  then show ?case using Suc mem_read_one [OF Suc.prems(1) i] by auto
qed simp

lemma str_contains_space_eq [str_spec]:
  "mystr_ok s \<Longrightarrow> str_contains_space s = Inr (list_ex vsf_sysutil_isspace (val s))"
  by (simp add: str_contains_space_def buf_exists_loop_eq)

lemma str_all_space_eq [str_spec]:
  "mystr_ok s \<Longrightarrow> str_all_space s = Inr (list_all vsf_sysutil_isspace (val s))"
  by (simp add: str_all_space_def buf_exists_loop_eq list_ex_iff list_all_iff)

lemma str_contains_unprintable_eq [str_spec]:
  "mystr_ok s \<Longrightarrow>
   str_contains_unprintable s = Inr (\<not> list_all vsf_sysutil_isprint (val s))"
  by (simp add: str_contains_unprintable_def buf_exists_loop_eq list_ex_iff list_all_iff)

lemma str_get_char_at_eq [str_spec]:
  "mystr_ok s \<Longrightarrow>
   str_get_char_at s i =
     (if i < length (val s) then Inr (val s ! i) else Inl (Bug ''bad indexx in str_get_char_at''))"
  using mem_read_one [of s i] by (simp add: str_get_char_at_def)

section \<open>Parts\<close>

lemma str_left_holds [str_spec]:
  "mystr_ok s \<Longrightarrow> mystr_ok out \<Longrightarrow> n \<le> length (val s) \<Longrightarrow> holds (str_left s out n) (take n (val s))"
  using alloc_memchunk_holds [OF _ readable_val [of s 0 n], of out] val_bound [of s]
  by (simp add: str_left_def)

lemma str_right_holds [str_spec]:
  "mystr_ok s \<Longrightarrow> mystr_ok out \<Longrightarrow> n \<le> length (val s) \<Longrightarrow>
   holds (str_right s out n) (drop (length (val s) - n) (val s))"
  using alloc_memchunk_holds [OF _ readable_val [of s "length (val s) - n" n], of out] val_bound [of s]
  by (simp add: str_right_def)

lemma str_mid_to_end_holds [str_spec]:
  "mystr_ok s \<Longrightarrow> mystr_ok out \<Longrightarrow> n \<le> length (val s) \<Longrightarrow>
   holds (str_mid_to_end s out n) (drop n (val s))"
  using alloc_memchunk_holds [OF _ readable_val [of s n "length (val s) - n"], of out] val_bound [of s]
  by (simp add: str_mid_to_end_def)

section \<open>C strings and comparison\<close>

lemma str_cstr_eq:
  assumes "mystr_ok s"
  obtains s1 where "str_cstr s = Inr (s1, cstr (val s))" "mystr_ok s1" "val s1 = val s"
proof -
  obtain s1 where s1: "str_getbuf s = Inr s1" "mystr_ok s1" "val s1 = val s" "p_buf s1 \<noteq> None"
    using str_getbuf_ok [OF assms] .
  then obtain rest where b: "p_buf s1 = Some (map Some (val s) @ Some NUL # rest)"
    by (metis mystr_ok_buf)
  have "map Some (val s) @ Some NUL # rest = map Some (val s @ [NUL]) @ rest" by simp
  then have "alt_term_len (map Some (val s) @ Some NUL # rest) NUL = Inr (length (cstr (val s)))"
    using alt_term_len_gen [of NUL "val s @ [NUL]" rest]
    by (simp add: cstr_def takeWhile_tail)
  moreover have "take (length (cstr (val s))) (val s) = cstr (val s)"
    by (metis cstr_def takeWhile_eq_take)
  ultimately have "mem_cstr (p_buf s1) = Inr (cstr (val s))"
    using b by (simp add: mem_cstr_def)
  then show ?thesis using that s1 by (simp add: str_cstr_def)
qed

lemma memcmp_bytes_zero:
  "length s = length t \<Longrightarrow> memcmp_bytes s t = 0 \<longleftrightarrow> s = t"
  by (induction s t rule: memcmp_bytes.induct) auto

definition t_strcmp :: "string \<Rightarrow> string \<Rightarrow> int" where
  "t_strcmp s t =
     (let m = min (length s) (length t); r = memcmp_bytes (take m s) (take m t)
      in if r \<noteq> 0 \<or> length s = length t then r else int (length s) - int (length t))"

lemma str_equal_internal_eq:
  assumes "\<And>n. 0 < n \<Longrightarrow> n \<le> length s \<Longrightarrow> mem_read p n = Inr (take n s)"
    and "\<And>n. 0 < n \<Longrightarrow> n \<le> length t \<Longrightarrow> mem_read q n = Inr (take n t)"
    and "length s < INT_MAX" and "length t < INT_MAX"
  shows "str_equal_internal p (length s) q (length t) = Inr (t_strcmp s t)"
proof -
  let ?m = "min (length s) (length t)"
  have m: "(if length t < length s then length t else length s) = ?m" by (simp add: min_def)
  have "vsf_sysutil_memcmp p q ?m = Inr (memcmp_bytes (take ?m s) (take ?m t))"
    using assms(1,2) [of ?m] by (cases "?m = 0") (auto simp: vsf_sysutil_memcmp_def min_def)
  moreover have "sint32 (int (length s) - int (length t)) = int (length s) - int (length t)"
    using assms(3,4) by (intro sint32_small) (auto simp: INT_MAX_def)
  ultimately show ?thesis by (simp add: str_equal_internal_def t_strcmp_def m Let_def)
qed

lemma str_strcmp_eq [str_spec]:
  "mystr_ok s \<Longrightarrow> mystr_ok t \<Longrightarrow> str_strcmp s t = Inr (t_strcmp (val s) (val t))"
  by (simp add: str_strcmp_def str_equal_internal_eq mem_read_val val_bound)

lemma t_strcmp_zero: "t_strcmp s t = 0 \<longleftrightarrow> s = t"
proof -
  let ?m = "min (length s) (length t)"
  have z: "memcmp_bytes (take ?m s) (take ?m t) = 0 \<longleftrightarrow> take ?m s = take ?m t"
    by (rule memcmp_bytes_zero) simp
  show ?thesis
  proof (cases "length s = length t")
    case True
    then show ?thesis using z by (simp add: t_strcmp_def Let_def)
  next
    case False
    then show ?thesis by (auto simp: t_strcmp_def Let_def)
  qed
qed

lemma str_equal_eq [str_spec]:
  "mystr_ok s \<Longrightarrow> mystr_ok t \<Longrightarrow> str_equal s t = Inr (val s = val t)"
  by (simp add: str_equal_def str_strcmp_eq t_strcmp_zero)

lemma str_equal_text_eq [str_spec]:
  "mystr_ok s \<Longrightarrow> short t \<Longrightarrow> str_equal_text s t = Inr (val s = t)"
  by (simp add: str_equal_text_def strlen_ok str_equal_internal_eq mem_read_val val_bound
      short_bound t_strcmp_zero)

section \<open>Search and split\<close>

lemma memcmp_at:
  assumes "mystr_ok s" and "0 < length t" and "i + length t \<le> length (val s)"
  shows "\<exists>r. vsf_sysutil_memcmp (p_buf s, i) (text_ptr t) (length t) = Inr r \<and>
           (r = 0 \<longleftrightarrow> occurs_at t (val s) i)"
proof -
  have "vsf_sysutil_memcmp (p_buf s, i) (text_ptr t) (length t) =
          Inr (memcmp_bytes (take (length t) (drop i (val s))) t)"
    using assms by (simp add: vsf_sysutil_memcmp_def mem_read_val)
  then show ?thesis using assms by (simp add: memcmp_bytes_zero occurs_at_def)
qed

lemma locate_loop_eq:
  assumes "mystr_ok s" and "t \<noteq> []"
  shows "i + k = length (val s) - length t + 1 \<Longrightarrow> length t \<le> length (val s) \<Longrightarrow>
    \<forall>j < i. \<not> occurs_at t (val s) j \<Longrightarrow>
    locate_loop k i s t (length t) = Inr (located (first_sub t (val s)))"
proof (induction k arbitrary: i)
  case 0
  have "\<not> occurs_at t (val s) j" for j
    using 0 by (cases "j < i") (auto simp: occurs_at_def)
  then have "first_sub t (val s) = None" using assms(2) by (simp add: first_sub_None_iff)
  then show ?case by (simp add: located_def)
next
  case (Suc k)
  have i: "i + length t \<le> length (val s)" using Suc.prems by linarith
  obtain r where r: "vsf_sysutil_memcmp (p_buf s, i) (text_ptr t) (length t) = Inr r"
    "r = 0 \<longleftrightarrow> occurs_at t (val s) i"
    using memcmp_at [OF assms(1), of t i] i assms(2) by auto
  show ?case
  proof (cases "r = 0")
    case True
    then have "first_sub t (val s) = Some i"
      using r Suc.prems assms(2) by (simp add: first_sub_Some_iff)
    then show ?thesis using r True by (simp add: located_def)
  next
    case False
    then show ?thesis using r Suc by (simp add: less_Suc_eq)
  qed
qed

lemma str_locate_text_eq [str_spec]:
  assumes "mystr_ok s" and "short t"
  shows "str_locate_text s t = Inr (t_locate_text (val s) t)"
proof (cases "t = [] \<or> length (val s) < length t")
  case True
  then have "t = [] \<or> first_sub t (val s) = None"
    using first_sub_bound [of t "val s"] by (cases "first_sub t (val s)") force+
  then show ?thesis
    using True assms by (auto simp: str_locate_text_def strlen_ok t_locate_text_def located_def)
next
  case False
  then show ?thesis
    using assms locate_loop_eq [OF assms(1), of t 0 "length (val s) - length t + 1"]
    by (simp add: str_locate_text_def strlen_ok t_locate_text_def)
qed

lemma locate_rev_loop_eq:
  assumes "mystr_ok s" and "t \<noteq> []"
  shows "i + length t \<le> length (val s) \<Longrightarrow> \<forall>j > i. \<not> occurs_at t (val s) j \<Longrightarrow>
    locate_rev_loop i s t (length t) = Inr (located (last_sub t (val s)))"
proof (induction i)
  case 0
  obtain r where r: "vsf_sysutil_memcmp (p_buf s, 0) (text_ptr t) (length t) = Inr r"
    "r = 0 \<longleftrightarrow> occurs_at t (val s) 0"
    using memcmp_at [OF assms(1), of t 0] 0 assms(2) by auto
  show ?case
  proof (cases "r = 0")
    case True
    then have "last_sub t (val s) = Some 0" using r 0 assms(2) by (simp add: last_sub_Some_iff)
    then show ?thesis using r True by (simp add: located_def)
  next
    case False
    then have "\<not> occurs_at t (val s) j" for j using r 0 by (cases j) auto
    then have "last_sub t (val s) = None" using assms(2) by (simp add: last_sub_None_iff)
    then show ?thesis using r False by (simp add: located_def)
  qed
next
  case (Suc i)
  obtain r where r: "vsf_sysutil_memcmp (p_buf s, Suc i) (text_ptr t) (length t) = Inr r"
    "r = 0 \<longleftrightarrow> occurs_at t (val s) (Suc i)"
    using memcmp_at [OF assms(1), of t "Suc i"] Suc.prems assms(2) by auto
  show ?case
  proof (cases "r = 0")
    case True
    then have "last_sub t (val s) = Some (Suc i)"
      using r Suc.prems assms(2) by (simp add: last_sub_Some_iff)
    then show ?thesis using r True by (simp add: located_def)
  next
    case False
    then have "\<forall>j > i. \<not> occurs_at t (val s) j"
      using r Suc.prems by (metis Suc_lessI)
    then show ?thesis using r False Suc by simp
  qed
qed

lemma str_locate_text_reverse_eq [str_spec]:
  assumes "mystr_ok s" and "short t"
  shows "str_locate_text_reverse s t = Inr (t_locate_text_reverse (val s) t)"
proof (cases "t = [] \<or> length (val s) < length t")
  case True
  then have "t = [] \<or> last_sub t (val s) = None"
    using last_sub_bound [of t "val s"] by (cases "last_sub t (val s)") force+
  then show ?thesis
    using True assms
    by (auto simp: str_locate_text_reverse_def strlen_ok t_locate_text_reverse_def located_def)
next
  case False
  have "\<forall>j > length (val s) - length t. \<not> occurs_at t (val s) j"
    by (auto simp: occurs_at_def)
  then show ?thesis
    using False assms locate_rev_loop_eq [OF assms(1), of t "length (val s) - length t"]
    by (simp add: str_locate_text_reverse_def strlen_ok t_locate_text_reverse_def)
qed

lemma locate_chars_loop_eq:
  "mystr_ok s \<Longrightarrow> i + k = length (val s) \<Longrightarrow>
   locate_chars_loop k i s cs = Inr (t_locate_chars_from i (drop i (val s)) cs)"
proof (induction k arbitrary: i)
  case (Suc k)
  then have i: "i < length (val s)" by simp
  have d: "drop i (val s) = val s ! i # drop (Suc i) (val s)" using i by (simp add: Cons_nth_drop_Suc)
  have "find (\<lambda>p. [p] = [c]) cs = (if c \<in> set cs then Some c else None)" for c
    by (induction cs) auto
  then show ?case using Suc mem_read_one [OF Suc.prems(1) i] d by simp
qed simp

lemma str_locate_chars_eq [str_spec]:
  "mystr_ok s \<Longrightarrow> short cs \<Longrightarrow> str_locate_chars s cs = Inr (t_locate_chars (val s) cs)"
  by (simp add: str_locate_chars_def strlen_ok locate_chars_loop_eq t_locate_chars_def)

definition pair_holds :: "(mystr \<times> mystr) res \<Rightarrow> string \<times> string \<Rightarrow> bool" where
  "pair_holds r p \<longleftrightarrow>
     (case r of
        Inr (a, b) \<Rightarrow> mystr_ok a \<and> mystr_ok b \<and> val a = fst p \<and> val b = snd p
      | Inl _ \<Rightarrow> False)"

lemma pair_holdsE:
  assumes "pair_holds r p"
  obtains a b where "r = Inr (a, b)" "mystr_ok a" "mystr_ok b" "val a = fst p" "val b = snd p"
  using assms by (auto simp: pair_holds_def split: sum.splits prod.splits)

lemma split_at_holds:
  assumes "mystr_ok src" and "mystr_ok rhs" and "short t" and "i + length t \<le> length (val src)"
    and "0 < length t"
  shows "pair_holds
     (rbind (private_str_alloc_memchunk rhs (p_buf src, i + length t) (len src - i - length t)) (\<lambda>rhs1.
      rbind (str_trunc src i) (\<lambda>src1. Inr (src1, rhs1))))
     (take i (val src), drop (i + length t) (val src))"
proof -
  let ?n = "length (val src) - i - length t"
  have "readable (p_buf src, i + length t) ?n (drop (i + length t) (val src))"
    using readable_val [OF assms(1), of "i + length t" ?n] assms(4) by (simp add: add.commute)
  then obtain r1 where r1: "private_str_alloc_memchunk rhs (p_buf src, i + length t) ?n = Inr r1"
    "mystr_ok r1" "val r1 = drop (i + length t) (val src)"
    using alloc_memchunk_holds [OF assms(2), of _ ?n] val_bound [OF assms(1)] by fastforce
  have "p_buf src \<noteq> None" using assms(4,5) by (cases "p_buf src") (auto simp: val_def)
  then obtain s1 where "str_trunc src i = Inr s1" "mystr_ok s1" "val s1 = take i (val src)"
    using str_trunc_holds [OF assms(1), of i] assms(4) by auto
  then show ?thesis using r1 assms(1) by (simp add: pair_holds_def)
qed

lemma str_split_text_holds [str_spec]:
  assumes "mystr_ok src" and "mystr_ok rhs" and "short t"
  shows "pair_holds (str_split_text src rhs t) (t_split_text (val src) t)"
proof (cases "found (t_locate_text (val src) t)")
  case False
  then show ?thesis
    using assms str_empty_holds [OF assms(2)]
    by (auto simp: str_split_text_def str_split_text_common_def strlen_ok str_locate_text_eq
        t_split_text_def pair_holds_def Let_def)
next
  case True
  then obtain i where i: "t \<noteq> []" "first_sub t (val src) = Some i"
    by (auto simp: t_locate_text_def split: if_splits)
  have b: "i + length t \<le> length (val src)" using first_sub_bound i by blast
  moreover have "u32 (i + length t) = i + length t"
    using b val_bound [OF assms(1)] by (simp add: INT_MAX_def)
  ultimately show ?thesis
    using assms i split_at_holds [OF assms, of i]
    by (simp add: str_split_text_def str_split_text_common_def strlen_ok str_locate_text_eq
        t_split_text_def t_locate_text_def Let_def)
qed

lemma str_split_text_reverse_holds [str_spec]:
  assumes "mystr_ok src" and "mystr_ok rhs" and "short t"
  shows "pair_holds (str_split_text_reverse src rhs t) (t_split_text_reverse (val src) t)"
proof (cases "found (t_locate_text_reverse (val src) t)")
  case False
  then show ?thesis
    using assms str_empty_holds [OF assms(2)]
    by (auto simp: str_split_text_reverse_def str_split_text_common_def strlen_ok
        str_locate_text_reverse_eq t_split_text_reverse_def pair_holds_def Let_def)
next
  case True
  then obtain i where i: "t \<noteq> []" "last_sub t (val src) = Some i"
    by (auto simp: t_locate_text_reverse_def split: if_splits)
  have b: "i + length t \<le> length (val src)" using last_sub_bound i by blast
  moreover have "u32 (i + length t) = i + length t"
    using b val_bound [OF assms(1)] by (simp add: INT_MAX_def)
  ultimately show ?thesis
    using assms i split_at_holds [OF assms, of i]
    by (simp add: str_split_text_reverse_def str_split_text_common_def strlen_ok
        str_locate_text_reverse_eq t_split_text_reverse_def t_locate_text_reverse_def Let_def)
qed

lemma ministr_eq [simp]: "c \<noteq> NUL \<Longrightarrow> ministr c = [c]"
  by (simp add: ministr_def)

lemma short_ministr [simp]: "short (ministr c)"
  by (simp add: ministr_def INT_MAX_def cstr_def)

lemma str_split_char_holds [str_spec]:
  "mystr_ok src \<Longrightarrow> mystr_ok rhs \<Longrightarrow> c \<noteq> NUL \<Longrightarrow>
   pair_holds (str_split_char src rhs c) (t_split_char (val src) c)"
  using str_split_text_holds [of src rhs "ministr c"] short_ministr [of c]
  by (simp add: str_split_char_def t_split_char_def)

section \<open>Replacement\<close>

lemma replace_text_loop_ok:
  assumes "short fr" and "short to"
  shows "mystr_ok lhs \<Longrightarrow> mystr_ok rhs \<Longrightarrow> mystr_ok s \<Longrightarrow> length (val lhs) < k \<Longrightarrow>
    length (val s @ t_replace_text fr to (val lhs)) < INT_MAX \<Longrightarrow>
    \<exists>st s'. replace_text_loop k (lhs, rhs) s fr to = Inr (st, s') \<and> mystr_ok (fst st) \<and>
      mystr_ok (snd st) \<and> mystr_ok s' \<and> val s' = val s @ t_replace_text fr to (val lhs)"
proof (induction k arbitrary: lhs rhs s)
  case (Suc k)
  let ?v = "val lhs"
  obtain l r where lr: "t_split_text ?v fr = (l, r)" by fastforce
  obtain lhs1 rhs1 where sp: "str_split_text lhs rhs fr = Inr (lhs1, rhs1)" "mystr_ok lhs1"
    "mystr_ok rhs1" "val lhs1 = l" "val rhs1 = r"
    using str_split_text_holds [OF Suc.prems(1,2) assms(1)] lr
    by (metis fst_conv pair_holdsE snd_conv)
  define h where "h = (if length l < length ?v then to else [])"
  have rep: "t_replace_text fr to ?v = l @ h @ (if r = [] then [] else t_replace_text fr to r)"
    using lr by (subst t_replace_text.simps) (auto simp: h_def Let_def)
  have bnd: "length (val s @ l @ h) < INT_MAX" using Suc.prems(5) rep by simp
  obtain s1 where s1: "str_append_str s lhs1 = Inr s1" "mystr_ok s1" "val s1 = val s @ l"
    using str_append_str_holds [of s lhs1] Suc.prems(3) sp bnd by auto
  obtain s2 where s2: "(if str_getlen lhs1 < str_getlen lhs then str_append_text s1 to else Inr s1) = Inr s2"
    "mystr_ok s2" "val s2 = val s @ l @ h"
    using str_append_text_holds [of s1 to] s1 sp bnd assms(2) Suc.prems(1)
    by (cases "length l < length ?v") (auto simp: h_def str_getlen_def)
  obtain lhs2 where l2: "str_copy lhs1 rhs1 = Inr lhs2" "mystr_ok lhs2" "val lhs2 = r"
    using str_copy_holds [of lhs1 rhs1] sp by auto
  have step: "replace_text_loop (Suc k) (lhs, rhs) s fr to =
      (if r \<noteq> [] then replace_text_loop k (lhs2, rhs1) s2 fr to else Inr ((lhs2, rhs1), s2))"
    using sp s1 s2 l2 by (simp add: str_isempty_val Let_def)
  show ?case
  proof (cases "r = []")
    case True
    then show ?thesis using step s2 l2 sp rep by simp
  next
    case False
    then have "length r < length ?v" using length_split_rhs [of ?v fr] lr by simp
    then show ?thesis
      using False step Suc.IH [of lhs2 rhs1 s2] l2 sp s2 Suc.prems rep by simp
  qed
qed simp

lemma str_replace_text_ok:
  assumes "mystr_ok (fst st)" and "mystr_ok (snd st)" and "mystr_ok s" and "short fr" and "short to"
    and "length (t_replace_text fr to (val s)) < INT_MAX"
  shows "\<exists>st' s'. str_replace_text st s fr to = Inr (st', s') \<and> mystr_ok s' \<and>
           val s' = t_replace_text fr to (val s)"
proof -
  obtain lhs where l: "str_copy (fst st) s = Inr lhs" "mystr_ok lhs" "val lhs = val s"
    using str_copy_holds [OF assms(1,3)] by blast
  then show ?thesis
    using replace_text_loop_ok [OF assms(4,5), of lhs "snd st" "str_free s" "len s + 1"] assms
    by (auto simp: str_replace_text_def)
qed

section \<open>Lines\<close>

lemma line_scan_eq:
  "mystr_ok s \<Longrightarrow> pos + k = length (val s) \<Longrightarrow>
   line_scan k pos s = Inr (pos + length (takeWhile (\<lambda>c. c \<noteq> LF) (drop pos (val s))))"
proof (induction k arbitrary: pos)
  case (Suc k)
  then have i: "pos < length (val s)" by simp
  have "drop pos (val s) = val s ! pos # drop (Suc pos) (val s)" using i by (simp add: Cons_nth_drop_Suc)
  then show ?case using Suc mem_read_one [OF Suc.prems(1) i] by simp
qed simp

text \<open>One call of \<open>str_getline\<close> at a position inside the text.\<close>

lemma str_getline_end:
  assumes "mystr_ok s" and "mystr_ok l"
  shows "\<exists>s1 l1. str_getline s l (length (val s)) = Inr (False, s1, l1, length (val s)) \<and>
           mystr_ok s1 \<and> val s1 = val s \<and> mystr_ok l1 \<and> val l1 = []"
proof -
  obtain s1 where "str_getbuf s = Inr s1" "mystr_ok s1" "val s1 = val s"
    using str_getbuf_ok [OF assms(1)] by blast
  moreover obtain l1 where "str_empty l = Inr l1" "mystr_ok l1" "val l1 = []"
    using str_empty_holds [OF assms(2)] by blast
  ultimately show ?thesis using assms(1) by (simp add: str_getline_def str_getlen_def Let_def)
qed

lemma str_getline_line:
  assumes "mystr_ok s" and "mystr_ok l" and "pos < length (val s)"
  defines "t \<equiv> takeWhile (\<lambda>c. c \<noteq> LF) (drop pos (val s))"
  shows "\<exists>s1 l1. str_getline s l pos =
             Inr (True, s1, l1, pos + length t + (if pos + length t < length (val s) then 1 else 0)) \<and>
           mystr_ok s1 \<and> val s1 = val s \<and> mystr_ok l1 \<and> val l1 = t"
proof -
  let ?v = "val s" and ?e = "pos + length t"
  obtain s1 where s1: "str_getbuf s = Inr s1" "mystr_ok s1" "val s1 = val s"
    using str_getbuf_ok [OF assms(1)] by blast
  obtain l1 where l1: "str_empty l = Inr l1" "mystr_ok l1" "val l1 = []"
    using str_empty_holds [OF assms(2)] by blast
  have le: "?e \<le> length ?v"
    using length_takeWhile_le [of "\<lambda>c. c \<noteq> LF" "drop pos ?v"] assms(3) by (simp add: t_def)
  have sc: "line_scan (length ?v - pos) pos s1 = Inr ?e"
    using line_scan_eq [of s1 pos "length ?v - pos"] s1 assms(3) by (simp add: t_def)
  have at: "?v ! ?e = LF" if "?e < length ?v"
    using nth_length_takeWhile [of "\<lambda>c. c \<noteq> LF" "drop pos ?v"] that by (simp add: t_def)
  have nx: "(if ?e < length ?v then rbind (mem_read (p_buf s1, ?e) 1) (\<lambda>u.
              Inr (if u = [LF] then ?e + 1 else ?e)) else Inr ?e) =
            Inr (?e + (if ?e < length ?v then 1 else 0))"
    using at mem_read_one [OF s1(2), of ?e] s1(3) by simp
  have "take (length t) (drop pos ?v) = t" unfolding t_def by (metis takeWhile_eq_take)
  then have "readable (p_buf s1, pos) (length t) t"
    using readable_val [OF s1(2), of pos "length t"] le s1(3) by simp
  then obtain l2 where "private_str_alloc_memchunk l1 (p_buf s1, pos) (length t) = Inr l2"
    "mystr_ok l2" "val l2 = t"
    using alloc_memchunk_holds [OF l1(2), of _ "length t" t] le val_bound [OF assms(1)] by fastforce
  then show ?thesis
    using s1 l1 sc nx assms(1,3) by (simp add: str_getline_def str_getlen_def Let_def)
qed

lemma t_lines_step:
  assumes "pos < length v" and "t = takeWhile (\<lambda>c. c \<noteq> LF) (drop pos v)"
  shows "t_lines (drop pos v) =
           t # t_lines (drop (pos + length t + (if pos + length t < length v then 1 else 0)) v)"
proof -
  let ?u = "drop pos v"
  have "drop 1 (dropWhile (\<lambda>c. c \<noteq> LF) ?u) = drop (pos + length t + 1) v"
    using assms(2) by (simp add: dropWhile_eq_drop add.commute add.left_commute)
  moreover have "drop (pos + length t + 1) v = drop (pos + length t) v" if "\<not> pos + length t < length v"
    using that by simp
  ultimately show ?thesis using assms by (auto simp: t_lines.simps [of ?u])
qed

lemma contains_line_loop_eq:
  assumes "mystr_ok ln"
  shows "mystr_ok s \<Longrightarrow> mystr_ok cur \<Longrightarrow> pos \<le> length (val s) \<Longrightarrow> length (val s) - pos < k \<Longrightarrow>
    \<exists>s1 cur1. contains_line_loop k s cur ln pos =
        Inr (s1, cur1, val ln \<in> set (t_lines (drop pos (val s)))) \<and>
      mystr_ok s1 \<and> val s1 = val s \<and> mystr_ok cur1"
proof (induction k arbitrary: s cur pos)
  case (Suc k)
  show ?case
  proof (cases "pos = length (val s)")
    case True
    then show ?thesis using str_getline_end [OF Suc.prems(1,2)] by auto
  next
    case False
    then have p: "pos < length (val s)" using Suc.prems by simp
    define t where "t = takeWhile (\<lambda>c. c \<noteq> LF) (drop pos (val s))"
    define pos1 where "pos1 = pos + length t + (if pos + length t < length (val s) then 1 else 0)"
    obtain s1 l1 where g: "str_getline s cur pos = Inr (True, s1, l1, pos1)" "mystr_ok s1"
      "val s1 = val s" "mystr_ok l1" "val l1 = t"
      using str_getline_line [OF Suc.prems(1,2) p] by (auto simp: t_def pos1_def)
    have ls: "t_lines (drop pos (val s)) = t # t_lines (drop pos1 (val s))"
      unfolding pos1_def by (rule t_lines_step) (simp_all add: p t_def)
    have "length t \<le> length (val s) - pos"
      using length_takeWhile_le [of "\<lambda>c. c \<noteq> LF" "drop pos (val s)"] by (simp add: t_def)
    then have "pos1 \<le> length (val s)" "pos < pos1 \<or> pos + length t = length (val s)"
      using p by (auto simp: pos1_def)
    then have pos1: "pos1 \<le> length (val s)" "length (val s) - pos1 < k"
      using p Suc.prems(4) by (auto simp: pos1_def split: if_splits)
    then show ?thesis
      using g ls Suc.IH [of s1 l1 pos1] assms by (auto simp: str_equal_eq)
  qed
qed simp

section \<open>Operations that read the C string\<close>

lemma str_atoi_eq:
  assumes "mystr_ok s"
  shows "\<exists>s1. str_atoi s = Inr (s1, vsf_sysutil_atoi (cstr (val s))) \<and> mystr_ok s1 \<and> val s1 = val s"
  by (rule str_cstr_eq [OF assms]) (simp add: str_atoi_def)

lemma str_octal_to_uint_eq:
  assumes "mystr_ok s"
  shows "\<exists>s1. str_octal_to_uint s = Inr (s1, vsf_sysutil_octal_to_uint (cstr (val s))) \<and>
           mystr_ok s1 \<and> val s1 = val s"
  by (rule str_cstr_eq [OF assms]) (simp add: str_octal_to_uint_def)

lemma str_locate_str_eq:
  assumes "mystr_ok s" and "mystr_ok look" and "short (val look)"
  shows "\<exists>l1. str_locate_str s look = Inr (l1, t_locate_text (val s) (cstr (val look))) \<and>
           mystr_ok l1 \<and> val l1 = val look"
proof -
  obtain l1 where "str_cstr look = Inr (l1, cstr (val look))" "mystr_ok l1" "val l1 = val look"
    using str_cstr_eq [OF assms(2)] by blast
  moreover have "short (cstr (val look))" using assms(3) length_cstr_le [of "val look"] by linarith
  ultimately show ?thesis using assms(1) by (simp add: str_locate_str_def str_locate_text_eq)
qed

section \<open>The library as a whole\<close>

text \<open>A string object made from a text, for concrete inputs.\<close>

definition mk_mystr :: "string \<Rightarrow> mystr" where
  "mk_mystr t = \<lparr>p_buf = Some (map Some t @ [Some NUL]), len = length t, alloc_bytes = length t + 1\<rparr>"

lemma mk_mystr_ok [simp]: "length t < INT_MAX \<Longrightarrow> mystr_ok (mk_mystr t)"
  and val_mk_mystr [simp]: "val (mk_mystr t) = t"
  using mystr_okI [of "mk_mystr t" t "[]"] by (auto simp: mk_mystr_def mystr_ok_def val_def comp_def)

text \<open>Appending past the limit is refused before a byte moves.\<close>

lemma append_memchunk_too_big:
  assumes "mystr_ok s" and "n < INT_MAX" and "INT_MAX \<le> length (val s) + n"
  shows "private_str_append_memchunk s src n =
           Inl (Bug ''zero or big size in vsf_sysutil_realloc'')"
proof -
  have "alloc_bytes s \<le> INT_MAX" using assms(1) by (auto elim: mystr_ok_cases)
  moreover have "u32 (u32 (length (val s) + n) + 1) = length (val s) + n + 1"
    using assms(2) val_bound [OF assms(1)] by (simp add: INT_MAX_def)
  ultimately show ?thesis
    using assms by (simp add: private_str_append_memchunk_def vsf_sysutil_realloc_def Let_def)
qed

text \<open>
  Operations a client applies to one string, with texts of any length that an address space of
  \<open>2 ^ 32\<close> bytes can hold.
\<close>

datatype str_op =
    AllocText string
  | AppendText string
  | AppendChar char
  | Upper
  | ReplaceChar char char
  | ReplaceUnprintable char
  | Empty
  | Free

fun str_exec :: "str_op \<Rightarrow> mystr \<Rightarrow> mystr res" where
  "str_exec (AllocText t) s = str_alloc_text s t"
| "str_exec (AppendText t) s = str_append_text s t"
| "str_exec (AppendChar c) s = str_append_char s c"
| "str_exec Upper s = str_upper s"
| "str_exec (ReplaceChar a b) s = str_replace_char s a b"
| "str_exec (ReplaceUnprintable c) s = str_replace_unprintable s c"
| "str_exec Empty s = str_empty s"
| "str_exec Free s = Inr (str_free s)"

fun t_exec :: "str_op \<Rightarrow> string \<Rightarrow> string" where
  "t_exec (AllocText t) v = t"
| "t_exec (AppendText t) v = v @ t"
| "t_exec (AppendChar c) v = v @ [c]"
| "t_exec Upper v = t_upper v"
| "t_exec (ReplaceChar a b) v = t_replace_char v a b"
| "t_exec (ReplaceUnprintable c) v = map (\<lambda>x. if \<not> vsf_sysutil_isprint x then c else x) v"
| "t_exec Empty v = []"
| "t_exec Free v = []"

fun op_text :: "str_op \<Rightarrow> string" where
  "op_text (AllocText t) = t"
| "op_text (AppendText t) = t"
| "op_text _ = []"

text \<open>How a call on a well-formed string may end: with the expected text, or by a deliberate stop.\<close>

definition safe_or :: "mystr res \<Rightarrow> string \<Rightarrow> bool" where
  "safe_or r t \<longleftrightarrow> holds r t \<or> (\<exists>m. r = Inl (Bug m) \<or> r = Inl (Die m))"

lemma strlen_cases:
  assumes "length t < 4294967296"
  obtains "vsf_sysutil_strlen t = Inr (length t)" "short t"
  | "vsf_sysutil_strlen t = Inl (Die ''string suspiciously long'')"
  using assms by (cases "short t") (auto simp: vsf_sysutil_strlen_def Let_def)

lemma str_exec_safe:
  assumes "mystr_ok s" and "length (op_text p) < 4294967296"
  shows "safe_or (str_exec p s) (t_exec p (val s))"
proof (cases p)
  case (AllocText t)
  then show ?thesis using assms str_alloc_text_holds [OF assms(1), of t]
    by (auto simp: safe_or_def str_alloc_text_def elim!: strlen_cases [of t])
next
  case (AppendText t)
  have "length t < 4294967296" using AppendText assms(2) by simp
  then show ?thesis
  proof (cases rule: strlen_cases)
    case 1
    then show ?thesis using AppendText str_append_text_holds [OF assms(1), of t]
      append_memchunk_too_big [OF assms(1) short_bound [of t], of "text_ptr t"]
      by (cases "length (val s @ t) < INT_MAX") (auto simp: safe_or_def str_append_text_def)
  qed (simp add: AppendText safe_or_def str_append_text_def)
next
  case (AppendChar c)
  then show ?thesis using str_append_char_holds [OF assms(1), of c]
    append_memchunk_too_big [OF assms(1), of 1 "(Some [Some c], 0)"]
    by (cases "length (val s) + 1 < INT_MAX")
      (auto simp: safe_or_def str_append_char_def INT_MAX_def)
qed (use assms in \<open>auto simp: safe_or_def intro!: str_upper_holds str_replace_char_holds
      str_replace_unprintable_holds str_empty_holds\<close>)



text \<open>
  \<open>str_split_text\<close> never overruns and never stops: it cuts the string at the
  first occurrence of the text (no earlier position matches), drops the
  occurrence, and puts what follows into the second string; without an occurrence the first string
  is unchanged and the second becomes empty.
\<close>

theorem str_split_text_correct:
  assumes "mystr_ok src" and "mystr_ok rhs" and "short t" and "t \<noteq> []"
  shows "\<exists>l r. str_split_text src rhs t = Inr (l, r) \<and> mystr_ok l \<and> mystr_ok r \<and>
           (if \<exists>i. occurs_at t (val src) i
            then val src = val l @ t @ val r \<and> (\<forall>j < length (val l). \<not> occurs_at t (val src) j)
            else val l = val src \<and> val r = [])"
proof -
  obtain l r where lr: "str_split_text src rhs t = Inr (l, r)" "mystr_ok l" "mystr_ok r"
    "val l = fst (t_split_text (val src) t)" "val r = snd (t_split_text (val src) t)"
    using str_split_text_holds [OF assms(1-3)] by (rule pair_holdsE)
  show ?thesis
  proof (cases "first_sub t (val src)")
    case None
    then show ?thesis using lr assms(4)
      by (simp add: first_sub_None_iff t_split_text_def t_locate_text_def Let_def)
  next
    case (Some i)
    then have o: "occurs_at t (val src) i" "\<forall>j < i. \<not> occurs_at t (val src) j"
      using assms(4) by (auto simp: first_sub_Some_iff)
    then have "i \<le> length (val src)" by (simp add: occurs_at_def)
    then show ?thesis using lr assms(4) Some o occurs_at_split [OF o(1)]
      by (auto simp: t_split_text_def t_locate_text_def Let_def)
  qed
qed

text \<open>
  The loop of \<open>str_replace_text\<close> ends, within as many rounds as the string has bytes plus one,
  and replacing a single character (as the server does when it doubles quotes and protects control
  characters in replies) rewrites every occurrence and nothing else, as long as the result fits.
\<close>

theorem str_replace_text_correct:
  assumes "mystr_ok s" and "mystr_ok (fst st)" and "mystr_ok (snd st)" and "short to"
    and "length (concat (map (\<lambda>x. if x = c then to else [x]) (val s))) < INT_MAX"
  shows "\<exists>st' s'. str_replace_text st s [c] to = Inr (st', s') \<and> mystr_ok s' \<and>
           val s' = concat (map (\<lambda>x. if x = c then to else [x]) (val s))"
proof -
  have "short [c]" by (simp add: INT_MAX_def)
  then show ?thesis
    using str_replace_text_ok [of st s "[c]" to] assms by (auto simp: t_replace_text_char)
qed

text \<open>
  \<open>str_contains_line\<close> terminates and answers whether one of the lines of the text is exactly
  the given one; for a file written line by line this is membership in the list of lines.
\<close>

theorem str_contains_line_correct:
  assumes "mystr_ok cur" and "mystr_ok s" and "mystr_ok ln"
    and "val s = concat (map (\<lambda>l. l @ [LF]) ls)" and "\<forall>l \<in> set ls. LF \<notin> set l"
  shows "\<exists>s1 cur1. str_contains_line cur s ln = Inr (s1, cur1, val ln \<in> set ls) \<and>
           mystr_ok s1 \<and> val s1 = val s"
proof -
  have "t_lines (val s) = ls" using assms(4,5) by (simp add: t_lines_concat)
  then show ?thesis
    using contains_line_loop_eq [OF assms(3,2,1), of 0 "len s + 1"] assms(2)
    by (auto simp: str_contains_line_def)
qed

end
