(* ===== verification/Strlist.thy ===== *)
theory Strlist
  imports Mystr_Spec "HOL-Library.Multiset" "HOL-Library.List_Lexorder"
begin

text \<open>
  The growing array of strings of \<^verbatim>\<open>apps/vsftpd-2.2.0/strlist.c\<close>, which directory listings
  are collected and sorted in. The array is a buffer of cells, \<open>None\<close> until a node is
  stored; a node is 24 bytes on the target (two strings of 12 bytes), so the growth stops in the
  guard of \<open>vsf_sysutil_realloc\<close> long before \<open>alloc_len\<close> could wrap. The C library's \<open>qsort\<close> is a
  parameter of \<open>str_list_sort\<close>; what its documentation promises is \<open>qsort_sorts\<close>.
\<close>

section \<open>Model\<close>

record mystr_list_node =
  str :: mystr
  sort_key_str :: mystr

record mystr_list =
  alloc_len :: nat
  list_len :: nat
  p_nodes :: "mystr_list_node option list option"

definition INIT_STRLIST :: mystr_list where
  "INIT_STRLIST = \<lparr>alloc_len = 0, list_len = 0, p_nodes = None\<rparr>"

definition node_at :: "mystr_list \<Rightarrow> nat \<Rightarrow> mystr_list_node res" where
  "node_at l i =
     (case p_nodes l of
        None \<Rightarrow> Inl Overrun
      | Some cs \<Rightarrow>
          if i < length cs then (case cs ! i of None \<Rightarrow> Inl Overrun | Some n \<Rightarrow> Inr n)
          else Inl Overrun)"

text \<open>Freeing walks over the nodes in use (each must exist) and drops the array.\<close>

definition str_list_free :: "mystr_list \<Rightarrow> mystr_list res" where
  "str_list_free l =
     rbind (rfold (\<lambda>i u. rbind (node_at l i) (\<lambda>n. Inr u)) [0..<list_len l] ()) (\<lambda>_.
     Inr \<lparr>alloc_len = 0, list_len = 0, p_nodes = None\<rparr>)"

definition str_list_get_length :: "mystr_list \<Rightarrow> nat" where
  "str_list_get_length l = list_len l"

fun contains_str_loop :: "nat \<Rightarrow> nat \<Rightarrow> mystr_list \<Rightarrow> mystr \<Rightarrow> bool res" where
  "contains_str_loop 0 i l s = Inr False"
| "contains_str_loop (Suc k) i l s =
     rbind (node_at l i) (\<lambda>n. rbind (str_equal s (str n)) (\<lambda>e.
       if e then Inr True else contains_str_loop k (Suc i) l s))"

definition str_list_contains_str :: "mystr_list \<Rightarrow> mystr \<Rightarrow> bool res" where
  "str_list_contains_str l s = contains_str_loop (list_len l) 0 l s"

text \<open>The size in bytes that \<open>malloc\<close> and \<open>realloc\<close> are asked for, and their guard.\<close>

definition nodes_alloc :: "string \<Rightarrow> nat \<Rightarrow> mystr_list_node option list \<Rightarrow> mystr_list_node option list res" where
  "nodes_alloc who n old =
     (let size = u32 (n * 24) in
      if size = 0 \<or> size > INT_MAX then Inl (Bug (''zero or big size in '' @ who))
      else Inr (take n old @ replicate (n - length old) None))"

definition str_list_grow :: "mystr_list \<Rightarrow> mystr_list res" where
  "str_list_grow l =
     (if list_len l = alloc_len l
      then if alloc_len l = 0
           then rbind (nodes_alloc ''vsf_sysutil_malloc'' 32 []) (\<lambda>cs.
                Inr (l\<lparr>alloc_len := 32, p_nodes := Some cs\<rparr>))
           else
             let n = u32 (alloc_len l * 2)
             in rbind (nodes_alloc ''vsf_sysutil_realloc'' n (case p_nodes l of None \<Rightarrow> [] | Some cs \<Rightarrow> cs))
                  (\<lambda>cs. Inr (l\<lparr>alloc_len := n, p_nodes := Some cs\<rparr>))
      else Inr l)"

definition str_list_add :: "mystr_list \<Rightarrow> mystr \<Rightarrow> mystr option \<Rightarrow> mystr_list res" where
  "str_list_add l s key =
     rbind (str_list_grow l) (\<lambda>l1.
     rbind (str_copy INIT_MYSTR s) (\<lambda>s1.
     rbind (case key of None \<Rightarrow> Inr INIT_MYSTR | Some k \<Rightarrow> str_copy INIT_MYSTR k) (\<lambda>k1.
       case p_nodes l1 of
         None \<Rightarrow> Inl Overrun
       | Some cs \<Rightarrow>
           if list_len l1 < length cs
           then Inr (l1\<lparr>p_nodes := Some (cs[list_len l1 := Some \<lparr>str = s1, sort_key_str = k1\<rparr>]),
                        list_len := u32 (list_len l1 + 1)\<rparr>)
           else Inl Overrun)))"

definition sort_compare_common :: "mystr_list_node \<Rightarrow> mystr_list_node \<Rightarrow> bool \<Rightarrow> int res" where
  "sort_compare_common n1 n2 reverse =
     (let cmp1 = (if \<not> str_isempty (sort_key_str n1) then sort_key_str n1 else str n1);
          cmp2 = (if \<not> str_isempty (sort_key_str n2) then sort_key_str n2 else str n2)
      in if reverse then str_strcmp cmp2 cmp1 else str_strcmp cmp1 cmp2)"

type_synonym qsort_fun =
  "(mystr_list_node \<Rightarrow> mystr_list_node \<Rightarrow> int res) \<Rightarrow> mystr_list_node list \<Rightarrow> mystr_list_node list res"

definition sort_compare_func :: "mystr_list_node \<Rightarrow> mystr_list_node \<Rightarrow> int res" where
  "sort_compare_func n1 n2 = sort_compare_common n1 n2 False"

definition sort_compare_func_reverse :: "mystr_list_node \<Rightarrow> mystr_list_node \<Rightarrow> int res" where
  "sort_compare_func_reverse n1 n2 = sort_compare_common n1 n2 True"

definition nodes_of :: "mystr_list \<Rightarrow> mystr_list_node option list" where
  "nodes_of l = (case p_nodes l of None \<Rightarrow> [] | Some cs \<Rightarrow> take (list_len l) cs)"

definition str_list_sort :: "qsort_fun \<Rightarrow> mystr_list \<Rightarrow> bool \<Rightarrow> mystr_list res" where
  "str_list_sort qsort l reverse =
     (let cmp = (if \<not> reverse then sort_compare_func else sort_compare_func_reverse)
      in if None \<in> set (nodes_of l) \<or> length (nodes_of l) \<noteq> list_len l then Inl Overrun
         else rbind (qsort cmp (map the (nodes_of l))) (\<lambda>ns.
           Inr (case p_nodes l of
                  None \<Rightarrow> l
                | Some cs \<Rightarrow> l\<lparr>p_nodes := Some (map Some ns @ drop (list_len l) cs)\<rparr>)))"

definition str_list_get_pstr :: "mystr_list \<Rightarrow> nat \<Rightarrow> mystr res" where
  "str_list_get_pstr l indexx =
     (if indexx \<ge> list_len l then Inl (Bug ''indexx out of range in str_list_get_str'')
      else rbind (node_at l indexx) (\<lambda>n. Inr (str n)))"

section \<open>Invariant and abstraction\<close>

definition node_ok :: "mystr_list_node \<Rightarrow> bool" where
  "node_ok n \<longleftrightarrow> mystr_ok (str n) \<and> mystr_ok (sort_key_str n)"

text \<open>The capacity is 0 or 32 doubled at most 21 times, the largest that \<open>realloc\<close> accepts.\<close>

definition strlist_max :: nat where
  "strlist_max = 67108864"

definition capacity_ok :: "nat \<Rightarrow> bool" where
  "capacity_ok n \<longleftrightarrow> n = 0 \<or> (\<exists>k \<le> 21. n = 32 * 2 ^ k)"

definition strlist_ok :: "mystr_list \<Rightarrow> bool" where
  "strlist_ok l \<longleftrightarrow>
     capacity_ok (alloc_len l) \<and> list_len l \<le> alloc_len l \<and>
     (p_nodes l = None \<longleftrightarrow> alloc_len l = 0) \<and>
     (\<forall>cs. p_nodes l = Some cs \<longrightarrow> length cs = alloc_len l \<and>
        None \<notin> set (take (list_len l) cs) \<and> list_all node_ok (map the (take (list_len l) cs)))"

definition nodes :: "mystr_list \<Rightarrow> mystr_list_node list" where
  "nodes l = map the (nodes_of l)"

text \<open>An entry is its name and its sort key; the key a comparison uses.\<close>

type_synonym entry = "string \<times> string"

definition node_entry :: "mystr_list_node \<Rightarrow> entry" where
  "node_entry n = (val (str n), val (sort_key_str n))"

definition entries :: "mystr_list \<Rightarrow> entry list" where
  "entries l = map node_entry (nodes l)"

definition cmp_key :: "entry \<Rightarrow> string" where
  "cmp_key e = (if snd e \<noteq> [] then snd e else fst e)"

lemma strlist_ok_INIT [simp]: "strlist_ok INIT_STRLIST" and entries_INIT [simp]: "entries INIT_STRLIST = []"
  by (auto simp: strlist_ok_def INIT_STRLIST_def capacity_ok_def entries_def nodes_def nodes_of_def)

lemma strlist_okD:
  assumes "strlist_ok l"
  shows "None \<notin> set (nodes_of l)" and "length (nodes_of l) = list_len l"
    and "list_all node_ok (nodes l)" and "length (nodes l) = list_len l"
    and "length (entries l) = list_len l"
  using assms
  by (auto simp: strlist_ok_def nodes_of_def nodes_def entries_def split: option.splits)

lemma node_at_ok:
  assumes "strlist_ok l" and "i < list_len l"
  shows "node_at l i = Inr (nodes l ! i)" and "node_ok (nodes l ! i)"
proof -
  obtain cs where cs: "p_nodes l = Some cs" "length cs = alloc_len l" "list_len l \<le> length cs"
    "None \<notin> set (take (list_len l) cs)"
    using assms by (auto simp: strlist_ok_def)
  have "cs ! i \<in> set (take (list_len l) cs)"
    using assms(2) cs(3) by (metis in_set_conv_nth length_take min.absorb2 nth_take)
  then obtain n where "cs ! i = Some n" using cs(4) by (metis not_None_eq)
  then show "node_at l i = Inr (nodes l ! i)"
    using cs assms(2) by (simp add: node_at_def nodes_def nodes_of_def)
  show "node_ok (nodes l ! i)"
    using strlist_okD(3,4) [OF assms(1)] assms(2) by (simp add: list_all_length)
qed

lemma nth_entries: "strlist_ok l \<Longrightarrow> i < list_len l \<Longrightarrow> entries l ! i = node_entry (nodes l ! i)"
  using strlist_okD(4) [of l] by (simp add: entries_def)

section \<open>Growth\<close>

lemma capacity_bound: "capacity_ok n \<Longrightarrow> n \<le> strlist_max"
proof -
  have "32 * 2 ^ k \<le> 32 * (2 ^ 21 :: nat)" if "k \<le> 21" for k :: nat
    by (intro mult_le_mono2 power_increasing that) simp
  then show "capacity_ok n \<Longrightarrow> n \<le> strlist_max"
    by (auto simp: capacity_ok_def strlist_max_def)
qed

lemma capacity_double:
  assumes "capacity_ok n" and "n \<noteq> 0" and "n < strlist_max"
  shows "capacity_ok (n * 2)"
proof -
  obtain k where k: "k \<le> 21" "n = 32 * 2 ^ k" using assms by (auto simp: capacity_ok_def)
  then have "k \<noteq> 21" using assms(3) by (auto simp: strlist_max_def)
  then show ?thesis using k by (auto simp: capacity_ok_def intro!: exI [of _ "Suc k"])
qed

lemma nodes_alloc_ok:
  "0 < n \<Longrightarrow> n \<le> strlist_max \<Longrightarrow> length old \<le> n \<Longrightarrow>
   nodes_alloc who n old = Inr (old @ replicate (n - length old) None)"
  by (simp add: nodes_alloc_def strlist_max_def INT_MAX_def Let_def)

lemma str_list_grow_ok:
  assumes "strlist_ok l" and "list_len l < strlist_max"
  shows "\<exists>l1 cs. str_list_grow l = Inr l1 \<and> strlist_ok l1 \<and> nodes l1 = nodes l \<and>
           list_len l1 = list_len l \<and> p_nodes l1 = Some cs \<and> list_len l < length cs"
proof (cases "list_len l = alloc_len l")
  case False
  then have "str_list_grow l = Inr l" by (simp add: str_list_grow_def)
  then show ?thesis using assms False by (fastforce simp: strlist_ok_def)
next
  case full: True
  show ?thesis
  proof (cases "alloc_len l = 0")
    case True
    have "capacity_ok 32" by (auto simp: capacity_ok_def intro!: exI [of _ 0])
    then show ?thesis using True full assms(1)
      by (auto simp: str_list_grow_def nodes_alloc_ok strlist_max_def strlist_ok_def nodes_def
          nodes_of_def split: option.splits)
  next
    case False
    let ?n = "alloc_len l * 2"
    obtain cs where cs: "p_nodes l = Some cs" "length cs = alloc_len l"
      using assms(1) False by (auto simp: strlist_ok_def)
    have c: "capacity_ok ?n" using capacity_double False full assms by (simp add: strlist_ok_def)
    then have "?n \<le> strlist_max" by (rule capacity_bound)
    moreover from this have "u32 ?n = ?n" by (simp add: strlist_max_def)
    ultimately have "str_list_grow l = Inr (l\<lparr>alloc_len := ?n,
        p_nodes := Some (cs @ replicate (alloc_len l) None)\<rparr>)"
      using False full cs by (simp add: str_list_grow_def nodes_alloc_ok)
    then show ?thesis
      using c cs full False assms(1) by (auto simp: strlist_ok_def nodes_def nodes_of_def)
  qed
qed

lemma str_list_grow_full:
  assumes "strlist_ok l" and "list_len l = strlist_max"
  shows "str_list_grow l = Inl (Bug ''zero or big size in vsf_sysutil_realloc'')"
proof -
  have "alloc_len l = strlist_max"
    using assms capacity_bound [of "alloc_len l"] by (auto simp: strlist_ok_def)
  then show ?thesis
    using assms(2) by (simp add: str_list_grow_def nodes_alloc_def strlist_max_def INT_MAX_def Let_def)
qed

section \<open>The list operations\<close>

definition list_holds :: "mystr_list res \<Rightarrow> entry list \<Rightarrow> bool" where
  "list_holds r es \<longleftrightarrow> (case r of Inr l \<Rightarrow> strlist_ok l \<and> entries l = es | Inl _ \<Rightarrow> False)"

lemma list_holdsE:
  assumes "list_holds r es"
  obtains l where "r = Inr l" "strlist_ok l" "entries l = es"
  using assms by (cases r) (auto simp: list_holds_def)

lemma str_list_add_ok:
  assumes "strlist_ok l" and "mystr_ok s" and "\<forall>k. key = Some k \<longrightarrow> mystr_ok k"
    and "list_len l < strlist_max"
  shows "list_holds (str_list_add l s key)
           (entries l @ [(val s, case key of None \<Rightarrow> [] | Some k \<Rightarrow> val k)])"
proof -
  obtain l1 cs where g: "str_list_grow l = Inr l1" "strlist_ok l1" "nodes l1 = nodes l"
    "list_len l1 = list_len l" "p_nodes l1 = Some cs" "list_len l < length cs"
    using str_list_grow_ok [OF assms(1,4)] by blast
  obtain s1 where s1: "str_copy INIT_MYSTR s = Inr s1" "mystr_ok s1" "val s1 = val s"
    using str_copy_holds [of INIT_MYSTR s] assms(2) by auto
  obtain k1 where k1: "(case key of None \<Rightarrow> Inr INIT_MYSTR | Some k \<Rightarrow> str_copy INIT_MYSTR k) = Inr k1"
    "mystr_ok k1" "val k1 = (case key of None \<Rightarrow> [] | Some k \<Rightarrow> val k)"
  proof (cases key)
    case (Some k)
    then show ?thesis using that str_copy_holds [of INIT_MYSTR k] assms(3) by auto
  qed (use that in simp)
  let ?n = "\<lparr>str = s1, sort_key_str = k1\<rparr>"
  let ?l2 = "l1\<lparr>p_nodes := Some (cs[list_len l := Some ?n]), list_len := list_len l + 1\<rparr>"
  have "u32 (list_len l + 1) = list_len l + 1" using assms(4) by (simp add: strlist_max_def)
  then have r: "str_list_add l s key = Inr ?l2" using g s1 k1 by (simp add: str_list_add_def)
  have t: "take (Suc (list_len l)) (cs[list_len l := Some ?n]) = take (list_len l) cs @ [Some ?n]"
    using g(6) by (simp add: take_Suc_conv_app_nth)
  then have "strlist_ok ?l2" using g s1 k1 by (auto simp: strlist_ok_def node_ok_def)
  moreover have "nodes ?l2 = nodes l @ [?n]" using t g by (simp add: nodes_def nodes_of_def)
  ultimately show ?thesis using r s1 k1 by (simp add: list_holds_def entries_def node_entry_def)
qed

lemma contains_str_loop_eq:
  assumes "strlist_ok l" and "mystr_ok s"
  shows "i + k = list_len l \<Longrightarrow>
         contains_str_loop k i l s = Inr (val s \<in> set (map fst (drop i (entries l))))"
proof (induction k arbitrary: i)
  case 0
  then show ?case using strlist_okD(5) [OF assms(1)] by simp
next
  case (Suc k)
  then have i: "i < list_len l" by simp
  then have "drop i (entries l) = entries l ! i # drop (Suc i) (entries l)"
    using strlist_okD(5) [OF assms(1)] by (simp add: Cons_nth_drop_Suc)
  then show ?case
    using Suc node_at_ok [OF assms(1) i] nth_entries [OF assms(1) i] assms(2)
    by (auto simp: str_equal_eq node_ok_def node_entry_def)
qed

lemma str_list_contains_str_eq:
  "strlist_ok l \<Longrightarrow> mystr_ok s \<Longrightarrow>
   str_list_contains_str l s = Inr (val s \<in> set (map fst (entries l)))"
  by (simp add: str_list_contains_str_def contains_str_loop_eq)

lemma str_list_get_pstr_eq:
  assumes "strlist_ok l"
  shows "if i < length (entries l)
         then holds (str_list_get_pstr l i) (fst (entries l ! i))
         else str_list_get_pstr l i = Inl (Bug ''indexx out of range in str_list_get_str'')"
  using node_at_ok [OF assms] nth_entries [OF assms] strlist_okD(5) [OF assms]
  by (auto simp: str_list_get_pstr_def node_ok_def node_entry_def)

lemma str_list_free_ok: "strlist_ok l \<Longrightarrow> list_holds (str_list_free l) []"
proof -
  assume ok: "strlist_ok l"
  have "rfold (\<lambda>i u. rbind (node_at l i) (\<lambda>n. Inr u)) is () = Inr ()"
    if "\<forall>i \<in> set is. i < list_len l" for "is"
    using that by (induction "is") (auto simp: node_at_ok [OF ok])
  then have "str_list_free l = Inr INIT_STRLIST" by (simp add: str_list_free_def INIT_STRLIST_def)
  then show ?thesis by (simp add: list_holds_def)
qed

section \<open>Order\<close>

text \<open>\<open>str_strcmp\<close> orders texts as \<open>strcmp\<close> does: byte by byte, a proper prefix first.\<close>

lemma t_strcmp_simps:
  "t_strcmp [] [] = 0" "t_strcmp [] (b # t) < 0" "t_strcmp (a # s) [] > 0"
  "t_strcmp (a # s) (b # t) = (if a = b then t_strcmp s t else if ord a < ord b then -1 else 1)"
  by (auto simp: t_strcmp_def Let_def)

lemma t_strcmp_le: "t_strcmp s t \<le> 0 \<longleftrightarrow> map ord s \<le> (map ord t :: nat list)"
proof (induction s arbitrary: t)
  case Nil
  then show ?case using t_strcmp_simps(1,2) by (cases t) (auto intro: less_imp_le)
next
  case (Cons a s)
  then show ?case using t_strcmp_simps(3) [of a s] t_strcmp_simps(4) [of a s]
    by (cases t) (auto simp: not_le)
qed

text \<open>
  What \<open>qsort\<close> promises: given a comparison that behaves as a total preorder on the elements, it
  permutes them into an order in which no element compares greater than a later one.
\<close>

definition qsort_sorts :: "qsort_fun \<Rightarrow> bool" where
  "qsort_sorts qsort \<longleftrightarrow>
     (\<forall>cmp f xs.
        (\<forall>x \<in> set xs. \<forall>y \<in> set xs. cmp x y = Inr (f x y) \<and> (f x y \<le> 0 \<or> f y x \<le> 0)) \<longrightarrow>
        (\<forall>x \<in> set xs. \<forall>y \<in> set xs. \<forall>z \<in> set xs. f x y \<le> 0 \<longrightarrow> f y z \<le> 0 \<longrightarrow> f x z \<le> (0::int)) \<longrightarrow>
        (\<exists>ys. qsort cmp xs = Inr ys \<and> mset ys = mset xs \<and> sorted_wrt (\<lambda>x y. f x y \<le> 0) ys))"

lemma qsort_sortsD:
  assumes "qsort_sorts qsort"
    and "\<And>x y. x \<in> set xs \<Longrightarrow> y \<in> set xs \<Longrightarrow> cmp x y = Inr (f x y)"
    and "\<And>x y. f x y \<le> 0 \<or> f y x \<le> 0"
    and "\<And>x y z. f x y \<le> 0 \<Longrightarrow> f y z \<le> 0 \<Longrightarrow> f x z \<le> (0::int)"
  obtains ys where "qsort cmp xs = Inr ys" "mset ys = mset xs" "sorted_wrt (\<lambda>x y. f x y \<le> 0) ys"
proof -
  have "\<forall>x \<in> set xs. \<forall>y \<in> set xs. cmp x y = Inr (f x y) \<and> (f x y \<le> 0 \<or> f y x \<le> 0)"
    using assms(2,3) by simp
  moreover have "\<forall>x \<in> set xs. \<forall>y \<in> set xs. \<forall>z \<in> set xs. f x y \<le> 0 \<longrightarrow> f y z \<le> 0 \<longrightarrow> f x z \<le> 0"
    using assms(4) by simp
  ultimately show ?thesis
    using assms(1) [unfolded qsort_sorts_def, THEN spec [of _ cmp], THEN spec [of _ f],
        THEN spec [of _ xs]] that by iprover
qed

definition in_order :: "bool \<Rightarrow> entry \<Rightarrow> entry \<Rightarrow> bool" where
  "in_order reverse e1 e2 \<longleftrightarrow>
     (if reverse then map ord (cmp_key e2) \<le> (map ord (cmp_key e1) :: nat list)
      else map ord (cmp_key e1) \<le> (map ord (cmp_key e2) :: nat list))"

definition node_cmp :: "bool \<Rightarrow> mystr_list_node \<Rightarrow> mystr_list_node \<Rightarrow> int" where
  "node_cmp reverse n1 n2 =
     (let a = cmp_key (node_entry n1); b = cmp_key (node_entry n2)
      in if reverse then t_strcmp b a else t_strcmp a b)"

lemma sort_compare_common_eq:
  assumes "node_ok n1" and "node_ok n2"
  shows "sort_compare_common n1 n2 reverse = Inr (node_cmp reverse n1 n2)"
  using assms
  by (auto simp: sort_compare_common_def node_cmp_def cmp_key_def node_entry_def node_ok_def
      str_isempty_val str_strcmp_eq Let_def)

lemma node_cmp_le: "node_cmp reverse n1 n2 \<le> 0 \<longleftrightarrow> in_order reverse (node_entry n1) (node_entry n2)"
  by (simp add: node_cmp_def in_order_def t_strcmp_le Let_def)

lemma str_list_sort_ok:
  assumes "qsort_sorts qsort" and "strlist_ok l"
  shows "\<exists>es. list_holds (str_list_sort qsort l reverse) es \<and> mset es = mset (entries l) \<and>
           sorted_wrt (in_order reverse) es"
proof -
  let ?cmp = "if \<not> reverse then sort_compare_func else sort_compare_func_reverse"
  let ?f = "node_cmp reverse"
  have ok: "node_ok n" if "n \<in> set (nodes l)" for n
    using strlist_okD(3) [OF assms(2)] that by (simp add: list_all_iff)
  have cmp: "?cmp x y = Inr (?f x y)" if "x \<in> set (nodes l)" "y \<in> set (nodes l)" for x y
    using sort_compare_common_eq [of x y] ok that
    by (simp add: sort_compare_func_def sort_compare_func_reverse_def)
  have tot: "?f x y \<le> 0 \<or> ?f y x \<le> 0" for x y
    unfolding node_cmp_le in_order_def by (cases reverse) (simp_all add: linear)
  have trans: "?f x y \<le> 0 \<Longrightarrow> ?f y z \<le> 0 \<Longrightarrow> ?f x z \<le> 0" for x y z
    unfolding node_cmp_le in_order_def by (cases reverse) (simp, metis order_trans)+
  obtain ns where ns: "qsort ?cmp (nodes l) = Inr ns" "mset ns = mset (nodes l)"
    "sorted_wrt (\<lambda>x y. ?f x y \<le> 0) ns"
    by (rule qsort_sortsD [of qsort "nodes l" ?cmp ?f, OF assms(1) cmp tot trans])
  have len: "length ns = list_len l"
    using ns(2) strlist_okD(4) [OF assms(2)] by (metis size_mset)
  have ok': "list_all node_ok ns" using ok mset_eq_setD [OF ns(2)] by (simp add: list_all_iff)
  define l' where "l' = (case p_nodes l of None \<Rightarrow> l
      | Some cs \<Rightarrow> l\<lparr>p_nodes := Some (map Some ns @ drop (list_len l) cs)\<rparr>)"
  have r: "str_list_sort qsort l reverse = Inr l'"
    using ns(1) strlist_okD(1,2) [OF assms(2)] by (simp add: str_list_sort_def nodes_def Let_def l'_def)
  have "strlist_ok l' \<and> nodes l' = ns"
  proof (cases "p_nodes l")
    case None
    then have "ns = []" "nodes l = []"
      using len assms(2) by (auto simp: strlist_ok_def nodes_def nodes_of_def)
    then show ?thesis using None assms(2) by (simp add: l'_def)
  next
    case (Some cs)
    then show ?thesis using assms(2) len ok'
      by (auto simp: l'_def strlist_ok_def nodes_def nodes_of_def comp_def)
  qed
  moreover have "sorted_wrt (in_order reverse) (map node_entry ns)"
    using ns(3) by (simp add: sorted_wrt_map node_cmp_le)
  moreover have "mset (map node_entry ns) = mset (entries l)" using ns(2) by (simp add: entries_def)
  ultimately show ?thesis using r
    by (intro exI [of _ "map node_entry ns"]) (simp add: list_holds_def entries_def)
qed

section \<open>Properties\<close>

text \<open>
  Starting from the empty list, any number of additions up to the capacity limit of
  67108864 keeps the list well formed and in order of arrival, whatever the reallocations
  on the way; the next addition is refused by the guard in \<open>vsf_sysutil_realloc\<close> instead of
  wrapping \<open>alloc_len\<close>.
\<close>

theorem str_list_add_all:
  assumes "\<forall>s \<in> set ss. mystr_ok s"
  shows "if length ss \<le> strlist_max
         then list_holds (rfold (\<lambda>s l. str_list_add l s None) ss INIT_STRLIST) (map (\<lambda>s. (val s, [])) ss)
         else rfold (\<lambda>s l. str_list_add l s None) ss INIT_STRLIST =
                Inl (Bug ''zero or big size in vsf_sysutil_realloc'')"
proof -
  let ?add = "\<lambda>s l. str_list_add l s None"
  have run: "list_holds (rfold ?add us INIT_STRLIST) (map (\<lambda>s. (val s, [])) us)"
    if "length us \<le> strlist_max" "\<forall>s \<in> set us. mystr_ok s" for us
    using that
  proof (induction us rule: rev_induct)
    case Nil
    then show ?case by (simp add: list_holds_def)
  next
    case (snoc u us)
    then obtain l where l: "rfold ?add us INIT_STRLIST = Inr l" "strlist_ok l"
      "entries l = map (\<lambda>s. (val s, [])) us"
      by (auto elim: list_holdsE)
    then have "list_len l < strlist_max" using strlist_okD(5) [OF l(2)] snoc.prems by simp
    then show ?case using l str_list_add_ok [OF l(2), of u None] snoc.prems
      by (simp add: rfold_append)
  qed
  show ?thesis
  proof (cases "length ss \<le> strlist_max")
    case True
    then show ?thesis using run assms by simp
  next
    case False
    let ?us = "take strlist_max ss"
    obtain u vs where uv: "ss = ?us @ u # vs"
      using False by (metis append_take_drop_id drop_eq_Nil list.exhaust)
    have lu: "length ?us = strlist_max" using False by simp
    have "\<forall>s \<in> set ?us. mystr_ok s" using assms set_take_subset [of strlist_max ss] by blast
    then have "list_holds (rfold ?add ?us INIT_STRLIST) (map (\<lambda>s. (val s, [])) ?us)"
      using lu by (intro run) simp_all
    then obtain l where l: "rfold ?add ?us INIT_STRLIST = Inr l" "strlist_ok l"
      "entries l = map (\<lambda>s. (val s, [])) ?us"
      by (auto elim: list_holdsE)
    then have "list_len l = strlist_max" using strlist_okD(5) [OF l(2)] lu by simp
    then have "?add u l = Inl (Bug ''zero or big size in vsf_sysutil_realloc'')"
      using str_list_grow_full [OF l(2)] by (simp add: str_list_add_def)
    then have "rfold ?add (?us @ u # vs) INIT_STRLIST =
        Inl (Bug ''zero or big size in vsf_sysutil_realloc'')"
      by (simp only: rfold_append l(1) rbind.simps rfold.simps)
    then show ?thesis using False by (simp only: uv [symmetric] if_False)
  qed
qed

theorem str_list_add_all_witness:
  "list_holds (rfold (\<lambda>s l. str_list_add l s None) [mk_mystr ''b'', mk_mystr ''a''] INIT_STRLIST)
     [(''b'', []), (''a'', [])]"
  using str_list_add_all [of "[mk_mystr ''b'', mk_mystr ''a'']"]
  by (simp add: INT_MAX_def strlist_max_def)

text \<open>Insertion sort, one implementation that keeps the promise.\<close>

fun insert_by :: "('a \<Rightarrow> 'a \<Rightarrow> int res) \<Rightarrow> 'a \<Rightarrow> 'a list \<Rightarrow> 'a list res" where
  "insert_by cmp x [] = Inr [x]"
| "insert_by cmp x (y # ys) =
     rbind (cmp x y) (\<lambda>r. if r \<le> 0 then Inr (x # y # ys)
                          else rbind (insert_by cmp x ys) (\<lambda>zs. Inr (y # zs)))"

fun isort_by :: "('a \<Rightarrow> 'a \<Rightarrow> int res) \<Rightarrow> 'a list \<Rightarrow> 'a list res" where
  "isort_by cmp [] = Inr []"
| "isort_by cmp (x # xs) = rbind (isort_by cmp xs) (insert_by cmp x)"

lemma insert_by_sorts:
  assumes "\<forall>x \<in> A. \<forall>y \<in> A. cmp x y = Inr (f x y) \<and> (f x y \<le> 0 \<or> f y x \<le> (0::int))"
    and "\<forall>x \<in> A. \<forall>y \<in> A. \<forall>z \<in> A. f x y \<le> 0 \<longrightarrow> f y z \<le> 0 \<longrightarrow> f x z \<le> 0"
  shows "x \<in> A \<Longrightarrow> set ys \<subseteq> A \<Longrightarrow> sorted_wrt (\<lambda>x y. f x y \<le> 0) ys \<Longrightarrow>
         \<exists>zs. insert_by cmp x ys = Inr zs \<and> mset zs = add_mset x (mset ys) \<and>
              sorted_wrt (\<lambda>x y. f x y \<le> 0) zs"
proof (induction ys)
  case (Cons y ys)
  then have xy: "cmp x y = Inr (f x y)" "f x y \<le> 0 \<or> f y x \<le> 0" using assms(1) by auto
  show ?case
  proof (cases "f x y \<le> 0")
    case True
    have "f x z \<le> 0" if "z \<in> set ys" for z
      using True Cons.prems that assms(2) [THEN bspec, THEN bspec, THEN bspec, of x y z] by auto
    then show ?thesis using True xy Cons.prems by simp
  next
    case False
    obtain zs where zs: "insert_by cmp x ys = Inr zs" "mset zs = add_mset x (mset ys)"
      "sorted_wrt (\<lambda>x y. f x y \<le> 0) zs" using Cons by auto
    then have "set zs = insert x (set ys)" by (metis set_mset_add_mset_insert set_mset_mset)
    then show ?thesis using False xy zs Cons.prems by auto
  qed
qed simp

lemma isort_by_sorts: "qsort_sorts isort_by"
  unfolding qsort_sorts_def
proof (intro allI impI, goal_cases)
  case (1 cmp f xs)
  let ?S = "sorted_wrt (\<lambda>x y. f x y \<le> 0)"
  have "\<exists>zs. isort_by cmp ys = Inr zs \<and> mset zs = mset ys \<and> ?S zs" if "set ys \<subseteq> set xs" for ys
    using that
  proof (induction ys)
    case (Cons y ys)
    then obtain us where us: "isort_by cmp ys = Inr us" "mset us = mset ys" "?S us" by auto
    moreover have "set us \<subseteq> set xs" using us(2) Cons.prems by (metis mset_eq_setD set_subset_Cons subset_trans)
    ultimately show ?case using insert_by_sorts [OF 1, of y us] Cons.prems by auto
  qed simp
  then show ?case by blast
qed

text \<open>
  \<open>str_list_sort\<close> turns a list into a permutation of itself that is sorted by the key of each
  entry (the sort key if it has one, else the name), bytewise with prefixes first, ascending or, for
  the reverse flag, descending; no comparison overruns.
\<close>

theorem str_list_sort_correct:
  assumes "qsort_sorts qsort" and "strlist_ok l"
  shows "\<exists>l'. str_list_sort qsort l reverse = Inr l' \<and> strlist_ok l' \<and>
           mset (entries l') = mset (entries l) \<and> sorted_wrt (in_order reverse) (entries l')"
  using str_list_sort_ok [OF assms, of reverse] by (auto elim!: list_holdsE)

end
