(* ===== verification/Hash.thy ===== *)
theory Hash
  imports Sysutil
begin

text \<open>
  The hash table of \<^verbatim>\<open>apps/vsftpd-2.2.0/hash.c\<close>, pointer by pointer: an array of bucket
  heads and doubly linked nodes on a heap. A pointer is an address, 0 the null pointer;
  \<open>malloc\<close> hands out the address \<open>brk\<close>. Keys and values are fixed-size blobs that the table copies and
  compares as a whole, here values of the types \<open>'k\<close> and \<open>'v\<close>. The pointer to a value
  that a lookup returns, through which the caller may change the value in place, is the address of
  the node that owns it. Following a pointer to a node that does not exist is an \<open>Overrun\<close>.
\<close>

section \<open>Model\<close>

record ('k, 'v) hash_node =
  p_key :: 'k
  p_value :: 'v
  p_prev :: nat
  p_next :: nat

record ('k, 'v) hash =
  buckets :: nat
  key_size :: nat
  value_size :: nat
  hash_func :: "nat \<Rightarrow> 'k \<Rightarrow> nat"
  p_heads :: "nat list"
  heap :: "nat \<Rightarrow> ('k, 'v) hash_node option"
  brk :: nat

definition deref :: "(nat \<Rightarrow> ('k, 'v) hash_node option) \<Rightarrow> nat \<Rightarrow> ('k, 'v) hash_node res" where
  "deref H a = (case H a of None \<Rightarrow> Inl Overrun | Some n \<Rightarrow> Inr n)"

definition hash_alloc :: "nat \<Rightarrow> nat \<Rightarrow> nat \<Rightarrow> (nat \<Rightarrow> 'k \<Rightarrow> nat) \<Rightarrow> ('k, 'v) hash res" where
  "hash_alloc nbuckets ksize vsize f =
     (let size = u32 (4 * nbuckets) in
      rbind (vsf_sysutil_malloc size) (\<lambda>mem.
      rbind (vsf_sysutil_memclr (Some mem) size) (\<lambda>_.
      Inr \<lparr>buckets = nbuckets, key_size = ksize, value_size = vsize, hash_func = f,
           p_heads = replicate (size div 4) 0, heap = (\<lambda>_. None), brk = 1\<rparr>)))"

definition hash_get_bucket :: "('k, 'v) hash \<Rightarrow> 'k \<Rightarrow> nat res" where
  "hash_get_bucket h k =
     (let bucket = hash_func h (buckets h) k in
      if bucket \<ge> buckets h then Inl (Bug ''bad bucket lookup'') else Inr bucket)"

definition bucket_head :: "('k, 'v) hash \<Rightarrow> nat \<Rightarrow> nat res" where
  "bucket_head h b = (if b < length (p_heads h) then Inr (p_heads h ! b) else Inl Overrun)"

text \<open>The search loop; it is granted as many rounds as nodes were ever allocated.\<close>

fun node_walk :: "nat \<Rightarrow> (nat \<Rightarrow> ('k, 'v) hash_node option) \<Rightarrow> nat \<Rightarrow> 'k \<Rightarrow> nat res" where
  "node_walk 0 H a k = (if a = 0 then Inr 0 else Inl Hang)"
| "node_walk (Suc fuel) H a k =
     (if a = 0 then Inr 0
      else rbind (deref H a) (\<lambda>n. if k = p_key n then Inr a else node_walk fuel H (p_next n) k))"

definition hash_get_node_by_key :: "('k, 'v) hash \<Rightarrow> 'k \<Rightarrow> nat res" where
  "hash_get_node_by_key h k =
     rbind (hash_get_bucket h k) (\<lambda>b. rbind (bucket_head h b) (\<lambda>a. node_walk (brk h) (heap h) a k))"

definition hash_lookup_entry :: "('k, 'v) hash \<Rightarrow> 'k \<Rightarrow> nat res" where
  "hash_lookup_entry h k =
     rbind (hash_get_node_by_key h k) (\<lambda>a.
       if a = 0 then Inr 0 else rbind (deref (heap h) a) (\<lambda>n. Inr a))"

text \<open>Reading and writing the value through the returned pointer.\<close>

definition value_load :: "('k, 'v) hash \<Rightarrow> nat \<Rightarrow> 'v res" where
  "value_load h a = rbind (deref (heap h) a) (\<lambda>n. Inr (p_value n))"

definition value_store :: "('k, 'v) hash \<Rightarrow> nat \<Rightarrow> 'v \<Rightarrow> ('k, 'v) hash res" where
  "value_store h a v =
     rbind (deref (heap h) a) (\<lambda>n. Inr (h\<lparr>heap := (heap h)(a \<mapsto> n\<lparr>p_value := v\<rparr>)\<rparr>))"

definition hash_add_entry :: "('k, 'v) hash \<Rightarrow> 'k \<Rightarrow> 'v \<Rightarrow> ('k, 'v) hash res" where
  "hash_add_entry h k v =
     rbind (hash_lookup_entry h k) (\<lambda>p.
       if p \<noteq> 0 then Inl (Bug ''duplicate hash key'')
       else
         rbind (hash_get_bucket h k) (\<lambda>b.
         rbind (vsf_sysutil_malloc (key_size h)) (\<lambda>_.
         rbind (vsf_sysutil_malloc (value_size h)) (\<lambda>_.
         rbind (bucket_head h b) (\<lambda>head.
           let a = brk h;
               n = \<lparr>p_key = k, p_value = v, p_prev = 0, p_next = 0\<rparr>;
               h1 = h\<lparr>heap := (heap h)(a \<mapsto> n), brk := a + 1\<rparr>
           in if head = 0 then Inr (h1\<lparr>p_heads := (p_heads h)[b := a]\<rparr>)
              else
                rbind (deref (heap h1) head) (\<lambda>m.
                Inr (h1\<lparr>heap := (heap h1)(a \<mapsto> n\<lparr>p_next := head\<rparr>, head \<mapsto> m\<lparr>p_prev := a\<rparr>),
                         p_heads := (p_heads h)[b := a]\<rparr>)))))))"

definition hash_free_entry :: "('k, 'v) hash \<Rightarrow> 'k \<Rightarrow> ('k, 'v) hash res" where
  "hash_free_entry h k =
     rbind (hash_get_node_by_key h k) (\<lambda>a.
       if a = 0 then Inl (Bug ''hash node not found'')
       else
         rbind (deref (heap h) a) (\<lambda>n.
         rbind (if p_prev n \<noteq> 0
                then rbind (deref (heap h) (p_prev n)) (\<lambda>m.
                     Inr (h\<lparr>heap := (heap h)(p_prev n \<mapsto> m\<lparr>p_next := p_next n\<rparr>)\<rparr>))
                else rbind (hash_get_bucket h k) (\<lambda>b.
                     Inr (h\<lparr>p_heads := (p_heads h)[b := p_next n]\<rparr>))) (\<lambda>h1.
         rbind (if p_next n \<noteq> 0
                then rbind (deref (heap h1) (p_next n)) (\<lambda>m.
                     Inr (h1\<lparr>heap := (heap h1)(p_next n \<mapsto> m\<lparr>p_prev := p_prev n\<rparr>)\<rparr>))
                else Inr h1) (\<lambda>h2.
         Inr (h2\<lparr>heap := (heap h2)(a := None)\<rparr>)))))"

section \<open>Chains\<close>

text \<open>
  \<open>chain H p xs e\<close>: the nodes \<open>xs\<close> are linked in this order, the first one pointing back to \<open>p\<close> and
  the last one forward to \<open>e\<close>.
\<close>

fun chain :: "(nat \<Rightarrow> ('k, 'v) hash_node option) \<Rightarrow> nat \<Rightarrow> nat list \<Rightarrow> nat \<Rightarrow> bool" where
  "chain H p [] e \<longleftrightarrow> True"
| "chain H p (x # xs) e \<longleftrightarrow>
     x \<noteq> 0 \<and> (\<exists>n. H x = Some n \<and> p_prev n = p \<and> p_next n = hd (xs @ [e])) \<and> chain H x xs e"

lemma chain_append:
  "chain H p (us @ vs) e \<longleftrightarrow> chain H p us (hd (vs @ [e])) \<and> chain H (last (p # us)) vs e"
  by (induction us arbitrary: p) (auto simp: hd_append)

lemma chain_frame [simp]: "x \<notin> set xs \<Longrightarrow> chain (H(x := y)) p xs e = chain H p xs e"
  by (induction xs arbitrary: p) auto

lemma chain_cong: "(\<And>x. x \<in> set xs \<Longrightarrow> H' x = H x) \<Longrightarrow> chain H' p xs e = chain H p xs e"
  by (induction xs arbitrary: p) auto

lemma chain_set_prev:
  "chain H p (x # xs) e \<Longrightarrow> distinct (x # xs) \<Longrightarrow> H x = Some n \<Longrightarrow>
   chain (H(x \<mapsto> n\<lparr>p_prev := q\<rparr>)) q (x # xs) e"
  by auto

lemma chain_set_next:
  "chain H p xs e \<Longrightarrow> distinct xs \<Longrightarrow> xs \<noteq> [] \<Longrightarrow> H (last xs) = Some n \<Longrightarrow>
   chain (H(last xs \<mapsto> n\<lparr>p_next := e'\<rparr>)) p xs e'"
proof (induction xs arbitrary: p)
  case (Cons x xs)
  then show ?case by (cases "xs = []") auto
qed simp

lemma chain_set_value:
  "chain H p xs e \<Longrightarrow> H a = Some n \<Longrightarrow> chain (H(a \<mapsto> n\<lparr>p_value := v\<rparr>)) p xs e"
  by (induction xs arbitrary: p) auto

lemma chain_nonzero: "chain H p xs e \<Longrightarrow> 0 \<notin> set xs"
  by (induction xs arbitrary: p) auto

lemma chain_node: "chain H p xs e \<Longrightarrow> x \<in> set xs \<Longrightarrow> \<exists>n. H x = Some n"
  by (induction xs arbitrary: p) auto

definition has_key :: "(nat \<Rightarrow> ('k, 'v) hash_node option) \<Rightarrow> 'k \<Rightarrow> nat \<Rightarrow> bool" where
  "has_key H k x \<longleftrightarrow> (\<exists>n. H x = Some n \<and> p_key n = k)"

lemma node_walk_eq:
  "chain H p xs 0 \<Longrightarrow> length xs \<le> fuel \<Longrightarrow>
   node_walk fuel H (hd (xs @ [0])) k = Inr (case find (has_key H k) xs of None \<Rightarrow> 0 | Some x \<Rightarrow> x)"
proof (induction xs arbitrary: p fuel)
  case Nil
  then show ?case by (cases fuel) auto
next
  case (Cons x xs)
  then obtain f where f: "fuel = Suc f" by (cases fuel) auto
  then show ?case using Cons by (auto simp: deref_def has_key_def)
qed

section \<open>Representation invariant\<close>

abbreviation bucket_of :: "('k, 'v) hash \<Rightarrow> 'k \<Rightarrow> nat" where
  "bucket_of h k \<equiv> hash_func h (buckets h) k"

text \<open>\<open>ch i\<close> lists the nodes of bucket \<open>i\<close> in order.\<close>

definition hash_rep :: "('k, 'v) hash \<Rightarrow> (nat \<Rightarrow> nat list) \<Rightarrow> bool" where
  "hash_rep h ch \<longleftrightarrow>
     length (p_heads h) = buckets h \<and> 0 < brk h \<and> (\<forall>k. bucket_of h k < buckets h) \<and>
     (\<forall>i < buckets h. chain (heap h) 0 (ch i) 0 \<and> p_heads h ! i = hd (ch i @ [0]) \<and> distinct (ch i)) \<and>
     (\<forall>i < buckets h. \<forall>a \<in> set (ch i). \<forall>n. heap h a = Some n \<longrightarrow> bucket_of h (p_key n) = i) \<and>
     (\<forall>a n. heap h a = Some n \<longrightarrow> a \<in> set (ch (bucket_of h (p_key n))) \<and> a < brk h) \<and>
     (\<forall>a b n m. heap h a = Some n \<longrightarrow> heap h b = Some m \<longrightarrow> p_key n = p_key m \<longrightarrow> a = b)"

definition sizes_ok :: "('k, 'v) hash \<Rightarrow> bool" where
  "sizes_ok h \<longleftrightarrow> 0 < key_size h \<and> key_size h \<le> INT_MAX \<and> 0 < value_size h \<and> value_size h \<le> INT_MAX"

definition hash_ok :: "('k, 'v) hash \<Rightarrow> bool" where
  "hash_ok h \<longleftrightarrow> sizes_ok h \<and> (\<exists>ch. hash_rep h ch)"

text \<open>The finite map a table stands for.\<close>

definition hmap :: "('k, 'v) hash \<Rightarrow> 'k \<Rightarrow> 'v option" where
  "hmap h k =
     (case hash_get_node_by_key h k of
        Inr a \<Rightarrow> map_option p_value (if a = 0 then None else heap h a) | Inl _ \<Rightarrow> None)"

lemma hash_repD:
  assumes "hash_rep h ch"
  shows "length (p_heads h) = buckets h" "0 < brk h" "\<And>k. bucket_of h k < buckets h"
    "\<And>i. i < buckets h \<Longrightarrow> chain (heap h) 0 (ch i) 0"
    "\<And>i. i < buckets h \<Longrightarrow> p_heads h ! i = hd (ch i @ [0])"
    "\<And>i. i < buckets h \<Longrightarrow> distinct (ch i)"
    "\<And>i a n. i < buckets h \<Longrightarrow> a \<in> set (ch i) \<Longrightarrow> heap h a = Some n \<Longrightarrow> bucket_of h (p_key n) = i"
    "\<And>a n. heap h a = Some n \<Longrightarrow> a \<in> set (ch (bucket_of h (p_key n)))"
    "\<And>a n. heap h a = Some n \<Longrightarrow> a < brk h"
    "\<And>a b n m. heap h a = Some n \<Longrightarrow> heap h b = Some m \<Longrightarrow> p_key n = p_key m \<Longrightarrow> a = b"
  using assms by (simp_all add: hash_rep_def)

lemma hash_repI:
  assumes "length (p_heads h) = buckets h" "0 < brk h" "\<And>k. bucket_of h k < buckets h"
    "\<And>i. i < buckets h \<Longrightarrow> chain (heap h) 0 (ch i) 0"
    "\<And>i. i < buckets h \<Longrightarrow> p_heads h ! i = hd (ch i @ [0])"
    "\<And>i. i < buckets h \<Longrightarrow> distinct (ch i)"
    "\<And>i a n. i < buckets h \<Longrightarrow> a \<in> set (ch i) \<Longrightarrow> heap h a = Some n \<Longrightarrow> bucket_of h (p_key n) = i"
    "\<And>a n. heap h a = Some n \<Longrightarrow> a \<in> set (ch (bucket_of h (p_key n))) \<and> a < brk h"
    "\<And>a b n m. heap h a = Some n \<Longrightarrow> heap h b = Some m \<Longrightarrow> p_key n = p_key m \<Longrightarrow> a = b"
  shows "hash_rep h ch"
  using assms unfolding hash_rep_def by blast

lemma chain_below:
  assumes "hash_rep h ch" and "i < buckets h"
  shows "length (ch i) \<le> brk h" and "a \<in> set (ch i) \<Longrightarrow> a \<noteq> 0 \<and> a < brk h"
proof -
  note c = hash_repD(4) [OF assms]
  have b: "a \<noteq> 0 \<and> a < brk h" if "a \<in> set (ch i)" for a
    using chain_node [OF c that] chain_nonzero [OF c] that hash_repD(9) [OF assms(1)] by (metis)
  then have "set (ch i) \<subseteq> {..<brk h}" by auto
  then have "card (set (ch i)) \<le> brk h" using card_mono [of "{..<brk h}" "set (ch i)"] by simp
  then show "length (ch i) \<le> brk h"
    using hash_repD(6) [OF assms] by (simp add: distinct_card)
  show "a \<in> set (ch i) \<Longrightarrow> a \<noteq> 0 \<and> a < brk h" by (rule b)
qed

lemma heap_zero: "hash_rep h ch \<Longrightarrow> heap h 0 = None"
proof (rule ccontr)
  assume r: "hash_rep h ch" and "heap h 0 \<noteq> None"
  then obtain n where n: "heap h 0 = Some n" by blast
  show False
    using chain_below(2) [OF r hash_repD(3) [OF r] hash_repD(8) [OF r n]] by simp
qed

lemma same_key_same_node:
  "hash_rep h ch \<Longrightarrow> heap h a = Some n \<Longrightarrow> heap h b = Some m \<Longrightarrow> p_key m = p_key n \<Longrightarrow>
   b = a \<and> m = n"
  using hash_repD(10) [of h ch b m a n] by auto

text \<open>The search ends and finds the node of the key, if there is one.\<close>

lemma get_node_cases:
  assumes "hash_rep h ch"
  obtains (absent) "hash_get_node_by_key h k = Inr 0" "\<And>a n. heap h a = Some n \<Longrightarrow> p_key n \<noteq> k"
  | (present) a n where "hash_get_node_by_key h k = Inr a" "a \<noteq> 0" "heap h a = Some n" "p_key n = k"
      "a \<in> set (ch (bucket_of h k))"
proof -
  let ?b = "bucket_of h k"
  note D = hash_repD [OF assms]
  have b: "?b < buckets h" by (rule D(3))
  then have e: "hash_get_node_by_key h k =
      Inr (case find (has_key (heap h) k) (ch ?b) of None \<Rightarrow> 0 | Some x \<Rightarrow> x)"
    using D(1) D(5) [OF b] node_walk_eq [OF D(4) [OF b] chain_below(1) [OF assms b], of k]
    by (simp add: hash_get_node_by_key_def hash_get_bucket_def bucket_head_def Let_def)
  show ?thesis
  proof (cases "find (has_key (heap h) k) (ch ?b)")
    case None
    then have "p_key n \<noteq> k" if "heap h a = Some n" for a n
      using D(8) [OF that] that by (auto simp: find_None_iff has_key_def)
    then show ?thesis using absent e None by simp
  next
    case (Some a)
    then have a: "a \<in> set (ch ?b)" "has_key (heap h) k a" by (auto simp: find_Some_iff)
    then obtain n where "heap h a = Some n" "p_key n = k" by (auto simp: has_key_def)
    then show ?thesis using present [of a n] e Some a chain_below(2) [OF assms b a(1)] by simp
  qed
qed

lemma hmap_Some_iff:
  assumes "hash_rep h ch"
  shows "hmap h k = Some v \<longleftrightarrow> (\<exists>a n. heap h a = Some n \<and> p_key n = k \<and> p_value n = v)"
proof (rule get_node_cases [OF assms, of k])
  fix a n
  assume "hash_get_node_by_key h k = Inr a" "a \<noteq> 0" "heap h a = Some n" "p_key n = k"
  moreover from this have "hmap h k = Some (p_value n)" by (simp add: hmap_def)
  ultimately show ?thesis using same_key_same_node [OF assms, of a n] by (metis option.inject)
qed (auto simp: hmap_def)

text \<open>The pairs a heap holds, and how updates of one cell change them.\<close>

definition kv :: "(nat \<Rightarrow> ('k, 'v) hash_node option) \<Rightarrow> 'k \<Rightarrow> 'v \<Rightarrow> bool" where
  "kv H k v \<longleftrightarrow> (\<exists>a n. H a = Some n \<and> p_key n = k \<and> p_value n = v)"

lemma kv_relink:
  assumes "H a = Some n" and "p_key n' = p_key n" and "p_value n' = p_value n"
  shows "kv (H(a \<mapsto> n')) k v \<longleftrightarrow> kv H k v"
  unfolding kv_def
proof (intro iffI; elim exE conjE)
  fix b m
  assume "(H(a \<mapsto> n')) b = Some m" "p_key m = k" "p_value m = v"
  then show "\<exists>b m. H b = Some m \<and> p_key m = k \<and> p_value m = v"
    using assms by (cases "b = a") auto
next
  fix b m
  assume "H b = Some m" "p_key m = k" "p_value m = v"
  then show "\<exists>b m. (H(a \<mapsto> n')) b = Some m \<and> p_key m = k \<and> p_value m = v"
    using assms by (intro exI [of _ b]) auto
qed

lemma kv_new:
  "H a = None \<Longrightarrow> kv (H(a \<mapsto> n)) k v \<longleftrightarrow> (p_key n = k \<and> p_value n = v) \<or> kv H k v"
  unfolding kv_def by (metis fun_upd_apply option.distinct(1) option.inject)

lemma kv_delete:
  assumes "H a = Some n" and "\<And>b m. H b = Some m \<Longrightarrow> p_key m = p_key n \<Longrightarrow> b = a"
  shows "kv (H(a := None)) k v \<longleftrightarrow> k \<noteq> p_key n \<and> kv H k v"
  unfolding kv_def using assms by (metis fun_upd_apply option.distinct(1) option.inject)

lemma hmap_kv: "hash_rep h ch \<Longrightarrow> hmap h k = Some v \<longleftrightarrow> kv (heap h) k v"
  by (simp add: hmap_Some_iff kv_def)

lemma hmap_eqI:
  assumes "hash_rep h ch" and "\<And>k v. m k = Some v \<longleftrightarrow> kv (heap h) k v"
  shows "hmap h = m"
proof
  show "hmap h k = m k" for k
    using hmap_kv [OF assms(1), of k] assms(2) [of k] by (metis option.exhaust)
qed

lemma hash_lookup_entry_cases:
  assumes "hash_rep h ch"
  obtains (absent) "hash_lookup_entry h k = Inr 0" "hmap h k = None"
  | (present) a n where "hash_lookup_entry h k = Inr a" "a \<noteq> 0" "heap h a = Some n" "p_key n = k"
      "hmap h k = Some (p_value n)"
proof (rule get_node_cases [OF assms, of k])
  assume "hash_get_node_by_key h k = Inr 0" "\<And>a n. heap h a = Some n \<Longrightarrow> p_key n \<noteq> k"
  then show ?thesis using absent by (simp add: hash_lookup_entry_def hmap_def)
next
  fix a n
  assume "hash_get_node_by_key h k = Inr a" "a \<noteq> 0" "heap h a = Some n" "p_key n = k"
  then show ?thesis using present [of a n]
    by (simp add: hash_lookup_entry_def hmap_def deref_def)
qed

section \<open>The operations refine a finite map\<close>

lemma hash_alloc_ok:
  assumes "0 < nb" and "4 * nb \<le> INT_MAX" and "\<And>k. f nb k < nb" and "0 < ks" "ks \<le> INT_MAX"
    and "0 < vs" "vs \<le> INT_MAX"
  shows "\<exists>h. hash_alloc nb ks vs f = Inr h \<and> hash_ok h \<and> hmap h = (\<lambda>_. None)"
proof -
  define h :: "('a, 'b) hash" where "h = \<lparr>buckets = nb, key_size = ks, value_size = vs, hash_func = f,
    p_heads = replicate nb 0, heap = (\<lambda>_. None), brk = 1\<rparr>"
  have "u32 (4 * nb) = 4 * nb" using assms(2) by (simp add: INT_MAX_def)
  then have "hash_alloc nb ks vs f = Inr h"
    using assms(1,2) by (auto simp: hash_alloc_def h_def vsf_sysutil_malloc_def
        vsf_sysutil_memclr_def mem_write_def Let_def)
  moreover have r: "hash_rep h (\<lambda>_. [])" using assms by (simp add: hash_rep_def h_def)
  moreover have "hmap h = (\<lambda>_. None)" by (rule hmap_eqI [OF r]) (simp add: h_def kv_def)
  ultimately show ?thesis using assms by (auto simp: hash_ok_def sizes_ok_def h_def)
qed

lemma value_store_ok:
  assumes "hash_rep h ch" and "heap h a = Some n"
  shows "\<exists>h'. value_store h a v = Inr h' \<and> hash_rep h' ch \<and> (sizes_ok h' \<longleftrightarrow> sizes_ok h) \<and>
           hmap h' = (hmap h)(p_key n \<mapsto> v)"
proof -
  note D = hash_repD [OF assms(1)]
  let ?h = "h\<lparr>heap := (heap h)(a \<mapsto> n\<lparr>p_value := v\<rparr>)\<rparr>"
  have r: "hash_rep ?h ch"
    using D(1,2,3,5,6,8,9) D(4) [THEN chain_set_value, OF _ assms(2)] D(7) D(10) assms(2)
    by (auto simp: hash_rep_def)
  moreover have "hmap ?h = (hmap h)(p_key n \<mapsto> v)"
  proof (rule hmap_eqI [OF r])
    fix k w
    have u: "\<And>b m. heap h b = Some m \<Longrightarrow> p_key m = p_key n \<Longrightarrow> b = a"
      using same_key_same_node [OF assms] by blast
    have "kv (heap ?h) k w \<longleftrightarrow> kv (((heap h)(a := None))(a \<mapsto> n\<lparr>p_value := v\<rparr>)) k w" by simp
    also have "\<dots> \<longleftrightarrow> p_key n = k \<and> v = w \<or> k \<noteq> p_key n \<and> kv (heap h) k w"
      using kv_new [of "(heap h)(a := None)" a] kv_delete [of "heap h" a n, OF assms(2) u] by simp
    finally show "((hmap h)(p_key n \<mapsto> v)) k = Some w \<longleftrightarrow> kv (heap ?h) k w"
      using hmap_kv [OF assms(1), of k w] by auto
  qed
  ultimately show ?thesis using assms(2) by (auto simp: value_store_def deref_def sizes_ok_def)
qed

text \<open>A heap with one more node in front of the chain of its bucket represents a table again.\<close>

lemma hash_rep_push:
  assumes r: "hash_rep h ch" and nokey: "\<And>x m. heap h x = Some m \<Longrightarrow> p_key m \<noteq> k"
    and H: "H (brk h) = Some \<lparr>p_key = k, p_value = v, p_prev = 0, p_next = e\<rparr>"
      "chain H 0 (brk h # ch (bucket_of h k)) 0"
      "\<And>x. x \<noteq> brk h \<Longrightarrow> map_option p_key (H x) = map_option p_key (heap h x)"
      "\<And>x. x \<noteq> brk h \<Longrightarrow> x \<notin> set (ch (bucket_of h k)) \<Longrightarrow> H x = heap h x"
  shows "hash_rep (h\<lparr>heap := H, brk := brk h + 1, p_heads := (p_heads h)[bucket_of h k := brk h]\<rparr>)
           (ch(bucket_of h k := brk h # ch (bucket_of h k)))"
proof -
  note D = hash_repD [OF r]
  let ?b = "bucket_of h k" and ?a = "brk h"
  let ?xs = "ch ?b"
  have b: "?b < buckets h" by (rule D(3))
  have notin: "?a \<notin> set (ch i)" if "i < buckets h" for i
    using chain_below(2) [OF r that, of ?a] by blast
  have other: "chain H 0 (ch i) 0" if i: "i < buckets h" "i \<noteq> ?b" for i
  proof -
    have "H x = heap h x" if x: "x \<in> set (ch i)" for x
    proof (rule H(4))
      show "x \<noteq> ?a" using x notin [OF i(1)] by blast
      show "x \<notin> set ?xs"
        using chain_node [OF D(4) [OF i(1)] x] D(7) [OF i(1) x] D(7) [OF b] i(2) by metis
    qed
    then show ?thesis using D(4) [OF i(1)] chain_cong by metis
  qed
  have key: "\<exists>m'. heap h x = Some m' \<and> p_key m' = p_key m" if "H x = Some m" "x \<noteq> ?a" for x m
    using H(3) [OF that(2)] that(1) by (cases "heap h x") auto
  show ?thesis
  proof (rule hash_repI, goal_cases)
    case (4 i)
    then show ?case using H(2) other by simp
  next
    case (5 i)
    then show ?case using D(1,5) b by simp
  next
    case (6 i)
    then show ?case using D(6) notin by simp
  next
    case (7 i x m)
    show ?case
    proof (cases "x = ?a")
      case True
      then show ?thesis using 7 H(1) notin by (auto split: if_splits)
    next
      case False
      then obtain m' where m': "heap h x = Some m'" "p_key m' = p_key m" using key 7(3) by auto
      moreover have "i < buckets h" "x \<in> set (ch i)" using 7 False by (auto split: if_splits)
      ultimately show ?thesis using D(7) [of i x m'] by simp
    qed
  next
    case (8 x m)
    show ?case
    proof (cases "x = ?a")
      case True
      then show ?thesis using 8 H(1) by auto
    next
      case False
      then obtain m' where m': "heap h x = Some m'" "p_key m' = p_key m" using key 8 by auto
      then show ?thesis using D(8,9) [of x m'] by (auto simp: less_Suc_eq)
    qed
  next
    case (9 x y m n)
    then show ?case
      using D(10) key [of x m] key [of y n] H(1) nokey by (cases "x = ?a"; cases "y = ?a") auto
  qed (use D(1,2,3) in simp_all)
qed

lemma hash_add_entry_ok:
  assumes "hash_ok h" and "hmap h k = None"
  shows "\<exists>h'. hash_add_entry h k v = Inr h' \<and> hash_ok h' \<and> hmap h' = (hmap h)(k \<mapsto> v)"
proof -
  obtain ch where r: "hash_rep h ch" and sz: "sizes_ok h" using assms(1) by (auto simp: hash_ok_def)
  note D = hash_repD [OF r]
  let ?b = "bucket_of h k" and ?a = "brk h"
  let ?xs = "ch ?b"
  let ?head = "hd (?xs @ [0])"
  let ?n = "\<lparr>p_key = k, p_value = v, p_prev = 0, p_next = ?head\<rparr>"
  have b: "?b < buckets h" by (rule D(3))
  have fresh: "heap h ?a = None" using D(9) [of ?a] by (cases "heap h ?a") auto
  have notin: "?a \<notin> set (ch i)" if "i < buckets h" for i
    using chain_below(2) [OF r that, of ?a] by blast
  have nokey: "p_key m \<noteq> k" if "heap h x = Some m" for x m
    using that hmap_Some_iff [OF r, of k] assms(2) by auto
  have lk: "hash_lookup_entry h k = Inr 0"
    by (rule hash_lookup_entry_cases [OF r, of k]) (use assms(2) in auto)
  note add = hash_add_entry_def lk hash_get_bucket_def bucket_head_def vsf_sysutil_malloc_def Let_def
  have sz': "key_size h \<noteq> 0" "\<not> INT_MAX < key_size h" "value_size h \<noteq> 0" "\<not> INT_MAX < value_size h"
    using sz by (auto simp: sizes_ok_def)
  obtain H where H: "H ?a = Some ?n" "chain H 0 (?a # ?xs) 0"
    "\<And>x. x \<noteq> ?a \<Longrightarrow> map_option p_key (H x) = map_option p_key (heap h x)"
    "\<And>x. x \<noteq> ?a \<Longrightarrow> x \<notin> set ?xs \<Longrightarrow> H x = heap h x"
    "\<And>k' w. kv H k' w \<longleftrightarrow> k = k' \<and> v = w \<or> kv (heap h) k' w"
    and res: "hash_add_entry h k v =
      Inr (h\<lparr>heap := H, brk := ?a + 1, p_heads := (p_heads h)[?b := ?a]\<rparr>)"
  proof (cases ?xs)
    case Nil
    let ?H = "(heap h)(?a \<mapsto> ?n)"
    have "hash_add_entry h k v =
        Inr (h\<lparr>heap := ?H, brk := ?a + 1, p_heads := (p_heads h)[?b := ?a]\<rparr>)"
      using Nil sz' D(1) D(5) [OF b] b by (simp add: add)
    then show ?thesis using that [of ?H] Nil kv_new [of "heap h" ?a ?n, OF fresh] D(2) by simp
  next
    case (Cons x xs)
    obtain m where m: "heap h x = Some m" using D(4) [OF b] Cons by auto
    have xa: "x \<noteq> ?a" "x \<noteq> 0" using chain_below(2) [OF r b, of x] Cons by auto
    let ?H = "(heap h)(?a \<mapsto> ?n, x \<mapsto> m\<lparr>p_prev := ?a\<rparr>)"
    have "hash_add_entry h k v =
        Inr (h\<lparr>heap := ?H, brk := ?a + 1, p_heads := (p_heads h)[?b := ?a]\<rparr>)"
      using Cons sz' D(1) D(5) [OF b] b xa m by (simp add: add deref_def)
    moreover have "chain ?H 0 (?a # ?xs) 0"
    proof -
      have "chain ((heap h)(?a \<mapsto> ?n)) 0 (x # xs) 0"
        using D(4) [OF b] notin [OF b] Cons by (metis chain_frame)
      then have "chain ?H ?a (x # xs) 0"
        using chain_set_prev [of "(heap h)(?a \<mapsto> ?n)" 0 x xs 0 m ?a] D(6) [OF b] Cons m xa by simp
      then show ?thesis using Cons D(2) xa by simp
    qed
    moreover have "kv ?H k' w \<longleftrightarrow> k = k' \<and> v = w \<or> kv (heap h) k' w" for k' w
      using kv_relink [of "(heap h)(?a \<mapsto> ?n)" x m "m\<lparr>p_prev := ?a\<rparr>"] kv_new [of "heap h" ?a ?n, OF fresh] m xa
      by simp
    ultimately show ?thesis using that [of ?H] Cons m xa by auto
  qed
  let ?h = "h\<lparr>heap := H, brk := ?a + 1, p_heads := (p_heads h)[?b := ?a]\<rparr>"
  have rep: "hash_rep ?h (ch(?b := ?a # ?xs))" by (rule hash_rep_push [OF r nokey H(1-4)])
  moreover have "hmap ?h = (hmap h)(k \<mapsto> v)"
    by (rule hmap_eqI [OF rep]) (use assms(2) in \<open>auto simp: H(5) hmap_kv [OF r, symmetric]\<close>)
  moreover have "sizes_ok ?h" using sz by (simp add: sizes_ok_def)
  ultimately show ?thesis using res by (auto simp: hash_ok_def)
qed

text \<open>A heap in which a node was unlinked and freed represents a table again.\<close>

lemma hash_rep_unlink:
  assumes r: "hash_rep h ch" and n: "heap h a = Some n" and xs: "ch (bucket_of h (p_key n)) = us @ a # vs"
    and H: "H a = None" "chain H 0 (us @ vs) 0"
      "\<And>x. x \<noteq> a \<Longrightarrow> map_option p_key (H x) = map_option p_key (heap h x)"
      "\<And>x. x \<notin> set (us @ a # vs) \<Longrightarrow> H x = heap h x"
  shows "hash_rep (h\<lparr>heap := H, p_heads := (p_heads h)[bucket_of h (p_key n) := hd ((us @ vs) @ [0])]\<rparr>)
           (ch(bucket_of h (p_key n) := us @ vs))"
proof -
  note D = hash_repD [OF r]
  let ?b = "bucket_of h (p_key n)"
  have b: "?b < buckets h" by (rule D(3))
  have dist: "distinct (us @ a # vs)" using D(6) [OF b] xs by simp
  have key: "\<exists>m'. heap h x = Some m' \<and> p_key m' = p_key m \<and> x \<noteq> a" if "H x = Some m" for x m
    using H(1) H(3) [of x] that by (cases "x = a"; cases "heap h x") auto
  have other: "chain H 0 (ch i) 0" if i: "i < buckets h" "i \<noteq> ?b" for i
  proof -
    have "x \<notin> set (us @ a # vs)" if x: "x \<in> set (ch i)" for x
      using chain_node [OF D(4) [OF i(1)] x] D(7) [OF i(1) x] D(7) [OF b] i(2) xs by metis
    then show ?thesis using D(4) [OF i(1)] chain_cong [of "ch i" H "heap h"] H(4) by metis
  qed
  show ?thesis
  proof (rule hash_repI, goal_cases)
    case (5 i)
    then show ?case using D(1,5) b by simp
  next
    case (6 i)
    then show ?case using D(6) dist by simp
  next
    case (7 i x m)
    obtain m' where m': "heap h x = Some m'" "p_key m' = p_key m" using key 7(3) by auto
    moreover have "i < buckets h" "x \<in> set (ch i)" using 7 xs by (auto split: if_splits)
    ultimately show ?case using D(7) [of i x m'] by simp
  next
    case (8 x m)
    then obtain m' where m': "heap h x = Some m'" "p_key m' = p_key m" "x \<noteq> a" using key by auto
    then show ?case using D(8,9) [of x m'] xs by auto
  next
    case (9 x y m m')
    then show ?case using D(10) key [of x m] key [of y m'] by auto
  qed (use D(1,2,3) H(2) other in simp_all)
qed

text \<open>The first half of unlinking: the predecessor, or the bucket head, skips the node.\<close>

lemma unlink_prev:
  assumes r: "hash_rep h ch" and xs: "ch (bucket_of h k) = us @ a # vs" and n: "heap h a = Some n"
    and k: "p_key n = k"
  obtains H1 where "chain H1 0 us (hd (vs @ [0]))" "chain H1 a vs 0"
    "\<And>x. x \<notin> set us \<Longrightarrow> H1 x = heap h x"
    "\<And>x. map_option p_key (H1 x) = map_option p_key (heap h x)" "\<And>k w. kv H1 k w \<longleftrightarrow> kv (heap h) k w"
    "(if p_prev n \<noteq> 0
      then rbind (deref (heap h) (p_prev n)) (\<lambda>m.
           Inr (h\<lparr>heap := (heap h)(p_prev n \<mapsto> m\<lparr>p_next := p_next n\<rparr>)\<rparr>))
      else rbind (hash_get_bucket h k) (\<lambda>b.
           Inr (h\<lparr>p_heads := (p_heads h)[b := p_next n]\<rparr>))) =
     Inr (h\<lparr>heap := H1, p_heads := (p_heads h)[bucket_of h k := hd ((us @ vs) @ [0])]\<rparr>)"
proof -
  note D = hash_repD [OF r]
  let ?b = "bucket_of h k" and ?e = "hd (vs @ [0])"
  have b: "?b < buckets h" by (rule D(3))
  have dist: "distinct (us @ a # vs)" using D(6) [OF b] xs by simp
  have c: "chain (heap h) 0 us a" "chain (heap h) a vs 0" "p_prev n = last (0 # us)" "p_next n = ?e"
    using D(4) [OF b] n by (auto simp: xs chain_append)
  show ?thesis
  proof (cases "us = []")
    case True
    then show ?thesis using that [of "heap h"] c b by (simp add: hash_get_bucket_def Let_def)
  next
    case False
    let ?u = "last us"
    have u: "?u \<in> set us" using False by simp
    then have u': "?u \<notin> set vs" using dist by (auto simp: disjoint_iff simp del: last_in_set)
    moreover have "?u \<noteq> 0" using chain_nonzero [OF c(1)] u by metis
    note u' = u' this
    obtain m where m: "heap h ?u = Some m" using chain_node [OF c(1) u] by blast
    let ?H = "(heap h)(?u \<mapsto> m\<lparr>p_next := ?e\<rparr>)"
    have "chain ?H 0 us ?e" using chain_set_next [OF c(1) _ False m] dist by simp
    moreover have "chain ?H a vs 0" using c(2) u' by simp
    moreover have "?H x = heap h x" if "x \<notin> set us" for x using u that by auto
    moreover have "map_option p_key (?H x) = map_option p_key (heap h x)" for x using m by simp
    moreover have "(p_heads h)[?b := hd ((us @ vs) @ [0])] = p_heads h"
      using D(5) [OF b] xs False by (simp add: hd_append list_update_same_conv D(1) b)
    ultimately show ?thesis
      using that [of ?H] c False m u u' kv_relink [of "heap h" ?u m "m\<lparr>p_next := ?e\<rparr>"]
      by (simp add: deref_def)
  qed
qed

lemma hash_free_entry_ok:
  assumes "hash_ok h" and "hmap h k \<noteq> None"
  shows "\<exists>h'. hash_free_entry h k = Inr h' \<and> hash_ok h' \<and> hmap h' = (hmap h)(k := None)"
proof -
  obtain ch where r: "hash_rep h ch" and sz: "sizes_ok h" using assms(1) by (auto simp: hash_ok_def)
  note D = hash_repD [OF r]
  let ?b = "bucket_of h k"
  have b: "?b < buckets h" by (rule D(3))
  obtain a n where a: "hash_get_node_by_key h k = Inr a" "a \<noteq> 0" "heap h a = Some n" "p_key n = k"
    "a \<in> set (ch ?b)"
    by (rule get_node_cases [OF r, of k]) (use assms(2) in \<open>auto simp: hmap_def\<close>)
  obtain us vs where xs: "ch ?b = us @ a # vs" using a(5) by (meson split_list)
  have dist: "distinct (us @ a # vs)" using D(6) [OF b] xs by simp
  let ?p = "last (0 # us)" and ?e = "hd (vs @ [0])"
  have c: "chain (heap h) 0 us a" "chain (heap h) a vs 0" "p_prev n = ?p" "p_next n = ?e"
    using D(4) [OF b] a(3) by (auto simp: xs chain_append)
  have nz: "0 \<notin> set us" "0 \<notin> set vs" using chain_nonzero [OF D(4) [OF b]] xs by auto
  obtain H1 where H1: "chain H1 0 us ?e" "chain H1 a vs 0" "\<And>x. x \<notin> set us \<Longrightarrow> H1 x = heap h x"
    "\<And>x. map_option p_key (H1 x) = map_option p_key (heap h x)" "\<And>k w. kv H1 k w \<longleftrightarrow> kv (heap h) k w"
    and s1: "(if p_prev n \<noteq> 0
                then rbind (deref (heap h) (p_prev n)) (\<lambda>m.
                     Inr (h\<lparr>heap := (heap h)(p_prev n \<mapsto> m\<lparr>p_next := p_next n\<rparr>)\<rparr>))
                else rbind (hash_get_bucket h k) (\<lambda>b.
                     Inr (h\<lparr>p_heads := (p_heads h)[b := p_next n]\<rparr>))) =
             Inr (h\<lparr>heap := H1, p_heads := (p_heads h)[?b := hd ((us @ vs) @ [0])]\<rparr>)"
    by (rule unlink_prev [OF r xs a(3,4)]) (rule that, assumption+)
  let ?h1 = "h\<lparr>heap := H1, p_heads := (p_heads h)[?b := hd ((us @ vs) @ [0])]\<rparr>"
  obtain H2 where H2: "chain H2 0 us ?e" "chain H2 ?p vs 0"
    "\<And>x. x \<notin> set (us @ vs) \<Longrightarrow> H2 x = heap h x"
    "\<And>x. map_option p_key (H2 x) = map_option p_key (heap h x)" "\<And>k w. kv H2 k w \<longleftrightarrow> kv (heap h) k w"
    and s2: "(if p_next n \<noteq> 0
                then rbind (deref (heap ?h1) (p_next n)) (\<lambda>m.
                     Inr (?h1\<lparr>heap := (heap ?h1)(p_next n \<mapsto> m\<lparr>p_prev := p_prev n\<rparr>)\<rparr>))
                else Inr ?h1) = Inr (?h1\<lparr>heap := H2\<rparr>)"
  proof (cases vs)
    case Nil
    then show ?thesis using that [of H1] H1 c by auto
  next
    case (Cons y ys)
    obtain m where m: "H1 y = Some m" using H1(2) Cons by auto
    let ?H = "H1(y \<mapsto> m\<lparr>p_prev := ?p\<rparr>)"
    have y: "y \<notin> set us" "y \<noteq> 0" using dist nz Cons by auto
    have "chain ?H ?p vs 0" using chain_set_prev [of H1 a y ys 0 m ?p] H1(2) dist Cons m by simp
    moreover have "chain ?H 0 us ?e" using H1(1) y by simp
    ultimately show ?thesis
      using that [of ?H] H1(3-5) kv_relink [of H1 y m "m\<lparr>p_prev := ?p\<rparr>"] c m y Cons
      by (auto simp: deref_def)
  qed
  let ?H = "H2(a := None)"
  let ?h = "h\<lparr>heap := ?H, p_heads := (p_heads h)[?b := hd ((us @ vs) @ [0])]\<rparr>"
  have H2a: "H2 a = Some n" using H2(3) [of a] dist a(3) by simp
  have res: "hash_free_entry h k = Inr ?h"
  proof -
    have "deref (heap h) a = Inr n" using a(3) by (simp add: deref_def)
    then have "hash_free_entry h k = rbind (Inr (?h1\<lparr>heap := H2\<rparr>)) (\<lambda>h2. Inr (h2\<lparr>heap := (heap h2)(a := None)\<rparr>))"
      unfolding hash_free_entry_def using a(1,2) by (simp only: rbind.simps if_False s1 s2)
    then show ?thesis by simp
  qed
  have "chain ?H 0 (us @ vs) 0" using H2(1,2) dist by (simp add: chain_append)
  then have rep: "hash_rep ?h (ch(?b := us @ vs))"
    using hash_rep_unlink [OF r a(3), of us vs ?H] xs H2(3,4) a(4) by simp
  have "kv ?H k' w \<longleftrightarrow> k' \<noteq> k \<and> kv (heap h) k' w" for k' w
  proof -
    have "x = a" if "H2 x = Some m" "p_key m = p_key n" for x m
      using H2(4) [of x] that same_key_same_node [OF r a(3)] by (cases "heap h x") auto
    then show ?thesis using kv_delete [of H2 a n, OF H2a] H2(5) a(4) by simp
  qed
  then have "hmap ?h = (hmap h)(k := None)"
    by (intro hmap_eqI [OF rep]) (simp add: hmap_kv [OF r])
  then show ?thesis using res rep sz by (auto simp: hash_ok_def sizes_ok_def)
qed

section \<open>The interface its clients use\<close>

text \<open>
  What a client relies on: a table stands for a finite map; a lookup returns a handle, null exactly for
  absent keys; the value behind a handle can be read and replaced; an absent key can be added and
  a present one freed.
\<close>

locale handle_table =
  fixes ok :: "'t \<Rightarrow> bool" and content :: "'t \<Rightarrow> 'k \<Rightarrow> 'v option"
    and lookup :: "'t \<Rightarrow> 'k \<Rightarrow> nat res" and load :: "'t \<Rightarrow> nat \<Rightarrow> 'v res"
    and store :: "'t \<Rightarrow> nat \<Rightarrow> 'v \<Rightarrow> 't res" and add :: "'t \<Rightarrow> 'k \<Rightarrow> 'v \<Rightarrow> 't res"
    and free :: "'t \<Rightarrow> 'k \<Rightarrow> 't res"
  assumes lookup_absent: "ok t \<Longrightarrow> content t k = None \<Longrightarrow> lookup t k = Inr 0"
    and lookup_present: "ok t \<Longrightarrow> content t k = Some v \<Longrightarrow>
          \<exists>a. a \<noteq> 0 \<and> lookup t k = Inr a \<and> load t a = Inr v \<and>
              (\<forall>w. \<exists>t'. store t a w = Inr t' \<and> ok t' \<and> content t' = (content t)(k \<mapsto> w))"
    and add_absent: "ok t \<Longrightarrow> content t k = None \<Longrightarrow>
          \<exists>t'. add t k v = Inr t' \<and> ok t' \<and> content t' = (content t)(k \<mapsto> v)"
    and free_present: "ok t \<Longrightarrow> content t k \<noteq> None \<Longrightarrow>
          \<exists>t'. free t k = Inr t' \<and> ok t' \<and> content t' = (content t)(k := None)"
begin

text \<open>A client that counts: it adds 1 to the count of a key, creating the entry if needed.\<close>

lemma count_up:
  assumes "ok t"
  shows "\<exists>t'. rbind (lookup t k) (\<lambda>a.
             if a = 0 then add t k one
             else rbind (load t a) (\<lambda>c. store t a (succ c))) = Inr t' \<and> ok t' \<and>
           content t' = (content t)(k \<mapsto> (case content t k of None \<Rightarrow> one | Some c \<Rightarrow> succ c))"
proof (cases "content t k")
  case None
  then show ?thesis using lookup_absent add_absent assms by simp
next
  case (Some c)
  then obtain a where "a \<noteq> 0" "lookup t k = Inr a" "load t a = Inr c"
    "\<forall>w. \<exists>t'. store t a w = Inr t' \<and> ok t' \<and> content t' = (content t)(k \<mapsto> w)"
    using lookup_present assms by blast
  then show ?thesis using Some by simp
qed

text \<open>The reverse: it takes 1 off, and frees the entry that reaches zero.\<close>

lemma count_down:
  assumes "ok t" and "content t k = Some c"
  shows "\<exists>t'. rbind (lookup t k) (\<lambda>a.
             if a = 0 then Inl e1
             else rbind (load t a) (\<lambda>c. if is_zero c then Inl e2
               else rbind (store t a (pred c)) (\<lambda>t1. if is_zero (pred c) then free t1 k else Inr t1))) =
           (if is_zero c then Inl e2 else Inr t') \<and>
           (\<not> is_zero c \<longrightarrow> ok t' \<and>
             content t' = (if is_zero (pred c) then (content t)(k := None) else (content t)(k \<mapsto> pred c)))"
proof -
  obtain a t1 where a: "a \<noteq> 0" "lookup t k = Inr a" "load t a = Inr c"
    and t1: "store t a (pred c) = Inr t1" "ok t1" "content t1 = (content t)(k \<mapsto> pred c)"
    using lookup_present [OF assms] by blast
  obtain t2 where "free t1 k = Inr t2" "ok t2" "content t2 = (content t)(k := None)"
    using free_present [OF t1(2), of k] t1(3) by auto
  then show ?thesis using a t1
    by (cases "is_zero (pred c)") (auto intro: exI [of _ t2] exI [of _ t1])
qed

end

interpretation hash_tbl: handle_table hash_ok hmap hash_lookup_entry value_load value_store
  hash_add_entry hash_free_entry
proof
  fix t :: "('k, 'v) hash" and k v
  assume ok: "hash_ok t"
  then obtain ch where r: "hash_rep t ch" by (auto simp: hash_ok_def)
  show "hash_lookup_entry t k = Inr 0" if "hmap t k = None"
    by (rule hash_lookup_entry_cases [OF r, of k]) (use that in auto)
  show "\<exists>a. a \<noteq> 0 \<and> hash_lookup_entry t k = Inr a \<and> value_load t a = Inr v \<and>
         (\<forall>w. \<exists>t'. value_store t a w = Inr t' \<and> hash_ok t' \<and> hmap t' = (hmap t)(k \<mapsto> w))"
    if v: "hmap t k = Some v"
  proof (rule hash_lookup_entry_cases [OF r, of k])
    fix a n
    assume a: "hash_lookup_entry t k = Inr a" "a \<noteq> 0" "heap t a = Some n" "p_key n = k"
      "hmap t k = Some (p_value n)"
    then show ?thesis using value_store_ok [OF r a(3)] ok v
      by (fastforce simp: value_load_def deref_def hash_ok_def)
  qed (use v in simp)
  show "\<exists>t'. hash_add_entry t k v = Inr t' \<and> hash_ok t' \<and> hmap t' = (hmap t)(k \<mapsto> v)"
    if "hmap t k = None"
    using hash_add_entry_ok [OF ok that] .
  show "\<exists>t'. hash_free_entry t k = Inr t' \<and> hash_ok t' \<and> hmap t' = (hmap t)(k := None)"
    if "hmap t k \<noteq> None"
    using hash_free_entry_ok [OF ok that] .
qed

section \<open>Properties\<close>

datatype ('k, 'v) hash_op = AddEntry 'k 'v | FreeEntry 'k

fun hash_exec :: "('k, 'v) hash_op \<Rightarrow> ('k, 'v) hash \<Rightarrow> ('k, 'v) hash res" where
  "hash_exec (AddEntry k v) h = hash_add_entry h k v"
| "hash_exec (FreeEntry k) h = hash_free_entry h k"

fun map_exec :: "('k, 'v) hash_op \<Rightarrow> ('k \<Rightarrow> 'v option) \<Rightarrow> ('k \<Rightarrow> 'v option) res" where
  "map_exec (AddEntry k v) m =
     (if m k \<noteq> None then Inl (Bug ''duplicate hash key'') else Inr (m(k \<mapsto> v)))"
| "map_exec (FreeEntry k) m =
     (if m k = None then Inl (Bug ''hash node not found'') else Inr (m(k := None)))"

lemma hash_exec_sim:
  assumes "hash_ok h"
  shows "case hash_exec p h of
           Inr h' \<Rightarrow> hash_ok h' \<and> map_exec p (hmap h) = Inr (hmap h')
         | Inl e \<Rightarrow> map_exec p (hmap h) = Inl e"
proof -
  obtain ch where r: "hash_rep h ch" using assms by (auto simp: hash_ok_def)
  show ?thesis
  proof (cases p)
    case (AddEntry k v)
    show ?thesis
    proof (cases "hmap h k")
      case None
      then show ?thesis using AddEntry hash_add_entry_ok [OF assms None, of v] by auto
    next
      case (Some w)
      then obtain a where "a \<noteq> 0" "hash_lookup_entry h k = Inr a"
        using hash_tbl.lookup_present [OF assms Some] by blast
      then show ?thesis using AddEntry Some by (simp add: hash_add_entry_def)
    qed
  next
    case (FreeEntry k)
    show ?thesis
    proof (cases "hmap h k")
      case None
      have "hash_get_node_by_key h k = Inr 0"
        by (rule get_node_cases [OF r, of k]) (use None in \<open>auto simp: hmap_def\<close>)
      then show ?thesis using FreeEntry None by (simp add: hash_free_entry_def)
    next
      case (Some w)
      then show ?thesis using FreeEntry hash_free_entry_ok [OF assms, of k] by auto
    qed
  qed
qed

lemma hash_run_sim:
  "hash_ok h \<Longrightarrow>
   case rfold hash_exec ps h of
     Inr h' \<Rightarrow> hash_ok h' \<and> rfold map_exec ps (hmap h) = Inr (hmap h')
   | Inl e \<Rightarrow> rfold map_exec ps (hmap h) = Inl e"
proof (induction ps arbitrary: h)
  case (Cons p ps)
  show ?case
  proof (cases "hash_exec p h")
    case (Inr h1)
    then have "hash_ok h1" "map_exec p (hmap h) = Inr (hmap h1)"
      using hash_exec_sim [OF Cons.prems, of p] by auto
    then show ?thesis using Inr Cons.IH [of h1] by (simp split: sum.splits)
  qed (use hash_exec_sim [OF Cons.prems, of p] in auto)
qed simp

text \<open>
  C11: a table made by \<open>hash_alloc\<close> behaves as a finite map under every sequence of additions and
  removals: the linked structure never breaks (no dangling or null pointer is followed, no search
  runs in a circle), the resulting content is the map's, and the process stops by \<open>bug()\<close> exactly at the
  first addition of a key already there or removal of one that is not.
\<close>

theorem hash_refines_map:
  fixes f :: "nat \<Rightarrow> 'k \<Rightarrow> nat" and ps :: "('k, 'v) hash_op list"
  assumes "0 < nb" and "4 * nb \<le> INT_MAX" and "\<And>k. f nb k < nb"
    and "0 < ks \<and> ks \<le> INT_MAX" and "0 < vs \<and> vs \<le> INT_MAX"
  shows "\<exists>h. hash_alloc nb ks vs f = Inr h \<and>
           (case rfold hash_exec ps h of
              Inr h' \<Rightarrow> hash_ok h' \<and> rfold map_exec ps (\<lambda>_. None) = Inr (hmap h')
            | Inl e \<Rightarrow> rfold map_exec ps (\<lambda>_. None) = Inl e)"
proof -
  obtain h :: "('k, 'v) hash" where "hash_alloc nb ks vs f = Inr h" "hash_ok h" "hmap h = (\<lambda>_. None)"
    using hash_alloc_ok [of nb f ks vs] assms by blast
  then show ?thesis using hash_run_sim [of h ps] by (auto split: sum.splits)
qed

definition demo_ops :: "(nat, string) hash_op list" where
  "demo_ops = [AddEntry 1 ''a'', AddEntry 3 ''b'', FreeEntry 1, FreeEntry 5]"

theorem hash_refines_map_witness:
  "(\<exists>h. hash_alloc 2 4 4 (\<lambda>n (k :: nat). k mod n) = Inr h \<and>
     (case rfold hash_exec demo_ops h of
        Inr h' \<Rightarrow> hash_ok h' \<and> rfold map_exec demo_ops (\<lambda>_. None) = Inr (hmap h')
      | Inl e \<Rightarrow> rfold map_exec demo_ops (\<lambda>_. None) = Inl e)) \<and>
   rfold map_exec demo_ops (\<lambda>_. None) = Inl (Bug ''hash node not found'')"
proof (rule conjI)
  show "\<exists>h. hash_alloc 2 4 4 (\<lambda>n (k :: nat). k mod n) = Inr h \<and>
     (case rfold hash_exec demo_ops h of
        Inr h' \<Rightarrow> hash_ok h' \<and> rfold map_exec demo_ops (\<lambda>_. None) = Inr (hmap h')
      | Inl e \<Rightarrow> rfold map_exec demo_ops (\<lambda>_. None) = Inl e)"
    by (rule hash_refines_map) (simp_all add: INT_MAX_def)
qed (simp add: demo_ops_def)

text \<open>
  On a well-formed table a lookup terminates and returns a null pointer exactly for the keys
  that are absent; for a present key it points at the key's value, and writing through the pointer
  changes the value of that key and of no other.
\<close>

theorem hash_lookup_correct:
  assumes "hash_ok h"
  shows "case hmap h k of
           None \<Rightarrow> hash_lookup_entry h k = Inr 0
         | Some v \<Rightarrow> \<exists>a. a \<noteq> 0 \<and> hash_lookup_entry h k = Inr a \<and> value_load h a = Inr v \<and>
             (\<forall>w. \<exists>h'. value_store h a w = Inr h' \<and> hash_ok h' \<and> hmap h' = (hmap h)(k \<mapsto> w))"
proof (cases "hmap h k")
  case None
  then show ?thesis using hash_tbl.lookup_absent [OF assms None] by simp
next
  case (Some v)
  then show ?thesis using hash_tbl.lookup_present [OF assms Some] by simp
qed

theorem hash_lookup_correct_witness:
  "\<exists>h :: (nat, string) hash. hash_ok h \<and>
     (case hmap h 7 of
           None \<Rightarrow> hash_lookup_entry h 7 = Inr 0
         | Some v \<Rightarrow> \<exists>a. a \<noteq> 0 \<and> hash_lookup_entry h 7 = Inr a \<and> value_load h a = Inr v \<and>
             (\<forall>w. \<exists>h'. value_store h a w = Inr h' \<and> hash_ok h' \<and> hmap h' = (hmap h)(7 \<mapsto> w))) \<and>
     hmap h 7 = Some ''x''"
proof -
  obtain h0 :: "(nat, string) hash" where "hash_ok h0" "hmap h0 = (\<lambda>_. None)"
    using hash_alloc_ok [of 2 "\<lambda>n k. k mod n" 4 4] by (auto simp: INT_MAX_def)
  then obtain h :: "(nat, string) hash" where "hash_ok h" "hmap h 7 = Some ''x''"
    using hash_add_entry_ok [of h0 7 "''x''"] by auto
  then show ?thesis using hash_lookup_correct [of h 7] by blast
qed

end
