(* ===== verification/Standalone.thy ===== *)
theory Standalone
  imports Hash
begin

unbundle bit_operations_syntax

text \<open>
  The listener of \<^verbatim>\<open>apps/vsftpd-2.2.0/standalone.c\<close>: it accepts connections, forks a child for each
  and keeps two tables, the number of children per client address and the address of each child,
  from which the limits \<open>max_clients\<close> and \<open>max_per_ip\<close> are later decided.

  A signal is only acted upon at the check points of \<^verbatim>\<open>sysutil.c\<close>
  (\<open>vsf_sysutil_check_pending_actions\<close>): after \<open>accept\<close>, and in \<open>vsf_sysutil_close\<close> when \<open>close\<close> is
  interrupted. So the listener is a sequence of events, each with what the kernel returned:
  the result of \<open>fork\<close>, and the children \<open>waitpid\<close> handed over at a check point. Opening, binding and
  listening on the socket is system calls only and is not modelled.
\<close>

section \<open>Model\<close>

record vsf_client_launch =
  num_children :: nat
  num_this_ip :: nat

text \<open>An address is the 16 raw bytes of \<open>vsf_sysutil_get_ipaddr_size\<close>, a pid an \<open>unsigned int\<close>.\<close>

record listener =
  s_children :: nat
  s_p_ip_count_hash :: "(string, nat) hash"
  s_p_pid_ip_hash :: "(nat, string) hash"

fun hash_ip_loop :: "32 word \<Rightarrow> nat \<Rightarrow> string \<Rightarrow> 32 word" where
  "hash_ip_loop v shift [] = v"
| "hash_ip_loop v shift (c # cs) =
     hash_ip_loop (v XOR push_bit shift (of_nat (ord c))) (if shift < 8 then 24 else shift - 8) cs"

definition hash_ip :: "nat \<Rightarrow> string \<Rightarrow> nat" where
  "hash_ip nbuckets raw_ip = unat (hash_ip_loop 0 24 raw_ip) mod nbuckets"

definition hash_pid :: "nat \<Rightarrow> nat \<Rightarrow> nat" where
  "hash_pid nbuckets pid = pid mod nbuckets"

definition standalone_init :: "listener res" where
  "standalone_init =
     rbind (hash_alloc 256 16 4 hash_ip) (\<lambda>ips.
     rbind (hash_alloc 256 4 16 hash_pid) (\<lambda>pids.
     Inr \<lparr>s_children = 0, s_p_ip_count_hash = ips, s_p_pid_ip_hash = pids\<rparr>))"

definition handle_ip_count :: "string \<Rightarrow> listener \<Rightarrow> (nat \<times> listener) res" where
  "handle_ip_count p_ipaddr st =
     rbind (hash_lookup_entry (s_p_ip_count_hash st) p_ipaddr) (\<lambda>p_count.
       if p_count = 0
       then rbind (hash_add_entry (s_p_ip_count_hash st) p_ipaddr 1) (\<lambda>t.
            Inr (1, st\<lparr>s_p_ip_count_hash := t\<rparr>))
       else rbind (value_load (s_p_ip_count_hash st) p_count) (\<lambda>c.
            rbind (value_store (s_p_ip_count_hash st) p_count (u32 (c + 1))) (\<lambda>t.
            Inr (u32 (c + 1), st\<lparr>s_p_ip_count_hash := t\<rparr>))))"

text \<open>
  The argument is a pointer to the address; the hash function reads through it, so a null pointer
  is an \<open>Overrun\<close>.
\<close>

definition drop_ip_count :: "string option \<Rightarrow> listener \<Rightarrow> listener res" where
  "drop_ip_count p_raw_addr st =
     (case p_raw_addr of
        None \<Rightarrow> Inl Overrun
      | Some ip \<Rightarrow>
          rbind (rbind (hash_lookup_entry (s_p_ip_count_hash st) ip) (\<lambda>p_count.
            if p_count = 0 then Inl (Bug ''IP address missing from hash'')
            else rbind (value_load (s_p_ip_count_hash st) p_count) (\<lambda>c.
              if c = 0 then Inl (Bug ''zero count for IP address'')
              else rbind (value_store (s_p_ip_count_hash st) p_count (c - 1)) (\<lambda>t.
                     if c - 1 = 0 then hash_free_entry t ip else Inr t)))) (\<lambda>t.
          Inr (st\<lparr>s_p_ip_count_hash := t\<rparr>)))"

text \<open>One round of the loop in \<open>handle_sigchld\<close>, for a pid that \<open>waitpid\<close> returned.\<close>

definition reap_child :: "nat \<Rightarrow> listener \<Rightarrow> listener res" where
  "reap_child reap_one st =
     (let st1 = st\<lparr>s_children := u32 (s_children st + 4294967295)\<rparr> in
      rbind (hash_lookup_entry (s_p_pid_ip_hash st1) reap_one) (\<lambda>a.
      rbind (if a = 0 then Inr None
             else rbind (value_load (s_p_pid_ip_hash st1) a) (\<lambda>ip. Inr (Some ip))) (\<lambda>p_ip.
      rbind (drop_ip_count p_ip st1) (\<lambda>st2.
      rbind (hash_free_entry (s_p_pid_ip_hash st2) reap_one) (\<lambda>t.
      Inr (st2\<lparr>s_p_pid_ip_hash := t\<rparr>))))))"

definition handle_sigchld :: "nat list \<Rightarrow> listener \<Rightarrow> listener res" where
  "handle_sigchld reaped st = rfold reap_child reaped st"

text \<open>
  The body of the accept loop, for a connection that was accepted. \<open>new_child\<close> is what \<open>fork\<close>
  returned and \<open>reaped\<close> the children that the signal handler finds if \<open>vsf_sysutil_close\<close> is
  interrupted. The parent goes round the loop; the child leaves it with its launch information.
\<close>

datatype outcome = Parent listener | Child vsf_client_launch

definition accept_client :: "string \<Rightarrow> int \<Rightarrow> nat list \<Rightarrow> listener \<Rightarrow> outcome res" where
  "accept_client p_raw_addr new_child reaped st =
     (let st1 = st\<lparr>s_children := u32 (s_children st + 1)\<rparr> in
      rbind (handle_ip_count p_raw_addr st1) (\<lambda>(count, st2).
        if new_child \<noteq> 0
        then rbind (handle_sigchld reaped st2) (\<lambda>st3.
               if new_child > 0
               then rbind (hash_add_entry (s_p_pid_ip_hash st3) (nat new_child) p_raw_addr) (\<lambda>t.
                    Inr (Parent (st3\<lparr>s_p_pid_ip_hash := t\<rparr>)))
               else rbind (drop_ip_count (Some p_raw_addr)
                           (st3\<lparr>s_children := u32 (s_children st3 + 4294967295)\<rparr>)) (\<lambda>st4.
                    Inr (Parent st4)))
        else Inr (Child \<lparr>num_children = s_children st2, num_this_ip = count\<rparr>)))"

text \<open>The loop of \<open>vsf_standalone_main\<close> in the parent, one event at a time.\<close>

datatype event =
    AcceptFail "nat list"
  | Accept string int "nat list" "nat list"

text \<open>The signal check inside \<open>vsf_sysutil_accept_timeout\<close> comes first.\<close>

fun standalone_step :: "event \<Rightarrow> listener \<Rightarrow> outcome res" where
  "standalone_step (AcceptFail reaped) st =
     rbind (handle_sigchld reaped st) (\<lambda>st1. Inr (Parent st1))"
| "standalone_step (Accept ip new_child reaped reaped_in_close) st =
     rbind (handle_sigchld reaped st) (accept_client ip new_child reaped_in_close)"

section \<open>Accounting\<close>

definition pids :: "listener \<Rightarrow> nat \<Rightarrow> string option" where
  "pids st = hmap (s_p_pid_ip_hash st)"

definition counts :: "listener \<Rightarrow> string \<Rightarrow> nat option" where
  "counts st = hmap (s_p_ip_count_hash st)"

definition clients_of :: "listener \<Rightarrow> string \<Rightarrow> nat" where
  "clients_of st ip = card {p. pids st p = Some ip}"

text \<open>
  The books of the listener: \<open>s_children\<close> is the number of recorded children and every address has
  the number of its children as its count. While a connection is being set up, one child is
  counted that is not yet recorded; \<open>pend\<close> is its address.
\<close>

definition books_ok :: "string option \<Rightarrow> listener \<Rightarrow> bool" where
  "books_ok pend st \<longleftrightarrow>
     hash_ok (s_p_ip_count_hash st) \<and> hash_ok (s_p_pid_ip_hash st) \<and>
     dom (pids st) \<subseteq> {0<..<2147483648} \<and>
     s_children st = card (dom (pids st)) + (if pend = None then 0 else 1) \<and>
     (\<forall>ip. counts st ip =
        (let n = clients_of st ip + (if pend = Some ip then 1 else 0) in if n = 0 then None else Some n))"

lemma books_okD:
  assumes "books_ok pend st"
  shows "hash_ok (s_p_ip_count_hash st)" and "hash_ok (s_p_pid_ip_hash st)"
    and "finite (dom (pids st))" and "finite {p. pids st p = Some ip}"
    and "card (dom (pids st)) < 2147483648" and "clients_of st ip < 2147483648"
    and "s_children st = card (dom (pids st)) + (if pend = None then 0 else 1)"
    and "counts st ip =
        (let n = clients_of st ip + (if pend = Some ip then 1 else 0) in if n = 0 then None else Some n)"
    and "dom (pids st) \<subseteq> {0<..<2147483648}"
proof -
  show d: "dom (pids st) \<subseteq> {0<..<2147483648}" and "hash_ok (s_p_ip_count_hash st)"
    and "hash_ok (s_p_pid_ip_hash st)"
    and "s_children st = card (dom (pids st)) + (if pend = None then 0 else 1)"
    and "counts st ip =
        (let n = clients_of st ip + (if pend = Some ip then 1 else 0) in if n = 0 then None else Some n)"
    using assms by (auto simp: books_ok_def)
  show f: "finite (dom (pids st))" using d finite_subset by blast
  have s: "{p. pids st p = Some ip} \<subseteq> dom (pids st)" by auto
  then show "finite {p. pids st p = Some ip}" using f finite_subset by blast
  show c: "card (dom (pids st)) < 2147483648"
    using card_mono [OF _ d] by (simp add: card_greaterThanLessThan)
  show "clients_of st ip < 2147483648"
    using card_mono [OF f s] c by (simp add: clients_of_def)
qed

lemma pids_upd [simp]: "pids (st\<lparr>s_children := n\<rparr>) = pids st" "pids (st\<lparr>s_p_ip_count_hash := t\<rparr>) = pids st"
  "pids (st\<lparr>s_p_pid_ip_hash := u\<rparr>) = hmap u"
  by (simp_all add: pids_def)

lemma counts_upd [simp]: "counts (st\<lparr>s_children := n\<rparr>) = counts st"
  "counts (st\<lparr>s_p_pid_ip_hash := u\<rparr>) = counts st" "counts (st\<lparr>s_p_ip_count_hash := t\<rparr>) = hmap t"
  by (simp_all add: counts_def)

lemma clients_of_cong: "pids st' = pids st \<Longrightarrow> clients_of st' = clients_of st"
  by (rule ext) (simp add: clients_of_def)

text \<open>Recording and forgetting a child.\<close>

lemma clients_of_add:
  assumes "finite {p. m p = Some ip}" and "m pid = None"
  shows "card {p. (m(pid \<mapsto> i)) p = Some ip} = card {p. m p = Some ip} + (if i = ip then 1 else 0)"
proof -
  have "{p. (m(pid \<mapsto> i)) p = Some ip} =
          (if i = ip then insert pid {p. m p = Some ip} else {p. m p = Some ip})"
    using assms(2) by auto
  then show ?thesis using assms by simp
qed

lemma clients_of_remove:
  assumes "finite {p. m p = Some ip}" and "m pid = Some i"
  shows "card {p. m p = Some ip} = card {p. (m(pid := None)) p = Some ip} + (if i = ip then 1 else 0)"
proof -
  have "((m(pid := None))(pid \<mapsto> i)) = m" using assms(2) by auto
  moreover have "{p. (m(pid := None)) p = Some ip} \<subseteq> {p. m p = Some ip}" by auto
  ultimately show ?thesis
    using clients_of_add [of "m(pid := None)" ip pid i] assms(1) finite_subset by fastforce
qed

lemma u32_dec: "0 < n \<Longrightarrow> n < 4294967296 \<Longrightarrow> u32 (n + 4294967295) = n - 1"
proof -
  assume "0 < n" "n < 4294967296"
  then have "n + 4294967295 = 4294967296 + (n - 1)" "n - 1 < 4294967296" by auto
  then show ?thesis by (simp only: u32_def mod_add_self1 mod_less)
qed

section \<open>The steps keep the books\<close>

text \<open>Counting a new connection leaves one child pending; the call returns its address's new count.\<close>

lemma handle_ip_count_ok:
  assumes "books_ok None st"
  shows "\<exists>st'. handle_ip_count ip (st\<lparr>s_children := u32 (s_children st + 1)\<rparr>) =
           Inr (clients_of st ip + 1, st') \<and> books_ok (Some ip) st' \<and> pids st' = pids st \<and>
           s_children st' = card (dom (pids st)) + 1"
proof -
  note D = books_okD [OF assms]
  let ?t = "s_p_ip_count_hash st" and ?c = "clients_of st ip + 1"
  have c: "hmap ?t ip = (if clients_of st ip = 0 then None else Some (clients_of st ip))"
    using D(8) [of ip] by (simp add: counts_def Let_def)
  have u: "u32 (s_children st + 1) = card (dom (pids st)) + 1" "u32 ?c = ?c"
    using D(5,7) D(6) [of ip] by simp_all
  obtain t where t: "hash_ok t" "hmap t = (hmap ?t)(ip \<mapsto> ?c)"
    and res: "handle_ip_count ip (st\<lparr>s_children := u32 (s_children st + 1)\<rparr>) =
        Inr (?c, st\<lparr>s_children := card (dom (pids st)) + 1, s_p_ip_count_hash := t\<rparr>)"
  proof (cases "clients_of st ip = 0")
    case True
    then obtain t where "hash_add_entry ?t ip 1 = Inr t" "hash_ok t" "hmap t = (hmap ?t)(ip \<mapsto> ?c)"
      using hash_tbl.add_absent [OF D(1), of ip 1] c by auto
    then show ?thesis using that [of t] True c u hash_tbl.lookup_absent [OF D(1), of ip]
      by (simp add: handle_ip_count_def)
  next
    case False
    then obtain a where a: "a \<noteq> 0" "hash_lookup_entry ?t ip = Inr a"
      "value_load ?t a = Inr (clients_of st ip)"
      "\<forall>w. \<exists>t'. value_store ?t a w = Inr t' \<and> hash_ok t' \<and> hmap t' = (hmap ?t)(ip \<mapsto> w)"
      using hash_tbl.lookup_present [OF D(1), of ip] c by auto
    then obtain t where "value_store ?t a ?c = Inr t" "hash_ok t" "hmap t = (hmap ?t)(ip \<mapsto> ?c)" by blast
    then show ?thesis using that [of t] a u by (simp add: handle_ip_count_def)
  qed
  let ?st = "st\<lparr>s_children := card (dom (pids st)) + 1, s_p_ip_count_hash := t\<rparr>"
  have cl: "clients_of ?st = clients_of st" by (rule clients_of_cong) simp
  have "counts ?st i = (let n = clients_of st i + (if Some ip = Some i then 1 else 0)
      in if n = 0 then None else Some n)" for i
    using t(2) D(8) [of i] by (simp add: counts_def Let_def)
  then have "books_ok (Some ip) ?st" using t D(2,9) cl by (simp add: books_ok_def)
  then show ?thesis using res by auto
qed

text \<open>Dropping a count, for an address that has one.\<close>

lemma drop_ip_count_ok:
  assumes "hash_ok (s_p_ip_count_hash st)" and "counts st ip = Some c" and "0 < c"
  shows "\<exists>t. drop_ip_count (Some ip) st = Inr (st\<lparr>s_p_ip_count_hash := t\<rparr>) \<and> hash_ok t \<and>
           hmap t = (counts st)(ip := if c = 1 then None else Some (c - 1))"
proof -
  obtain t where t: "rbind (hash_lookup_entry (s_p_ip_count_hash st) ip) (\<lambda>a.
        if a = 0 then Inl (Bug ''IP address missing from hash'')
        else rbind (value_load (s_p_ip_count_hash st) a) (\<lambda>c. if c = 0 then Inl (Bug ''zero count for IP address'')
          else rbind (value_store (s_p_ip_count_hash st) a (c - 1)) (\<lambda>t1.
            if c - 1 = 0 then hash_free_entry t1 ip else Inr t1))) = Inr t"
    "hash_ok t" "hmap t = (if c - 1 = 0 then (counts st)(ip := None) else (counts st)(ip \<mapsto> c - 1))"
    using hash_tbl.count_down [OF assms(1), of ip c "Bug ''IP address missing from hash''" "\<lambda>c. c = 0"
        "Bug ''zero count for IP address''" "\<lambda>c. c - 1"] assms(2,3)
    by (auto simp: counts_def)
  have "c = 1 \<longleftrightarrow> c - 1 = 0" using assms(3) by auto
  then show ?thesis using t by (auto simp: drop_ip_count_def)
qed

lemma reap_child_ok:
  assumes "books_ok pend st" and "pids st pid = Some ip"
  shows "\<exists>st'. reap_child pid st = Inr st' \<and> books_ok pend st' \<and> pids st' = (pids st)(pid := None)"
proof -
  note D = books_okD [OF assms(1)]
  let ?e = "if pend = None then 0 else 1 :: nat" and ?p = "\<lambda>i. if pend = Some i then 1 else 0 :: nat"
  let ?m = "pids st" and ?n = "u32 (s_children st + 4294967295)"
  let ?c = "clients_of st ip + ?p ip"
  have cd: "card (dom ?m) = card (dom (?m(pid := None))) + 1"
    using card_Suc_Diff1 [OF D(3), of pid] assms(2) by (simp add: domI)
  then have ch: "?n = card (dom (?m(pid := None))) + ?e"
    using u32_dec [of "s_children st"] D(5,7) by simp
  have cl: "clients_of st i = card {p. (?m(pid := None)) p = Some i} + (if ip = i then 1 else 0)" for i
    using clients_of_remove [OF D(4) assms(2)] by (simp add: clients_of_def)
  have c: "counts st ip = Some ?c" "0 < ?c" using D(8) [of ip] cl [of ip] by (simp_all add: Let_def)
  obtain a where a: "a \<noteq> 0" "hash_lookup_entry (s_p_pid_ip_hash st) pid = Inr a"
    "value_load (s_p_pid_ip_hash st) a = Inr ip"
    using hash_tbl.lookup_present [OF D(2), of pid ip] assms(2) by (auto simp: pids_def)
  let ?st1 = "st\<lparr>s_children := ?n\<rparr>"
  obtain t where t: "drop_ip_count (Some ip) ?st1 = Inr (?st1\<lparr>s_p_ip_count_hash := t\<rparr>)" "hash_ok t"
    "hmap t = (counts st)(ip := if ?c = 1 then None else Some (?c - 1))"
    using drop_ip_count_ok [of ?st1 ip ?c] D(1) c by auto
  obtain u where u: "hash_free_entry (s_p_pid_ip_hash st) pid = Inr u" "hash_ok u"
    "hmap u = ?m(pid := None)"
    using hash_tbl.free_present [OF D(2), of pid] assms(2) by (auto simp: pids_def)
  let ?st' = "?st1\<lparr>s_p_ip_count_hash := t, s_p_pid_ip_hash := u\<rparr>"
  have res: "reap_child pid st = Inr ?st'" using a t(1) u(1) by (simp add: reap_child_def Let_def)
  have pu: "pids ?st' = ?m(pid := None)" using u(3) by simp
  have "clients_of st i = clients_of ?st' i + (if ip = i then 1 else 0)" for i
    using cl [of i] by (simp only: clients_of_def pu)
  then have "counts ?st' i = (let n = clients_of ?st' i + ?p i in if n = 0 then None else Some n)" for i
    using t(3) D(8) [of i] by (auto simp: Let_def)
  then have "books_ok pend ?st'"
    using t(2) u(2) pu ch D(9) by (auto simp: books_ok_def)
  then show ?thesis using res pu by blast
qed

text \<open>The children a check point may hand over: recorded ones, each once.\<close>

definition reapable :: "listener \<Rightarrow> nat list \<Rightarrow> bool" where
  "reapable st ps \<longleftrightarrow> distinct ps \<and> (\<forall>p \<in> set ps. pids st p \<noteq> None)"

lemma handle_sigchld_ok:
  assumes "books_ok pend st" and "reapable st ps"
  shows "\<exists>st'. handle_sigchld ps st = Inr st' \<and> books_ok pend st' \<and> pids st' = (pids st) |` (- set ps)"
  using assms
proof (induction ps arbitrary: st)
  case Nil
  then show ?case by (simp add: handle_sigchld_def restrict_map_def)
next
  case (Cons p ps)
  then obtain ip where ip: "pids st p = Some ip" by (auto simp: reapable_def)
  obtain st1 where st1: "reap_child p st = Inr st1" "books_ok pend st1" "pids st1 = (pids st)(p := None)"
    using reap_child_ok [OF Cons.prems(1) ip] by blast
  then have "reapable st1 ps" using Cons.prems(2) by (auto simp: reapable_def)
  then obtain st' where "handle_sigchld ps st1 = Inr st'" "books_ok pend st'"
    "pids st' = (pids st1) |` (- set ps)"
    using Cons.IH [OF st1(2)] by blast
  then show ?case using st1 by (auto simp: handle_sigchld_def restrict_map_def fun_eq_iff)
qed

text \<open>The new child is recorded, or its count taken back when \<open>fork\<close> failed.\<close>

lemma record_child_ok:
  assumes "books_ok (Some ip) st" and "pids st pid = None" and "0 < pid" and "pid < 2147483648"
  shows "\<exists>t. hash_add_entry (s_p_pid_ip_hash st) pid ip = Inr t \<and> books_ok None (st\<lparr>s_p_pid_ip_hash := t\<rparr>) \<and>
           hmap t = (pids st)(pid \<mapsto> ip)"
proof -
  note D = books_okD [OF assms(1)]
  obtain t where t: "hash_add_entry (s_p_pid_ip_hash st) pid ip = Inr t" "hash_ok t"
    "hmap t = (pids st)(pid \<mapsto> ip)"
    using hash_tbl.add_absent [OF D(2), of pid ip] assms(2) by (auto simp: pids_def)
  have "card (dom ((pids st)(pid \<mapsto> ip))) = card (dom (pids st)) + 1"
    using D(3) assms(2) by (simp add: domIff)
  moreover have "clients_of (st\<lparr>s_p_pid_ip_hash := t\<rparr>) i = clients_of st i + (if ip = i then 1 else 0)" for i
    unfolding clients_of_def pids_upd t(3) by (rule clients_of_add [OF D(4) assms(2)])
  then have "counts st i = (let n = clients_of (st\<lparr>s_p_pid_ip_hash := t\<rparr>) i
      in if n = 0 then None else Some n)" for i
    using D(8) [of i] by (simp add: Let_def)
  ultimately show ?thesis
    using t D(1,7,9) assms(3,4) by (simp add: books_ok_def)
qed

lemma abandon_child_ok:
  assumes "books_ok (Some ip) st"
  shows "\<exists>st'. drop_ip_count (Some ip) (st\<lparr>s_children := u32 (s_children st + 4294967295)\<rparr>) = Inr st' \<and>
           books_ok None st' \<and> pids st' = pids st"
proof -
  note D = books_okD [OF assms]
  let ?st = "st\<lparr>s_children := u32 (s_children st + 4294967295)\<rparr>" and ?c = "clients_of st ip + 1"
  have c: "counts ?st ip = Some ?c" using D(8) [of ip] by (simp add: Let_def)
  have n: "u32 (s_children st + 4294967295) = card (dom (pids st))"
    using u32_dec [of "s_children st"] D(5,7) by simp
  obtain t where t: "drop_ip_count (Some ip) ?st = Inr (?st\<lparr>s_p_ip_count_hash := t\<rparr>)" "hash_ok t"
    "hmap t = (counts ?st)(ip := if ?c = 1 then None else Some (?c - 1))"
    using drop_ip_count_ok [OF _ c] D(1) by auto
  let ?st' = "?st\<lparr>s_p_ip_count_hash := t\<rparr>"
  have "clients_of ?st' = clients_of st" by (rule clients_of_cong) simp
  moreover have "counts ?st' i = (if clients_of st i = 0 then None else Some (clients_of st i))" for i
    using t(3) D(8) [of i] by (auto simp: Let_def)
  ultimately have "books_ok None ?st'" using t(2) n D(2,9) by (simp add: books_ok_def Let_def)
  then show ?thesis using t(1) by auto
qed

section \<open>Reachable states\<close>

text \<open>
  What the kernel guarantees: \<open>waitpid\<close> hands over children that were forked and not handed over
  before, and \<open>fork\<close> returns a pid that no unreaped child has. \<open>close\<close> is not assumed to be
  uninterrupted, but the handler then must not meet the child whose pid is yet to be recorded.
\<close>

definition live_after :: "listener \<Rightarrow> nat list \<Rightarrow> nat \<Rightarrow> string option" where
  "live_after st ps = (pids st) |` (- set ps)"

fun kernel_ok :: "event \<Rightarrow> listener \<Rightarrow> bool" where
  "kernel_ok (AcceptFail ps) st \<longleftrightarrow> reapable st ps"
| "kernel_ok (Accept ip new_child ps qs) st \<longleftrightarrow>
     reapable st (ps @ qs) \<and>
     (new_child > 0 \<longrightarrow> new_child < 2147483648 \<and> live_after st (ps @ qs) (nat new_child) = None)"

inductive reachable :: "listener \<Rightarrow> bool" where
  start: "standalone_init = Inr st \<Longrightarrow> reachable st"
| step: "reachable st \<Longrightarrow> kernel_ok ev st \<Longrightarrow> standalone_step ev st = Inr (Parent st') \<Longrightarrow> reachable st'"

lemma accept_client_ok:
  assumes "books_ok None st" and "reapable st qs"
    and "new_child > 0 \<longrightarrow> new_child < 2147483648 \<and> live_after st qs (nat new_child) = None"
  shows "if new_child = 0
         then accept_client ip new_child qs st =
                Inr (Child \<lparr>num_children = card (dom (pids st)) + 1, num_this_ip = clients_of st ip + 1\<rparr>)
         else \<exists>st'. accept_client ip new_child qs st = Inr (Parent st') \<and> books_ok None st' \<and>
                pids st' = (if new_child > 0 then (live_after st qs)(nat new_child \<mapsto> ip) else live_after st qs)"
proof -
  obtain st2 where st2: "handle_ip_count ip (st\<lparr>s_children := u32 (s_children st + 1)\<rparr>) =
      Inr (clients_of st ip + 1, st2)" "books_ok (Some ip) st2" "pids st2 = pids st"
      "s_children st2 = card (dom (pids st)) + 1"
    using handle_ip_count_ok [OF assms(1), of ip] by blast
  have "reapable st2 qs" using assms(2) st2(3) by (simp add: reapable_def)
  then obtain st3 where st3: "handle_sigchld qs st2 = Inr st3" "books_ok (Some ip) st3"
    "pids st3 = live_after st qs"
    using handle_sigchld_ok [OF st2(2)] st2(3) by (auto simp: live_after_def)
  note e = accept_client_def st2(1) [simplified] st2(4) st3(1)
  consider "new_child = 0" | "new_child > 0" | "new_child < 0" by linarith
  then show ?thesis
  proof cases
    case 1
    then show ?thesis by (simp add: e)
  next
    case 2
    then obtain t where "hash_add_entry (s_p_pid_ip_hash st3) (nat new_child) ip = Inr t"
      "books_ok None (st3\<lparr>s_p_pid_ip_hash := t\<rparr>)" "hmap t = (live_after st qs)(nat new_child \<mapsto> ip)"
      using record_child_ok [OF st3(2), of "nat new_child"] assms(3) st3(3) by (auto simp: nat_less_iff)
    then show ?thesis using 2 by (simp add: e)
  next
    case 3
    then show ?thesis using abandon_child_ok [OF st3(2)] st3(3) by (auto simp: e)
  qed
qed

lemma standalone_init_ok: "\<exists>st. standalone_init = Inr st \<and> books_ok None st \<and> pids st = (\<lambda>_. None)"
proof -
  obtain t :: "(string, nat) hash" where t: "hash_alloc 256 16 4 hash_ip = Inr t" "hash_ok t"
    "hmap t = (\<lambda>_. None)"
    using hash_alloc_ok [of 256 hash_ip 16 4] by (auto simp: hash_ip_def INT_MAX_def)
  obtain u :: "(nat, string) hash" where u: "hash_alloc 256 4 16 hash_pid = Inr u" "hash_ok u"
    "hmap u = (\<lambda>_. None)"
    using hash_alloc_ok [of 256 hash_pid 4 16] by (auto simp: hash_pid_def INT_MAX_def)
  show ?thesis using t u
    by (simp add: standalone_init_def books_ok_def pids_def counts_def clients_of_def Let_def)
qed

text \<open>What one event does to a listener whose books are in order.\<close>

lemma standalone_step_ok:
  assumes "books_ok None st" and "kernel_ok ev st"
  shows "case standalone_step ev st of
           Inr (Parent st') \<Rightarrow> books_ok None st'
         | Inr (Child c) \<Rightarrow> (\<exists>ip ps qs. ev = Accept ip 0 ps qs)
         | Inl _ \<Rightarrow> False"
proof (cases ev)
  case (AcceptFail ps)
  then show ?thesis using handle_sigchld_ok [OF assms(1), of ps] assms(2) by auto
next
  case (Accept ip n ps qs)
  then obtain st1 where st1: "handle_sigchld ps st = Inr st1" "books_ok None st1"
    "pids st1 = live_after st ps"
    using handle_sigchld_ok [OF assms(1), of ps] assms(2) by (auto simp: reapable_def live_after_def)
  have "reapable st1 qs"
    using assms(2) Accept st1(3) by (auto simp: reapable_def live_after_def restrict_map_def)
  moreover have "live_after st1 qs = live_after st (ps @ qs)"
    using st1(3) by (auto simp: live_after_def restrict_map_def)
  ultimately show ?thesis
    using accept_client_ok [OF st1(2), of qs n ip] assms(2) Accept st1(1)
    by (auto split: if_splits)
qed

lemma reachable_books: "reachable st \<Longrightarrow> books_ok None st"
proof (induction rule: reachable.induct)
  case (start st)
  then show ?case using standalone_init_ok by (metis sum.inject(2))
next
  case (step st ev st')
  then show ?case using standalone_step_ok [OF step.IH step.hyps(2)] by simp
qed

section \<open>Properties\<close>





text \<open>
  The child that serves a connection is told the true load: the number of live children with itself, and
  the number of live children of its own address with itself, at the moment of the fork.
\<close>

lemma launch_info_exact:
  assumes "reachable st" and "reapable st ps"
  shows "standalone_step (Accept ip 0 ps qs) st =
           Inr (Child \<lparr>num_children = card (dom (live_after st ps)) + 1,
                       num_this_ip = card {p. live_after st ps p = Some ip} + 1\<rparr>)"
proof -
  obtain st1 where st1: "handle_sigchld ps st = Inr st1" "books_ok None st1"
    "pids st1 = live_after st ps"
    using handle_sigchld_ok [OF reachable_books [OF assms(1)] assms(2)] by (auto simp: live_after_def)
  obtain st2 where "handle_ip_count ip (st1\<lparr>s_children := u32 (s_children st1 + 1)\<rparr>) =
      Inr (clients_of st1 ip + 1, st2)" "s_children st2 = card (dom (pids st1)) + 1"
    using handle_ip_count_ok [OF st1(2), of ip] by blast
  then show ?thesis using st1 by (simp add: accept_client_def clients_of_def)
qed

text \<open>
  The one ordering the kernel promises do not exclude goes wrong: the parent closes the client
  socket before it records the new child, \<open>vsf_sysutil_close\<close> acts on signals when it is
  interrupted, and a child that has already exited by then is not in the table; the handler
  passes the null pointer of the failed lookup on to \<open>drop_ip_count\<close>.
\<close>

theorem reap_before_record_faults:
  assumes "reachable st" and "live_after st ps pid = None" and "reapable st ps" and "0 < pid"
  shows "standalone_step (Accept ip (int pid) ps [pid]) st = Inl Overrun"
proof -
  obtain st1 where st1: "handle_sigchld ps st = Inr st1" "books_ok None st1"
    "pids st1 = live_after st ps"
    using handle_sigchld_ok [OF reachable_books [OF assms(1)] assms(3)] by (auto simp: live_after_def)
  obtain st2 where st2: "handle_ip_count ip (st1\<lparr>s_children := u32 (s_children st1 + 1)\<rparr>) =
      Inr (clients_of st1 ip + 1, st2)" "books_ok (Some ip) st2" "pids st2 = pids st1"
    using handle_ip_count_ok [OF st1(2), of ip] by blast
  have "hash_lookup_entry (s_p_pid_ip_hash st2) pid = Inr 0"
    using hash_tbl.lookup_absent [OF books_okD(2) [OF st2(2)], of pid] assms(2) st1(3) st2(3)
    by (simp add: pids_def)
  then have "handle_sigchld [pid] st2 = Inl Overrun"
    by (simp add: handle_sigchld_def reap_child_def drop_ip_count_def Let_def)
  then show ?thesis using st1(1) st2(1) [simplified] assms(4) by (simp add: accept_client_def)
qed

theorem reap_before_record_faults_witness:
  "\<exists>st. reachable st \<and> standalone_step (Accept ''0123456789abcdef'' 77 [] [77]) st = Inl Overrun"
proof -
  obtain st where st: "reachable st" "pids st = (\<lambda>_. None)"
    using standalone_init_ok reachable.start by blast
  then show ?thesis using reap_before_record_faults [OF st(1), of "[]" 77 "''0123456789abcdef''"]
    by (auto simp: live_after_def reapable_def)
qed

end
