(* ===== verification/Ascii.thy ===== *)
theory Ascii
  imports Prelude
begin

text \<open>
  ASCII mode of \<^verbatim>\<open>apps/vsftpd-2.2.0/ascii.c\<close>. Uploads go through \<open>vsf_ascii_ascii_to_bin\<close>, which works
  in place on a buffer that has one byte to spare in front of the data; downloads through
  \<open>vsf_ascii_bin_to_ascii\<close>, which writes to a second buffer. Both are called once per chunk and carry one
  bit, whether the chunk ended in a carriage return, to the next call. The specification
  works on the whole stream: \<open>decode\<close> turns every CR LF into LF, \<open>encode\<close> puts a CR in front of
  every LF that has none.
\<close>

section \<open>Model\<close>

definition buf_get :: "string \<Rightarrow> nat \<Rightarrow> char res" where
  "buf_get b i = (if i < length b then Inr (b ! i) else Inl Overrun)"

definition buf_set :: "string \<Rightarrow> nat \<Rightarrow> char \<Rightarrow> string res" where
  "buf_set b i c = (if i < length b then Inr (b[i := c]) else Inl Overrun)"

record ascii_to_bin_ret =
  stored :: nat
  last_was_cr :: bool
  p_start :: nat

text \<open>
  The loop: \<open>k\<close> rounds are left, \<open>in_len - k\<close> is \<open>indexx\<close>, \<open>out\<close> the index of \<open>p_out\<close>. It returns the
  buffer, \<open>written\<close> and \<open>last_was_cr\<close>.
\<close>

fun ascii_to_bin_loop :: "nat \<Rightarrow> nat \<Rightarrow> nat \<Rightarrow> nat \<Rightarrow> string \<Rightarrow> (string \<times> nat \<times> bool) res" where
  "ascii_to_bin_loop 0 indexx out written b = Inr (b, written, False)"
| "ascii_to_bin_loop (Suc k) indexx out written b =
     rbind (buf_get b (indexx + 1)) (\<lambda>the_char.
       if the_char \<noteq> CR
       then rbind (buf_set b out the_char) (ascii_to_bin_loop k (indexx + 1) (out + 1) (written + 1))
       else if k = 0 then Inr (b, written, True)
       else rbind (buf_get b (indexx + 2)) (\<lambda>next.
         if next \<noteq> LF
         then rbind (buf_set b out the_char) (ascii_to_bin_loop k (indexx + 1) (out + 1) (written + 1))
         else ascii_to_bin_loop k (indexx + 1) out written b))"

definition vsf_ascii_ascii_to_bin ::
  "string \<Rightarrow> nat \<Rightarrow> bool \<Rightarrow> (string \<times> ascii_to_bin_ret) res" where
  "vsf_ascii_ascii_to_bin b in_len prev_cr =
     rbind (if prev_cr
            then if in_len = 0 then Inr True else rbind (buf_get b 1) (\<lambda>c. Inr (c \<noteq> LF))
            else Inr False) (\<lambda>put_cr.
     rbind (if put_cr then buf_set b 0 CR else Inr b) (\<lambda>b1.
     rbind (ascii_to_bin_loop in_len 0 1 (if put_cr then 1 else 0) b1) (\<lambda>(b2, written, cr).
     Inr (b2, \<lparr>stored = written, last_was_cr = cr, p_start = (if put_cr then 0 else 1)\<rparr>))))"

record bin_to_ascii_ret =
  bstored :: nat
  blast_was_cr :: bool

text \<open>The output buffer has \<open>cap\<close> bytes; writing past them is an \<open>Overrun\<close>.\<close>

definition out_put :: "nat \<Rightarrow> string \<Rightarrow> char \<Rightarrow> string res" where
  "out_put cap out c = (if length out < cap then Inr (out @ [c]) else Inl Overrun)"

fun bin_to_ascii_loop ::
  "nat \<Rightarrow> string \<Rightarrow> char \<Rightarrow> bool \<Rightarrow> string \<Rightarrow> (string \<times> bool) res" where
  "bin_to_ascii_loop cap [] last_char lwc out = Inr (out, lwc)"
| "bin_to_ascii_loop cap (the_char # s) last_char lwc out =
     rbind (if the_char = LF \<and> last_char \<noteq> CR then out_put cap out CR else Inr out) (\<lambda>out1.
     rbind (out_put cap out1 the_char) (\<lambda>out2.
     bin_to_ascii_loop cap s the_char (the_char = CR) out2))"

definition vsf_ascii_bin_to_ascii :: "nat \<Rightarrow> string \<Rightarrow> bool \<Rightarrow> (string \<times> bin_to_ascii_ret) res" where
  "vsf_ascii_bin_to_ascii cap s prev_cr =
     rbind (bin_to_ascii_loop cap s (if prev_cr then CR else NUL) prev_cr []) (\<lambda>(out, lwc).
     Inr (out, \<lparr>bstored = length out, blast_was_cr = lwc\<rparr>))"

section \<open>Streams\<close>

fun decode :: "string \<Rightarrow> string" where
  "decode [] = []"
| "decode [c] = [c]"
| "decode (c # d # s) = (if c = CR \<and> d = LF then LF # decode s else c # decode (d # s))"

fun encode :: "bool \<Rightarrow> string \<Rightarrow> string" where
  "encode p [] = []"
| "encode p (c # s) = (if c = LF \<and> \<not> p then [CR, LF] else [c]) @ encode (c = CR) s"

definition ends_cr :: "bool \<Rightarrow> string \<Rightarrow> bool" where
  "ends_cr p s = (if s = [] then p else last s = CR)"

lemma decode_Cons: "decode (c # s) = (if c = CR \<and> s \<noteq> [] \<and> hd s = LF then [] else [c]) @ decode s"
  by (cases s rule: decode.cases) auto

lemma decode_append: "\<not> (u \<noteq> [] \<and> last u = CR) \<or> \<not> (v \<noteq> [] \<and> hd v = LF) \<Longrightarrow> decode (u @ v) = decode u @ decode v"
proof (induction u)
  case (Cons c u)
  then show ?case by (cases u) (auto simp: decode_Cons)
qed simp

lemma encode_append: "encode p (u @ v) = encode p u @ encode (ends_cr p u) v"
  by (induction u arbitrary: p) (auto simp: ends_cr_def)

lemma length_encode: "length (encode p s) \<le> 2 * length s"
  by (induction s arbitrary: p) (auto simp: le_SucI)

text \<open>Decoding undoes encoding up to the line ends the text already had.\<close>

lemma decode_encode: "decode ((if p then [CR] else []) @ encode p s) = decode ((if p then [CR] else []) @ s)"
proof (induction s arbitrary: p)
  case (Cons c s)
  consider "c = CR" | "c = LF" | "c \<noteq> CR" "c \<noteq> LF" by blast
  then show ?case
  proof cases
    case 1
    then show ?thesis using Cons [of True] by (cases p) (simp_all add: decode_Cons [of CR "CR # s" for s])
  next
    case 2
    then show ?thesis using Cons [of False] by (cases p) (simp_all add: decode_Cons [of LF])
  next
    case 3
    then show ?thesis using Cons [of False] by (cases p) (simp_all add: decode_Cons [of c])
  qed
qed simp

lemma decode_id: "decode s = s \<longleftrightarrow> \<not> sublist [CR, LF] s"
proof (induction s)
  case (Cons c s)
  have l: "length (decode t) \<le> length t" for t
    by (induction t rule: decode.induct) (auto simp: le_SucI)
  show ?case
  proof (cases "c = CR \<and> s \<noteq> [] \<and> hd s = LF")
    case True
    then have "length (decode (c # s)) < length (c # s)" using l [of s] by (simp add: decode_Cons)
    moreover have "sublist [CR, LF] (c # s)"
      using True by (cases s) (auto simp: sublist_Cons_right)
    ultimately show ?thesis by (metis less_irrefl)
  next
    case False
    then have "\<not> prefix [CR, LF] (c # s)" by (cases s) auto
    then show ?thesis using False Cons by (auto simp: decode_Cons sublist_Cons_right)
  qed
qed simp

section \<open>One chunk\<close>

text \<open>
  The loop in place: the data already handled has been compacted to \<open>pre\<close> (of length \<open>out\<close>), some stale
  bytes \<open>gap\<close> lie between the write and the read position, and \<open>s\<close> is still unread; the loop
  never overtakes its input.
\<close>

definition cr_left :: "string \<Rightarrow> bool" where
  "cr_left s \<longleftrightarrow> s \<noteq> [] \<and> last s = CR"

definition chunk_out :: "string \<Rightarrow> string" where
  "chunk_out s = decode (if cr_left s then butlast s else s)"

lemma chunk_out_Cons:
  "s \<noteq> [] \<Longrightarrow> chunk_out (c # s) = (if c = CR \<and> hd s = LF then [] else [c]) @ chunk_out s"
  by (cases s) (auto simp: chunk_out_def cr_left_def decode_Cons)

lemma ascii_to_bin_loop_eq:
  "length (pre @ gap) = indexx + 1 \<Longrightarrow>
   \<exists>rest. ascii_to_bin_loop (length s) indexx (length pre) w (pre @ gap @ s @ tail) =
            Inr (pre @ chunk_out s @ rest @ tail, w + length (chunk_out s), cr_left s) \<and>
          length rest + length (chunk_out s) = length gap + length s"
proof (induction s arbitrary: pre gap indexx w)
  case Nil
  then show ?case by (intro exI [of _ gap]) (simp add: chunk_out_def cr_left_def)
next
  case (Cons c s)
  let ?b = "pre @ gap @ c # s @ tail"
  have g1: "buf_get ?b (indexx + 1) = Inr c"
    using Cons.prems by (simp add: buf_get_def nth_append flip: append_assoc)
  have keep: "\<exists>rest. rbind (buf_set ?b (length pre) c)
        (ascii_to_bin_loop (length s) (indexx + 1) (length pre + 1) (w + 1)) =
      Inr (pre @ (c # chunk_out s) @ rest @ tail, w + length (c # chunk_out s), cr_left s) \<and>
      length rest + length (c # chunk_out s) = length gap + length (c # s)"
  proof -
    obtain g where g: "?b[length pre := c] = (pre @ [c]) @ g @ s @ tail" "length g = length gap"
    proof (cases gap)
      case Nil
      then show ?thesis using that [of "[]"] by simp
    next
      case (Cons x gap')
      then show ?thesis using that [of "gap' @ [c]"] by (simp add: list_update_append)
    qed
    have "buf_set ?b (length pre) c = Inr ((pre @ [c]) @ g @ s @ tail)" using g(1) by (simp add: buf_set_def)
    then show ?thesis
      using Cons.IH [of "pre @ [c]" g "indexx + 1" "w + 1"] Cons.prems g(2) by auto
  qed
  consider (fin) "c = CR" "s = []" | (drop) d t where "c = CR" "s = d # t" "d = LF"
    | (stay) "c \<noteq> CR \<or> (\<exists>d t. s = d # t \<and> d \<noteq> LF)" by (cases s) auto
  then show ?case
  proof cases
    case fin
    then show ?thesis using g1 by (intro exI [of _ "gap @ [CR]"]) (simp add: chunk_out_def cr_left_def)
  next
    case drop
    have g2: "buf_get ?b (indexx + 2) = Inr d"
      using Cons.prems drop(2) by (simp add: buf_get_def nth_append flip: append_assoc)
    have "chunk_out (c # s) = chunk_out s" "cr_left (c # s) = cr_left s"
      using drop by (simp_all add: chunk_out_Cons cr_left_def)
    then show ?thesis
      using g1 g2 drop Cons.IH [of pre "gap @ [c]" "indexx + 1" w] Cons.prems by auto
  next
    case stay
    have e: "ascii_to_bin_loop (length (c # s)) indexx (length pre) w ?b =
        rbind (buf_set ?b (length pre) c) (ascii_to_bin_loop (length s) (indexx + 1) (length pre + 1) (w + 1))"
    proof (cases "c = CR")
      case True
      then obtain d t where d: "s = d # t" "d \<noteq> LF" using stay by auto
      have "buf_get ?b (indexx + 2) = Inr d"
        using Cons.prems d(1) by (simp add: buf_get_def nth_append flip: append_assoc)
      then show ?thesis using g1 True d by simp
    qed (use g1 in simp)
    have "chunk_out (c # s) = c # chunk_out s" "cr_left (c # s) = cr_left s"
      using stay by (cases s; auto simp: chunk_out_def cr_left_def decode_Cons)+
    then show ?thesis using keep e by simp
  qed
qed

text \<open>One call on a chunk \<open>s\<close> behind the spare byte \<open>x\<close>, whatever lies after it in the buffer.\<close>

lemma ascii_to_bin_chunk:
  assumes "s \<noteq> [] \<or> prev_cr"
  defines "out \<equiv> (if s = [] then [CR] else chunk_out ((if prev_cr then [CR] else []) @ s))"
  shows "\<exists>b r. vsf_ascii_ascii_to_bin (x # s @ tail) (length s) prev_cr = Inr (b, r) \<and>
           length b = length (x # s @ tail) \<and> stored r = length out \<and>
           take (stored r) (drop (p_start r) b) = out \<and> last_was_cr r = cr_left s"
proof (cases "prev_cr \<and> (s = [] \<or> hd s \<noteq> LF)")
  case True
  obtain rest where l: "ascii_to_bin_loop (length s) 0 1 1 (CR # s @ tail) =
      Inr (CR # chunk_out s @ rest @ tail, 1 + length (chunk_out s), cr_left s)"
    "length rest + length (chunk_out s) = length s"
    using ascii_to_bin_loop_eq [of "[CR]" "[]" 0 s 1 tail] by auto
  have "out = CR # chunk_out s"
    using True chunk_out_Cons [of s CR] by (auto simp: out_def chunk_out_def cr_left_def)
  moreover have "(if length s = 0 then Inr True else rbind (buf_get (x # s @ tail) 1) (\<lambda>c. Inr (c \<noteq> LF))) =
      Inr True"
    using True by (cases s) (auto simp: buf_get_def)
  ultimately show ?thesis using True l
    by (simp add: vsf_ascii_ascii_to_bin_def buf_set_def)
next
  case False
  obtain rest where l: "ascii_to_bin_loop (length s) 0 1 0 (x # s @ tail) =
      Inr (x # chunk_out s @ rest @ tail, length (chunk_out s), cr_left s)"
    "length rest + length (chunk_out s) = length s"
    using ascii_to_bin_loop_eq [of "[x]" "[]" 0 s 0 tail] by auto
  have "out = chunk_out s" using False assms chunk_out_Cons [of s CR] by (auto simp: out_def)
  moreover have "(if prev_cr then if length s = 0 then Inr True
        else rbind (buf_get (x # s @ tail) 1) (\<lambda>c. Inr (c \<noteq> LF)) else Inr False) = Inr False"
    using False assms by (cases s) (auto simp: buf_get_def)
  ultimately show ?thesis using l by (simp add: vsf_ascii_ascii_to_bin_def)
qed

text \<open>One call in the other direction; twice the input is room enough.\<close>

lemma bin_to_ascii_loop_eq:
  "length out + 2 * length s \<le> cap \<Longrightarrow> (last_char = CR) = p \<Longrightarrow>
   bin_to_ascii_loop cap s last_char p out = Inr (out @ encode p s, ends_cr p s)"
proof (induction s arbitrary: out last_char p)
  case (Cons c s)
  then show ?case using Cons.IH [of _ c "c = CR"] by (auto simp: out_put_def ends_cr_def)
qed (simp add: ends_cr_def)

lemma bin_to_ascii_chunk:
  "2 * length s \<le> cap \<Longrightarrow>
   vsf_ascii_bin_to_ascii cap s prev_cr =
     Inr (encode prev_cr s, \<lparr>bstored = length (encode prev_cr s), blast_was_cr = ends_cr prev_cr s\<rparr>)"
  using bin_to_ascii_loop_eq [of "[]" s cap "if prev_cr then CR else NUL" prev_cr]
  by (simp add: vsf_ascii_bin_to_ascii_def)

section \<open>Streams in chunks\<close>

text \<open>
  Both conversions work chunk by chunk with one bit of state. What makes the result independent of the
  chunking is one law: converting a non-empty chunk and then the rest is converting everything.
\<close>

fun run_chunks ::
  "(bool \<Rightarrow> string \<Rightarrow> string) \<Rightarrow> (bool \<Rightarrow> string \<Rightarrow> bool) \<Rightarrow> bool \<Rightarrow> string list \<Rightarrow> string \<times> bool" where
  "run_chunks out carry p [] = ([], p)"
| "run_chunks out carry p (c # cs) =
     (let (t, q) = run_chunks out carry (carry p c) cs in (out p c @ t, q))"

locale chunk_codec =
  fixes out :: "bool \<Rightarrow> string \<Rightarrow> string" and carry :: "bool \<Rightarrow> string \<Rightarrow> bool"
    and conv :: "bool \<Rightarrow> string \<Rightarrow> string"
  assumes conv_step: "s \<noteq> [] \<Longrightarrow> conv p (s @ u) = out p s @ conv (carry p s) u"
begin

lemma conv_chunks:
  "[] \<notin> set cs \<Longrightarrow>
   conv p (concat cs) = fst (run_chunks out carry p cs) @ conv (snd (run_chunks out carry p cs)) []"
proof (induction cs arbitrary: p)
  case (Cons c cs)
  then have c: "c \<noteq> []" and cs: "[] \<notin> set cs" by auto
  show ?case using Cons.IH [OF cs, of "carry p c"] conv_step [OF c, of p "concat cs"]
    by (simp add: split_beta Let_def)
qed simp

end

definition dec_out :: "bool \<Rightarrow> string \<Rightarrow> string" where
  "dec_out p s = chunk_out ((if p then [CR] else []) @ s)"

definition dec_conv :: "bool \<Rightarrow> string \<Rightarrow> string" where
  "dec_conv p s = decode ((if p then [CR] else []) @ s)"

interpretation dec: chunk_codec dec_out "\<lambda>p. cr_left" dec_conv
proof
  fix s u :: string and p
  assume s: "s \<noteq> []"
  let ?t = "(if p then [CR] else []) @ s"
  have l: "?t \<noteq> []" "last ?t = last s" using s by auto
  show "dec_conv p (s @ u) = dec_out p s @ dec_conv (cr_left s) u"
  proof (cases "last s = CR")
    case True
    have "?t = butlast ?t @ [CR]" using append_butlast_last_id [OF l(1)] l(2) True by metis
    then have "decode (?t @ u) = decode (butlast ?t @ CR # u)" by (metis append.assoc append_Cons append_Nil)
    also have "\<dots> = decode (butlast ?t) @ decode (CR # u)" by (rule decode_append) simp
    finally show ?thesis using True s l by (simp add: dec_conv_def dec_out_def chunk_out_def cr_left_def)
  next
    case False
    then have "decode (?t @ u) = decode ?t @ decode u" using l by (intro decode_append) simp
    then show ?thesis using False s l by (simp add: dec_conv_def dec_out_def chunk_out_def cr_left_def)
  qed
qed

interpretation enc: chunk_codec encode ends_cr encode
  by unfold_locales (simp add: encode_append)

end
