(* ===== verification/Netio.thy ===== *)
theory Netio
  imports Text
begin

text \<open>
  Reading and writing descriptors: the loops of \<^verbatim>\<open>sysutil.c\<close> around \<open>read\<close>, \<open>recv\<close> and \<open>write\<close>, and
  \<^verbatim>\<open>netstr.c\<close>, which cuts command lines out of the stream a client sends.

  What the kernel answers to one call is an element of a list: interrupted by a signal (\<open>Eintr\<close>), failed
  (\<open>Err\<close>), or \<open>Grant n\<close>, some of the bytes that are there or that fit, at least one and at most \<open>n\<close>. When
  the list is used up, the kernel serves each call completely. The bytes a client sends before it
  closes the connection are the stream \<open>input\<close>. The signal handlers that may run at the
  check points inside these loops are not part of this model.
\<close>

section \<open>Model\<close>

datatype answer = Eintr | Err | Grant nat

record stream =
  input :: string
  answers :: "answer list"

definition granted :: "nat \<Rightarrow> nat \<Rightarrow> nat" where
  "granted n sz = min (max 1 n) sz"

text \<open>The next answer that is not an interruption, as the loops retry on \<open>EINTR\<close>.\<close>

fun settle :: "answer list \<Rightarrow> answer option \<times> answer list" where
  "settle [] = (None, [])"
| "settle (Eintr # ks) = settle ks"
| "settle (k # ks) = (Some k, ks)"

definition vsf_sysutil_read :: "stream \<Rightarrow> nat \<Rightarrow> int \<times> string \<times> stream" where
  "vsf_sysutil_read st sz =
     (case settle (answers st) of
        (Some Err, ks) \<Rightarrow> (-1, [], st\<lparr>answers := ks\<rparr>)
      | (k, ks) \<Rightarrow>
          let d = take (case k of Some (Grant n) \<Rightarrow> granted n sz | _ \<Rightarrow> sz) (input st)
          in (int (length d), d, st\<lparr>input := drop (length d) (input st), answers := ks\<rparr>))"

definition vsf_sysutil_recv_peek :: "stream \<Rightarrow> nat \<Rightarrow> int \<times> string \<times> stream" where
  "vsf_sysutil_recv_peek st sz =
     (case settle (answers st) of
        (Some Err, ks) \<Rightarrow> (-1, [], st\<lparr>answers := ks\<rparr>)
      | (k, ks) \<Rightarrow>
          let d = take (case k of Some (Grant n) \<Rightarrow> granted n sz | _ \<Rightarrow> sz) (input st)
          in (int (length d), d, st\<lparr>answers := ks\<rparr>))"

text \<open>The return value, what was read, and the stream afterwards.\<close>

function read_loop :: "stream \<Rightarrow> nat \<Rightarrow> string \<Rightarrow> (int \<times> string \<times> stream) res" where
  "read_loop st sz got =
     (let (retval, d, st1) = vsf_sysutil_read st sz in
      if retval < 0 then Inr (retval, got, st1)
      else if retval = 0 then Inr (int (length got), got, st1)
      else if nat retval > sz then Inl (Die ''retval too big in vsf_sysutil_read_loop'')
      else if sz - nat retval = 0 then Inr (int (length (got @ d)), got @ d, st1)
      else read_loop st1 (sz - nat retval) (got @ d))"
  by pat_completeness auto
termination by (relation "measure (\<lambda>(st, sz, got). sz)") auto

declare read_loop.simps [simp del]

definition vsf_sysutil_read_loop :: "stream \<Rightarrow> nat \<Rightarrow> (int \<times> string \<times> stream) res" where
  "vsf_sysutil_read_loop st sz =
     (if sz > INT_MAX then Inl (Die ''size too big in vsf_sysutil_read_loop'')
      else read_loop st sz [])"

definition vsf_sysutil_write :: "answer list \<Rightarrow> nat \<Rightarrow> int \<times> answer list" where
  "vsf_sysutil_write ks sz =
     (case settle ks of
        (Some Err, ks1) \<Rightarrow> (-1, ks1)
      | (Some (Grant n), ks1) \<Rightarrow> (int (granted n sz), ks1)
      | (_, ks1) \<Rightarrow> (int sz, ks1))"

text \<open>The return value, the bytes the descriptor took, and the answers left.\<close>

function write_loop :: "answer list \<Rightarrow> string \<Rightarrow> string \<Rightarrow> (int \<times> string \<times> answer list) res" where
  "write_loop ks data sent =
     (let (retval, ks1) = vsf_sysutil_write ks (length data) in
      if retval < 0 then Inr (retval, sent, ks1)
      else if retval = 0 then Inr (int (length sent), sent, ks1)
      else if nat retval > length data then Inl (Die ''retval too big in vsf_sysutil_write_loop'')
      else
        let sent1 = sent @ take (nat retval) data; data1 = drop (nat retval) data
        in if data1 = [] then Inr (int (length sent1), sent1, ks1)
           else write_loop ks1 data1 sent1)"
  by pat_completeness auto
termination by (relation "measure (\<lambda>(ks, data, sent). length data)") auto

declare write_loop.simps [simp del]

definition vsf_sysutil_write_loop :: "answer list \<Rightarrow> string \<Rightarrow> (int \<times> string \<times> answer list) res" where
  "vsf_sysutil_write_loop ks data =
     (if length data > INT_MAX then Inl (Die ''size too big in vsf_sysutil_write_loop'')
      else write_loop ks data [])"

text \<open>
  \<open>str_netfd_alloc\<close> with the plain adapters of \<^verbatim>\<open>readwrite.c\<close>. \<open>got\<close> is what already lies in the read
  buffer before \<open>p_readpos\<close>; the loop searches each peeked piece and then consumes
  it from the stream.
\<close>

function netfd_loop :: "char \<Rightarrow> nat \<Rightarrow> string \<Rightarrow> stream \<Rightarrow> (string \<times> stream) res" where
  "netfd_loop trm left got st =
     (if left = 0 then Inr ([], st)
      else
        let (retval, d, st1) = vsf_sysutil_recv_peek st left in
        if retval < 0 then Inl (Die ''vsf_sysutil_recv_peek'')
        else if retval = 0 then Inl (Die ''vsf_sysutil_recv_peek: no data'')
        else if trm \<in> set d
        then let i = length (takeWhile (\<lambda>c. c \<noteq> trm) d) in
             rbind (vsf_sysutil_read_loop st1 (i + 1)) (\<lambda>(r, e, st2).
               if r < 0 \<or> nat r \<noteq> i + 1 then Inl (Die ''vsf_sysutil_read_loop'')
               else if e ! i \<noteq> trm then Inl (Die ''missing terminator in str_netfd_alloc'')
               else Inr (takeWhile (\<lambda>c. c \<noteq> trm) (got @ e), st2))
        else if nat retval > left then Inl (Bug ''bytes_read > left in str_netfd_alloc'')
        else rbind (vsf_sysutil_read_loop st1 (nat retval)) (\<lambda>(r, e, st2).
               if r < 0 \<or> nat r \<noteq> nat retval then Inl (Die ''vsf_sysutil_read_loop'')
               else netfd_loop trm (left - nat retval) (got @ e) st2))"
  by pat_completeness auto
termination by (relation "measure (\<lambda>(trm, left, dn, st). left)") auto

declare netfd_loop.simps [simp del]

definition str_netfd_alloc :: "stream \<Rightarrow> char \<Rightarrow> nat \<Rightarrow> (string \<times> stream) res" where
  "str_netfd_alloc st trm maxlen = netfd_loop trm maxlen [] st"

definition str_netfd_write :: "answer list \<Rightarrow> string \<Rightarrow> (int \<times> string \<times> answer list) res" where
  "str_netfd_write ks s =
     (if s = [] then Inl (Bug ''zero str_len in str_netfd_write'')
      else rbind (vsf_sysutil_write_loop ks s) (\<lambda>(retval, sent, ks1).
           Inr (if retval < 0 \<or> nat retval \<noteq> length s then -1 else 0, sent, ks1)))"

definition str_netfd_read :: "stream \<Rightarrow> nat \<Rightarrow> (int \<times> string \<times> stream) res" where
  "str_netfd_read st n =
     rbind (vsf_sysutil_read_loop st n) (\<lambda>(retval, d, st1).
     Inr (if retval < 0 \<or> nat retval \<noteq> n then -1 else retval, d, st1))"

definition VSFTP_MAX_COMMAND_LINE :: nat where
  "VSFTP_MAX_COMMAND_LINE = 4096"

definition ftp_getline :: "stream \<Rightarrow> (string \<times> stream) res" where
  "ftp_getline st = str_netfd_alloc st LF VSFTP_MAX_COMMAND_LINE"

section \<open>Kernels that do not fail\<close>

definition no_errors :: "answer list \<Rightarrow> bool" where
  "no_errors ks \<longleftrightarrow> Err \<notin> set ks"

lemma settle_cases:
  assumes "no_errors ks"
  obtains ks1 where "settle ks = (None, ks1)" "no_errors ks1"
  | n ks1 where "settle ks = (Some (Grant n), ks1)" "no_errors ks1"
  using assms by (induction ks rule: settle.induct) (auto simp: no_errors_def split: answer.splits)

lemma read_piece:
  assumes "no_errors (answers st)" and "0 < n" and "input st \<noteq> []"
  obtains d st1 where "vsf_sysutil_read st n = (int (length d), d, st1)" "d \<noteq> []" "length d \<le> n"
    "input st = d @ input st1" "no_errors (answers st1)"
proof -
  have split: "input st = take m (input st) @ drop (min (length (input st)) m) (input st)" for m
    by (simp add: min_def)
  let ?d = "\<lambda>m. take m (input st)" and ?st = "\<lambda>m ks. st\<lparr>input := drop (length (take m (input st))) (input st), answers := ks\<rparr>"
  from assms(1) show ?thesis
  proof (cases rule: settle_cases)
    case (1 ks1)
    then show ?thesis using that [of "?d n" "?st n ks1"] assms(2,3) split by (simp add: vsf_sysutil_read_def)
  next
    case (2 m ks1)
    then show ?thesis
      using that [of "?d (granted m n)" "?st (granted m n) ks1"] assms(2,3) split
      by (simp add: vsf_sysutil_read_def granted_def)
  qed
qed

lemma peek_piece:
  assumes "no_errors (answers st)" and "0 < n" and "input st \<noteq> []"
  obtains d st1 where "vsf_sysutil_recv_peek st n = (int (length d), d, st1)" "d \<noteq> []" "length d \<le> n"
    "prefix d (input st)" "input st1 = input st" "no_errors (answers st1)"
proof -
  let ?d = "\<lambda>m. take m (input st)"
  from assms(1) show ?thesis
  proof (cases rule: settle_cases)
    case (1 ks1)
    then show ?thesis using that [of "?d n" "st\<lparr>answers := ks1\<rparr>"] assms(2,3)
      by (simp add: vsf_sysutil_recv_peek_def take_is_prefix)
  next
    case (2 m ks1)
    then show ?thesis
      using that [of "?d (granted m n)" "st\<lparr>answers := ks1\<rparr>"] assms(2,3)
      by (simp add: vsf_sysutil_recv_peek_def granted_def take_is_prefix)
  qed
qed

lemma read_loop_full:
  "no_errors (answers st) \<Longrightarrow> 0 < n \<Longrightarrow> n \<le> length (input st) \<Longrightarrow>
   \<exists>st1. read_loop st n got = Inr (int (length got + n), got @ take n (input st), st1) \<and>
         input st1 = drop n (input st) \<and> no_errors (answers st1)"
proof (induction n arbitrary: st got rule: less_induct)
  case (less n)
  have "input st \<noteq> []" using less.prems by auto
  then obtain d st1 where d: "vsf_sysutil_read st n = (int (length d), d, st1)" "d \<noteq> []" "length d \<le> n"
    "input st = d @ input st1" "no_errors (answers st1)"
    using read_piece less.prems by blast
  show ?case
  proof (cases "length d = n")
    case True
    then show ?thesis using d less.prems by (simp add: read_loop.simps [of st n got] Let_def)
  next
    case False
    then have "\<exists>st2. read_loop st1 (n - length d) (got @ d) =
        Inr (int (length (got @ d) + (n - length d)), (got @ d) @ take (n - length d) (input st1), st2) \<and>
        input st2 = drop (n - length d) (input st1) \<and> no_errors (answers st2)"
      using d less.prems by (intro less.IH) auto
    then show ?thesis using d False less.prems
      by (auto simp: read_loop.simps [of st n got] Let_def)
  qed
qed

section \<open>Lines\<close>

text \<open>
  What \<open>str_netfd_alloc\<close> makes of the bytes a client has sent, however the network cuts them up:
  the text before the terminator if there is one among the first \<open>maxlen\<close> bytes; an empty line in
  place of the first \<open>maxlen\<close> bytes if there is none; and the end of the session if the client
  is gone before that.
\<close>

definition next_line :: "char \<Rightarrow> nat \<Rightarrow> string \<Rightarrow> (string \<times> string) res" where
  "next_line trm maxlen s =
     (if trm \<in> set (take maxlen s)
      then Inr (takeWhile (\<lambda>c. c \<noteq> trm) s, tl (dropWhile (\<lambda>c. c \<noteq> trm) s))
      else if maxlen \<le> length s then Inr ([], drop maxlen s)
      else Inl (Die ''vsf_sysutil_recv_peek: no data''))"

definition line_result :: "(string \<times> stream) res \<Rightarrow> (string \<times> string) res" where
  "line_result r = rbind r (\<lambda>(l, st). Inr (l, input st))"

lemma peek_empty:
  "no_errors (answers st) \<Longrightarrow> input st = [] \<Longrightarrow> \<exists>st1. vsf_sysutil_recv_peek st n = (0, [], st1)"
  by (erule settle_cases) (auto simp: vsf_sysutil_recv_peek_def)

lemma takeWhile_hit:
  assumes "prefix d s" and "trm \<in> set d"
  shows "takeWhile (\<lambda>c. c \<noteq> trm) s = takeWhile (\<lambda>c. c \<noteq> trm) d"
    and "length (takeWhile (\<lambda>c. c \<noteq> trm) d) < length d"
proof -
  obtain t where t: "s = d @ t" using assms(1) by (auto simp: prefix_def)
  show "takeWhile (\<lambda>c. c \<noteq> trm) s = takeWhile (\<lambda>c. c \<noteq> trm) d"
    using assms(2) by (simp add: t)
  show "length (takeWhile (\<lambda>c. c \<noteq> trm) d) < length d"
    using assms(2) by (metis (mono_tags) takeWhile_eq_all_conv length_takeWhile_le le_neq_implies_less takeWhile_eq_take take_all order_refl)
qed

lemma netfd_loop_eq:
  "no_errors (answers st) \<Longrightarrow> trm \<notin> set got \<Longrightarrow> left \<le> INT_MAX \<Longrightarrow>
   \<exists>st1. netfd_loop trm left got st =
     rbind (next_line trm left (input st)) (\<lambda>(l, r).
       Inr (if trm \<in> set (take left (input st)) then got @ l else [], st1)) \<and>
     (\<forall>l r. next_line trm left (input st) = Inr (l, r) \<longrightarrow> input st1 = r \<and> no_errors (answers st1))"
proof (induction left arbitrary: st got rule: less_induct)
  case (less left)
  let ?P = "\<lambda>c. c \<noteq> trm" and ?s = "input st"
  consider (full) "left = 0" | (eof) "left \<noteq> 0" "?s = []" | (some) "left \<noteq> 0" "?s \<noteq> []" by blast
  then show ?case
  proof cases
    case full
    then show ?thesis using less.prems(1)
      by (intro exI [of _ st]) (simp add: netfd_loop.simps next_line_def)
  next
    case eof
    then show ?thesis using peek_empty [OF less.prems(1), of left]
      by (auto simp: netfd_loop.simps [of trm left] next_line_def Let_def)
  next
    case some
    then obtain d st1 where d: "vsf_sysutil_recv_peek st left = (int (length d), d, st1)" "d \<noteq> []"
      "length d \<le> left" "prefix d ?s" "input st1 = ?s" "no_errors (answers st1)"
      using peek_piece less.prems(1) by blast
    have ls: "length d \<le> length ?s" using d(4) by (rule prefix_length_le)
    show ?thesis
    proof (cases "trm \<in> set d")
      case True
      note tw = takeWhile_hit [OF d(4) True]
      let ?i = "length (takeWhile ?P d)"
      obtain st2 where st2: "read_loop st1 (?i + 1) [] = Inr (int (?i + 1), take (?i + 1) ?s, st2)"
        "input st2 = drop (?i + 1) ?s" "no_errors (answers st2)"
        using read_loop_full [OF d(6), of "?i + 1" "[]"] tw(2) ls d(5) by auto
      have at: "?s ! ?i = trm" and dw: "tl (dropWhile ?P ?s) = drop (?i + 1) ?s"
        using tw ls nth_length_takeWhile [of ?P ?s]
        by (simp_all add: dropWhile_eq_drop tl_drop drop_Suc)
      have tk: "takeWhile ?P (take (?i + 1) ?s) = takeWhile ?P ?s"
      proof -
        have "take ?i ?s = takeWhile ?P ?s" by (metis takeWhile_eq_take tw(1))
        moreover have "?i < length ?s" using tw(2) ls by simp
        ultimately have "take (?i + 1) ?s = takeWhile ?P ?s @ [trm]" using at by (simp add: take_Suc_conv_app_nth)
        moreover have "takeWhile ?P (takeWhile ?P ?s @ [trm]) = takeWhile ?P ?s @ takeWhile ?P [trm]"
          by (rule takeWhile_append2) (blast dest: set_takeWhileD)
        ultimately show ?thesis by simp
      qed
      have tin: "trm \<in> set (take left ?s)"
        using True d(3,4) by (metis prefix_def set_append take_append UnI1 take_all)
      have n1: "nat (1 + int k) = Suc k" for k by simp
      have tg: "takeWhile ?P (got @ u) = got @ takeWhile ?P u" for u
        using less.prems(2) by (intro takeWhile_append2) auto
      have "netfd_loop trm left got st = Inr (got @ takeWhile ?P ?s, st2)"
        using d some(1) True st2(1) at tw(2) ls less.prems(3) tk
        by (simp add: netfd_loop.simps [of trm left] Let_def vsf_sysutil_read_loop_def n1 tg)
      then show ?thesis using st2(2,3) dw tin by (simp add: next_line_def)
    next
      case False
      obtain t where t: "?s = d @ t" using d(4) by (auto simp: prefix_def)
      obtain st2 where st2: "read_loop st1 (length d) [] = Inr (int (length d), d, st2)"
        "input st2 = t" "no_errors (answers st2)"
        using read_loop_full [OF d(6), of "length d" "[]"] d(2,5) t by auto
      have e: "netfd_loop trm left got st = netfd_loop trm (left - length d) (got @ d) st2"
        using d some(1) False st2(1) less.prems(3)
        by (simp add: netfd_loop.simps [of trm left] Let_def vsf_sysutil_read_loop_def)
      have nl: "next_line trm left ?s = rbind (next_line trm (left - length d) t) (\<lambda>(l, r).
          Inr (if trm \<in> set (take (left - length d) t) then d @ l else [], r))"
      proof -
        have "takeWhile ?P (d @ t) = d @ takeWhile ?P t" using False by (intro takeWhile_append2) auto
        moreover have "dropWhile ?P (d @ t) = dropWhile ?P t" using False by (intro dropWhile_append2) auto
        ultimately show ?thesis using False t d(3) by (auto simp: next_line_def)
      qed
      have "left - length d < left" using some(1) d(2) by simp
      then show ?thesis
        using less.IH [of "left - length d" st2 "got @ d"] st2 less.prems(2,3) False e nl t d(3)
        by (auto simp: next_line_def split: if_splits)
    qed
  qed
qed

section \<open>Properties\<close>

text \<open>
  A command line does not depend on how the network delivers it. Whatever pieces \<open>recv\<close> and
  \<open>read\<close> return and however often they are interrupted, \<open>str_netfd_alloc\<close> terminates with the bytes
  before the first terminator and leaves the stream just after it; a line longer than the buffer is
  dropped as empty, buffer by buffer; a stream that ends early ends the process.
\<close>

theorem netfd_alloc_framing:
  assumes "no_errors (answers st)" and "maxlen \<le> INT_MAX"
  shows "line_result (str_netfd_alloc st trm maxlen) = next_line trm maxlen (input st)"
proof -
  obtain st1 where e: "netfd_loop trm maxlen [] st =
     rbind (next_line trm maxlen (input st)) (\<lambda>(l, r).
       Inr (if trm \<in> set (take maxlen (input st)) then [] @ l else [], st1))"
    and i: "\<And>l r. next_line trm maxlen (input st) = Inr (l, r) \<Longrightarrow> input st1 = r"
    using netfd_loop_eq [OF assms(1), of trm "[]" maxlen] assms(2) by fastforce
  show ?thesis
  proof (cases "next_line trm maxlen (input st)")
    case (Inr lr)
    obtain l r where lr: "lr = (l, r)" by (cases lr)
    then have "l = [] \<or> trm \<in> set (take maxlen (input st))"
      using Inr by (auto simp: next_line_def split: if_splits)
    then show ?thesis using Inr lr e i [of l r] by (auto simp: str_netfd_alloc_def line_result_def)
  qed (simp add: e str_netfd_alloc_def line_result_def)
qed

theorem netfd_alloc_framing_witness:
  "no_errors [Grant 1, Eintr, Grant 3] \<and>
   line_result (str_netfd_alloc \<lparr>input = ''NOOP'' @ [LF] @ ''QUIT'' @ [LF], answers = [Grant 1, Eintr, Grant 3]\<rparr> LF 4096) =
     next_line LF 4096 (''NOOP'' @ [LF] @ ''QUIT'' @ [LF]) \<and>
   next_line LF 4096 (''NOOP'' @ [LF] @ ''QUIT'' @ [LF]) = Inr (''NOOP'', ''QUIT'' @ [LF])"
  using netfd_alloc_framing [of "\<lparr>input = ''NOOP'' @ [LF] @ ''QUIT'' @ [LF], answers = [Grant 1, Eintr, Grant 3]\<rparr>" 4096 LF]
  by (simp add: no_errors_def INT_MAX_def next_line_def)

lemma write_loop_prefix:
  "sent @ data = whole \<Longrightarrow> length whole \<le> INT_MAX \<Longrightarrow>
   \<exists>r s ks1. write_loop ks data sent = Inr (r, s, ks1) \<and> prefix s whole \<and>
     (r \<ge> 0 \<longrightarrow> r = int (length s)) \<and> (no_errors ks \<longrightarrow> s = whole \<and> r = int (length whole) \<and> no_errors ks1)"
proof (induction "length data" arbitrary: data sent ks rule: less_induct)
  case less
  obtain r ks1 where w: "vsf_sysutil_write ks (length data) = (r, ks1)" by fastforce
  have cases: "r = -1 \<and> \<not> no_errors ks \<or> 0 \<le> r \<and> r \<le> int (length data) \<and> (data \<noteq> [] \<longrightarrow> 0 < r) \<and>
      (no_errors ks \<longrightarrow> no_errors ks1)"
    using w by (induction ks rule: settle.induct)
      (auto simp: vsf_sysutil_write_def granted_def no_errors_def split: if_splits answer.splits)
  show ?case
  proof (cases "0 < r \<and> nat r < length data")
    case True
    let ?sent = "sent @ take (nat r) data" and ?data = "drop (nat r) data"
    have step: "write_loop ks data sent = write_loop ks1 ?data ?sent"
      using True w by (simp add: write_loop.simps [of ks data sent] Let_def)
    have "?sent @ ?data = whole" using less.prems(1) by simp
    moreover have "length ?data < length data" using True by (simp, linarith)
    ultimately obtain r' s ks2 where "write_loop ks1 ?data ?sent = Inr (r', s, ks2)" "prefix s whole"
      "r' \<ge> 0 \<longrightarrow> r' = int (length s)" "no_errors ks1 \<longrightarrow> s = whole \<and> r' = int (length whole) \<and> no_errors ks2"
      using less.hyps less.prems(2) by blast
    then show ?thesis using step cases True by auto
  next
    case False
    then have "write_loop ks data sent = Inr (r, sent, ks1) \<and> r < 0 \<or>
        r = int (length data) \<and> write_loop ks data sent = Inr (int (length whole), whole, ks1)"
      using w cases less.prems(1)
      by (auto simp: write_loop.simps [of ks data sent] Let_def not_less)
    then show ?thesis using cases less.prems(1) by auto
  qed
qed

lemma write_loop_ok:
  assumes "no_errors ks" and "length data \<le> INT_MAX"
  obtains ks1 where "vsf_sysutil_write_loop ks data = Inr (int (length data), data, ks1)" "no_errors ks1"
  using write_loop_prefix [of "[]" data data ks] assms by (auto simp: vsf_sysutil_write_loop_def)

text \<open>
  \<open>vsf_sysutil_write_loop\<close> puts a prefix of its buffer on the descriptor, in order and without
  gaps, through any sequence of partial writes and interruptions; a non-negative result is the length of
  that prefix, and without an error it is all of the buffer.
\<close>

theorem write_loop_complete:
  assumes "length data \<le> INT_MAX"
  shows "\<exists>r s ks1. vsf_sysutil_write_loop ks data = Inr (r, s, ks1) \<and> prefix s data \<and>
           (r \<ge> 0 \<longrightarrow> r = int (length s)) \<and> (no_errors ks \<longrightarrow> s = data \<and> r = int (length data))"
  using write_loop_prefix [of "[]" data data ks] assms by (auto simp: vsf_sysutil_write_loop_def)

section \<open>Progress under any answers\<close>

lemma read_consumes:
  assumes "vsf_sysutil_read st n = (r, d, st1)"
  shows "r = -1 \<and> input st1 = input st \<or> r = int (length d) \<and> input st = d @ input st1"
  using assms by (auto simp: vsf_sysutil_read_def Let_def min_def split: prod.splits option.splits answer.splits)

lemma read_loop_consumes:
  "read_loop st n got = Inr (r, d, st1) \<Longrightarrow>
   \<exists>e. input st = e @ input st1 \<and> (0 \<le> r \<longrightarrow> d = got @ e \<and> r = int (length d))"
proof (induction st n got rule: read_loop.induct)
  case (1 st n got)
  obtain r0 d0 st0 where r: "vsf_sysutil_read st n = (r0, d0, st0)" by (cases "vsf_sysutil_read st n")
  note R = read_consumes [OF r]
  consider "r0 < 0" | "r0 = 0" | "r0 > 0" "n - nat r0 = 0" | "r0 > 0" "n - nat r0 \<noteq> 0" by linarith
  then show ?case
  proof cases
    case 4
    then have "\<not> nat r0 > n" "read_loop st0 (n - nat r0) (got @ d0) = Inr (r, d, st1)"
      using "1.prems" r by (auto simp: read_loop.simps [of st n got] Let_def split: if_splits)
    then obtain e where "input st0 = e @ input st1" "0 \<le> r \<longrightarrow> d = (got @ d0) @ e \<and> r = int (length d)"
      using "1.IH" [OF r [symmetric] refl refl] 4 by auto
    then show ?thesis using R 4 by auto
  qed (use "1.prems" r R in \<open>auto simp: read_loop.simps [of st n got] Let_def split: if_splits\<close>)
qed

lemma read_loop_benign: "read_loop st n got = Inl e \<Longrightarrow> benign e"
proof (induction st n got rule: read_loop.induct)
  case (1 st n got)
  obtain r0 d0 st0 where r: "vsf_sysutil_read st n = (r0, d0, st0)" by (cases "vsf_sysutil_read st n")
  show ?case using "1.IH" [OF r [symmetric] refl refl] "1.prems" r
    by (auto simp: read_loop.simps [of st n got] Let_def split: if_splits)
qed

lemma sysutil_read_loop_benign: "vsf_sysutil_read_loop st n = Inl e \<Longrightarrow> benign e"
  by (auto simp: vsf_sysutil_read_loop_def dest: read_loop_benign split: if_splits)

lemma sysutil_write_loop_benign: "vsf_sysutil_write_loop ks d = Inl e \<Longrightarrow> benign e"
  using write_loop_prefix [of "[]" d d ks] by (auto simp: vsf_sysutil_write_loop_def split: if_splits)

lemma netfd_write_benign: "str_netfd_write ks s = Inl e \<Longrightarrow> s \<noteq> [] \<Longrightarrow> benign e"
  by (auto simp: str_netfd_write_def rbind_eq_Inl dest: sysutil_write_loop_benign)

lemma sysutil_read_loop_no_hang: "vsf_sysutil_read_loop st n \<noteq> Inl Hang"
  by (rule benign_no_hang) (rule sysutil_read_loop_benign)

lemma sysutil_write_loop_no_hang: "vsf_sysutil_write_loop ks d \<noteq> Inl Hang"
  by (rule benign_no_hang) (rule sysutil_write_loop_benign)

lemma netfd_write_no_hang: "str_netfd_write ks s \<noteq> Inl Hang"
  using sysutil_write_loop_no_hang [of ks s]
  by (cases "vsf_sysutil_write_loop ks s") (auto simp: str_netfd_write_def)

lemma peek_consumes_not: "vsf_sysutil_recv_peek st n = (r, d, st1) \<Longrightarrow> input st1 = input st"
  by (auto simp: vsf_sysutil_recv_peek_def Let_def split: prod.splits option.splits answer.splits)

lemma peek_bound: "vsf_sysutil_recv_peek st n = (r, d, st1) \<Longrightarrow> r \<le> int n"
  by (auto simp: vsf_sysutil_recv_peek_def granted_def Let_def split: prod.splits option.splits answer.splits)

lemma netfd_loop_step:
  assumes "netfd_loop trm left got st = r" and "left \<noteq> 0"
  obtains e where "r = Inl e" "benign e"
  | l st1 where "r = Inr (l, st1)" "length (input st1) < length (input st)"
  | left1 got1 st1 where "r = netfd_loop trm left1 got1 st1" "length (input st1) < length (input st)" "left1 < left"
proof -
  obtain rv d st1 where p: "vsf_sysutil_recv_peek st left = (rv, d, st1)" by (cases "vsf_sysutil_recv_peek st left")
  note i = peek_consumes_not [OF p]
  have sh: "length (input st2) < length (input st)"
    if "vsf_sysutil_read_loop st1 n = Inr (x, e, st2)" "nat x = n" "0 \<le> x" "0 < n" for n x e st2
    using that i read_loop_consumes [of st1 n "[]" x e st2] by (auto simp: vsf_sysutil_read_loop_def split: if_splits)
  consider "rv \<le> 0" | "rv > 0" "trm \<in> set d" | "rv > 0" "trm \<notin> set d" by linarith
  then show ?thesis
  proof cases
    case 1
    then show ?thesis using that(1) assms p by (auto simp: netfd_loop.simps [of trm left got st] Let_def split: if_splits)
  next
    case 2
    let ?n = "length (takeWhile (\<lambda>c. c \<noteq> trm) d) + 1"
    show ?thesis
    proof (cases "vsf_sysutil_read_loop st1 ?n")
      case (Inl e)
      then show ?thesis using that(1) [of e] sysutil_read_loop_benign [of st1 ?n e] assms p 2
        by (auto simp: netfd_loop.simps [of trm left got st] Let_def)
    next
      case (Inr y)
      then show ?thesis using that(1,2) assms p 2 sh [of ?n]
        by (cases y) (auto simp: netfd_loop.simps [of trm left got st] Let_def split: if_splits)
    qed
  next
    case 3
    show ?thesis
    proof (cases "vsf_sysutil_read_loop st1 (nat rv)")
      case (Inl e)
      then show ?thesis using that(1) sysutil_read_loop_benign [of st1 "nat rv" e] peek_bound [OF p] assms p 3
        by (auto simp: netfd_loop.simps [of trm left got st] Let_def split: if_splits)
    next
      case (Inr y)
      then show ?thesis using that(1,3) assms p 3 sh [of "nat rv"] peek_bound [OF p]
        by (cases y) (auto simp: netfd_loop.simps [of trm left got st] Let_def split: if_splits)
    qed
  qed
qed

lemma netfd_loop_progress:
  "(netfd_loop trm left got st = Inr (l, st1) \<longrightarrow>
      length (input st1) \<le> length (input st) \<and> (left \<noteq> 0 \<longrightarrow> length (input st1) < length (input st))) \<and>
   (netfd_loop trm left got st = Inl e \<longrightarrow> benign e)"
proof (induction left arbitrary: got st rule: less_induct)
  case (less left)
  show ?case
  proof (cases "left = 0")
    case True
    then show ?thesis by (simp add: netfd_loop.simps [of trm 0])
  next
    case False
    obtain r where r: "netfd_loop trm left got st = r" by blast
    from netfd_loop_step [OF r False] show ?thesis
    proof cases
      case (3 left1 got1 st2)
      then show ?thesis using less [of left1 got1 st2] r by auto
    qed (use r in auto)
  qed
qed

end
