(* ===== verification/Ftpdataio.thy ===== *)
theory Ftpdataio
  imports Ascii Netio
begin

text \<open>
  The data transfers of \<^verbatim>\<open>apps/vsftpd-2.2.0/ftpdataio.c\<close>: the loop that stores an upload, the loop that
  sends a file through the conversion buffer, the size computation of \<open>sendfile\<close>, and the writer of directory
  listings. What the peer or the file delivers per \<open>read\<close> is a list, \<open>None\<close> for an error; the end of the
  list is the end of the data. Writes go through \<open>vsf_sysutil_write_loop\<close> of \<open>Netio\<close>. The SSL variants,
  which hand the same bytes to OpenSSL, are not modelled.
\<close>

section \<open>Model\<close>

definition VSFTP_DATA_BUFSIZE :: nat where
  "VSFTP_DATA_BUFSIZE = 65536"

definition VSFTP_DIR_BUFSIZE :: nat where
  "VSFTP_DIR_BUFSIZE = 16384"

record vsf_transfer_ret =
  retval :: int
  transferred :: nat

definition get_chunk_size :: "nat \<Rightarrow> nat" where
  "get_chunk_size trans_chunk_size =
     (if trans_chunk_size < VSFTP_DATA_BUFSIZE \<and> trans_chunk_size > 0
      then if trans_chunk_size < 4096 then 4096 else trans_chunk_size
      else VSFTP_DATA_BUFSIZE)"

text \<open>Bytes stored at an offset of a fixed buffer.\<close>

definition buf_fill :: "string \<Rightarrow> nat \<Rightarrow> string \<Rightarrow> string res" where
  "buf_fill b off d =
     (if off + length d \<le> length b then Inr (take off b @ d @ drop (off + length d) b) else Inl Overrun)"

text \<open>
  The loop of \<open>do_file_recv\<close>: reads to come, answers to writes, the receive buffer, \<open>prev_cr\<close>, the byte count
  and the file so far. The fuel is one more than the rounds the reads can take: each round consumes a read, and
  one more may flush a pending carriage return.
\<close>

fun recv_rounds ::
  "nat \<Rightarrow> bool \<Rightarrow> string option list \<Rightarrow> answer list \<Rightarrow> string \<Rightarrow> bool \<Rightarrow> nat \<Rightarrow> string \<Rightarrow>
   (vsf_transfer_ret \<times> string) res" where
  "recv_rounds 0 is_ascii rs ks b prev_cr tr file = Inl Hang"
| "recv_rounds (Suc fuel) is_ascii rs ks b prev_cr tr file =
     (case (case rs of [] \<Rightarrow> Some [] | r # _ \<Rightarrow> r) of
        None \<Rightarrow> Inr (\<lparr>retval = -2, transferred = tr\<rparr>, file)
      | Some d \<Rightarrow>
          if d = [] \<and> \<not> prev_cr then Inr (\<lparr>retval = 0, transferred = tr\<rparr>, file)
          else
            rbind (buf_fill b 1 d) (\<lambda>b1.
            rbind (if is_ascii
                   then rbind (vsf_ascii_ascii_to_bin b1 (length d) prev_cr) (\<lambda>(b2, r).
                        Inr (b2, p_start r, stored r, last_was_cr r))
                   else Inr (b1, 1, length d, prev_cr)) (\<lambda>(b2, start, num_to_write, cr).
            rbind (vsf_sysutil_write_loop ks (take num_to_write (drop start b2))) (\<lambda>(ret, sent, ks1).
              if ret < 0 \<or> nat ret \<noteq> num_to_write
              then Inr (\<lparr>retval = -1, transferred = tr + length d\<rparr>, file @ sent)
              else recv_rounds fuel is_ascii (tl rs) ks1 b2 cr (tr + length d) (file @ sent)))))"

definition do_file_recv ::
  "bool \<Rightarrow> string option list \<Rightarrow> answer list \<Rightarrow> (vsf_transfer_ret \<times> string) res" where
  "do_file_recv is_ascii rs ks =
     recv_rounds (length rs + 2) is_ascii rs ks (replicate (VSFTP_DATA_BUFSIZE + 1) NUL) False 0 []"

fun send_rounds ::
  "bool \<Rightarrow> string option list \<Rightarrow> answer list \<Rightarrow> bool \<Rightarrow> nat \<Rightarrow> string \<Rightarrow> (vsf_transfer_ret \<times> string) res" where
  "send_rounds is_ascii [] ks prev_cr tr net = Inr (\<lparr>retval = 0, transferred = tr\<rparr>, net)"
| "send_rounds is_ascii (None # rs) ks prev_cr tr net = Inr (\<lparr>retval = -1, transferred = tr\<rparr>, net)"
| "send_rounds is_ascii (Some d # rs) ks prev_cr tr net =
     (if d = [] then Inr (\<lparr>retval = 0, transferred = tr\<rparr>, net)
      else
        rbind (if is_ascii
               then rbind (vsf_ascii_bin_to_ascii (VSFTP_DATA_BUFSIZE * 2) d prev_cr) (\<lambda>(out, r).
                    Inr (out, blast_was_cr r))
               else Inr (d, prev_cr)) (\<lambda>(out, cr).
        rbind (vsf_sysutil_write_loop ks out) (\<lambda>(ret, sent, ks1).
          let tr1 = (if ret < 0 then tr else tr + nat ret)
          in if ret < 0 \<or> nat ret \<noteq> length out
             then Inr (\<lparr>retval = -2, transferred = tr1\<rparr>, net @ sent)
             else send_rounds is_ascii rs ks1 cr tr1 (net @ sent))))"

definition do_file_send_rwloop ::
  "bool \<Rightarrow> string option list \<Rightarrow> answer list \<Rightarrow> (vsf_transfer_ret \<times> string) res" where
  "do_file_send_rwloop is_ascii rs ks = send_rounds is_ascii rs ks False 0 []"

definition calc_num_send :: "int \<Rightarrow> int \<Rightarrow> int res" where
  "calc_num_send file_size init_offset =
     (if init_offset < 0 \<or> file_size < 0
      then Inl (Die ''calc_num_send: negative file offset or send count'')
      else Inr (if init_offset > file_size then 0 else file_size - init_offset))"

text \<open>\<open>sendfile\<close> reports how far it came; the result is success only if that is everything.\<close>

definition do_file_send_sendfile :: "int \<Rightarrow> int \<Rightarrow> int \<Rightarrow> int \<Rightarrow> vsf_transfer_ret" where
  "do_file_send_sendfile init_offset bytes_to_send ret new_offset =
     (let bytes_sent = new_offset - init_offset in
      \<lparr>retval = (if ret < 0 then -2 else if bytes_sent \<noteq> bytes_to_send then -2 else 0),
       transferred = nat bytes_sent\<rparr>)"

text \<open>The coalescing writer of directory listings: lines to come, the buffer, the answers, the network so far.\<close>

fun write_dir_rounds ::
  "string list \<Rightarrow> string \<Rightarrow> answer list \<Rightarrow> string \<Rightarrow> (int \<times> string \<times> answer list) res" where
  "write_dir_rounds [] buf_str ks net = Inr (0, net, ks)"
| "write_dir_rounds (l # ls) buf_str ks net =
     (let buf1 = buf_str @ l in
      if ls = [] \<or> length buf1 + length (hd ls) > VSFTP_DIR_BUFSIZE
      then rbind (str_netfd_write ks buf1) (\<lambda>(ret, sent, ks1).
             if ret \<noteq> 0 then Inr (1, net @ sent, ks1)
             else write_dir_rounds ls [] ks1 (net @ sent))
      else write_dir_rounds ls buf1 ks net)"

definition write_dir_list :: "string list \<Rightarrow> answer list \<Rightarrow> (int \<times> string \<times> answer list) res" where
  "write_dir_list dir_list ks = write_dir_rounds dir_list [] ks []"

section \<open>Uploads\<close>

definition good_chunks :: "string list \<Rightarrow> bool" where
  "good_chunks cs \<longleftrightarrow> (\<forall>c \<in> set cs. c \<noteq> [] \<and> length c \<le> VSFTP_DATA_BUFSIZE)"

definition up_out :: "bool \<Rightarrow> bool \<Rightarrow> string \<Rightarrow> string" where
  "up_out is_ascii p s = (if is_ascii then if s = [] then [CR] else dec_out p s else s)"

text \<open>One read of the receive loop: its data fit the buffer and are converted in place.\<close>

lemma recv_conv:
  assumes "length b = VSFTP_DATA_BUFSIZE + 1" and "length d \<le> VSFTP_DATA_BUFSIZE" and "d \<noteq> [] \<or> prev_cr \<and> is_ascii"
  obtains b1 b2 start where "buf_fill b 1 d = Inr b1" "length b2 = length b"
    "(if is_ascii
      then rbind (vsf_ascii_ascii_to_bin b1 (length d) prev_cr) (\<lambda>(b2, r).
           Inr (b2, p_start r, stored r, last_was_cr r))
      else Inr (b1, 1, length d, prev_cr)) =
      Inr (b2, start, length (up_out is_ascii prev_cr d), if is_ascii then cr_left d else prev_cr)"
    "take (length (up_out is_ascii prev_cr d)) (drop start b2) = up_out is_ascii prev_cr d"
proof -
  obtain x b' where b: "b = x # b'" "length b' = VSFTP_DATA_BUFSIZE" using assms(1) by (cases b) auto
  let ?tail = "drop (length d) b'"
  have fill: "buf_fill b 1 d = Inr (x # d @ ?tail)" using b assms(2) by (simp add: buf_fill_def)
  show ?thesis
  proof (cases is_ascii)
    case True
    have u: "up_out True prev_cr d = (if d = [] then [CR] else chunk_out ((if prev_cr then [CR] else []) @ d))"
      by (simp only: up_out_def dec_out_def if_True)
    obtain b2 r where "vsf_ascii_ascii_to_bin (x # d @ ?tail) (length d) prev_cr = Inr (b2, r)"
      "length b2 = length (x # d @ ?tail)" "stored r = length (up_out True prev_cr d)"
      "take (stored r) (drop (p_start r) b2) = up_out True prev_cr d" "last_was_cr r = cr_left d"
      using ascii_to_bin_chunk [of d prev_cr x ?tail] assms(3) unfolding u by blast
    then show ?thesis using that [OF fill, of b2 "p_start r"] True b assms(2) by simp
  next
    case False
    then show ?thesis using that [OF fill, of "x # d @ ?tail" 1] b assms(2) by (simp add: up_out_def)
  qed
qed

lemma up_out_int:
  assumes "length b = VSFTP_DATA_BUFSIZE + 1" and "take (length (up_out a p d)) (drop k b) = up_out a p d"
  shows "length (up_out a p d) \<le> INT_MAX"
proof -
  have "length (up_out a p d) \<le> length b" by (subst assms(2) [symmetric]) simp
  then show ?thesis using assms(1) by (simp add: VSFTP_DATA_BUFSIZE_def INT_MAX_def)
qed

text \<open>One round of the receive loop.\<close>

lemma recv_round:
  assumes "length b = VSFTP_DATA_BUFSIZE + 1" and "length d \<le> VSFTP_DATA_BUFSIZE"
    and "d \<noteq> [] \<or> prev_cr \<and> is_ascii" and "no_errors ks"
  obtains b2 ks1 where "length b2 = length b" "no_errors ks1"
    "recv_rounds (Suc fuel) is_ascii (Some d # rs) ks b prev_cr tr fc =
       recv_rounds fuel is_ascii rs ks1 b2 (if is_ascii then cr_left d else prev_cr) (tr + length d)
         (fc @ up_out is_ascii prev_cr d)"
    "rs = [] \<Longrightarrow> d = [] \<Longrightarrow> recv_rounds (Suc fuel) is_ascii [] ks b prev_cr tr fc =
       recv_rounds fuel is_ascii rs ks1 b2 (if is_ascii then cr_left d else prev_cr) (tr + length d)
         (fc @ up_out is_ascii prev_cr d)"
proof -
  obtain b1 b2 start where conv: "buf_fill b 1 d = Inr b1" "length b2 = length b"
    "(if is_ascii
      then rbind (vsf_ascii_ascii_to_bin b1 (length d) prev_cr) (\<lambda>(b2, r).
           Inr (b2, p_start r, stored r, last_was_cr r))
      else Inr (b1, 1, length d, prev_cr)) =
      Inr (b2, start, length (up_out is_ascii prev_cr d), if is_ascii then cr_left d else prev_cr)"
    "take (length (up_out is_ascii prev_cr d)) (drop start b2) = up_out is_ascii prev_cr d"
    by (rule recv_conv [OF assms(1-3)])
  have "length (up_out is_ascii prev_cr d) \<le> INT_MAX" using up_out_int conv(2,4) assms(1) by metis
  then obtain ks1 where w: "vsf_sysutil_write_loop ks (up_out is_ascii prev_cr d) =
      Inr (int (length (up_out is_ascii prev_cr d)), up_out is_ascii prev_cr d, ks1)" "no_errors ks1"
    using write_loop_ok assms(4) by blast
  show ?thesis
    by (rule that [of b2 ks1]) (use conv w assms(3) in auto)
qed

definition up_carry :: "bool \<Rightarrow> bool \<Rightarrow> string \<Rightarrow> bool" where
  "up_carry is_ascii p s = (if is_ascii then cr_left s else p)"

lemma recv_rounds_chunks:
  assumes "good_chunks cs" and "length b = VSFTP_DATA_BUFSIZE + 1" and "no_errors ks"
    and "prev_cr \<longrightarrow> is_ascii" and "length cs + 2 \<le> fuel"
  defines "r \<equiv> run_chunks (up_out is_ascii) (up_carry is_ascii) prev_cr cs"
  shows "recv_rounds fuel is_ascii (map Some cs) ks b prev_cr tr fc =
           Inr (\<lparr>retval = 0, transferred = tr + length (concat cs)\<rparr>,
                fc @ fst r @ (if snd r then [CR] else []))"
  using assms(1-5) unfolding r_def
proof (induction cs arbitrary: fuel b ks prev_cr tr fc)
  case Nil
  obtain f where f: "fuel = Suc (Suc f)" using Nil.prems(5) by (cases fuel; cases "fuel - 1") auto
  show ?case
  proof (cases prev_cr)
    case True
    obtain b2 ks1 where "recv_rounds (Suc (Suc f)) is_ascii [] ks b prev_cr tr fc =
       recv_rounds (Suc f) is_ascii [] ks1 b2 (if is_ascii then cr_left [] else prev_cr) (tr + length [])
         (fc @ up_out is_ascii prev_cr [])"
      by (rule recv_round [of b "[]" prev_cr is_ascii ks "Suc f" "[]" tr fc])
        (use Nil.prems True in auto)
    then show ?thesis using f True Nil.prems(4) by (simp add: up_out_def cr_left_def)
  qed (simp add: f)
next
  case (Cons c cs)
  obtain f where f: "fuel = Suc f" "length cs + 2 \<le> f" using Cons.prems(5) by (cases fuel) auto
  have c: "c \<noteq> []" "length c \<le> VSFTP_DATA_BUFSIZE" and cs: "good_chunks cs"
    using Cons.prems(1) by (auto simp: good_chunks_def)
  obtain b2 ks1 where s: "length b2 = length b" "no_errors ks1"
    "recv_rounds (Suc f) is_ascii (Some c # map Some cs) ks b prev_cr tr fc =
       recv_rounds f is_ascii (map Some cs) ks1 b2 (up_carry is_ascii prev_cr c) (tr + length c)
         (fc @ up_out is_ascii prev_cr c)"
    by (rule recv_round [of b c prev_cr is_ascii ks f "map Some cs" tr fc])
      (use Cons.prems c in \<open>auto simp: up_carry_def\<close>)
  have "up_carry is_ascii prev_cr c \<longrightarrow> is_ascii" using Cons.prems(4) by (auto simp: up_carry_def)
  then show ?case
    using Cons.IH [OF cs _ s(2) _ f(2), of b2 "up_carry is_ascii prev_cr c" "tr + length c"
        "fc @ up_out is_ascii prev_cr c"] s(1,3) Cons.prems(2) f(1)
    by (simp add: split_beta Let_def add.assoc)
qed

lemma run_chunks_plain:
  "fst (run_chunks (up_out False) (up_carry False) p cs) = concat cs"
  "snd (run_chunks (up_out False) (up_carry False) p cs) = p"
  by (induction cs arbitrary: p) (auto simp: split_beta Let_def up_out_def up_carry_def)

lemma run_chunks_dec:
  "[] \<notin> set cs \<Longrightarrow> run_chunks (up_out True) (up_carry True) p cs = run_chunks dec_out (\<lambda>p. cr_left) p cs"
  by (induction cs arbitrary: p) (auto simp: up_out_def up_carry_def)

lemma do_file_recv_eq:
  assumes "good_chunks cs" and "no_errors ks"
  shows "do_file_recv is_ascii (map Some cs) ks =
           Inr (\<lparr>retval = 0, transferred = length (concat cs)\<rparr>,
                if is_ascii then decode (concat cs) else concat cs)"
proof -
  have ne: "[] \<notin> set cs" using assms(1) by (auto simp: good_chunks_def)
  let ?r = "run_chunks (up_out is_ascii) (up_carry is_ascii) False cs"
  have "fst ?r @ (if snd ?r then [CR] else []) = (if is_ascii then decode (concat cs) else concat cs)"
  proof (cases is_ascii)
    case True
    let ?q = "run_chunks dec_out (\<lambda>p. cr_left) False cs"
    have "?r = ?q" using True ne by (simp add: run_chunks_dec)
    moreover have "decode (concat cs) = fst ?q @ dec_conv (snd ?q) []"
      using dec.conv_chunks [OF ne, of False] by (simp add: dec_conv_def)
    moreover have "dec_conv p [] = (if p then [CR] else [])" for p by (simp add: dec_conv_def)
    ultimately show ?thesis using True by simp
  qed (simp add: run_chunks_plain)
  then show ?thesis
    using recv_rounds_chunks [OF assms(1) _ assms(2), of "replicate (VSFTP_DATA_BUFSIZE + 1) NUL" False is_ascii
        "length cs + 2" 0 "[]"]
    by (simp add: do_file_recv_def)
qed

text \<open>Without any assumption on the network and the disk, the loop ends within its buffer.\<close>

definition fitting :: "string option list \<Rightarrow> bool" where
  "fitting rs \<longleftrightarrow> (\<forall>d. Some d \<in> set rs \<longrightarrow> length d \<le> VSFTP_DATA_BUFSIZE)"

lemma fitting_Cons [simp]: "fitting (r # rs) \<longleftrightarrow> (\<forall>d. r = Some d \<longrightarrow> length d \<le> VSFTP_DATA_BUFSIZE) \<and> fitting rs"
  by (auto simp: fitting_def)

lemma fitting_tl: "fitting rs \<Longrightarrow> fitting (tl rs)"
  by (cases rs) auto

lemma write_loop_returns: "length d \<le> INT_MAX \<Longrightarrow> \<exists>r s ks1. vsf_sysutil_write_loop ks d = Inr (r, s, ks1)"
  using write_loop_prefix [of "[]" d d ks] by (auto simp: vsf_sysutil_write_loop_def)

lemma recv_rounds_total:
  assumes "length b = VSFTP_DATA_BUFSIZE + 1" and "fitting rs" and "prev_cr \<longrightarrow> is_ascii"
    and "length rs + (if rs \<noteq> [] \<or> prev_cr then 2 else 1) \<le> fuel"
  shows "\<exists>x. recv_rounds fuel is_ascii rs ks b prev_cr tr fc = Inr x"
  using assms
proof (induction fuel arbitrary: b rs ks prev_cr tr fc)
  case (Suc fuel)
  let ?d = "case rs of [] \<Rightarrow> Some [] | r # _ \<Rightarrow> r"
  show ?case
  proof (cases "?d = None \<or> ?d = Some [] \<and> \<not> prev_cr")
    case False
    then obtain d where d: "?d = Some d" "d \<noteq> [] \<or> prev_cr \<and> is_ascii" using Suc.prems(3) by auto
    have len: "length d \<le> VSFTP_DATA_BUFSIZE" using d Suc.prems(2) by (cases rs) auto
    obtain b1 b2 start where conv: "buf_fill b 1 d = Inr b1" "length b2 = length b"
      "(if is_ascii
        then rbind (vsf_ascii_ascii_to_bin b1 (length d) prev_cr) (\<lambda>(b2, r).
             Inr (b2, p_start r, stored r, last_was_cr r))
        else Inr (b1, 1, length d, prev_cr)) =
        Inr (b2, start, length (up_out is_ascii prev_cr d), if is_ascii then cr_left d else prev_cr)"
      "take (length (up_out is_ascii prev_cr d)) (drop start b2) = up_out is_ascii prev_cr d"
      by (rule recv_conv [OF Suc.prems(1) len d(2)])
    have "length (up_out is_ascii prev_cr d) \<le> INT_MAX" using up_out_int conv(2,4) Suc.prems(1) by metis
    then obtain r s ks1 where w: "vsf_sysutil_write_loop ks (up_out is_ascii prev_cr d) = Inr (r, s, ks1)"
      using write_loop_returns by blast
    let ?cr = "if is_ascii then cr_left d else prev_cr"
    have "length (tl rs) + (if tl rs \<noteq> [] \<or> ?cr then 2 else 1) \<le> fuel"
      using Suc.prems(3,4) d by (cases rs) (auto simp: cr_left_def split: if_splits)
    then have "\<exists>x. recv_rounds fuel is_ascii (tl rs) ks1 b2 ?cr (tr + length d) (fc @ s) = Inr x"
      using Suc.prems conv(2) by (intro Suc.IH) (auto simp: fitting_tl)
    then show ?thesis using d conv w Suc.prems(3) by auto
  qed auto
qed (auto split: if_splits)

lemma do_file_recv_total: "fitting rs \<Longrightarrow> \<exists>x. do_file_recv is_ascii rs ks = Inr x"
  unfolding do_file_recv_def by (intro recv_rounds_total) auto

section \<open>Downloads\<close>

definition down_out :: "bool \<Rightarrow> bool \<Rightarrow> string \<Rightarrow> string" where
  "down_out is_ascii p s = (if is_ascii then encode p s else s)"

lemma send_rounds_chunks:
  assumes "good_chunks cs" and "no_errors ks"
  shows "send_rounds is_ascii (map Some cs) ks p tr net =
           Inr (\<lparr>retval = 0, transferred = tr + length (down_out is_ascii p (concat cs))\<rparr>,
                net @ down_out is_ascii p (concat cs))"
  using assms
proof (induction cs arbitrary: ks p tr net)
  case Nil
  then show ?case by (simp add: down_out_def)
next
  case (Cons c cs)
  have c: "c \<noteq> []" "length c \<le> VSFTP_DATA_BUFSIZE" and cs: "good_chunks cs"
    using Cons.prems(1) by (auto simp: good_chunks_def)
  let ?out = "down_out is_ascii p c" and ?q = "if is_ascii then ends_cr p c else p"
  have "length ?out \<le> 2 * VSFTP_DATA_BUFSIZE" using length_encode [of p c] c(2) by (simp add: down_out_def)
  then have "length ?out \<le> INT_MAX" by (simp add: VSFTP_DATA_BUFSIZE_def INT_MAX_def)
  then obtain ks1 where w: "vsf_sysutil_write_loop ks ?out = Inr (int (length ?out), ?out, ks1)" "no_errors ks1"
    using write_loop_ok Cons.prems(2) by blast
  have "(if is_ascii then rbind (vsf_ascii_bin_to_ascii (VSFTP_DATA_BUFSIZE * 2) c p) (\<lambda>(out, r).
            Inr (out, blast_was_cr r)) else Inr (c, p)) = Inr (?out, ?q)"
    using bin_to_ascii_chunk [of c "VSFTP_DATA_BUFSIZE * 2" p] c(2) by (simp add: down_out_def)
  then have "send_rounds is_ascii (map Some (c # cs)) ks p tr net =
      send_rounds is_ascii (map Some cs) ks1 ?q (tr + length ?out) (net @ ?out)"
    using c(1) w(1) by simp
  also have "\<dots> = Inr (\<lparr>retval = 0, transferred = tr + length ?out + length (down_out is_ascii ?q (concat cs))\<rparr>,
      (net @ ?out) @ down_out is_ascii ?q (concat cs))"
    by (rule Cons.IH [OF cs w(2)])
  finally show ?case
    using enc.conv_step [OF c(1), of p "concat cs"] by (simp add: down_out_def)
qed

lemma send_rounds_total: "fitting rs \<Longrightarrow> \<exists>x. send_rounds is_ascii rs ks p tr net = Inr x"
proof (induction is_ascii rs ks p tr net rule: send_rounds.induct)
  case (3 is_ascii d rs ks p tr net)
  let ?out = "down_out is_ascii p d" and ?q = "if is_ascii then ends_cr p d else p"
  have "(if is_ascii then rbind (vsf_ascii_bin_to_ascii (VSFTP_DATA_BUFSIZE * 2) d p) (\<lambda>(out, r).
            Inr (out, blast_was_cr r)) else Inr (d, p)) = Inr (?out, ?q)"
    using bin_to_ascii_chunk [of d "VSFTP_DATA_BUFSIZE * 2" p] 3 by (simp add: down_out_def)
  moreover have "length ?out \<le> 2 * VSFTP_DATA_BUFSIZE" using length_encode [of p d] 3 by (simp add: down_out_def)
  then have "length ?out \<le> INT_MAX" by (simp add: VSFTP_DATA_BUFSIZE_def INT_MAX_def)
  then obtain r s ks1 where "vsf_sysutil_write_loop ks ?out = Inr (r, s, ks1)" using write_loop_returns by blast
  ultimately show ?case using 3 by (auto simp: Let_def)
qed auto

section \<open>Directory listings\<close>

lemma write_dir_rounds_eq:
  assumes "no_errors ks" and "\<forall>l \<in> set ls. l \<noteq> [] \<and> length l \<le> VSFTP_DIR_BUFSIZE"
    and "ls \<noteq> [] \<longrightarrow> length buf + length (hd ls) \<le> 2 * VSFTP_DIR_BUFSIZE"
  shows "ls = [] \<longrightarrow> buf = [] \<Longrightarrow>
         \<exists>ks1. write_dir_rounds ls buf ks net = Inr (0, net @ buf @ concat ls, ks1) \<and> no_errors ks1"
  using assms
proof (induction ls arbitrary: buf ks net)
  case (Cons l ls)
  let ?buf = "buf @ l"
  have l: "l \<noteq> []" using Cons.prems(3) by simp
  show ?case
  proof (cases "ls = [] \<or> length ?buf + length (hd ls) > VSFTP_DIR_BUFSIZE")
    case True
    have "length ?buf \<le> INT_MAX"
      using Cons.prems(4) by (simp add: VSFTP_DIR_BUFSIZE_def INT_MAX_def)
    then obtain ks1 where w: "vsf_sysutil_write_loop ks ?buf = Inr (int (length ?buf), ?buf, ks1)" "no_errors ks1"
      using write_loop_ok Cons.prems(2) by blast
    have "\<exists>ks2. write_dir_rounds ls [] ks1 (net @ ?buf) = Inr (0, (net @ ?buf) @ [] @ concat ls, ks2) \<and> no_errors ks2"
    proof (rule Cons.IH)
      show "ls \<noteq> [] \<longrightarrow> length [] + length (hd ls) \<le> 2 * VSFTP_DIR_BUFSIZE"
        using Cons.prems(3) by (cases ls) auto
    qed (use w Cons.prems in auto)
    then show ?thesis using True w(1) l by (auto simp: str_netfd_write_def Let_def)
  next
    case False
    then show ?thesis using Cons.IH [of ?buf ks net] Cons.prems by (auto simp: Let_def)
  qed
qed simp

lemma write_dir_rounds_benign:
  "\<forall>l \<in> set ls. l \<noteq> [] \<Longrightarrow> write_dir_rounds ls buf ks net = Inl e \<Longrightarrow> benign e"
proof (induction ls buf ks net rule: write_dir_rounds.induct)
  case (2 l ls buf ks net)
  then show ?case
    by (cases "str_netfd_write ks (buf @ l)") (auto simp: Let_def dest: netfd_write_benign split: if_splits prod.splits)
qed simp

section \<open>Properties\<close>

text \<open>
  C19: an upload stores what the client sent. For every way the network cuts the data into reads and the
  file system into writes, \<open>do_file_recv\<close> terminates, never leaves its buffer, and the file
  holds the stream itself in binary mode and the stream with every CR LF turned into LF in ASCII mode,
  also when a CR LF straddles two reads or a lone CR ends the stream.
\<close>

theorem upload_correct:
  assumes "good_chunks cs" and "no_errors ks"
  shows "do_file_recv is_ascii (map Some cs) ks =
           Inr (\<lparr>retval = 0, transferred = length (concat cs)\<rparr>,
                if is_ascii then decode (concat cs) else concat cs)"
  by (rule do_file_recv_eq [OF assms])

theorem upload_correct_witness:
  "do_file_recv True (map Some [''a'' @ [CR], [LF] @ ''b'' @ [CR]]) [Grant 1] =
     Inr (\<lparr>retval = 0, transferred = 5\<rparr>, ''a'' @ [LF] @ ''b'' @ [CR])"
  using upload_correct [of "[''a'' @ [CR], [LF] @ ''b'' @ [CR]]" "[Grant 1]" True]
  by (simp add: good_chunks_def no_errors_def VSFTP_DATA_BUFSIZE_def)

text \<open>
  C20: a download sends the file: as it is in binary mode, and in ASCII mode with a CR in front of every LF
  that does not already follow one, independently of the chunks the file is read in; the doubled
  conversion buffer is never exceeded.
\<close>

theorem download_correct:
  assumes "good_chunks cs" and "no_errors ks"
  shows "do_file_send_rwloop is_ascii (map Some cs) ks =
           Inr (\<lparr>retval = 0, transferred = length (if is_ascii then encode False (concat cs) else concat cs)\<rparr>,
                if is_ascii then encode False (concat cs) else concat cs)"
  using send_rounds_chunks [OF assms, of is_ascii False 0 "[]"]
  by (simp add: do_file_send_rwloop_def down_out_def)

theorem download_correct_witness:
  "do_file_send_rwloop True (map Some [''a'' @ [LF], [LF] @ ''b'']) [] =
     Inr (\<lparr>retval = 0, transferred = 6\<rparr>, ''a'' @ [CR, LF, CR, LF] @ ''b'')"
  using download_correct [of "[''a'' @ [LF], [LF] @ ''b'']" "[]" True]
  by (simp add: good_chunks_def no_errors_def VSFTP_DATA_BUFSIZE_def)

text \<open>
  An ASCII download followed by an ASCII upload of the same bytes, cut up in any other way, gives
  the file back with its CR LF pairs turned into LF; so it gives back exactly the files that contain no
  CR LF.
\<close>

theorem ascii_roundtrip_transfer:
  assumes "good_chunks cs" and "good_chunks ds" and "no_errors ks" and "no_errors ls"
    and "do_file_send_rwloop True (map Some cs) ks = Inr (r, concat ds)"
  shows "\<exists>r'. do_file_recv True (map Some ds) ls = Inr (r', decode (concat cs)) \<and>
           (decode (concat cs) = concat cs \<longleftrightarrow> \<not> sublist [CR, LF] (concat cs))"
proof -
  have "concat ds = encode False (concat cs)"
    using assms(5) send_rounds_chunks [OF assms(1,3), of True False 0 "[]"]
    by (simp add: do_file_send_rwloop_def down_out_def)
  then show ?thesis
    using do_file_recv_eq [OF assms(2,4), of True] decode_encode [of False "concat cs"] decode_id
    by simp
qed

text \<open>
  \<open>write_dir_list\<close> coalesces the lines of a listing into few writes without losing, repeating or
  reordering any of them, and never asks the writer for an empty string.
\<close>

theorem write_dir_list_complete:
  assumes "no_errors ks" and "\<forall>l \<in> set ls. l \<noteq> [] \<and> length l \<le> VSFTP_DIR_BUFSIZE"
  shows "\<exists>ks1. write_dir_list ls ks = Inr (0, concat ls, ks1)"
proof -
  have "length (hd ls) \<le> VSFTP_DIR_BUFSIZE" if "ls \<noteq> []" using assms(2) that by simp
  then show ?thesis
    using write_dir_rounds_eq [OF assms(1,2), of "[]" "[]"]
    by (cases "ls = []") (auto simp: write_dir_list_def)
qed

end
