(* ===== verification/Cmdio.thy ===== *)
theory Cmdio
  imports Netio
begin

text \<open>
  The control channel of \<^verbatim>\<open>apps/vsftpd-2.2.0/ftpcmdio.c\<close> over plain sockets: reading a command and its
  argument, and writing replies. The reply text is treated as FTP over telnet demands: the byte 255
  is doubled and a line feed inside the text goes out as NUL. Timers and logging are left to
  their own components; a log line is returned to the caller of the model instead of being written.
\<close>

section \<open>Model\<close>

abbreviation IAC :: char where "IAC \<equiv> CHR 0xFF"

fun strip_crs :: "nat \<Rightarrow> string \<Rightarrow> string" where
  "strip_crs 0 s = s"
| "strip_crs (Suc n) s = (if s ! n = CR then strip_crs n (take n s) else s)"

definition control_getline :: "stream \<Rightarrow> (string \<times> stream) res" where
  "control_getline st =
     rbind (ftp_getline st) (\<lambda>(l, st1).
       let l1 = t_replace_char l NUL LF
       in Inr (strip_crs (length l1) l1, st1))"

text \<open>Command, argument, the line for the protocol log if it is enabled, and the stream.\<close>

definition vsf_cmdio_get_cmd_and_arg ::
  "bool \<Rightarrow> stream \<Rightarrow> (string \<times> string \<times> string option \<times> stream) res" where
  "vsf_cmdio_get_cmd_and_arg log_ftp_protocol st =
     rbind (control_getline st) (\<lambda>(l, st1).
       let (c, a) = (if length l = 1 \<and> l ! 0 = CHR '' '' then (l, []) else t_split_char l CHR '' '');
           cmd = t_upper c;
           log = (if \<not> log_ftp_protocol then None
                  else if cmd = ''PASS'' then Some ''PASS <password>''
                  else Some (cmd @ (if a = [] then [] else CHR '' '' # a)))
       in Inr (cmd, a, log, st1))"

definition reply_text :: "nat \<Rightarrow> char \<Rightarrow> string \<Rightarrow> string" where
  "reply_text status sep s =
     vsf_sysutil_ulong_to_str status @ [sep] @
     t_replace_char (t_replace_text [IAC] [IAC, IAC] s) LF NUL @ [CR, LF]"

definition ftp_write_str_common ::
  "nat \<Rightarrow> char \<Rightarrow> string \<Rightarrow> bool \<Rightarrow> answer list \<Rightarrow> (string \<times> answer list) res" where
  "ftp_write_str_common status sep s noblock ks =
     rbind (str_netfd_write ks (reply_text status sep s)) (\<lambda>(ret, sent, ks1).
       if ret \<noteq> 0 \<and> \<not> noblock then Inl (Die ''ftp_write'') else Inr (sent, ks1))"

definition vsf_cmdio_write :: "nat \<Rightarrow> string \<Rightarrow> answer list \<Rightarrow> (string \<times> answer list) res" where
  "vsf_cmdio_write status p_text ks = ftp_write_str_common status CHR '' '' p_text False ks"

definition vsf_cmdio_write_hyphen :: "nat \<Rightarrow> string \<Rightarrow> answer list \<Rightarrow> (string \<times> answer list) res" where
  "vsf_cmdio_write_hyphen status p_text ks = ftp_write_str_common status CHR ''-'' p_text False ks"

definition vsf_cmdio_write_raw :: "string \<Rightarrow> answer list \<Rightarrow> (string \<times> answer list) res" where
  "vsf_cmdio_write_raw p_text ks =
     rbind (str_netfd_write ks p_text) (\<lambda>(ret, sent, ks1).
       if ret \<noteq> 0 then Inl (Die ''ftp_write_str'') else Inr (sent, ks1))"

text \<open>A reply that ends the session: errors of the write are ignored, the process exits.\<close>

definition vsf_cmdio_write_exit :: "nat \<Rightarrow> string \<Rightarrow> answer list \<Rightarrow> string res" where
  "vsf_cmdio_write_exit status p_text ks =
     rbind (ftp_write_str_common status CHR '' '' p_text True ks) (\<lambda>_. Inl (Exit 0))"

section \<open>Commands\<close>

lemma strip_crs_eq: "strip_crs (length s) s = rev (dropWhile (\<lambda>c. c = CR) (rev s))"
proof (induction s rule: rev_induct)
  case (snoc c s)
  then show ?case by (simp add: nth_append)
qed simp

lemma t_upper_chars: "NUL \<notin> set s \<Longrightarrow> t_replace_char s NUL LF = s"
  by (induction s) (auto simp: t_replace_char_def)

lemma getline_ok:
  assumes "no_errors (answers st)" and "input st = l @ [LF] @ rest" and "LF \<notin> set l"
    and "length l < VSFTP_MAX_COMMAND_LINE"
  obtains st1 where "ftp_getline st = Inr (l, st1)" "input st1 = rest"
proof -
  have "LF \<in> set (take VSFTP_MAX_COMMAND_LINE (input st))"
    using assms(2,4) by (simp add: take_Cons')
  moreover have tw: "takeWhile (\<lambda>c. c \<noteq> LF) (l @ LF # rest) = l @ takeWhile (\<lambda>c. c \<noteq> LF) (LF # rest)"
    using assms(3) by (intro takeWhile_append2) auto
  moreover have "dropWhile (\<lambda>c. c \<noteq> LF) (l @ LF # rest) = dropWhile (\<lambda>c. c \<noteq> LF) (LF # rest)"
    using assms(3) by (intro dropWhile_append2) auto
  ultimately have "next_line LF VSFTP_MAX_COMMAND_LINE (input st) = Inr (l, rest)"
    using assms(2) by (simp add: next_line_def)
  moreover have "VSFTP_MAX_COMMAND_LINE \<le> INT_MAX" by (simp add: VSFTP_MAX_COMMAND_LINE_def INT_MAX_def)
  ultimately obtain st1 where "netfd_loop LF VSFTP_MAX_COMMAND_LINE [] st = Inr (l, st1)" "input st1 = rest"
    using netfd_loop_eq [OF assms(1), of LF "[]" VSFTP_MAX_COMMAND_LINE] assms(2,4)
    by (auto simp: take_Cons')
  then show ?thesis using that by (simp add: ftp_getline_def str_netfd_alloc_def)
qed

text \<open>
  A command sent as \<open>verb SP argument CR LF\<close> arrives as the upper-cased verb and the
  argument exactly as sent (spaces in it included), however the network cuts it, and the stream
  continues at the next line; with protocol logging on, the argument of \<open>PASS\<close> is not logged.
\<close>

theorem command_parse:
  assumes "no_errors (answers st)" and "input st = v @ [CHR '' ''] @ a @ [CR, LF] @ rest"
    and "set v \<inter> {NUL, LF, CR, CHR '' ''} = {}" and "v \<noteq> []" and "set a \<inter> {NUL, LF, CR} = {}"
    and "length v + length a + 2 < VSFTP_MAX_COMMAND_LINE"
  shows "\<exists>log st1. vsf_cmdio_get_cmd_and_arg lg st = Inr (t_upper v, a, log, st1) \<and> input st1 = rest \<and>
           (t_upper v = ''PASS'' \<longrightarrow> log = (if lg then Some ''PASS <password>'' else None))"
proof -
  let ?l = "v @ [CHR '' ''] @ a @ [CR]"
  obtain st1 where l: "ftp_getline st = Inr (?l, st1)" "input st1 = rest"
    by (rule getline_ok [OF assms(1), of ?l rest]) (use assms in auto)
  have nul: "t_replace_char ?l NUL LF = ?l" using assms(3,5) by (intro t_upper_chars) auto
  have "last (v @ [CHR '' ''] @ a) \<noteq> CR" using assms(5) by (cases a rule: rev_cases) auto
  then have "dropWhile (\<lambda>c. c = CR) (rev ?l) = rev (v @ [CHR '' ''] @ a)"
    by (cases a rule: rev_cases) auto
  then have strip: "strip_crs (length ?l) ?l = v @ [CHR '' ''] @ a" by (simp only: strip_crs_eq rev_rev_ident)
  have tw: "takeWhile (\<lambda>c. c \<noteq> CHR '' '') (v @ CHR '' '' # a) = v @ takeWhile (\<lambda>c. c \<noteq> CHR '' '') (CHR '' '' # a)"
    using assms(3) by (intro takeWhile_append2) auto
  have dw: "dropWhile (\<lambda>c. c \<noteq> CHR '' '') (v @ CHR '' '' # a) = dropWhile (\<lambda>c. c \<noteq> CHR '' '') (CHR '' '' # a)"
    using assms(3) by (intro dropWhile_append2) auto
  have "t_split_char (v @ CHR '' '' # a) CHR '' '' = (v, a)" using tw dw by (simp add: t_split_char_eq)
  moreover have "control_getline st = Inr (v @ CHR '' '' # a, st1)"
    using l(1) nul strip by (simp add: control_getline_def Let_def)
  ultimately show ?thesis using l(2) assms(4) by (simp add: vsf_cmdio_get_cmd_and_arg_def Let_def)
qed

theorem command_parse_witness:
  "\<exists>log st1. vsf_cmdio_get_cmd_and_arg True
      \<lparr>input = ''pass'' @ '' '' @ ''a b'' @ [CR, LF] @ ''x'', answers = [Grant 3]\<rparr> =
        Inr (t_upper ''pass'', ''a b'', log, st1) \<and> input st1 = ''x''"
  using command_parse [of "\<lparr>input = ''pass'' @ '' '' @ ''a b'' @ [CR, LF] @ ''x'', answers = [Grant 3]\<rparr>"
      "''pass''" "''a b''" "''x''" True]
  by (auto simp: no_errors_def VSFTP_MAX_COMMAND_LINE_def)

section \<open>Replies\<close>

lemma ulong_to_str_length: "n < 4294967296 \<Longrightarrow> length (vsf_sysutil_ulong_to_str n) \<le> 10"
  using length_base_str [of 10 10 n] by (simp add: vsf_sysutil_ulong_to_str_def)

lemma digits_no_LF: "LF \<notin> set (vsf_sysutil_ulong_to_str n)"
proof
  assume "LF \<in> set (vsf_sysutil_ulong_to_str n)"
  then have "vsf_sysutil_isdigit LF" using all_digits_base_str [of 10 n]
    by (auto simp: list_all_iff vsf_sysutil_ulong_to_str_def)
  then show False by (simp add: vsf_sysutil_isdigit_def)
qed

lemma reply_text_eq:
  "reply_text status sep s =
     vsf_sysutil_ulong_to_str status @ [sep] @
     concat (map (\<lambda>c. if c = IAC then [IAC, IAC] else if c = LF then [NUL] else [c]) s) @ [CR, LF]"
proof -
  have "t_replace_char (concat (map (\<lambda>x. if x = IAC then [IAC, IAC] else [x]) s)) LF NUL =
      concat (map (\<lambda>c. if c = IAC then [IAC, IAC] else if c = LF then [NUL] else [c]) s)"
    by (induction s) (auto simp: t_replace_char_def)
  then show ?thesis by (simp add: reply_text_def t_replace_text_char)
qed

lemma reply_text_length:
  assumes "status < 4294967296" and "length s \<le> INT_MAX div 4"
  shows "length (reply_text status sep s) \<le> INT_MAX"
proof -
  have "length (concat (map (\<lambda>c. if c = IAC then [IAC, IAC] else if c = LF then [NUL] else [c]) s)) \<le> 2 * length s"
    by (induction s) auto
  then show ?thesis using assms(2) ulong_to_str_length [OF assms(1)] by (simp add: reply_text_eq INT_MAX_def)
qed

text \<open>
  A reply is one line. Whatever text it carries, for instance a file name chosen by a client, the
  bytes sent are the status, the separator, the text with 255 doubled and line feeds replaced, and a
  final CR LF: there is no line feed before the last byte, so a reply cannot forge a further one. Without a
  write error all of it is sent.
\<close>

theorem reply_single_line:
  assumes "sep \<noteq> LF" and "no_errors ks" and "length s \<le> INT_MAX div 4" and "status < 4294967296"
  shows "LF \<notin> set (butlast (reply_text status sep s)) \<and> last (reply_text status sep s) = LF \<and>
         (\<exists>ks1. ftp_write_str_common status sep s noblock ks = Inr (reply_text status sep s, ks1))"
proof -
  let ?f = "\<lambda>c. if c = IAC then [IAC, IAC] else if c = LF then [NUL] else [c]"
  let ?t = "reply_text status sep s"
  have b: "butlast ?t = vsf_sysutil_ulong_to_str status @ [sep] @ concat (map ?f s) @ [CR]"
    by (simp add: reply_text_eq butlast_append)
  have n: "LF \<notin> set (concat (map ?f s))" by (induction s) auto
  have "length ?t \<le> INT_MAX" by (rule reply_text_length [OF assms(4,3)])
  then obtain ks1 where "vsf_sysutil_write_loop ks ?t = Inr (int (length ?t), ?t, ks1)"
    using write_loop_ok assms(2) by blast
  moreover have "?t \<noteq> []" by (simp add: reply_text_def)
  ultimately have "ftp_write_str_common status sep s noblock ks = Inr (?t, ks1)"
    by (simp add: ftp_write_str_common_def str_netfd_write_def)
  then show ?thesis using b n digits_no_LF assms(1) by (auto simp: reply_text_eq)
qed

theorem reply_single_line_witness:
  "LF \<notin> set (butlast (reply_text 257 CHR '' '' (''x'' @ [LF] @ ''226 done''))) \<and>
   last (reply_text 257 CHR '' '' (''x'' @ [LF] @ ''226 done'')) = LF \<and>
   (\<exists>ks1. ftp_write_str_common 257 CHR '' '' (''x'' @ [LF] @ ''226 done'') False [] =
      Inr (reply_text 257 CHR '' '' (''x'' @ [LF] @ ''226 done''), ks1))"
  by (rule reply_single_line) (simp_all add: no_errors_def INT_MAX_def)

section \<open>Progress under any answers\<close>

lemma get_cmd_progress:
  "vsf_cmdio_get_cmd_and_arg lg st = Inr (c, a, l, st1) \<Longrightarrow> length (input st1) < length (input st)"
  using netfd_loop_progress [of LF VSFTP_MAX_COMMAND_LINE "[]" st]
  by (auto simp: vsf_cmdio_get_cmd_and_arg_def control_getline_def ftp_getline_def str_netfd_alloc_def
      VSFTP_MAX_COMMAND_LINE_def rbind_eq_Inr Let_def split_beta)

lemma get_cmd_benign: "vsf_cmdio_get_cmd_and_arg lg st = Inl e \<Longrightarrow> benign e"
  using netfd_loop_progress [of LF VSFTP_MAX_COMMAND_LINE "[]" st]
  by (auto simp: vsf_cmdio_get_cmd_and_arg_def control_getline_def ftp_getline_def str_netfd_alloc_def
      rbind_eq_Inl Let_def split_beta)

lemma get_cmd_no_hang: "vsf_cmdio_get_cmd_and_arg lg st \<noteq> Inl Hang"
  by (rule benign_no_hang) (rule get_cmd_benign)

lemma write_common_benign: "ftp_write_str_common status sep s nb ks = Inl e \<Longrightarrow> benign e"
  by (auto simp: ftp_write_str_common_def rbind_eq_Inl reply_text_def dest: netfd_write_benign split: if_splits)

lemma cmdio_writers_benign:
  "vsf_cmdio_write status s ks = Inl e \<Longrightarrow> benign e" "vsf_cmdio_write_hyphen status s ks = Inl e \<Longrightarrow> benign e"
  "vsf_cmdio_write_raw s ks = Inl e \<Longrightarrow> s \<noteq> [] \<Longrightarrow> benign e"
  by (auto simp: vsf_cmdio_write_def vsf_cmdio_write_hyphen_def vsf_cmdio_write_raw_def rbind_eq_Inl
      dest: write_common_benign netfd_write_benign split: if_splits)

lemma write_common_no_hang: "ftp_write_str_common status sep s nb ks \<noteq> Inl Hang"
  by (rule benign_no_hang) (rule write_common_benign)

lemma cmdio_writers_no_hang:
  "vsf_cmdio_write status s ks \<noteq> Inl Hang" "vsf_cmdio_write_hyphen status s ks \<noteq> Inl Hang"
  "vsf_cmdio_write_raw s ks \<noteq> Inl Hang"
  using write_common_no_hang netfd_write_no_hang [of ks s]
  by (auto simp: vsf_cmdio_write_def vsf_cmdio_write_hyphen_def vsf_cmdio_write_raw_def rbind_eq_Inl
      split: prod.splits if_splits)

end
