(* ===== verification/Tunables.thy ===== *)
theory Tunables
  imports Sysutil
begin

text \<open>
  The run-time settings of \<^verbatim>\<open>apps/vsftpd-2.2.0/tunables.c\<close>. The C variables \<open>tunable_x\<close> of the three
  kinds become three stores indexed by the name \<open>x\<close>; \<open>tunables_load_defaults\<close> gives every
  variable its default.
\<close>

section \<open>Model\<close>

record tunables =
  tbool :: "string \<Rightarrow> bool"
  tuint :: "string \<Rightarrow> nat"
  tstr :: "string \<Rightarrow> string option"

definition default_bools :: "(string \<times> bool) list" where
  "default_bools =
    [
     (''anonymous_enable'', True), (''local_enable'', False), (''pasv_enable'', True),
     (''port_enable'', True), (''chroot_local_user'', False), (''write_enable'', False),
     (''anon_upload_enable'', False), (''anon_mkdir_write_enable'', False),
     (''anon_other_write_enable'', False), (''chown_uploads'', False),
     (''connect_from_port_20'', False), (''xferlog_enable'', False),
     (''dirmessage_enable'', False), (''anon_world_readable_only'', True),
     (''async_abor_enable'', False), (''ascii_upload_enable'', False),
     (''ascii_download_enable'', False), (''one_process_model'', False),
     (''xferlog_std_format'', False), (''pasv_promiscuous'', False),
     (''deny_email_enable'', False), (''chroot_list_enable'', False),
     (''setproctitle_enable'', False), (''text_userdb_names'', False),
     (''ls_recurse_enable'', False), (''log_ftp_protocol'', False), (''guest_enable'', False),
     (''userlist_enable'', False), (''userlist_deny'', True), (''use_localtime'', False),
     (''check_shell'', True), (''hide_ids'', False), (''listen'', False),
     (''port_promiscuous'', False), (''passwd_chroot_enable'', False),
     (''no_anon_password'', False), (''tcp_wrappers'', False), (''use_sendfile'', True),
     (''force_dot_files'', False), (''listen_ipv6'', False), (''dual_log_enable'', False),
     (''syslog_enable'', False), (''background'', False), (''virtual_use_local_privs'', False),
     (''session_support'', False), (''download_enable'', True), (''dirlist_enable'', True),
     (''chmod_enable'', True), (''secure_email_list_enable'', False),
     (''run_as_launching_user'', False), (''no_log_lock'', False), (''ssl_enable'', False),
     (''allow_anon_ssl'', False), (''force_local_logins_ssl'', True),
     (''force_local_data_ssl'', True), (''sslv2'', False), (''sslv3'', False), (''tlsv1'', True),
     (''tilde_user_enable'', False), (''force_anon_logins_ssl'', False),
     (''force_anon_data_ssl'', False), (''mdtm_write'', True), (''lock_upload_files'', True),
     (''pasv_addr_resolve'', False), (''debug_ssl'', False), (''require_cert'', False),
     (''validate_cert'', False), (''strict_ssl_read_eof'', False),
     (''strict_ssl_write_shutdown'', False), (''ssl_request_cert'', True),
     (''delete_failed_uploads'', False), (''implicit_ssl'', False), (''sandbox'', False),
     (''require_ssl_reuse'', True), (''isolate'', True), (''isolate_network'', True)]"

definition default_uints :: "(string \<times> nat) list" where
  "default_uints =
    [
     (''accept_timeout'', 60), (''connect_timeout'', 60), (''local_umask'', 63),
     (''anon_umask'', 63), (''ftp_data_port'', 20), (''idle_session_timeout'', 300),
     (''data_connection_timeout'', 300), (''pasv_min_port'', 5001), (''pasv_max_port'', 0),
     (''anon_max_rate'', 0), (''local_max_rate'', 0), (''listen_port'', 21),
     (''max_clients'', 2000), (''file_open_mode'', 438), (''max_per_ip'', 50),
     (''trans_chunk_size'', 0), (''delay_failed_login'', 1), (''delay_successful_login'', 0),
     (''max_login_fails'', 3), (''chown_upload_mode'', 384)]"

definition default_strs :: "(string \<times> string option) list" where
  "default_strs =
    [
     (''secure_chroot_dir'', Some ''/usr/share/empty''), (''ftp_username'', Some ''ftp''),
     (''chown_username'', Some ''root''), (''xferlog_file'', Some ''/var/log/xferlog''),
     (''vsftpd_log_file'', Some ''/var/log/vsftpd.log''), (''message_file'', Some ''.message''),
     (''nopriv_user'', Some ''nobody''), (''ftpd_banner'', None),
     (''banned_email_file'', Some ''/etc/vsftpd.banned_emails''),
     (''chroot_list_file'', Some ''/etc/vsftpd.chroot_list''),
     (''pam_service_name'', Some ''ftp''), (''guest_username'', Some ''ftp''),
     (''userlist_file'', Some ''/etc/vsftpd.user_list''), (''anon_root'', None),
     (''local_root'', None), (''banner_file'', None), (''pasv_address'', None),
     (''listen_address'', None), (''user_config_dir'', None), (''listen_address6'', None),
     (''cmds_allowed'', None), (''cmds_denied'', None), (''hide_file'', None),
     (''deny_file'', None), (''user_sub_token'', None),
     (''email_password_file'', Some ''/etc/vsftpd.email_passwords''),
     (''rsa_cert_file'', Some ''/usr/share/ssl/certs/vsftpd.pem''), (''dsa_cert_file'', None),
     (''ssl_ciphers'', Some ''DES-CBC3-SHA''), (''rsa_private_key_file'', None),
     (''dsa_private_key_file'', None), (''ca_certs_file'', None)]"

text \<open>A setting is replaced by a copy of the new value; the old copy is freed.\<close>

definition install_str_setting :: "string option \<Rightarrow> string \<Rightarrow> tunables \<Rightarrow> tunables" where
  "install_str_setting p_value var t =
     t\<lparr>tstr := (tstr t)(var := map_option vsf_sysutil_strdup p_value)\<rparr>"

definition tunables_load_defaults :: "tunables \<Rightarrow> tunables" where
  "tunables_load_defaults t =
     (let t1 = fold (\<lambda>(var, v) t. t\<lparr>tbool := (tbool t)(var := v)\<rparr>) default_bools t;
          t2 = fold (\<lambda>(var, v) t. t\<lparr>tuint := (tuint t)(var := v)\<rparr>) default_uints t1
      in fold (\<lambda>(var, v). install_str_setting v var) default_strs t2)"

section \<open>Loading the defaults\<close>

lemma map_strdup [simp]: "map_option vsf_sysutil_strdup v = v"
  by (cases v) (simp_all add: vsf_sysutil_strdup_def)

lemma fold_bool: "tbool (fold (\<lambda>(var, v) t. t\<lparr>tbool := (tbool t)(var := v)\<rparr>) vs t) x =
    (case map_of (rev vs) x of Some v \<Rightarrow> v | None \<Rightarrow> tbool t x)"
  by (induction vs arbitrary: t) (auto simp: map_add_def split: option.splits)

lemma fold_uint: "tuint (fold (\<lambda>(var, v) t. t\<lparr>tuint := (tuint t)(var := v)\<rparr>) vs t) x =
    (case map_of (rev vs) x of Some v \<Rightarrow> v | None \<Rightarrow> tuint t x)"
  by (induction vs arbitrary: t) (auto simp: map_add_def split: option.splits)

lemma fold_str: "tstr (fold (\<lambda>(var, v). install_str_setting v var) vs t) x =
    (case map_of (rev vs) x of Some v \<Rightarrow> v | None \<Rightarrow> tstr t x)"
  by (induction vs arbitrary: t) (auto simp: map_add_def install_str_setting_def split: option.splits)

lemma fold_bool_frame [simp]:
  "tuint (fold (\<lambda>(var, v) t. t\<lparr>tbool := (tbool t)(var := v)\<rparr>) vs t) = tuint t"
  "tstr (fold (\<lambda>(var, v) t. t\<lparr>tbool := (tbool t)(var := v)\<rparr>) vs t) = tstr t"
  by (induction vs arbitrary: t) auto

lemma fold_uint_frame [simp]:
  "tbool (fold (\<lambda>(var, v) t. t\<lparr>tuint := (tuint t)(var := v)\<rparr>) vs t) = tbool t"
  "tstr (fold (\<lambda>(var, v) t. t\<lparr>tuint := (tuint t)(var := v)\<rparr>) vs t) = tstr t"
  by (induction vs arbitrary: t) auto

lemma fold_str_frame [simp]:
  "tbool (fold (\<lambda>(var, v). install_str_setting v var) vs t) = tbool t"
  "tuint (fold (\<lambda>(var, v). install_str_setting v var) vs t) = tuint t"
  by (induction vs arbitrary: t) (auto simp: install_str_setting_def)

lemma load_defaults_sel:
  "tbool (tunables_load_defaults t) x = (case map_of (rev default_bools) x of Some v \<Rightarrow> v | None \<Rightarrow> tbool t x)"
  "tuint (tunables_load_defaults t) x = (case map_of (rev default_uints) x of Some v \<Rightarrow> v | None \<Rightarrow> tuint t x)"
  "tstr (tunables_load_defaults t) x = (case map_of (rev default_strs) x of Some v \<Rightarrow> v | None \<Rightarrow> tstr t x)"
  by (simp_all add: tunables_load_defaults_def Let_def fold_bool fold_uint fold_str cong: option.case_cong)

end
