(* ===== verification/Parseconf.thy ===== *)
theory Parseconf
  imports Tunables Text Netio
begin

text \<open>
  The configuration parser \<^verbatim>\<open>apps/vsftpd-2.2.0/parseconf.c\<close> with its three tables of setting names and the
  file reader \<^verbatim>\<open>filestr.c\<close>. A table maps a setting name to the name of the variable it sets. A file is
  what the system calls say of it: it cannot be opened, is not a regular file, or has a
  content, and a separate answer whether \<open>stat\<close> finds it owned by the server's user.
\<close>

section \<open>Model\<close>

definition parseconf_bool_array :: "(string \<times> string) list" where
  "parseconf_bool_array =
    [
     (''anonymous_enable'', ''anonymous_enable''), (''local_enable'', ''local_enable''),
     (''pasv_enable'', ''pasv_enable''), (''port_enable'', ''port_enable''),
     (''chroot_local_user'', ''chroot_local_user''), (''write_enable'', ''write_enable''),
     (''anon_upload_enable'', ''anon_upload_enable''),
     (''anon_mkdir_write_enable'', ''anon_mkdir_write_enable''),
     (''anon_other_write_enable'', ''anon_other_write_enable''),
     (''chown_uploads'', ''chown_uploads''), (''connect_from_port_20'', ''connect_from_port_20''),
     (''xferlog_enable'', ''xferlog_enable''), (''dirmessage_enable'', ''dirmessage_enable''),
     (''anon_world_readable_only'', ''anon_world_readable_only''),
     (''async_abor_enable'', ''async_abor_enable''),
     (''ascii_upload_enable'', ''ascii_upload_enable''),
     (''ascii_download_enable'', ''ascii_download_enable''),
     (''one_process_model'', ''one_process_model''),
     (''xferlog_std_format'', ''xferlog_std_format''),
     (''pasv_promiscuous'', ''pasv_promiscuous''), (''deny_email_enable'', ''deny_email_enable''),
     (''chroot_list_enable'', ''chroot_list_enable''),
     (''setproctitle_enable'', ''setproctitle_enable''),
     (''text_userdb_names'', ''text_userdb_names''),
     (''ls_recurse_enable'', ''ls_recurse_enable''), (''log_ftp_protocol'', ''log_ftp_protocol''),
     (''guest_enable'', ''guest_enable''), (''userlist_enable'', ''userlist_enable''),
     (''userlist_deny'', ''userlist_deny''), (''use_localtime'', ''use_localtime''),
     (''check_shell'', ''check_shell''), (''hide_ids'', ''hide_ids''), (''listen'', ''listen''),
     (''port_promiscuous'', ''port_promiscuous''),
     (''passwd_chroot_enable'', ''passwd_chroot_enable''),
     (''no_anon_password'', ''no_anon_password''), (''tcp_wrappers'', ''tcp_wrappers''),
     (''use_sendfile'', ''use_sendfile''), (''force_dot_files'', ''force_dot_files''),
     (''listen_ipv6'', ''listen_ipv6''), (''dual_log_enable'', ''dual_log_enable''),
     (''syslog_enable'', ''syslog_enable''), (''background'', ''background''),
     (''virtual_use_local_privs'', ''virtual_use_local_privs''),
     (''session_support'', ''session_support''), (''download_enable'', ''download_enable''),
     (''dirlist_enable'', ''dirlist_enable''), (''chmod_enable'', ''chmod_enable''),
     (''secure_email_list_enable'', ''secure_email_list_enable''),
     (''run_as_launching_user'', ''run_as_launching_user''), (''no_log_lock'', ''no_log_lock''),
     (''ssl_enable'', ''ssl_enable''), (''allow_anon_ssl'', ''allow_anon_ssl''),
     (''force_local_logins_ssl'', ''force_local_logins_ssl''),
     (''force_local_data_ssl'', ''force_local_data_ssl''), (''ssl_sslv2'', ''sslv2''),
     (''ssl_sslv3'', ''sslv3''), (''ssl_tlsv1'', ''tlsv1''),
     (''tilde_user_enable'', ''tilde_user_enable''),
     (''force_anon_logins_ssl'', ''force_anon_logins_ssl''),
     (''force_anon_data_ssl'', ''force_anon_data_ssl''), (''mdtm_write'', ''mdtm_write''),
     (''lock_upload_files'', ''lock_upload_files''),
     (''pasv_addr_resolve'', ''pasv_addr_resolve''), (''debug_ssl'', ''debug_ssl''),
     (''require_cert'', ''require_cert''), (''validate_cert'', ''validate_cert''),
     (''strict_ssl_read_eof'', ''strict_ssl_read_eof''),
     (''strict_ssl_write_shutdown'', ''strict_ssl_write_shutdown''),
     (''ssl_request_cert'', ''ssl_request_cert''),
     (''delete_failed_uploads'', ''delete_failed_uploads''), (''implicit_ssl'', ''implicit_ssl''),
     (''sandbox'', ''sandbox''), (''require_ssl_reuse'', ''require_ssl_reuse''),
     (''isolate'', ''isolate''), (''isolate_network'', ''isolate_network'')]"

definition parseconf_uint_array :: "(string \<times> string) list" where
  "parseconf_uint_array =
    [
     (''accept_timeout'', ''accept_timeout''), (''connect_timeout'', ''connect_timeout''),
     (''local_umask'', ''local_umask''), (''anon_umask'', ''anon_umask''),
     (''ftp_data_port'', ''ftp_data_port''), (''idle_session_timeout'', ''idle_session_timeout''),
     (''data_connection_timeout'', ''data_connection_timeout''),
     (''pasv_min_port'', ''pasv_min_port''), (''pasv_max_port'', ''pasv_max_port''),
     (''anon_max_rate'', ''anon_max_rate''), (''local_max_rate'', ''local_max_rate''),
     (''listen_port'', ''listen_port''), (''max_clients'', ''max_clients''),
     (''file_open_mode'', ''file_open_mode''), (''max_per_ip'', ''max_per_ip''),
     (''trans_chunk_size'', ''trans_chunk_size''),
     (''delay_failed_login'', ''delay_failed_login''),
     (''delay_successful_login'', ''delay_successful_login''),
     (''max_login_fails'', ''max_login_fails''), (''chown_upload_mode'', ''chown_upload_mode'')]"

definition parseconf_str_array :: "(string \<times> string) list" where
  "parseconf_str_array =
    [
     (''secure_chroot_dir'', ''secure_chroot_dir''), (''ftp_username'', ''ftp_username''),
     (''chown_username'', ''chown_username''), (''xferlog_file'', ''xferlog_file''),
     (''vsftpd_log_file'', ''vsftpd_log_file''), (''message_file'', ''message_file''),
     (''nopriv_user'', ''nopriv_user''), (''ftpd_banner'', ''ftpd_banner''),
     (''banned_email_file'', ''banned_email_file''), (''chroot_list_file'', ''chroot_list_file''),
     (''pam_service_name'', ''pam_service_name''), (''guest_username'', ''guest_username''),
     (''userlist_file'', ''userlist_file''), (''anon_root'', ''anon_root''),
     (''local_root'', ''local_root''), (''banner_file'', ''banner_file''),
     (''pasv_address'', ''pasv_address''), (''listen_address'', ''listen_address''),
     (''user_config_dir'', ''user_config_dir''), (''listen_address6'', ''listen_address6''),
     (''cmds_allowed'', ''cmds_allowed''), (''hide_file'', ''hide_file''),
     (''deny_file'', ''deny_file''), (''user_sub_token'', ''user_sub_token''),
     (''email_password_file'', ''email_password_file''), (''rsa_cert_file'', ''rsa_cert_file''),
     (''dsa_cert_file'', ''dsa_cert_file''), (''ssl_ciphers'', ''ssl_ciphers''),
     (''rsa_private_key_file'', ''rsa_private_key_file''),
     (''dsa_private_key_file'', ''dsa_private_key_file''), (''ca_certs_file'', ''ca_certs_file''),
     (''cmds_denied'', ''cmds_denied'')]"

definition VSFTP_CONF_FILE_MAX :: nat where
  "VSFTP_CONF_FILE_MAX = 100000"

datatype file_source = OpenFails | NotRegular | Regular string "answer list"

definition str_fileread :: "file_source \<Rightarrow> nat \<Rightarrow> (int \<times> string) res" where
  "str_fileread f maxsize =
     (case f of
        OpenFails \<Rightarrow> Inr (-1, [])
      | NotRegular \<Rightarrow> Inr (0, [])
      | Regular content ks \<Rightarrow>
          let sz = (if length content > maxsize then maxsize else length content) in
          rbind (vsf_sysutil_read_loop \<lparr>input = content, answers = ks\<rparr> sz) (\<lambda>(retval, d, _).
            if retval < 0 then Inr (retval, [])
            else if nat retval \<noteq> sz then Inl (Die ''read size mismatch'')
            else Inr (retval, d)))"

text \<open>The unsigned value of an \<open>int\<close>.\<close>

definition as_uint :: "int \<Rightarrow> nat" where
  "as_uint v = nat (v mod 4294967296)"

definition parse_bool :: "string \<Rightarrow> bool option" where
  "parse_bool v =
     (let u = t_upper v in
      if u = ''YES'' \<or> u = ''TRUE'' \<or> u = ''1'' then Some True
      else if u = ''NO'' \<or> u = ''FALSE'' \<or> u = ''0'' then Some False
      else None)"

definition parse_uint :: "string \<Rightarrow> nat" where
  "parse_uint v =
     (if v \<noteq> [] \<and> v ! 0 = CHR ''0'' then vsf_sysutil_octal_to_uint (cstr v)
      else as_uint (vsf_sysutil_atoi (cstr v)))"

definition vsf_parseconf_load_setting :: "string \<Rightarrow> bool \<Rightarrow> tunables \<Rightarrow> tunables res" where
  "vsf_parseconf_load_setting p_setting errs_fatal t =
     (let (name, v) = t_split_char (dropWhile vsf_sysutil_isspace p_setting) CHR ''='' in
      case map_of parseconf_str_array name of
        Some var \<Rightarrow> Inr (t\<lparr>tstr := (tstr t)(var := if v = [] then None else Some (vsf_sysutil_strdup (cstr v)))\<rparr>)
      | None \<Rightarrow>
          if v = []
          then if errs_fatal then Inl (Die (''missing value in config file for: '' @ name)) else Inr t
          else case map_of parseconf_bool_array name of
            Some var \<Rightarrow>
              (case parse_bool v of
                 Some b \<Rightarrow> Inr (t\<lparr>tbool := (tbool t)(var := b)\<rparr>)
               | None \<Rightarrow>
                   if errs_fatal then Inl (Die (''bad bool value in config file for: '' @ name)) else Inr t)
          | None \<Rightarrow>
              (case map_of parseconf_uint_array name of
                 Some var \<Rightarrow> Inr (t\<lparr>tuint := (tuint t)(var := parse_uint v)\<rparr>)
               | None \<Rightarrow>
                   if errs_fatal then Inl (Die (''unrecognised variable in config file: '' @ name)) else Inr t))"

definition is_setting_line :: "string \<Rightarrow> bool" where
  "is_setting_line l \<longleftrightarrow> \<not> (l = [] \<or> l ! 0 = CHR ''#'' \<or> list_all vsf_sysutil_isspace l)"

text \<open>The static \<open>s_p_saved_filename\<close> is passed in and returned; the file system answers for a name.\<close>

record conf_env =
  conf_file :: "string \<Rightarrow> file_source"
  conf_owned :: "string \<Rightarrow> bool"

definition vsf_parseconf_load_file ::
  "conf_env \<Rightarrow> string option \<Rightarrow> string option \<Rightarrow> bool \<Rightarrow> tunables \<Rightarrow> (string option \<times> tunables) res" where
  "vsf_parseconf_load_file env saved p_filename errs_fatal t =
     (let saved1 = (case p_filename of None \<Rightarrow> saved | Some f \<Rightarrow> Some f) in
      case saved1 of
        None \<Rightarrow> Inl (Bug ''null filename in vsf_parseconf_load_file'')
      | Some f \<Rightarrow>
          rbind (str_fileread (conf_file env f) VSFTP_CONF_FILE_MAX) (\<lambda>(retval, content).
            if retval < 0
            then if errs_fatal then Inl (Die (''cannot read config file: '' @ f)) else Inr (saved1, t)
            else if \<not> conf_owned env f
            then Inl (Die ''config file not owned by correct user, or not a file'')
            else rbind (rfold (\<lambda>l. vsf_parseconf_load_setting (cstr l) errs_fatal)
                          (filter is_setting_line (t_lines content)) t) (\<lambda>t1.
                 Inr (saved1, t1))))"

section \<open>The tables\<close>

definition all_settings :: "(string \<times> string) list" where
  "all_settings = parseconf_str_array @ parseconf_bool_array @ parseconf_uint_array"

lemma setting_names_distinct: "distinct (map fst all_settings)"
  by code_simp

lemma setting_names_plain:
  "list_all (\<lambda>(n, v). n \<noteq> [] \<and> CHR ''='' \<notin> set n \<and> NUL \<notin> set n \<and> \<not> vsf_sysutil_isspace (hd n)) all_settings"
  by code_simp

lemma map_of_setting:
  assumes "distinct (map fst (xs @ ys @ zs))"
  shows "(n, v) \<in> set xs \<Longrightarrow> map_of xs n = Some v"
    and "(n, v) \<in> set ys \<Longrightarrow> map_of xs n = None \<and> map_of ys n = Some v"
    and "(n, v) \<in> set zs \<Longrightarrow> map_of xs n = None \<and> map_of ys n = None \<and> map_of zs n = Some v"
proof -
  have d: "distinct (map fst xs)" "distinct (map fst ys)" "distinct (map fst zs)"
    "fst ` set xs \<inter> (fst ` set ys \<union> fst ` set zs) = {}" "fst ` set ys \<inter> fst ` set zs = {}"
    using assms by auto
  show "(n, v) \<in> set xs \<Longrightarrow> map_of xs n = Some v" using d(1) by (rule map_of_is_SomeI)
  have in_dom: "(n, v) \<in> S \<Longrightarrow> n \<in> fst ` S" for S by (metis fst_conv image_eqI)
  show "map_of xs n = None \<and> map_of ys n = Some v" if "(n, v) \<in> set ys"
    using in_dom [OF that] d(4) map_of_is_SomeI [OF d(2) that] by (auto simp: map_of_eq_None_iff)
  show "map_of xs n = None \<and> map_of ys n = None \<and> map_of zs n = Some v" if "(n, v) \<in> set zs"
    using in_dom [OF that] d(4,5) map_of_is_SomeI [OF d(3) that] by (auto simp: map_of_eq_None_iff)
qed

lemmas setting_lookup = map_of_setting [OF setting_names_distinct [unfolded all_settings_def]]

lemma split_setting:
  assumes "n \<in> fst ` set all_settings"
  shows "t_split_char (dropWhile vsf_sysutil_isspace (n @ ''='' @ v)) CHR ''='' = (n, v)"
proof -
  have n: "n \<noteq> []" "CHR ''='' \<notin> set n" "\<not> vsf_sysutil_isspace (hd n)"
    using setting_names_plain assms by (auto simp: list_all_iff)
  have dw: "dropWhile vsf_sysutil_isspace (n @ ''='' @ v) = n @ CHR ''='' # v"
    using n(1,3) by (cases n) auto
  have tw: "takeWhile (\<lambda>c. c \<noteq> CHR ''='') (n @ CHR ''='' # v) = n @ takeWhile (\<lambda>c. c \<noteq> CHR ''='') (CHR ''='' # v)"
    using n(2) by (intro takeWhile_append2) auto
  have "dropWhile (\<lambda>c. c \<noteq> CHR ''='') (n @ CHR ''='' # v) = dropWhile (\<lambda>c. c \<noteq> CHR ''='') (CHR ''='' # v)"
    using n(2) by (intro dropWhile_append2) auto
  then show ?thesis using dw tw by (simp add: t_split_char_eq)
qed

lemma parse_uint_decimal:
  assumes "n \<le> INT_MAX" and "0 < n"
  shows "parse_uint (vsf_sysutil_ulong_to_str n) = n"
proof -
  have "NUL \<notin> set (base_str 10 n)"
    using all_digits_base_str [of 10 n] by (auto simp: list_all_iff vsf_sysutil_isdigit_def)
  moreover have "base_str 10 n ! 0 \<noteq> CHR ''0''"
    using base_str_hd [of 10 n] assms(2) by (simp add: hd_conv_nth)
  ultimately show ?thesis using assms(1) atoi_decimal [OF assms(1)]
    by (simp add: parse_uint_def vsf_sysutil_ulong_to_str_def as_uint_def INT_MAX_def)
qed

lemma parse_uint_octal: "n < 4294967296 \<Longrightarrow> parse_uint (vsf_sysutil_uint_to_octal n) = n"
proof -
  assume n: "n < 4294967296"
  have "NUL \<notin> set (base_str 8 n)"
    using all_digits_base_str [of 8 n] by (auto simp: list_all_iff vsf_sysutil_isdigit_def)
  then have "cstr (vsf_sysutil_uint_to_octal n) = vsf_sysutil_uint_to_octal n"
    by (intro cstr_no_NUL) (simp add: vsf_sysutil_uint_to_octal_def)
  moreover have "vsf_sysutil_uint_to_octal n \<noteq> [] \<and> vsf_sysutil_uint_to_octal n ! 0 = CHR ''0''"
    by (simp add: vsf_sysutil_uint_to_octal_def)
  ultimately show ?thesis using octal_octal [OF n] by (simp add: parse_uint_def)
qed

section \<open>Properties\<close>

text \<open>
  Every tunable can be configured: the three tables have pairwise different setting names, each
  variable is set by exactly one of them, and the variables of the tables are exactly the
  variables that \<open>tunables_load_defaults\<close> initialises.
\<close>

theorem settings_cover_tunables:
  "distinct (map fst (parseconf_str_array @ parseconf_bool_array @ parseconf_uint_array)) \<and>
   distinct (map snd (parseconf_str_array @ parseconf_bool_array @ parseconf_uint_array)) \<and>
   set (map snd parseconf_bool_array) = set (map fst default_bools) \<and>
   set (map snd parseconf_uint_array) = set (map fst default_uints) \<and>
   set (map snd parseconf_str_array) = set (map fst default_strs)"
proof (intro conjI)
  show "distinct (map fst (parseconf_str_array @ parseconf_bool_array @ parseconf_uint_array))"
    using setting_names_distinct by (simp only: all_settings_def)
  show "distinct (map snd (parseconf_str_array @ parseconf_bool_array @ parseconf_uint_array))" by code_simp
  show "set (map snd parseconf_bool_array) = set (map fst default_bools)" by code_simp
  show "set (map snd parseconf_uint_array) = set (map fst default_uints)" by code_simp
  show "set (map snd parseconf_str_array) = set (map fst default_strs)" by code_simp
qed

text \<open>
  A setting written as \<open>name=value\<close> sets the variable of that name to the value and nothing else, for
  each of the three kinds: \<open>YES\<close> and \<open>NO\<close>, numbers in decimal or with a leading zero in octal, and
  non-empty strings, whether errors are fatal or not.
\<close>

theorem setting_sets_variable:
  assumes "(nb, vb) \<in> set parseconf_bool_array" and "(nu, vu) \<in> set parseconf_uint_array"
    and "(ns, vs) \<in> set parseconf_str_array" and "0 < n \<and> n \<le> INT_MAX" and "x \<noteq> [] \<and> NUL \<notin> set x"
  shows "vsf_parseconf_load_setting (nb @ ''='' @ (if b then ''YES'' else ''NO'')) ef t =
           Inr (t\<lparr>tbool := (tbool t)(vb := b)\<rparr>) \<and>
         vsf_parseconf_load_setting (nu @ ''='' @ vsf_sysutil_ulong_to_str n) ef t =
           Inr (t\<lparr>tuint := (tuint t)(vu := n)\<rparr>) \<and>
         vsf_parseconf_load_setting (nu @ ''='' @ vsf_sysutil_uint_to_octal n) ef t =
           Inr (t\<lparr>tuint := (tuint t)(vu := n)\<rparr>) \<and>
         vsf_parseconf_load_setting (ns @ ''='' @ x) ef t = Inr (t\<lparr>tstr := (tstr t)(vs := Some x)\<rparr>)"
proof -
  have pb: "parse_bool (if b then ''YES'' else ''NO'') = Some b" by (cases b; simp; code_simp)
  have sp: "t_split_char (dropWhile vsf_sysutil_isspace (m @ ''='' @ v)) CHR ''='' = (m, v)"
    if "m = nb \<or> m = nu \<or> m = ns" for m v
    by (rule split_setting) (use assms(1-3) that in \<open>force simp: all_settings_def\<close>)
  note lb = setting_lookup(2) [OF assms(1)] and lu = setting_lookup(3) [OF assms(2)]
    and ls = setting_lookup(1) [OF assms(3)]
  have d: "parse_uint (vsf_sysutil_ulong_to_str n) = n" "parse_uint (vsf_sysutil_uint_to_octal n) = n"
    using parse_uint_decimal [of n] parse_uint_octal [of n] assms(4) by (simp_all add: INT_MAX_def)
  have ne: "vsf_sysutil_ulong_to_str n \<noteq> []" "vsf_sysutil_uint_to_octal n \<noteq> []"
    by (simp_all add: vsf_sysutil_ulong_to_str_def vsf_sysutil_uint_to_octal_def)
  show ?thesis
    using sp pb lb lu ls d ne assms(5)
    by (simp only: vsf_parseconf_load_setting_def Let_def) (auto simp: vsf_sysutil_strdup_def)
qed

definition blank_tunables :: tunables where
  "blank_tunables = \<lparr>tbool = (\<lambda>_. False), tuint = (\<lambda>_. 0), tstr = (\<lambda>_. None)\<rparr>"

lemma load_setting_nonfatal: "\<exists>t'. vsf_parseconf_load_setting l False t = Inr t'"
  by (auto simp: vsf_parseconf_load_setting_def Let_def split: prod.splits option.splits)

lemma load_lines_nonfatal: "\<exists>t'. rfold (\<lambda>l. vsf_parseconf_load_setting (cstr l) False) ls t = Inr t'"
proof (induction ls arbitrary: t)
  case (Cons l ls)
  obtain t1 where "vsf_parseconf_load_setting (cstr l) False t = Inr t1" using load_setting_nonfatal by blast
  then show ?case using Cons by simp
qed simp

lemma fileread_ok:
  assumes "\<And>c ks. f = Regular c ks \<Longrightarrow> no_errors ks"
  shows "\<exists>r d. str_fileread f VSFTP_CONF_FILE_MAX = Inr (r, d) \<and> (r < 0 \<longleftrightarrow> f = OpenFails)"
proof (cases f)
  case (Regular c ks)
  define sz where "sz = (if length c > VSFTP_CONF_FILE_MAX then VSFTP_CONF_FILE_MAX else length c)"
  have b: "sz \<le> INT_MAX" "sz \<le> length c" by (auto simp: sz_def VSFTP_CONF_FILE_MAX_def INT_MAX_def)
  show ?thesis
  proof (cases "sz = 0")
    case True
    then have "c = []" by (auto simp: sz_def VSFTP_CONF_FILE_MAX_def split: if_splits)
    moreover obtain ks1 k where "settle ks = (k, ks1)" "k \<noteq> Some Err"
      using settle_cases [of ks] assms [OF Regular] by (metis answer.distinct(5) option.distinct(1) option.inject)
    ultimately show ?thesis using Regular
      by (auto simp: str_fileread_def Let_def vsf_sysutil_read_loop_def read_loop.simps vsf_sysutil_read_def
          split: option.splits answer.splits)
  next
    case False
    then obtain st1 where "read_loop \<lparr>input = c, answers = ks\<rparr> sz [] = Inr (int sz, take sz c, st1)"
      using read_loop_full [of "\<lparr>input = c, answers = ks\<rparr>" sz "[]"] assms [OF Regular] b by auto
    then have "str_fileread f VSFTP_CONF_FILE_MAX = Inr (int sz, take sz c)"
      using Regular b by (simp add: str_fileread_def Let_def vsf_sysutil_read_loop_def flip: sz_def)
    then show ?thesis using Regular by simp
  qed
qed (auto simp: str_fileread_def)

text \<open>
  A reload on SIGHUP (saved file name, errors not fatal) is not stopped by anything the file says, nor
  by a file that has vanished; but a file that is there and not owned by the server's user ends the
  process even so, contrary to the comment at the handler that an invalid configuration does not
  crash the listener.
\<close>

theorem reload_stops_exactly_on_owner:
  assumes "\<And>c ks. conf_file env f = Regular c ks \<Longrightarrow> no_errors ks"
  shows "(\<exists>e. vsf_parseconf_load_file env (Some f) None False t = Inl e) \<longleftrightarrow>
         conf_file env f \<noteq> OpenFails \<and> \<not> conf_owned env f"
proof -
  obtain r d where rd: "str_fileread (conf_file env f) VSFTP_CONF_FILE_MAX = Inr (r, d)"
    "r < 0 \<longleftrightarrow> conf_file env f = OpenFails"
    using fileread_ok [of "conf_file env f"] assms by blast
  obtain t' where "rfold (\<lambda>l. vsf_parseconf_load_setting (cstr l) False)
      (filter is_setting_line (t_lines d)) t = Inr t'"
    using load_lines_nonfatal by blast
  then show ?thesis using rd by (auto simp: vsf_parseconf_load_file_def)
qed

theorem reload_stops_exactly_on_owner_witness:
  "(\<exists>e. vsf_parseconf_load_file \<lparr>conf_file = (\<lambda>_. Regular ''listen=YES'' []), conf_owned = (\<lambda>_. False)\<rparr>
      (Some ''/etc/vsftpd.conf'') None False blank_tunables = Inl e)"
  using reload_stops_exactly_on_owner
    [of "\<lparr>conf_file = (\<lambda>_. Regular ''listen=YES'' []), conf_owned = (\<lambda>_. False)\<rparr>" "''/etc/vsftpd.conf''" blank_tunables]
  by (simp add: no_errors_def)

end
