(* ===== verification/Ls.thy ===== *)
theory Ls
  imports Strlist Tunables
begin

text \<open>
  Directory listings and file access control: the pattern matcher, the listing builder
  (\<^verbatim>\<open>apps/vsftpd-2.2.0/ls.c\<close>) and the \<open>deny_file\<close> and \<open>hide_file\<close> checks (\<^verbatim>\<open>access.c\<close>). Names and patterns
  are texts without NUL, which cannot occur in either. A directory is the list of its entries
  with what \<open>lstat\<close> and \<open>readlink\<close> answer for each; the sorting of the list is that of theory
  \<open>Strlist\<close>, here a function on entries that sorts.
\<close>

section \<open>The pattern matcher\<close>

lemma split_char_length:
  assumes "t_split_char s c = (a, r)"
  shows "length a + length r \<le> length s" and "c \<in> set s \<Longrightarrow> length a + length r < length s"
    and "c \<in> set s \<Longrightarrow> s = a @ c # r" and "c \<notin> set s \<Longrightarrow> s = a \<and> r = []" and "c \<notin> set a"
proof -
  have e: "a = takeWhile (\<lambda>x. x \<noteq> c) s" "r = (if c \<in> set s then tl (dropWhile (\<lambda>x. x \<noteq> c) s) else [])"
    using assms by (auto simp: t_split_char_eq)
  show i: "s = a @ c # r" if "c \<in> set s"
  proof -
    have "dropWhile (\<lambda>x. x \<noteq> c) s \<noteq> []" using that by (simp add: dropWhile_eq_Nil_conv)
    then have "dropWhile (\<lambda>x. x \<noteq> c) s = c # r"
      using that e hd_dropWhile [of "\<lambda>x. x \<noteq> c" s] by (metis list.collapse)
    then show ?thesis using e(1) by (metis takeWhile_dropWhile_id)
  qed
  show n: "s = a \<and> r = []" if "c \<notin> set s"
  proof -
    have "takeWhile (\<lambda>x. x \<noteq> c) s = s" using that by (auto simp: takeWhile_eq_all_conv)
    then show ?thesis using e that by (simp del: takeWhile_eq_all_conv)
  qed
  show "length a + length r \<le> length s"
  proof (cases "c \<in> set s")
    case True
    then show ?thesis using arg_cong [OF i [OF True], of length] by simp
  next
    case False
    then show ?thesis using n by simp
  qed
  show "length a + length r < length s" if "c \<in> set s" using arg_cong [OF i [OF that], of length] by simp
  show "c \<notin> set a" using e(1) by (auto dest: set_takeWhileD)
qed

text \<open>The alternatives the brace loop tries: it stops at an empty one.\<close>

function brace_alts :: "string \<Rightarrow> string list" where
  "brace_alts s = (let (a, r) = t_split_char s CHR '','' in if a = [] then [] else a # brace_alts r)"
  by pat_completeness auto
termination
proof (relation "measure length", goal_cases)
  case (2 s p a r)
  then have "length a + length r \<le> length s" using split_char_length(1) [of s _ a r] by simp
  then show ?case using 2 by (cases a) auto
qed simp

declare brace_alts.simps [simp del]

lemma brace_alts_length: "a \<in> set (brace_alts s) \<Longrightarrow> length a \<le> length s"
proof (induction s rule: brace_alts.induct)
  case (1 s)
  obtain b r where br: "t_split_char s CHR '','' = (b, r)" by (cases "t_split_char s CHR '',''")
  then show ?case using "1.IH" [of "(b, r)" b r] "1.prems" split_char_length(1) [OF br]
    by (auto simp: brace_alts.simps [of s] split: if_splits)
qed

text \<open>
  One round of the loop: the text before the next token, the filter after it and the token; NUL
  stands for none.
\<close>

definition next_token :: "string \<Rightarrow> string \<times> string \<times> char" where
  "next_token f =
     (let r = t_locate_chars f ''*?{'' in
      if found r then (take (index r) f, drop (index r + 1) f, char_found r) else (f, [], NUL))"

definition match_needed :: "string \<Rightarrow> string \<Rightarrow> bool \<Rightarrow> string option" where
  "match_needed needed n must_match_at_current_pos =
     (if needed = [] then Some n
      else
        let l = t_locate_text n needed in
        if \<not> found l \<or> must_match_at_current_pos \<and> index l > 0 then None
        else Some (drop (index l + length needed) n))"

lemma locate_chars_from_found:
  "found (t_locate_chars_from i s cs) \<Longrightarrow>
   i \<le> index (t_locate_chars_from i s cs) \<and> index (t_locate_chars_from i s cs) < i + length s \<and>
   s ! (index (t_locate_chars_from i s cs) - i) = char_found (t_locate_chars_from i s cs) \<and>
   char_found (t_locate_chars_from i s cs) \<in> set cs \<and>
   set (take (index (t_locate_chars_from i s cs) - i) s) \<inter> set cs = {}"
proof (induction s arbitrary: i)
  case (Cons c s)
  show ?case
  proof (cases "c \<in> set cs")
    case False
    then show ?thesis using Cons.IH [of "Suc i"] Cons.prems
      by (auto simp: Suc_diff_le nth_Cons' take_Cons')
  qed (use Cons.prems in simp)
qed (simp add: not_found_def)

lemma locate_chars_from_miss:
  "\<not> found (t_locate_chars_from i s cs) \<Longrightarrow> set s \<inter> set cs = {}"
  by (induction s arbitrary: i) (auto split: if_splits)

lemma next_token_cases:
  assumes "f \<noteq> []" and "next_token f = (needed, f1, tok)"
  shows "set needed \<inter> {CHR ''*'', CHR ''?'', CHR ''{''} = {}" and "length f1 < length f"
    and "tok = NUL \<and> f = needed \<and> f1 = [] \<or> tok \<in> {CHR ''*'', CHR ''?'', CHR ''{''} \<and> f = needed @ tok # f1"
proof -
  let ?r = "t_locate_chars_from 0 f ''*?{''"
  have "set needed \<inter> {CHR ''*'', CHR ''?'', CHR ''{''} = {} \<and> length f1 < length f \<and>
    (tok = NUL \<and> f = needed \<and> f1 = [] \<or> tok \<in> {CHR ''*'', CHR ''?'', CHR ''{''} \<and> f = needed @ tok # f1)"
  proof (cases "found ?r")
    case True
    note F = locate_chars_from_found [OF True]
    define i where "i = index ?r"
    have N: "needed = take i f" "f1 = drop (Suc i) f" "tok = char_found ?r"
      using True assms(2) by (auto simp: next_token_def t_locate_chars_def Let_def i_def)
    have F': "i < length f" "f ! i = tok" "tok \<in> {CHR ''*'', CHR ''?'', CHR ''{''}"
      "set (take i f) \<inter> {CHR ''*'', CHR ''?'', CHR ''{''} = {}"
      using F N(3) by (auto simp: i_def)
    have "f = needed @ tok # f1" using F'(1,2) N(1,2) by (metis id_take_nth_drop)
    then show ?thesis using F' N(1,2) by (metis length_drop diff_less zero_less_Suc length_greater_0_conv assms(1))
  next
    case False
    then show ?thesis using locate_chars_from_miss [OF False] assms
      by (auto simp: next_token_def t_locate_chars_def Let_def)
  qed
  then show "set needed \<inter> {CHR ''*'', CHR ''?'', CHR ''{''} = {}" and "length f1 < length f"
    and "tok = NUL \<and> f = needed \<and> f1 = [] \<or> tok \<in> {CHR ''*'', CHR ''?'', CHR ''{''} \<and> f = needed @ tok # f1"
    by auto
qed

function passes_loop :: "string \<Rightarrow> string \<Rightarrow> char \<Rightarrow> bool \<Rightarrow> bool" where
  "passes_loop f n last_token must =
     (if f = [] then \<not> (length n > 0 \<and> last_token \<noteq> CHR ''*'')
      else
        let (needed, f1, tok) = next_token f in
        case match_needed needed n must of
          None \<Rightarrow> False
        | Some n1 \<Rightarrow>
            if tok = CHR ''?'' then n1 \<noteq> [] \<and> passes_loop f1 (tl n1) tok True
            else if tok = CHR ''{''
            then if found (t_locate_text f1 ''}'')
                 then let (braces, rest) = t_split_char f1 CHR ''}''
                      in list_ex (\<lambda>a. passes_loop (a @ rest) n1 NUL True) (brace_alts braces)
                 else n1 \<noteq> [] \<and> n1 ! 0 = CHR ''{'' \<and> passes_loop f1 (tl n1) tok True
            else passes_loop f1 n1 tok False)"
  by pat_completeness auto
termination
proof (relation "measure (\<lambda>(f, n, l, m). length f)", goal_cases)
  case (3 f n l m p needed q f1 tok n1 x braces rest a)
  then have t: "next_token f = (needed, f1, tok)" by simp
  have "length a \<le> length braces" using brace_alts_length 3 by blast
  then show ?case using split_char_length(1) [of f1 "CHR ''}''" braces rest] next_token_cases(2) [OF _ t] 3
    by simp
next
  case (2 f n l m p needed q f1 tok n1)
  then show ?case using next_token_cases(2) [of f needed f1 tok] by simp
next
  case (4 f n l m p needed q f1 tok n1)
  then show ?case using next_token_cases(2) [of f needed f1 tok] by simp
next
  case (5 f n l m p needed q f1 tok n1)
  then show ?case using next_token_cases(2) [of f needed f1 tok] by simp
qed simp

declare passes_loop.simps [simp del]

definition vsf_filename_passes_filter :: "string \<Rightarrow> string \<Rightarrow> bool" where
  "vsf_filename_passes_filter p_filename p_filter = passes_loop p_filter p_filename NUL True"

section \<open>What a pattern means\<close>

definition is_field :: "string \<Rightarrow> string \<Rightarrow> bool" where
  "is_field a b \<longleftrightarrow>
     (\<exists>u v. b = u @ a @ v \<and> (u = [] \<or> last u = CHR '','') \<and> (v = [] \<or> hd v = CHR '','') \<and> CHR '','' \<notin> set a)"

abbreviation special :: "char set" where
  "special \<equiv> {CHR ''*'', CHR ''?'', CHR ''{''}"

inductive glob :: "string \<Rightarrow> string \<Rightarrow> bool" where
  glob_end: "glob [] []"
| glob_char: "c \<notin> special \<Longrightarrow> glob f n \<Longrightarrow> glob (c # f) (c # n)"
| glob_any: "glob f n \<Longrightarrow> glob (CHR ''?'' # f) (c # n)"
| glob_star: "glob f n \<Longrightarrow> glob (CHR ''*'' # f) (u @ n)"
| glob_brace: "CHR ''}'' \<notin> set b \<Longrightarrow> is_field a b \<Longrightarrow> glob (a @ f) n \<Longrightarrow>
    glob (CHR ''{'' # b @ CHR ''}'' # f) n"
| glob_open: "CHR ''}'' \<notin> set f \<Longrightarrow> glob f n \<Longrightarrow> glob (CHR ''{'' # f) (CHR ''{'' # n)"

inductive_cases glob_NilE: "glob [] n"
inductive_cases glob_ConsE: "glob (c # f) n"

lemma glob_text: "set u \<inter> special = {} \<Longrightarrow> glob f n \<Longrightarrow> glob (u @ f) (u @ n)"
  by (induction u) (auto intro: glob_char)

lemma glob_text_inv: "set u \<inter> special = {} \<Longrightarrow> glob (u @ f) n \<Longrightarrow> \<exists>n1. n = u @ n1 \<and> glob f n1"
proof (induction u arbitrary: n)
  case (Cons c u)
  from Cons.prems(2) show ?case
    by (auto elim!: glob_ConsE simp: append_eq_Cons_conv) (use Cons in auto)
qed simp

lemma brace_alts_Nil [simp]: "brace_alts [] = []"
  by (simp add: brace_alts.simps t_split_char_eq)

lemma brace_alts_field: "a \<in> set (brace_alts b) \<Longrightarrow> is_field a b"
proof (induction b rule: brace_alts.induct)
  case (1 s)
  obtain x r where xr: "t_split_char s CHR '','' = (x, r)" by (cases "t_split_char s CHR '',''")
  note S = split_char_length(3-5) [OF xr]
  from "1.prems" xr consider "a = x" "x \<noteq> []" | "a \<in> set (brace_alts r)" "x \<noteq> []"
    by (auto simp: brace_alts.simps [of s] split: if_splits)
  then show ?case
  proof cases
    case 1
    have "s = [] @ x @ (if CHR '','' \<in> set s then CHR '','' # r else [])" using S by auto
    then show ?thesis unfolding is_field_def using 1 S(3) by (intro exI [of _ "[]"] exI) auto
  next
    case 2
    then have "is_field a r" using "1.IH" [of "(x, r)" x r] xr by simp
    then obtain u v where uv: "r = u @ a @ v" "u = [] \<or> last u = CHR '',''" "v = [] \<or> hd v = CHR '',''"
      "CHR '','' \<notin> set a" by (auto simp: is_field_def)
    have "CHR '','' \<in> set s" using S(2) 2 by (cases "CHR '','' \<in> set s") auto
    then have "s = (x @ CHR '','' # u) @ a @ v" using S(1) uv(1) by simp
    then show ?thesis unfolding is_field_def using uv by (intro exI [of _ "x @ CHR '','' # u"] exI [of _ v]) auto
  qed
qed

lemma match_needed_Some:
  assumes "match_needed needed n must = Some n1"
  shows "\<exists>pre. n = pre @ needed @ n1 \<and> (must \<longrightarrow> pre = []) \<and> (needed = [] \<longrightarrow> pre = [])"
proof (cases "needed = []")
  case True
  then show ?thesis using assms by (simp add: match_needed_def)
next
  case False
  then obtain i where i: "first_sub needed n = Some i" "n1 = drop (i + length needed) n" "must \<longrightarrow> i = 0"
    using assms by (auto simp: match_needed_def t_locate_text_def Let_def split: if_splits)
  then have "n = take i n @ needed @ n1"
    using first_sub_Some_iff [OF False, of n i] occurs_at_split [of needed n i] by simp
  then show ?thesis using i(3) False by (intro exI [of _ "take i n"]) auto
qed

lemma found_char: "found (t_locate_text s [c]) \<longleftrightarrow> c \<in> set s"
  by (simp add: t_locate_text_def first_sub_char)

text \<open>The state of the loop after a \<open>*\<close> allows text to be skipped; otherwise the position is fixed.\<close>

definition after_star :: "char \<Rightarrow> string \<Rightarrow> string \<Rightarrow> bool" where
  "after_star last_token f n \<longleftrightarrow>
     (if last_token = CHR ''*'' then \<exists>u v. n = u @ v \<and> glob f v else glob f n)"

lemma passes_loop_sound:
  "passes_loop f n last_token must \<Longrightarrow> (last_token = CHR ''*'' \<longrightarrow> \<not> must) \<Longrightarrow>
   (last_token \<noteq> CHR ''*'' \<and> \<not> must \<longrightarrow> f = []) \<Longrightarrow> after_star last_token f n"
proof (induction f n last_token must rule: passes_loop.induct)
  case (1 f n last_token must)
  show ?case
  proof (cases "f = []")
    case True
    then show ?thesis using "1.prems"(1)
      by (auto simp: passes_loop.simps [of "[]"] after_star_def intro: glob_end)
  next
    case False
    obtain needed f1 tok where t: "next_token f = (needed, f1, tok)" by (cases "next_token f") auto
    note T = next_token_cases [OF False t]
    from "1.prems"(1) False t obtain n1 where n1: "match_needed needed n must = Some n1"
      by (auto simp: passes_loop.simps [of f] split: option.splits)
    obtain pre where pre: "n = pre @ needed @ n1" "must \<longrightarrow> pre = []" "needed = [] \<longrightarrow> pre = []"
      using match_needed_Some [OF n1] by blast
    note IH = "1.IH" [OF False t [symmetric] refl refl n1]
    note step = "1.prems"(1) [unfolded passes_loop.simps [of f]]
    have "glob f (needed @ n1)"
    proof -
      consider "tok = NUL" | "tok = CHR ''?''" | "tok = CHR ''{''" "CHR ''}'' \<in> set f1"
        | "tok = CHR ''{''" "CHR ''}'' \<notin> set f1" | "tok = CHR ''*''" using T(3) by auto
      then show ?thesis
      proof cases
        case 1
        then have "f = needed" "f1 = []" using T(3) by auto
        moreover have "n1 = []"
          using step False t n1 1 \<open>f1 = []\<close> by (auto simp: passes_loop.simps [of "[]"])
        ultimately show ?thesis using glob_text [OF T(1) glob_end] by simp
      next
        case 2
        then have "n1 \<noteq> []" "passes_loop f1 (tl n1) tok True" using step False t n1 by auto
        then have "glob f1 (tl n1)" using IH(1) 2 by (simp add: after_star_def)
        then have "glob (tok # f1) n1" using glob_any [of f1 "tl n1" "hd n1"] 2 \<open>n1 \<noteq> []\<close> by simp
        then show ?thesis using T(1,3) 2 glob_text [OF T(1), of "tok # f1" n1] by auto
      next
        case 3
        obtain braces rest where br: "t_split_char f1 CHR ''}'' = (braces, rest)"
          by (cases "t_split_char f1 CHR ''}''")
        then obtain a where a: "a \<in> set (brace_alts braces)" "passes_loop (a @ rest) n1 NUL True"
          using step False t n1 3 by (auto simp: found_char list_ex_iff)
        have "glob (a @ rest) n1"
          using IH(2) [OF _ _ _ refl br [symmetric] a(1)] a 3 by (simp add: after_star_def found_char)
        then have "glob (CHR ''{'' # f1) n1"
          using glob_brace [OF _ brace_alts_field [OF a(1)]] split_char_length(3,5) [OF br] 3 by simp
        then show ?thesis using T(1,3) 3 glob_text [OF T(1), of "tok # f1" n1] by auto
      next
        case 4
        then have "n1 \<noteq> []" "n1 ! 0 = CHR ''{''" "passes_loop f1 (tl n1) tok True"
          using step False t n1 by (auto simp: found_char)
        then have "glob f1 (tl n1)" using IH(3) 4 by (simp add: after_star_def found_char)
        then have "glob (tok # f1) n1"
          using glob_open [of f1 "tl n1"] 4 \<open>n1 \<noteq> []\<close> \<open>n1 ! 0 = CHR ''{''\<close> by (cases n1) auto
        then show ?thesis using T(1,3) 4 glob_text [OF T(1), of "tok # f1" n1] by auto
      next
        case 5
        then have "passes_loop f1 n1 tok False" using step False t n1 by auto
        then obtain u v where "n1 = u @ v" "glob f1 v" using IH(4) 5 by (auto simp: after_star_def)
        then have "glob (tok # f1) n1" using glob_star [of f1 v u] 5 by simp
        then show ?thesis using T(1,3) 5 glob_text [OF T(1), of "tok # f1" n1] by auto
      qed
    qed
    then show ?thesis using pre(1,2) "1.prems"(3) False by (auto simp: after_star_def)
  qed
qed

text \<open>For patterns without \<open>*\<close> and braces the matcher is exact.\<close>

lemma match_needed_prefix: "match_needed needed (needed @ n1) must = Some n1"
proof (cases "needed = []")
  case False
  have "first_sub needed (needed @ n1) = Some 0"
    using False by (subst first_sub_Some_iff) (auto simp: occurs_at_def)
  then show ?thesis using False by (simp add: match_needed_def t_locate_text_def Let_def)
qed (simp add: match_needed_def)

lemma passes_loop_complete:
  "glob f n \<Longrightarrow> set f \<inter> {CHR ''*'', CHR ''{''} = {} \<Longrightarrow> last_token \<noteq> CHR ''*'' \<Longrightarrow>
   passes_loop f n last_token must"
proof (induction "length f" arbitrary: f n last_token must rule: less_induct)
  case less
  show ?case
  proof (cases "f = []")
    case True
    then show ?thesis using less.prems(1) by (auto elim: glob_NilE simp: passes_loop.simps [of "[]"])
  next
    case False
    obtain needed f1 tok where t: "next_token f = (needed, f1, tok)" by (cases "next_token f") auto
    note T = next_token_cases [OF False t]
    consider "tok = NUL" "f = needed" "f1 = []" | "tok = CHR ''?''" "f = needed @ tok # f1"
      using T(3) less.prems(2) by auto
    then show ?thesis
    proof cases
      case 1
      then obtain n1 where "n = needed @ n1" "glob [] n1"
        using glob_text_inv [OF T(1), of "[]" n] less.prems(1) by auto
      then have "n = needed @ []" by (auto elim: glob_NilE)
      then show ?thesis using False t 1 match_needed_prefix [of needed "[]"]
        by (simp add: passes_loop.simps [of needed] passes_loop.simps [of "[]"])
    next
      case 2
      then obtain n1 where n: "n = needed @ n1" "glob (CHR ''?'' # f1) n1"
        using glob_text_inv [OF T(1), of "tok # f1" n] less.prems(1) by auto
      then obtain c n2 where n2: "n1 = c # n2" "glob f1 n2" by (auto elim: glob_ConsE)
      have "passes_loop f1 n2 tok True"
        using less.hyps [OF T(2) n2(2)] less.prems(2) 2 by auto
      then show ?thesis using False t 2 n n2 match_needed_prefix [of needed n1]
        by (simp add: passes_loop.simps [of "needed @ CHR ''?'' # f1"])
    qed
  qed
qed

section \<open>Access control\<close>

text \<open>
  Both checks copy the pattern into a static string the first time and use that copy ever after. The
  result is the answer and the static.
\<close>

definition check_pattern :: "string option \<Rightarrow> string \<Rightarrow> string \<Rightarrow> bool \<times> string" where
  "check_pattern tunable s_access_str p_filename =
     (case tunable of
        None \<Rightarrow> (True, s_access_str)
      | Some pat \<Rightarrow>
          let acc = (if s_access_str = [] then pat else s_access_str)
          in (\<not> (vsf_filename_passes_filter p_filename acc \<or> found (t_locate_text p_filename acc)), acc))"

definition vsf_access_check_file :: "tunables \<Rightarrow> string \<Rightarrow> string \<Rightarrow> bool \<times> string" where
  "vsf_access_check_file t s_access_str p_filename = check_pattern (tstr t ''deny_file'') s_access_str p_filename"

definition vsf_access_check_file_visible :: "tunables \<Rightarrow> string \<Rightarrow> string \<Rightarrow> bool \<times> string" where
  "vsf_access_check_file_visible t s_access_str p_filename =
     check_pattern (tstr t ''hide_file'') s_access_str p_filename"

section \<open>Listings\<close>

record statbuf =
  st_is_dir :: bool
  st_is_symlink :: bool
  st_perms :: string
  st_links :: nat
  st_uid :: nat
  st_gid :: nat
  st_size :: int
  st_date :: string
  st_sortkey_mtime :: string

text \<open>The password and group databases answer with a name or not at all.\<close>

record names_db =
  pw_name :: "nat \<Rightarrow> string option"
  gr_name :: "nat \<Rightarrow> string option"

record dirent =
  d_name :: string
  d_lstat :: "statbuf option"
  d_link :: "string option"

definition owner_field :: "tunables \<Rightarrow> (nat \<Rightarrow> string option) \<Rightarrow> nat \<Rightarrow> string" where
  "owner_field t db n =
     (if tbool t ''hide_ids'' then ''ftp''
      else case (if tbool t ''text_userdb_names'' then db n else None) of
             None \<Rightarrow> vsf_sysutil_ulong_to_str n
           | Some name \<Rightarrow> name)"

definition build_dir_line :: "tunables \<Rightarrow> names_db \<Rightarrow> string \<Rightarrow> statbuf \<Rightarrow> string" where
  "build_dir_line t db p_filename st =
     st_perms st @ '' '' @ t_lpad (vsf_sysutil_ulong_to_str (st_links st)) 4 @ '' '' @
     t_rpad (owner_field t (pw_name db) (st_uid st)) 8 @ '' '' @
     t_rpad (owner_field t (gr_name db) (st_gid st)) 8 @ '' '' @
     t_lpad (vsf_sysutil_filesize_t_to_str (st_size st)) 8 @ '' '' @
     st_date st @ '' '' @ p_filename @ [CR, LF]"

record ls_options =
  a_option :: bool
  r_option :: bool
  t_option :: bool
  F_option :: bool
  is_verbose :: bool
  do_stat :: bool
  base_dir :: string

definition ls_options_of :: "bool \<Rightarrow> string \<Rightarrow> string \<Rightarrow> string \<Rightarrow> bool \<Rightarrow> ls_options" where
  "ls_options_of want_subdirs p_base_dir p_option p_filter verbose =
     (let opt = (\<lambda>c. found (t_locate_text p_option [c]));
          verb = (opt CHR ''l'' \<or> verbose);
          tm = opt CHR ''t'';
          base = (if p_base_dir = ''.'' then [] else p_base_dir)
      in \<lparr>a_option = (opt CHR ''a'' \<or> (p_filter \<noteq> [] \<and> p_filter ! 0 = CHR ''.'')),
          r_option = (if tm then \<not> opt CHR ''r'' else opt CHR ''r''),
          t_option = tm, F_option = opt CHR ''F'', is_verbose = verb,
          do_stat = (verb \<or> tm \<or> opt CHR ''F'' \<or> want_subdirs),
          base_dir = (if base \<noteq> [] \<and> base ! (length base - 1) \<noteq> CHR ''/'' then base @ ''/'' else base)\<rparr>)"

text \<open>The tests at the top of the loop, in their order; the static of the visibility check goes along.\<close>

definition dotfile_skipped :: "tunables \<Rightarrow> ls_options \<Rightarrow> string \<Rightarrow> bool" where
  "dotfile_skipped t opts name \<longleftrightarrow>
     length name > 0 \<and> name ! 0 = CHR ''.'' \<and> \<not> a_option opts \<and>
     (\<not> tbool t ''force_dot_files'' \<or> (length name = 2 \<and> name ! 1 = CHR ''.'' \<or> length name = 1))"

definition entry_shown :: "tunables \<Rightarrow> ls_options \<Rightarrow> string \<Rightarrow> string \<Rightarrow> dirent \<Rightarrow> bool \<times> string" where
  "entry_shown t opts p_filter acc d =
     (if dotfile_skipped t opts (d_name d) then (False, acc)
      else
        let (visible, acc1) = vsf_access_check_file_visible t acc (d_name d)
        in (visible \<and> (p_filter = [] \<or> vsf_filename_passes_filter (d_name d) p_filter) \<and>
            (do_stat opts \<longrightarrow> d_lstat d \<noteq> None), acc1))"

definition dir_line :: "tunables \<Rightarrow> names_db \<Rightarrow> ls_options \<Rightarrow> dirent \<Rightarrow> string" where
  "dir_line t db opts d =
     (let path = base_dir opts @ d_name d in
      if is_verbose opts
      then case d_lstat d of
             None \<Rightarrow> []
           | Some st \<Rightarrow>
               build_dir_line t db
                 (d_name d @
                  (case (if st_is_symlink st then d_link d else None) of
                     None \<Rightarrow> [] | Some l \<Rightarrow> if l = [] then [] else '' -> '' @ l) @
                  (if F_option opts \<and> st_is_dir st then ''/'' else [])) st
      else path @
           (if F_option opts
            then case d_lstat d of
                   None \<Rightarrow> []
                 | Some st \<Rightarrow> if st_is_dir st then ''/'' else if st_is_symlink st then ''@'' else []
            else []) @ [CR, LF])"

definition dir_entry :: "tunables \<Rightarrow> names_db \<Rightarrow> ls_options \<Rightarrow> dirent \<Rightarrow> entry" where
  "dir_entry t db opts d =
     (dir_line t db opts d,
      if t_option opts then (case d_lstat d of None \<Rightarrow> [] | Some st \<Rightarrow> st_sortkey_mtime st) else d_name d)"

fun ls_loop ::
  "tunables \<Rightarrow> names_db \<Rightarrow> ls_options \<Rightarrow> string \<Rightarrow> string \<Rightarrow> dirent list \<Rightarrow> dirent list \<times> string" where
  "ls_loop t db opts p_filter acc [] = ([], acc)"
| "ls_loop t db opts p_filter acc (d # ds) =
     (if d_name d = [] then ([], acc)
      else
        let (shown, acc1) = entry_shown t opts p_filter acc d;
            (rest, acc2) = ls_loop t db opts p_filter acc1 ds
        in (if shown then d # rest else rest, acc2))"

text \<open>
  The two lists, the lines and the subdirectories; \<open>str_sort\<close> is \<open>str_list_sort\<close> on the entries. The list of
  subdirectories has a sort key only when sorting by time.
\<close>

definition vsf_ls_populate_dir_list ::
  "(bool \<Rightarrow> entry list \<Rightarrow> entry list) \<Rightarrow> tunables \<Rightarrow> names_db \<Rightarrow> string \<Rightarrow> bool \<Rightarrow> dirent list \<Rightarrow> string \<Rightarrow>
   string \<Rightarrow> string \<Rightarrow> bool \<Rightarrow> entry list \<times> entry list \<times> string" where
  "vsf_ls_populate_dir_list str_sort t db acc want_subdirs ds p_base_dir p_option p_filter verbose =
     (let opts = ls_options_of want_subdirs p_base_dir p_option p_filter verbose;
          (shown, acc1) = ls_loop t db opts p_filter acc ds;
          is_dir = (\<lambda>d. case d_lstat d of None \<Rightarrow> False | Some st \<Rightarrow> st_is_dir st);
          sub = (if want_subdirs
                 then map (\<lambda>d. (d_name d, if t_option opts then snd (dir_entry t db opts d) else []))
                        (filter is_dir shown)
                 else [])
      in (str_sort (r_option opts) (map (dir_entry t db opts) shown), str_sort (r_option opts) sub, acc1))"

section \<open>Properties\<close>

text \<open>
  The pattern matcher is sound and terminates: a name that passes a filter is a name the pattern
  describes, with \<open>*\<close> for any text, \<open>?\<close> for any character, \<open>{a,b}\<close> for one of the fields, an
  unclosed brace for itself and every other character for itself.
\<close>

theorem filter_sound:
  assumes "vsf_filename_passes_filter n f"
  shows "glob f n"
  using passes_loop_sound [of f n NUL True] assms
  by (simp add: vsf_filename_passes_filter_def after_star_def)

theorem filter_sound_witness:
  "vsf_filename_passes_filter ''a.txt'' ''*.t?t'' \<and> glob ''*.t?t'' ''a.txt''"
proof -
  have "vsf_filename_passes_filter ''a.txt'' ''*.t?t''"
    by (simp add: vsf_filename_passes_filter_def passes_loop.simps next_token_def match_needed_def
        t_locate_chars_def t_locate_text_def located_def not_found_def prefix_def)
  then show ?thesis using filter_sound by blast
qed

text \<open>
  For patterns without \<open>*\<close> and without braces the matcher accepts exactly the names the pattern
  describes.
\<close>

theorem filter_exact_simple:
  assumes "set f \<inter> {CHR ''*'', CHR ''{''} = {}"
  shows "vsf_filename_passes_filter n f \<longleftrightarrow> glob f n"
  using passes_loop_sound [of f n NUL True] passes_loop_complete [of f n NUL True] assms
  by (auto simp: vsf_filename_passes_filter_def after_star_def)

theorem filter_exact_simple_witness:
  "vsf_filename_passes_filter ''ab'' ''a?'' \<longleftrightarrow> glob ''a?'' ''ab''"
  by (rule filter_exact_simple) simp

text \<open>
  With \<open>*\<close> it is not complete: the text after the star is searched at its first occurrence only, so
  \<open>*.mp3\<close> does not match \<open>a.mp3.mp3\<close> although the pattern describes it, and a \<open>deny_file\<close> of \<open>*.mp3\<close> lets
  that name pass.
\<close>

theorem star_first_occurrence_bypass:
  "glob ''*.mp3'' ''a.mp3.mp3'' \<and> \<not> vsf_filename_passes_filter ''a.mp3.mp3'' ''*.mp3'' \<and>
   fst (vsf_access_check_file (t\<lparr>tstr := (tstr t)(''deny_file'' := Some ''*.mp3'')\<rparr>) [] ''a.mp3.mp3'')"
proof -
  have "glob ''*.mp3'' (''a.mp3'' @ ''.mp3'')"
    by (rule glob_star) (auto intro!: glob_char glob_end)
  moreover have n: "\<not> vsf_filename_passes_filter ''a.mp3.mp3'' ''*.mp3''"
    by (simp add: vsf_filename_passes_filter_def passes_loop.simps next_token_def match_needed_def
        t_locate_chars_def t_locate_text_def located_def not_found_def prefix_def)
  moreover have "\<not> found (t_locate_text ''a.mp3.mp3'' ''*.mp3'')"
    by (simp add: t_locate_text_def located_def not_found_def prefix_def)
  ultimately show ?thesis by (simp add: vsf_access_check_file_def check_pattern_def)
qed

definition hidden_by :: "string \<Rightarrow> string \<Rightarrow> bool" where
  "hidden_by pat name \<longleftrightarrow> vsf_filename_passes_filter name pat \<or> found (t_locate_text name pat)"

lemma ls_loop_eq:
  assumes "tstr t ''hide_file'' = Some pat" and "pat \<noteq> []"
  shows "acc = [] \<or> acc = pat \<Longrightarrow> \<forall>d \<in> set ds. d_name d \<noteq> [] \<Longrightarrow>
    fst (ls_loop t db opts p_filter acc ds) =
      filter (\<lambda>d. \<not> dotfile_skipped t opts (d_name d) \<and> \<not> hidden_by pat (d_name d) \<and>
        (p_filter = [] \<or> vsf_filename_passes_filter (d_name d) p_filter) \<and>
        (do_stat opts \<longrightarrow> d_lstat d \<noteq> None)) ds"
proof (induction ds arbitrary: acc)
  case (Cons d ds)
  then show ?case using assms Cons.IH [of acc] Cons.IH [of pat]
    by (auto simp: entry_shown_def vsf_access_check_file_visible_def check_pattern_def hidden_by_def
        Let_def split_beta)
qed simp

text \<open>
  A listing shows exactly the entries it should, each once: with a \<open>hide_file\<close> pattern the lines are a
  permutation of the lines of those entries that are not skipped dot files, not hidden by the
  pattern, pass the filter of the command and could be examined. No line of a hidden file
  gets out.
\<close>

theorem listing_exact:
  assumes "tstr t ''hide_file'' = Some pat" and "pat \<noteq> []" and "acc = [] \<or> acc = pat"
    and "\<forall>d \<in> set ds. d_name d \<noteq> []" and "\<And>r es. mset (str_sort r es) = mset es"
    and "opts = ls_options_of sub base opt p_filter verbose"
  shows "mset (fst (vsf_ls_populate_dir_list str_sort t db acc sub ds base opt p_filter verbose)) =
         mset (map (dir_entry t db opts)
           (filter (\<lambda>d. \<not> dotfile_skipped t opts (d_name d) \<and> \<not> hidden_by pat (d_name d) \<and>
              (p_filter = [] \<or> vsf_filename_passes_filter (d_name d) p_filter) \<and>
              (do_stat opts \<longrightarrow> d_lstat d \<noteq> None)) ds))"
  using ls_loop_eq [OF assms(1-4), of db opts p_filter] assms(5,6)
  by (simp add: vsf_ls_populate_dir_list_def Let_def split_beta)

theorem listing_exact_witness:
  "mset (fst (vsf_ls_populate_dir_list (\<lambda>r es. es)
       (\<lparr>tbool = (\<lambda>_. False), tuint = (\<lambda>_. 0), tstr = [''hide_file'' \<mapsto> ''secret'']\<rparr>)
       \<lparr>pw_name = (\<lambda>_. None), gr_name = (\<lambda>_. None)\<rparr> [] False
       [\<lparr>d_name = ''a'', d_lstat = None, d_link = None\<rparr>, \<lparr>d_name = ''secret'', d_lstat = None, d_link = None\<rparr>]
       ''.'' [] [] False)) = {#(''a'' @ [CR, LF], ''a'')#}"
proof -
  let ?t = "\<lparr>tbool = (\<lambda>_. False), tuint = (\<lambda>_. 0), tstr = [''hide_file'' \<mapsto> ''secret'']\<rparr>"
  let ?db = "\<lparr>pw_name = (\<lambda>_. None), gr_name = (\<lambda>_. None)\<rparr>"
  let ?ds = "[\<lparr>d_name = ''a'', d_lstat = None, d_link = None\<rparr>, \<lparr>d_name = ''secret'', d_lstat = None, d_link = None\<rparr>]"
  have h: "\<not> hidden_by ''secret'' ''a''" "hidden_by ''secret'' ''secret''"
    by (simp_all add: hidden_by_def vsf_filename_passes_filter_def passes_loop.simps next_token_def
        match_needed_def t_locate_chars_def t_locate_text_def located_def not_found_def prefix_def)
  have "mset (fst (vsf_ls_populate_dir_list (\<lambda>r es. es) ?t ?db [] False ?ds ''.'' [] [] False)) =
      mset (map (dir_entry ?t ?db (ls_options_of False ''.'' [] [] False))
        (filter (\<lambda>d. \<not> dotfile_skipped ?t (ls_options_of False ''.'' [] [] False) (d_name d) \<and>
          \<not> hidden_by ''secret'' (d_name d) \<and> ([] = [] \<or> vsf_filename_passes_filter (d_name d) []) \<and>
          (do_stat (ls_options_of False ''.'' [] [] False) \<longrightarrow> d_lstat d \<noteq> None)) ?ds))"
    using listing_exact [of ?t "''secret''" "[]" ?ds "\<lambda>r es. es"
        "ls_options_of False ''.'' [] [] False" False "''.''" "[]" "[]" False ?db] by simp
  then show ?thesis using h
    by (simp add: ls_options_of_def Let_def t_locate_text_def located_def not_found_def dotfile_skipped_def
        dir_entry_def dir_line_def)
qed

end
