(* ===== verification/Ipaddr.thy ===== *)
theory Ipaddr
  imports Text
begin

unbundle bit_operations_syntax

text \<open>
  The address parsers of \<^verbatim>\<open>apps/vsftpd-2.2.0/ipaddrparse.c\<close>: lists of bytes in decimal with a separator
  (IPv4 addresses and the argument of \<open>PORT\<close>) and IPv6 addresses. Strings are texts; what a parser
  writes through its output string is returned, \<open>None\<close> stands for the result 0. The bytes
  of \<open>p_items\<close> are returned as numbers.
\<close>

section \<open>Model\<close>

text \<open>The first argument counts the items still to read, \<open>items - i\<close>.\<close>

fun uchar_sep_loop :: "nat \<Rightarrow> char \<Rightarrow> string \<Rightarrow> nat list option" where
  "uchar_sep_loop 0 sep tmp = Some []"
| "uchar_sep_loop (Suc n) sep tmp =
     (let (field, rhs) = t_split_char tmp sep in
      if (0 < n \<and> rhs = []) \<or> (n = 0 \<and> rhs \<noteq> []) then None
      else
        let this_number = vsf_sysutil_atoi (cstr field) in
        if this_number < 0 \<or> this_number > 255 then None
        else map_option ((#) (nat this_number)) (uchar_sep_loop n sep rhs))"

definition vsf_sysutil_parse_uchar_string_sep :: "string \<Rightarrow> char \<Rightarrow> nat \<Rightarrow> nat list option" where
  "vsf_sysutil_parse_uchar_string_sep s sep items = uchar_sep_loop items sep s"

definition vsf_sysutil_parse_ipv4 :: "string \<Rightarrow> nat list option" where
  "vsf_sysutil_parse_ipv4 s = vsf_sysutil_parse_uchar_string_sep s CHR ''.'' 4"

definition hex_digit :: "char \<Rightarrow> nat option" where
  "hex_digit c =
     (let ch = ord (vsf_sysutil_toupper c) in
      if 48 \<le> ch \<and> ch \<le> 57 then Some (ch - 48)
      else if 65 \<le> ch \<and> ch \<le> 70 then Some (ch - 65 + 10)
      else None)"

fun hex_loop :: "string \<Rightarrow> nat \<Rightarrow> nat option" where
  "hex_loop [] v = Some v"
| "hex_loop (c # cs) v =
     (case hex_digit c of
        None \<Rightarrow> None
      | Some d \<Rightarrow>
          let v1 = u32 (push_bit 4 v) OR d
          in if v1 > 65535 then None else hex_loop cs v1)"

definition ipv6_parse_hex :: "string \<Rightarrow> string \<Rightarrow> string option" where
  "ipv6_parse_hex out s =
     (case hex_loop s 0 of
        None \<Rightarrow> None
      | Some v \<Rightarrow> Some (out @ [char_of (drop_bit 8 v), char_of (v AND 255)]))"

record quad_state =
  q_val :: nat
  q_final :: nat
  q_seen :: bool
  q_dots :: nat

fun quad_loop :: "string \<Rightarrow> quad_state \<Rightarrow> quad_state option" where
  "quad_loop [] q = Some q"
| "quad_loop (c # cs) q =
     (if c = CHR ''.'' then
        if \<not> q_seen q \<or> q_dots q = 3 then None
        else quad_loop cs
          \<lparr>q_val = 0, q_final = u32 (push_bit 8 (q_final q)) OR q_val q, q_seen = False, q_dots = q_dots q + 1\<rparr>
      else if 48 \<le> ord c \<and> ord c \<le> 57 then
        let v = u32 (q_val q * 10 + digit_val c)
        in if v > 255 then None else quad_loop cs (q\<lparr>q_val := v, q_seen := True\<rparr>)
      else None)"

definition ipv4_parse_dotquad :: "string \<Rightarrow> string \<Rightarrow> string option" where
  "ipv4_parse_dotquad out s =
     (case quad_loop s \<lparr>q_val = 0, q_final = 0, q_seen = False, q_dots = 0\<rparr> of
        None \<Rightarrow> None
      | Some q \<Rightarrow>
          if q_dots q \<noteq> 3 \<or> \<not> q_seen q then None
          else let f = u32 (push_bit 8 (q_final q)) OR q_val q
               in Some (out @ [char_of (drop_bit 24 f), char_of (drop_bit 16 f AND 255),
                               char_of (drop_bit 8 f AND 255), char_of (f AND 255)]))"

function ipv6_parse_main :: "string \<Rightarrow> string \<Rightarrow> string option" where
  "ipv6_parse_main out s =
     (if s = [] then Some out
      else
        let (lhs, rhs) = t_split_char s CHR '':'' in
        if lhs = [] then None
        else
          case (if found (t_locate_text lhs ''.'') then ipv4_parse_dotquad out lhs else ipv6_parse_hex out lhs) of
            None \<Rightarrow> None
          | Some out1 \<Rightarrow> ipv6_parse_main out1 rhs)"
  by pat_completeness auto
termination
proof (relation "measure (\<lambda>(out, s). length s)")
  fix out s x l r o1
  assume "s \<noteq> ([] :: string)" "x = t_split_char s CHR '':''" "(l, r) = x"
  then show "((o1, r), out, s) \<in> measure (\<lambda>(out, s). length s)"
    using length_split_rhs [of s "'':''"] by (cases "r = []") (auto simp: t_split_char_def dest: sym)
qed simp

declare ipv6_parse_main.simps [simp del]

definition vsf_sysutil_parse_ipv6 :: "string \<Rightarrow> string option" where
  "vsf_sysutil_parse_ipv6 s =
     (let (lhs, rhs) = t_split_text s ''::'' in
      case ipv6_parse_main [] lhs of
        None \<Rightarrow> None
      | Some ret \<Rightarrow>
          (case ipv6_parse_main [] rhs of
             None \<Rightarrow> None
           | Some rhs_ret \<Rightarrow>
               let lhs_len = length ret; rhs_len = length rhs_ret in
               if lhs_len + rhs_len > 16 then None
               else if rhs_len > 0 then Some (ret @ replicate (16 - (lhs_len + rhs_len)) NUL @ rhs_ret)
               else Some ret))"

section \<open>Fields and separators\<close>

fun join :: "char \<Rightarrow> string list \<Rightarrow> string" where
  "join sep [] = []"
| "join sep [f] = f"
| "join sep (f # fs) = f @ sep # join sep fs"

lemma join_Cons: "fs \<noteq> [] \<Longrightarrow> join sep (f # fs) = f @ sep # join sep fs"
  by (cases fs) auto

lemma split_field [simp]: "sep \<notin> set f \<Longrightarrow> t_split_char (f @ sep # r) sep = (f, r)"
  by (auto simp: t_split_char_eq takeWhile_append dropWhile_append)

lemma split_last_field [simp]: "sep \<notin> set f \<Longrightarrow> t_split_char f sep = (f, [])"
  by (auto simp: t_split_char_eq)

lemma split_char_cases:
  obtains (last) "sep \<notin> set s" "t_split_char s sep = (s, [])"
  | (more) f r where "sep \<notin> set f" "s = f @ sep # r" "t_split_char s sep = (f, r)"
  by (metis split_field split_last_field split_list_first)

section \<open>Byte lists\<close>

text \<open>
  The texts the loop reads: fields without separators, joined by separators, with at most one more
  separator at the end. Of two or more fields, what follows the last separator may not
  be empty.
\<close>

definition byte_list_text :: "char \<Rightarrow> string \<Rightarrow> string list \<Rightarrow> bool" where
  "byte_list_text sep s fs \<longleftrightarrow>
     (\<forall>f \<in> set fs. sep \<notin> set f) \<and>
     (\<exists>t \<in> {[], [sep]}. s = join sep fs @ t \<and> (length fs = 1 \<or> last fs @ t \<noteq> []))"

definition byte_field :: "string \<Rightarrow> bool" where
  "byte_field f \<longleftrightarrow> 0 \<le> vsf_sysutil_atoi (cstr f) \<and> vsf_sysutil_atoi (cstr f) \<le> 255"

definition field_value :: "string \<Rightarrow> nat" where
  "field_value f = nat (vsf_sysutil_atoi (cstr f))"

lemma byte_list_text_one:
  "byte_list_text sep s [f] \<longleftrightarrow> sep \<notin> set f \<and> (s = f \<or> s = f @ [sep])"
  by (auto simp: byte_list_text_def)

lemma byte_list_text_Cons:
  assumes "fs \<noteq> []"
  shows "byte_list_text sep s (f # fs) \<longleftrightarrow>
         sep \<notin> set f \<and> (\<exists>r. r \<noteq> [] \<and> s = f @ sep # r \<and> byte_list_text sep r fs)"
proof -
  have ne: "join sep fs @ t \<noteq> []" if "last fs @ t \<noteq> []" for t
    using that assms by (induction sep fs rule: join.induct) auto
  have one: "last fs @ t \<noteq> []" if "length fs = 1" "join sep fs @ t \<noteq> []" for t
    using that by (cases fs) auto
  show ?thesis using assms ne one by (auto simp: byte_list_text_def join_Cons)
qed

lemma uchar_sep_loop_exact:
  "uchar_sep_loop (Suc n) sep s = Some vs \<longleftrightarrow>
   (\<exists>fs. length fs = Suc n \<and> byte_list_text sep s fs \<and> list_all byte_field fs \<and> vs = map field_value fs)"
proof (induction n arbitrary: s vs)
  case 0
  show ?case
  proof (cases rule: split_char_cases [of sep s])
    case last
    then show ?thesis
      by (auto simp: byte_list_text_one length_Suc_conv byte_field_def field_value_def Let_def)
  next
    case (more f r)
    have "(\<exists>g. sep \<notin> set g \<and> (s = g \<or> s = g @ [sep]) \<and> byte_field g \<and> vs = [field_value g]) \<longleftrightarrow>
        r = [] \<and> byte_field f \<and> vs = [field_value f]"
      using more by (auto simp: append_eq_append_conv2 append_eq_Cons_conv Cons_eq_append_conv)
    then show ?thesis using more
      by (auto simp: byte_list_text_one length_Suc_conv byte_field_def field_value_def Let_def)
  qed
next
  case (Suc n)
  have step: "length fs = Suc (Suc n) \<longleftrightarrow> (\<exists>f gs. fs = f # gs \<and> gs \<noteq> [] \<and> length gs = Suc n)"
    for fs :: "string list" by (auto simp: length_Suc_conv)
  show ?case
  proof (cases rule: split_char_cases [of sep s])
    case last
    then show ?thesis by (auto simp: step byte_list_text_Cons dest: arg_cong [of _ _ length])
  next
    case (more f r)
    have u: "g = f \<and> q = r" if "sep \<notin> set g" "s = g @ sep # q" for g q
      using more that split_field [of sep g q] by simp
    have key: "byte_list_text sep s (g # gs) \<longleftrightarrow> g = f \<and> r \<noteq> [] \<and> byte_list_text sep r gs"
      if "gs \<noteq> []" for g gs
      using that more u byte_list_text_Cons [of gs sep s g] by blast
    show ?thesis
    proof (cases "r = [] \<or> \<not> byte_field f")
      case True
      have "uchar_sep_loop (Suc (Suc n)) sep s = None"
        using more True by (subst uchar_sep_loop.simps) (auto simp: byte_field_def Let_def simp del: uchar_sep_loop.simps)
      moreover have "\<not> (length fs = Suc (Suc n) \<and> byte_list_text sep s fs \<and> list_all byte_field fs)" for fs
        using True key by (auto simp: step)
      ultimately show ?thesis by (metis option.distinct(1))
    next
      case False
      have "uchar_sep_loop (Suc (Suc n)) sep s = Some vs \<longleftrightarrow>
          (\<exists>us. uchar_sep_loop (Suc n) sep r = Some us \<and> vs = field_value f # us)"
        using more False
        by (subst uchar_sep_loop.simps)
          (auto simp: byte_field_def field_value_def Let_def simp del: uchar_sep_loop.simps)
      also have "\<dots> \<longleftrightarrow> (\<exists>fs. length fs = Suc n \<and> byte_list_text sep r fs \<and> list_all byte_field fs \<and>
          vs = field_value f # map field_value fs)" using Suc [of r] by auto
      also have "\<dots> \<longleftrightarrow> (\<exists>fs. length fs = Suc (Suc n) \<and> byte_list_text sep s fs \<and>
          list_all byte_field fs \<and> vs = map field_value fs)" (is "(\<exists>fs. ?A fs) \<longleftrightarrow> (\<exists>fs. ?B fs)")
      proof -
        have "?A gs \<longleftrightarrow> ?B (f # gs)" for gs using False key [of gs f] by (cases gs) auto
        moreover have "?B fs \<Longrightarrow> \<exists>gs. fs = f # gs" for fs using key by (auto simp: step)
        ultimately show ?thesis by metis
      qed
      finally show ?thesis .
    qed
  qed
qed

text \<open>
  \<open>vsf_sysutil_parse_uchar_string_sep\<close> accepts a text as a list of \<open>n\<close> bytes exactly if it consists of \<open>n\<close> fields
  joined by the separator, possibly with one more separator at the end, and \<open>atoi\<close> reads a
  number from 0 to 255 in each; the result is these numbers in order.
\<close>

theorem uchar_list_exact:
  assumes "0 < n"
  shows "vsf_sysutil_parse_uchar_string_sep s sep n = Some vs \<longleftrightarrow>
         (\<exists>fs. length fs = n \<and> byte_list_text sep s fs \<and> list_all byte_field fs \<and> vs = map field_value fs)"
  using assms uchar_sep_loop_exact [of "n - 1" sep s vs]
  by (simp add: vsf_sysutil_parse_uchar_string_sep_def)

theorem uchar_list_exact_witness:
  "vsf_sysutil_parse_uchar_string_sep ''10,0,0,7,4,1'' CHR '','' 6 = Some [10, 0, 0, 7, 4, 1] \<and>
   vsf_sysutil_parse_uchar_string_sep ''7'' CHR '','' 1 = Some [7]"
proof
  let ?fs = "[''10'', ''0'', ''0'', ''7'', ''4'', ''1'']"
  have "byte_list_text CHR '','' ''10,0,0,7,4,1'' ?fs" by (simp add: byte_list_text_def)
  moreover have "list_all byte_field ?fs" "[10, 0, 0, 7, 4, 1] = map field_value ?fs"
    by (simp_all add: byte_field_def field_value_def vsf_sysutil_atoi_def vsf_sysutil_isspace_def
        vsf_sysutil_isdigit_def base_val_def digit_val_def clamp_long_def cstr_def)
  ultimately have "\<exists>fs. length fs = 6 \<and> byte_list_text CHR '','' ''10,0,0,7,4,1'' fs \<and>
      list_all byte_field fs \<and> [10, 0, 0, 7, 4, 1] = map field_value fs"
    by (intro exI [of _ ?fs]) simp
  then show "vsf_sysutil_parse_uchar_string_sep ''10,0,0,7,4,1'' CHR '','' 6 = Some [10, 0, 0, 7, 4, 1]"
    by (subst uchar_list_exact) simp_all
  have "byte_list_text CHR '','' ''7'' [''7'']" by (simp add: byte_list_text_def)
  moreover have "list_all byte_field [''7'']" "[7] = map field_value [''7'']"
    by (simp_all add: byte_field_def field_value_def vsf_sysutil_atoi_def vsf_sysutil_isspace_def
        vsf_sysutil_isdigit_def base_val_def digit_val_def clamp_long_def cstr_def)
  ultimately show "vsf_sysutil_parse_uchar_string_sep ''7'' CHR '','' 1 = Some [7]"
    using uchar_list_exact [of 1 "''7''" "CHR '',''" "[7]"] by (auto intro!: exI [of _ "[''7'']"])
qed

text \<open>
  The list of bytes that a peer prints in decimal with a separator that is no digit is read back
  unchanged, be it the six numbers of \<open>PORT\<close> or the four of an address.
\<close>

theorem uchar_list_roundtrip:
  assumes "vs \<noteq> []" and "list_all (\<lambda>v. v \<le> 255) vs" and "\<not> vsf_sysutil_isdigit sep"
  shows "vsf_sysutil_parse_uchar_string_sep (join sep (map vsf_sysutil_ulong_to_str vs)) sep (length vs) = Some vs"
proof -
  let ?fs = "map vsf_sysutil_ulong_to_str vs"
  have d: "all_digits (vsf_sysutil_ulong_to_str v)" for v
    by (simp add: vsf_sysutil_ulong_to_str_def all_digits_base_str)
  have ns: "sep \<notin> set (vsf_sysutil_ulong_to_str v)" for v
    using d [of v] assms(3) by (auto simp: list_all_iff)
  have "NUL \<notin> set (vsf_sysutil_ulong_to_str v)" for v
    using d [of v] by (auto simp: list_all_iff vsf_sysutil_isdigit_def)
  then have a: "vsf_sysutil_atoi (cstr (vsf_sysutil_ulong_to_str v)) = int v" if "v \<le> 255" for v
    using that by (simp add: atoi_decimal INT_MAX_def)
  have "byte_list_text sep (join sep ?fs) ?fs"
    using assms(1) ns by (auto simp: byte_list_text_def last_map vsf_sysutil_ulong_to_str_def)
  moreover have "list_all byte_field ?fs" "map field_value ?fs = vs"
    using assms(2) a by (auto simp: byte_field_def field_value_def list_all_iff intro: map_idI)
  ultimately have "\<exists>fs. length fs = Suc (length vs - 1) \<and> byte_list_text sep (join sep ?fs) fs \<and>
      list_all byte_field fs \<and> vs = map field_value fs"
    using assms(1) by (intro exI [of _ ?fs]) simp
  then have "uchar_sep_loop (Suc (length vs - 1)) sep (join sep ?fs) = Some vs"
    by (simp only: uchar_sep_loop_exact)
  then show ?thesis using assms(1) by (simp add: vsf_sysutil_parse_uchar_string_sep_def)
qed

section \<open>IPv6 addresses\<close>

text \<open>What a field of an IPv6 address means: a group of hexadecimal digits or a dotted quad.\<close>

definition hex_step :: "nat \<Rightarrow> char \<Rightarrow> nat" where
  "hex_step v c = v * 16 + the (hex_digit c)"

definition hex_group :: "string \<Rightarrow> bool" where
  "hex_group g \<longleftrightarrow> g \<noteq> [] \<and> list_all (\<lambda>c. hex_digit c \<noteq> None) g \<and> foldl hex_step 0 g \<le> 65535"

definition dec_byte :: "string \<Rightarrow> bool" where
  "dec_byte q \<longleftrightarrow> q \<noteq> [] \<and> all_digits q \<and> base_val 10 q \<le> 255"

definition v6_field :: "string \<Rightarrow> string \<Rightarrow> bool" where
  "v6_field f bs \<longleftrightarrow>
     hex_group f \<and> bs = [char_of (foldl hex_step 0 f div 256), char_of (foldl hex_step 0 f mod 256)] \<or>
     (\<exists>a b c d. list_all dec_byte [a, b, c, d] \<and> f = join CHR ''.'' [a, b, c, d] \<and>
        bs = map (\<lambda>q. char_of (base_val 10 q)) [a, b, c, d])"

lemma hex_digit_bound: "hex_digit c = Some d \<Longrightarrow> d < 16"
  by (auto simp: hex_digit_def Let_def split: if_splits)

lemma hex_step_mono: "v \<le> foldl hex_step v g"
proof (induction g arbitrary: v)
  case (Cons c g)
  have "v \<le> hex_step v c" by (simp add: hex_step_def)
  also have "\<dots> \<le> foldl hex_step (hex_step v c) g" by (rule Cons)
  finally show ?case by simp
qed simp

lemma hex_loop_value:
  "list_all (\<lambda>c. hex_digit c \<noteq> None) g \<Longrightarrow> foldl hex_step v g \<le> 65535 \<Longrightarrow>
   hex_loop g v = Some (foldl hex_step v g)"
proof (induction g arbitrary: v)
  case (Cons c g)
  then obtain d where d: "hex_digit c = Some d" by auto
  have small: "hex_step v c \<le> 65535"
    using Cons.prems(2) hex_step_mono [of "hex_step v c" g] by simp
  then have "v * 16 < 4294967296" by (simp add: hex_step_def)
  then have "u32 (push_bit 4 v) OR d = hex_step v c"
    using hex_digit_bound [OF d] push_bit_or_low [of d 4 v] d
    by (simp add: hex_step_def push_bit_eq_mult)
  then show ?case using Cons d small by simp
qed simp

lemma byte_and: "v AND 255 = v mod 256" for v :: nat
proof -
  have "v AND 255 = v AND mask 8" by (simp add: mask_eq_exp_minus_1)
  also have "\<dots> = v mod 2 ^ 8" by (simp add: take_bit_eq_mask [symmetric] take_bit_eq_mod)
  finally show ?thesis by simp
qed

lemma ipv6_parse_hex_group:
  "hex_group g \<Longrightarrow> ipv6_parse_hex out g =
     Some (out @ [char_of (foldl hex_step 0 g div 256), char_of (foldl hex_step 0 g mod 256)])"
  by (simp add: ipv6_parse_hex_def hex_group_def hex_loop_value byte_and drop_bit_eq_div)

lemma hex_group_plain: "hex_group g \<Longrightarrow> CHR ''.'' \<notin> set g \<and> CHR '':'' \<notin> set g"
  by (auto simp: hex_group_def list_all_iff hex_digit_def vsf_sysutil_toupper_def)

text \<open>Digits of a quad, one after the other and up to the next dot.\<close>

lemma base_val_mono: "all_digits s \<Longrightarrow> v \<le> foldl (\<lambda>v c. v * 10 + digit_val c) v s"
proof (induction s arbitrary: v)
  case (Cons c s)
  have "v \<le> v * 10 + digit_val c" by simp
  also have "\<dots> \<le> foldl (\<lambda>v c. v * 10 + digit_val c) (v * 10 + digit_val c) s" using Cons by simp
  finally show ?case by simp
qed simp

lemma quad_digits:
  "all_digits s \<Longrightarrow> foldl (\<lambda>v c. v * 10 + digit_val c) (q_val q) s \<le> 255 \<Longrightarrow>
   quad_loop (s @ r) q =
   quad_loop r (q\<lparr>q_val := foldl (\<lambda>v c. v * 10 + digit_val c) (q_val q) s, q_seen := q_seen q \<or> s \<noteq> []\<rparr>)"
proof (induction s arbitrary: q)
  case (Cons c s)
  let ?v = "q_val q * 10 + digit_val c"
  have c: "48 \<le> ord c" "ord c \<le> 57" using Cons.prems(1) by (simp_all add: vsf_sysutil_isdigit_def)
  then have nd: "c \<noteq> CHR ''.''" by auto
  have "?v \<le> 255" using Cons.prems base_val_mono [of s ?v] by simp
  then have "quad_loop ((c # s) @ r) q = quad_loop (s @ r) (q\<lparr>q_val := ?v, q_seen := True\<rparr>)"
    using c nd by (simp add: Let_def)
  also have "\<dots> = quad_loop r
      (q\<lparr>q_val := foldl (\<lambda>v c. v * 10 + digit_val c) ?v s, q_seen := True\<rparr>)"
    using Cons by simp
  finally show ?case by simp
qed simp

lemma quad_field:
  assumes "dec_byte s" and "k < 3" and "f < 16777216"
  shows "quad_loop (s @ CHR ''.'' # r) \<lparr>q_val = 0, q_final = f, q_seen = False, q_dots = k\<rparr> =
         quad_loop r \<lparr>q_val = 0, q_final = f * 256 + base_val 10 s, q_seen = False, q_dots = k + 1\<rparr>"
  using assms quad_digits [of s "\<lparr>q_val = 0, q_final = f, q_seen = False, q_dots = k\<rparr>" "CHR ''.'' # r"]
    push_bit_or_low [of "base_val 10 s" 8 f]
  by (simp add: dec_byte_def base_val_def push_bit_eq_mult)

lemma quad_bytes:
  assumes "a \<le> 255" and "b \<le> 255" and "c \<le> 255" and "d \<le> (255::nat)"
  shows "(((a * 256 + b) * 256 + c) * 256 + d) div 16777216 = a"
    and "(((a * 256 + b) * 256 + c) * 256 + d) div 65536 mod 256 = b"
    and "(((a * 256 + b) * 256 + c) * 256 + d) div 256 mod 256 = c"
    and "(((a * 256 + b) * 256 + c) * 256 + d) mod 256 = d"
proof -
  have s: "(x * 256 + y) div 256 = x" "(x * 256 + y) mod 256 = y" if "y \<le> 255" for x y :: nat
    using that by simp_all
  have d2: "x div 65536 = x div 256 div 256" "x div 16777216 = x div 256 div 256 div 256" for x :: nat
    by (simp_all add: div_mult2_eq [symmetric])
  show "(((a * 256 + b) * 256 + c) * 256 + d) div 16777216 = a"
    using assms by (simp only: d2 s)
  show "(((a * 256 + b) * 256 + c) * 256 + d) div 65536 mod 256 = b"
    using assms by (simp only: d2 s)
  show "(((a * 256 + b) * 256 + c) * 256 + d) div 256 mod 256 = c"
    using assms by (simp only: s)
  show "(((a * 256 + b) * 256 + c) * 256 + d) mod 256 = d"
    using assms by (simp only: s)
qed

lemma ipv4_parse_dotquad_fields:
  assumes "list_all dec_byte [a, b, c, d]"
  shows "ipv4_parse_dotquad out (join CHR ''.'' [a, b, c, d]) =
         Some (out @ map (\<lambda>q. char_of (base_val 10 q)) [a, b, c, d])"
proof -
  have bound: "base_val 10 x \<le> 255" if "x \<in> {a, b, c, d}" for x
    using assms that by (auto simp: dec_byte_def)
  let ?f = "(base_val 10 a * 256 + base_val 10 b) * 256 + base_val 10 c"
  let ?w = "?f * 256 + base_val 10 d"
  have f: "?f < 16777216" using bound [of a] bound [of b] bound [of c] by simp
  have "quad_loop (join CHR ''.'' [a, b, c, d]) \<lparr>q_val = 0, q_final = 0, q_seen = False, q_dots = 0\<rparr> =
      quad_loop (d @ []) \<lparr>q_val = 0, q_final = ?f, q_seen = False, q_dots = 3\<rparr>"
    using assms bound [of a] bound [of b] by (simp add: quad_field numeral_3_eq_3)
  also have "\<dots> = Some \<lparr>q_val = base_val 10 d, q_final = ?f, q_seen = True, q_dots = 3\<rparr>"
    using assms by (subst quad_digits) (simp_all add: dec_byte_def base_val_def)
  finally have q: "quad_loop (join CHR ''.'' [a, b, c, d]) \<lparr>q_val = 0, q_final = 0, q_seen = False, q_dots = 0\<rparr> =
      Some \<lparr>q_val = base_val 10 d, q_final = ?f, q_seen = True, q_dots = 3\<rparr>" .
  have w: "u32 (push_bit 8 ?f) OR base_val 10 d = ?w"
    using f bound [of d] push_bit_or_low [of "base_val 10 d" 8 ?f] by (simp add: push_bit_eq_mult)
  define W where "W = ?w"
  have bytes: "W div 16777216 = base_val 10 a" "W div 65536 mod 256 = base_val 10 b"
      "W div 256 mod 256 = base_val 10 c" "W mod 256 = base_val 10 d"
    unfolding W_def by (rule quad_bytes; rule bound; simp)+
  have "ipv4_parse_dotquad out (join CHR ''.'' [a, b, c, d]) =
      Some (out @ [char_of (drop_bit 24 W), char_of (drop_bit 16 W AND 255), char_of (drop_bit 8 W AND 255),
                   char_of (W AND 255)])"
    unfolding ipv4_parse_dotquad_def q option.case quad_state.simps w W_def [symmetric] by (simp add: Let_def)
  then show ?thesis by (simp add: drop_bit_eq_div byte_and bytes)
qed

lemma dotted_plain:
  assumes "list_all dec_byte [a, b, c, d]"
  shows "CHR ''.'' \<in> set (join CHR ''.'' [a, b, c, d])" and "CHR '':'' \<notin> set (join CHR ''.'' [a, b, c, d])"
  using assms by (auto simp: dec_byte_def list_all_iff vsf_sysutil_isdigit_def)

lemma v6_field_plain: "v6_field f bs \<Longrightarrow> f \<noteq> [] \<and> CHR '':'' \<notin> set f"
  using hex_group_plain dotted_plain(2) by (auto simp: v6_field_def hex_group_def)

lemma v6_field_parse:
  assumes "v6_field f bs"
  shows "(if found (t_locate_text f ''.'') then ipv4_parse_dotquad out f else ipv6_parse_hex out f) =
         Some (out @ bs)"
proof -
  have dot: "found (t_locate_text f ''.'') \<longleftrightarrow> CHR ''.'' \<in> set f"
    by (simp add: t_locate_text_def first_sub_char)
  show ?thesis using assms unfolding v6_field_def
  proof (elim disjE exE conjE)
    assume "hex_group f"
      "bs = [char_of (foldl hex_step 0 f div 256), char_of (foldl hex_step 0 f mod 256)]"
    then show ?thesis using dot hex_group_plain ipv6_parse_hex_group by simp
  next
    fix a b c d
    assume "list_all dec_byte [a, b, c, d]" "f = join CHR ''.'' [a, b, c, d]"
      "bs = map (\<lambda>q. char_of (base_val 10 q)) [a, b, c, d]"
    then show ?thesis using dot dotted_plain(1) ipv4_parse_dotquad_fields by metis
  qed
qed

lemma ipv6_parse_main_fields:
  "list_all2 v6_field fs bss \<Longrightarrow> ipv6_parse_main out (join CHR '':'' fs) = Some (out @ concat bss)"
proof (induction fs bss arbitrary: out rule: list_all2_induct)
  case Nil
  then show ?case by (simp add: ipv6_parse_main.simps [of out "[]"])
next
  case (Cons f fs bs bss)
  note f = v6_field_plain [OF Cons.hyps(1)] and p = v6_field_parse [OF Cons.hyps(1), of out]
  have nil: "ipv6_parse_main x [] = Some x" for x by (simp add: ipv6_parse_main.simps [of x "[]"])
  show ?case
  proof (cases "fs = []")
    case True
    then show ?thesis using Cons.hyps(2) f p nil
      by (simp add: ipv6_parse_main.simps [of out f] split: if_splits)
  next
    case False
    then show ?thesis using f p Cons.IH
      by (simp add: join_Cons ipv6_parse_main.simps [of out "f @ CHR '':'' # join CHR '':'' fs"] split: if_splits)
  qed
qed

lemma first_sub_skip:
  "CHR '':'' \<notin> set f \<Longrightarrow> first_sub ''::'' (f @ s) = map_option (\<lambda>i. length f + i) (first_sub ''::'' s)"
  by (cases "first_sub ''::'' s"; induction f) auto

lemma first_sub_join:
  "list_all (\<lambda>f. f \<noteq> [] \<and> CHR '':'' \<notin> set f) fs \<Longrightarrow>
   first_sub ''::'' (join CHR '':'' fs @ s) = map_option (\<lambda>i. length (join CHR '':'' fs) + i) (first_sub ''::'' s)"
proof (induction fs)
  case (Cons f fs)
  show ?case
  proof (cases fs)
    case Nil
    then show ?thesis using Cons.prems first_sub_skip by simp
  next
    case (Cons g gs)
    then have "join CHR '':'' fs @ s \<noteq> []" "hd (join CHR '':'' fs @ s) \<noteq> CHR '':''"
      using Cons.prems by (cases gs; cases g; auto)+
    then have "first_sub ''::'' (CHR '':'' # join CHR '':'' fs @ s) =
        map_option Suc (first_sub ''::'' (join CHR '':'' fs @ s))"
      by (cases "join CHR '':'' fs @ s") auto
    then show ?thesis using Cons Cons.IH Cons.prems
      by (cases "first_sub ''::'' s") (simp_all add: join_Cons first_sub_skip option.map_comp comp_def)
  qed
qed (cases "first_sub ''::'' s"; simp)

lemma split_double_colon:
  assumes "list_all2 v6_field ls lbs"
  shows "t_split_text (join CHR '':'' ls) ''::'' = (join CHR '':'' ls, [])"
    and "t_split_text (join CHR '':'' ls @ ''::'' @ r) ''::'' = (join CHR '':'' ls, r)"
proof -
  have fs: "list_all (\<lambda>f. f \<noteq> [] \<and> CHR '':'' \<notin> set f) ls"
    using assms by (induction rule: list_all2_induct) (auto dest: v6_field_plain)
  show "t_split_text (join CHR '':'' ls) ''::'' = (join CHR '':'' ls, [])"
    using first_sub_join [OF fs, of "[]"] by (simp add: t_split_text_def t_locate_text_def Let_def)
  show "t_split_text (join CHR '':'' ls @ ''::'' @ r) ''::'' = (join CHR '':'' ls, r)"
    using first_sub_join [OF fs, of "''::'' @ r"] by (simp add: t_split_text_def t_locate_text_def Let_def)
qed

text \<open>
  An IPv6 address written in full or with a double colon before at least one field, its
  fields being groups of hexadecimal digits or dotted quads, is parsed to its sixteen bytes; the double
  colon stands for as many zero bytes as are missing.
\<close>

theorem ipv6_parse_correct:
  assumes "list_all2 v6_field ls lbs" and "list_all2 v6_field rs rbs"
  shows "(length (concat lbs) = 16 \<longrightarrow>
            vsf_sysutil_parse_ipv6 (join CHR '':'' ls) = Some (concat lbs)) \<and>
         (rs \<noteq> [] \<and> length (concat lbs @ concat rbs) \<le> 16 \<longrightarrow>
            vsf_sysutil_parse_ipv6 (join CHR '':'' ls @ ''::'' @ join CHR '':'' rs) =
              Some (concat lbs @ replicate (16 - length (concat lbs @ concat rbs)) NUL @ concat rbs))"
proof -
  note m = ipv6_parse_main_fields [OF assms(1), of "[]"] ipv6_parse_main_fields [OF assms(2), of "[]"]
    split_double_colon(1) [OF assms(1)] split_double_colon(2) [OF assms(1), of "join CHR '':'' rs"]
  have "concat rbs \<noteq> []" if "rs \<noteq> []"
    using that assms(2) by (cases rs; cases rbs) (auto simp: v6_field_def)
  then show ?thesis
    using m ipv6_parse_main.simps [of "[]" "[]"] by (simp add: vsf_sysutil_parse_ipv6_def Let_def)
qed

theorem ipv6_parse_correct_witness:
  "vsf_sysutil_parse_ipv6 ''fe80::1:a2'' =
     Some (map char_of [254, 128 :: nat] @ replicate 10 NUL @ map char_of [0, 1, 0, 162 :: nat])"
proof -
  have "v6_field ''fe80'' (map char_of [254, 128 :: nat])" "v6_field ''1'' (map char_of [0, 1 :: nat])"
      "v6_field ''a2'' (map char_of [0, 162 :: nat])"
    by (simp_all add: v6_field_def hex_group_def hex_step_def hex_digit_def vsf_sysutil_toupper_def Let_def)
  then show ?thesis
    using ipv6_parse_correct [of "[''fe80'']" "[map char_of [254, 128 :: nat]]" "[''1'', ''a2'']"
        "[map char_of [0, 1 :: nat], map char_of [0, 162 :: nat]]"] by simp
qed

text \<open>
  An address with nothing after its double colon, and one with too few fields, is accepted
  but its result is not filled up: it has only the bytes of the fields that are there, although
  the caller copies sixteen.
\<close>

theorem ipv6_short_result:
  assumes "list_all2 v6_field ls lbs" and "length (concat lbs) < 16"
  shows "\<exists>bs. length bs < 16 \<and> vsf_sysutil_parse_ipv6 (join CHR '':'' ls) = Some bs \<and>
         vsf_sysutil_parse_ipv6 (join CHR '':'' ls @ ''::'') = Some bs"
  using assms ipv6_parse_main_fields [OF assms(1), of "[]"] ipv6_parse_main.simps [of "[]" "[]"]
    split_double_colon(1) [OF assms(1)] split_double_colon(2) [OF assms(1), of "[]"]
  by (simp add: vsf_sysutil_parse_ipv6_def Let_def)

theorem ipv6_short_result_witness:
  "\<exists>bs. length bs < 16 \<and> vsf_sysutil_parse_ipv6 ''fe80'' = Some bs \<and> vsf_sysutil_parse_ipv6 ''fe80::'' = Some bs"
proof -
  have "v6_field ''fe80'' (map char_of [254, 128 :: nat])"
    by (simp add: v6_field_def hex_group_def hex_step_def hex_digit_def vsf_sysutil_toupper_def Let_def)
  then show ?thesis using ipv6_short_result [of "[''fe80'']" "[map char_of [254, 128 :: nat]]"] by simp
qed

end
