(* ===== verification/Sockaddr.thy ===== *)
theory Sockaddr
  imports Ipaddr
begin

text \<open>
  The socket addresses of \<^verbatim>\<open>apps/vsftpd-2.2.0/sysutil.c\<close>: the union \<open>vsf_sysutil_sockaddr\<close> is a datatype with one
  constructor per family, \<open>AF_UNSPEC\<close> for the cleared memory that \<open>vsf_sysutil_sockaddr_alloc\<close> returns. An
  address is its bytes in network order, 4 or 16 of them; a port is a number below 65536. Where the source
  writes through a pointer to an address, the model returns the new address.
\<close>

section \<open>Model\<close>

datatype vsf_sysutil_sockaddr =
    AF_UNSPEC
  | AF_INET (sin_addr: string) (sin_port: nat)
  | AF_INET6 (sin6_addr: string) (sin6_port: nat) (sin6_scope_id: nat)

definition IPPORT_RESERVED :: nat where
  "IPPORT_RESERVED = 1024"

text \<open>The first twelve bytes of an IPv4 address mapped into IPv6.\<close>

definition v4_pattern :: string where
  "v4_pattern = replicate 10 NUL @ [CHR 0xFF, CHR 0xFF]"

definition vsf_sysutil_sockaddr_clone :: "vsf_sysutil_sockaddr \<Rightarrow> vsf_sysutil_sockaddr res" where
  "vsf_sysutil_sockaddr_clone p_src =
     (case p_src of
        AF_INET a _ \<Rightarrow> Inr (AF_INET a 0)
      | AF_INET6 a _ scope \<Rightarrow> Inr (AF_INET6 a 0 scope)
      | AF_UNSPEC \<Rightarrow> Inl (Die ''can only support ipv4 and ipv6 currently''))"

definition vsf_sysutil_sockaddr_ipv6_v4 :: "vsf_sysutil_sockaddr \<Rightarrow> string option" where
  "vsf_sysutil_sockaddr_ipv6_v4 p_addr =
     (case p_addr of
        AF_INET6 a _ _ \<Rightarrow> if take 12 a = v4_pattern then Some (drop 12 a) else None
      | _ \<Rightarrow> None)"

definition vsf_sysutil_sockaddr_ipv4_v6 :: "vsf_sysutil_sockaddr \<Rightarrow> string option" where
  "vsf_sysutil_sockaddr_ipv4_v6 p_addr =
     (case p_addr of AF_INET a _ \<Rightarrow> Some (v4_pattern @ a) | _ \<Rightarrow> None)"

definition vsf_sysutil_sockaddr_addr_equal :: "vsf_sysutil_sockaddr \<Rightarrow> vsf_sysutil_sockaddr \<Rightarrow> bool" where
  "vsf_sysutil_sockaddr_addr_equal p1 p2 =
     (case (p1, p2) of
        (AF_INET a _, AF_INET6 b _ _) \<Rightarrow> vsf_sysutil_sockaddr_ipv6_v4 p2 = Some a
      | (AF_INET6 a _ _, AF_INET b _) \<Rightarrow> vsf_sysutil_sockaddr_ipv6_v4 p1 = Some b
      | (AF_INET a _, AF_INET b _) \<Rightarrow> a = b
      | (AF_INET6 a _ _, AF_INET6 b _ _) \<Rightarrow> a = b
      | _ \<Rightarrow> False)"

definition vsf_sysutil_sockaddr_is_ipv6 :: "vsf_sysutil_sockaddr \<Rightarrow> bool" where
  "vsf_sysutil_sockaddr_is_ipv6 p = (case p of AF_INET6 _ _ _ \<Rightarrow> True | _ \<Rightarrow> False)"

text \<open>
  The setters copy 4 or 16 bytes from the memory that \<open>p_raw\<close> points to, which begins with the bytes of
  the caller; the caller passes what the model knows of that memory. In the IPv6 case the source copies the size of a
  pointer, four bytes on the target.
\<close>

definition vsf_sysutil_sockaddr_set_ipv4addr ::
  "vsf_sysutil_sockaddr \<Rightarrow> string \<Rightarrow> vsf_sysutil_sockaddr res" where
  "vsf_sysutil_sockaddr_set_ipv4addr p p_raw =
     (case p of
        AF_INET _ port \<Rightarrow> Inr (AF_INET (take 4 p_raw) port)
      | AF_INET6 _ port scope \<Rightarrow>
          (case vsf_sysutil_sockaddr_ipv4_v6 (AF_INET (take 4 p_raw) 0) of
             None \<Rightarrow> Inl Overrun
           | Some a \<Rightarrow> Inr (AF_INET6 a port scope))
      | AF_UNSPEC \<Rightarrow> Inl (Bug ''bad family''))"

definition vsf_sysutil_sockaddr_set_ipv6addr ::
  "vsf_sysutil_sockaddr \<Rightarrow> string \<Rightarrow> vsf_sysutil_sockaddr res" where
  "vsf_sysutil_sockaddr_set_ipv6addr p p_raw =
     (case p of
        AF_INET6 _ port scope \<Rightarrow> Inr (AF_INET6 (take 16 p_raw) port scope)
      | _ \<Rightarrow> Inl (Bug ''bad family''))"

definition vsf_sysutil_sockaddr_get_port :: "vsf_sysutil_sockaddr \<Rightarrow> nat res" where
  "vsf_sysutil_sockaddr_get_port p =
     (case p of
        AF_INET _ port \<Rightarrow> Inr port
      | AF_INET6 _ port _ \<Rightarrow> Inr port
      | AF_UNSPEC \<Rightarrow> Inl (Bug ''bad family''))"

definition vsf_sysutil_sockaddr_set_port :: "vsf_sysutil_sockaddr \<Rightarrow> nat \<Rightarrow> vsf_sysutil_sockaddr res" where
  "vsf_sysutil_sockaddr_set_port p the_port =
     (case p of
        AF_INET a _ \<Rightarrow> Inr (AF_INET a the_port)
      | AF_INET6 a _ scope \<Rightarrow> Inr (AF_INET6 a the_port scope)
      | AF_UNSPEC \<Rightarrow> Inl (Bug ''bad family''))"

definition vsf_sysutil_is_port_reserved :: "nat \<Rightarrow> bool" where
  "vsf_sysutil_is_port_reserved the_port \<longleftrightarrow> the_port < IPPORT_RESERVED"

section \<open>Addresses of the same host\<close>

text \<open>
  An address as sixteen bytes, IPv4 ones mapped. \<open>addr_equal\<close> is equality of these for well-formed
  addresses, so it does not matter by which family a client arrives.
\<close>

fun host :: "vsf_sysutil_sockaddr \<Rightarrow> string" where
  "host AF_UNSPEC = []"
| "host (AF_INET a _) = v4_pattern @ a"
| "host (AF_INET6 a _ _) = a"

fun sockaddr_ok :: "vsf_sysutil_sockaddr \<Rightarrow> bool" where
  "sockaddr_ok AF_UNSPEC \<longleftrightarrow> False"
| "sockaddr_ok (AF_INET a p) \<longleftrightarrow> length a = 4 \<and> p < 65536"
| "sockaddr_ok (AF_INET6 a p _) \<longleftrightarrow> length a = 16 \<and> p < 65536"

fun port_of :: "vsf_sysutil_sockaddr \<Rightarrow> nat" where
  "port_of AF_UNSPEC = 0"
| "port_of (AF_INET _ p) = p"
| "port_of (AF_INET6 _ p _) = p"

lemma v4_pattern_length [simp]: "length v4_pattern = 12"
  by (simp add: v4_pattern_def)

lemma addr_equal_host: "vsf_sysutil_sockaddr_addr_equal p q \<Longrightarrow> host p = host q"
  by (auto simp: vsf_sysutil_sockaddr_addr_equal_def vsf_sysutil_sockaddr_ipv6_v4_def
      split: vsf_sysutil_sockaddr.splits if_splits) (metis append_take_drop_id)+

lemma host_addr_equal:
  assumes "sockaddr_ok p" and "sockaddr_ok q" and "host p = host q"
  shows "vsf_sysutil_sockaddr_addr_equal p q"
  using assms
  by (cases p; cases q) (auto simp: vsf_sysutil_sockaddr_addr_equal_def vsf_sysutil_sockaddr_ipv6_v4_def)

lemma addr_equal_iff:
  "sockaddr_ok p \<Longrightarrow> sockaddr_ok q \<Longrightarrow> vsf_sysutil_sockaddr_addr_equal p q \<longleftrightarrow> host p = host q"
  using addr_equal_host host_addr_equal by blast

lemma set_port_keeps:
  "vsf_sysutil_sockaddr_set_port p n = Inr q \<Longrightarrow> host q = host p \<and> port_of q = n \<and> (q = AF_UNSPEC \<longleftrightarrow> p = AF_UNSPEC)"
  by (cases p) (auto simp: vsf_sysutil_sockaddr_set_port_def)

lemma clone_keeps:
  "vsf_sysutil_sockaddr_clone p = Inr q \<Longrightarrow>
   host q = host p \<and> vsf_sysutil_sockaddr_is_ipv6 q = vsf_sysutil_sockaddr_is_ipv6 p \<and> q \<noteq> AF_UNSPEC"
  by (cases p) (auto simp: vsf_sysutil_sockaddr_clone_def vsf_sysutil_sockaddr_is_ipv6_def)

end
