(* ===== verification/Privsock.thy ===== *)
theory Privsock
  imports Netio
begin

text \<open>
  The message layer between the privileged parent and its unprivileged child
  (\<^verbatim>\<open>apps/vsftpd-2.2.0/privsock.c\<close>): commands and results of one byte, integers, and strings as a length and
  the bytes. The sending functions return the bytes that went into the socket and the answers of the
  kernel that are left; the receiving ones work on the stream of the other end. An \<open>int\<close> is in
  memory as on the target, four bytes, least significant first, in two's complement. Descriptor passing
  is a system call and not part of the model.
\<close>

section \<open>Model\<close>

definition VSFTP_PRIVSOCK_MAXSTR :: nat where
  "VSFTP_PRIVSOCK_MAXSTR = 65536"

definition int_bytes :: "int \<Rightarrow> string" where
  "int_bytes v =
     (let n = nat (v mod 4294967296)
      in map char_of [n mod 256, n div 256 mod 256, n div 65536 mod 256, n div 16777216])"

definition bytes_uint :: "string \<Rightarrow> nat" where
  "bytes_uint d = foldr (\<lambda>c v. ord c + 256 * v) d 0"

definition priv_sock_send_cmd :: "char \<Rightarrow> answer list \<Rightarrow> (string \<times> answer list) res" where
  "priv_sock_send_cmd cmd ks =
     rbind (vsf_sysutil_write_loop ks [cmd]) (\<lambda>(retval, sent, ks1).
       if retval \<noteq> 1 then Inl (Die ''priv_sock_send_cmd'') else Inr (sent, ks1))"

definition priv_sock_send_int :: "int \<Rightarrow> answer list \<Rightarrow> (string \<times> answer list) res" where
  "priv_sock_send_int the_int ks =
     rbind (vsf_sysutil_write_loop ks (int_bytes the_int)) (\<lambda>(retval, sent, ks1).
       if retval \<noteq> 4 then Inl (Die ''priv_sock_send_int'') else Inr (sent, ks1))"

text \<open>The result of \<open>str_netfd_write\<close> is ignored by the source.\<close>

definition priv_sock_send_str :: "string \<Rightarrow> answer list \<Rightarrow> (string \<times> answer list) res" where
  "priv_sock_send_str s ks =
     rbind (priv_sock_send_int (sint32 (int (length s))) ks) (\<lambda>(b1, ks1).
       if length s > 0
       then rbind (str_netfd_write ks1 s) (\<lambda>(_, b2, ks2). Inr (b1 @ b2, ks2))
       else Inr (b1, ks1))"

definition priv_sock_send_buf :: "string \<Rightarrow> answer list \<Rightarrow> (string \<times> answer list) res" where
  "priv_sock_send_buf d ks =
     rbind (priv_sock_send_int (sint32 (int (length d))) ks) (\<lambda>(b1, ks1).
       if length d > 0
       then rbind (vsf_sysutil_write_loop ks1 d) (\<lambda>(retval, b2, ks2).
              if retval \<noteq> sint32 (int (length d)) then Inl (Die ''priv_sock_send_buf'') else Inr (b1 @ b2, ks2))
       else Inr (b1, ks1))"

definition priv_sock_send_result :: "char \<Rightarrow> answer list \<Rightarrow> (string \<times> answer list) res" where
  "priv_sock_send_result r ks =
     rbind (vsf_sysutil_write_loop ks [r]) (\<lambda>(retval, sent, ks1).
       if retval \<noteq> 1 then Inl (Die ''priv_sock_send_result'') else Inr (sent, ks1))"

definition priv_sock_get_cmd :: "stream \<Rightarrow> (char \<times> stream) res" where
  "priv_sock_get_cmd st =
     rbind (vsf_sysutil_read_loop st 1) (\<lambda>(retval, d, st1).
       if retval \<noteq> 1 then Inl (Die ''priv_sock_get_cmd'') else Inr (d ! 0, st1))"

definition priv_sock_get_result :: "stream \<Rightarrow> (char \<times> stream) res" where
  "priv_sock_get_result st =
     rbind (vsf_sysutil_read_loop st 1) (\<lambda>(retval, d, st1).
       if retval \<noteq> 1 then Inl (Die ''priv_sock_get_result'') else Inr (d ! 0, st1))"

definition priv_sock_get_int :: "stream \<Rightarrow> (int \<times> stream) res" where
  "priv_sock_get_int st =
     rbind (vsf_sysutil_read_loop st 4) (\<lambda>(retval, d, st1).
       if retval \<noteq> 4 then Inl (Die ''priv_sock_get_int'') else Inr (sint32 (int (bytes_uint d)), st1))"

definition priv_sock_get_str :: "stream \<Rightarrow> (string \<times> stream) res" where
  "priv_sock_get_str st =
     rbind (priv_sock_get_int st) (\<lambda>(v, st1).
       let len = nat (v mod 4294967296) in
       if len > VSFTP_PRIVSOCK_MAXSTR then Inl (Die ''priv_sock_get_str: too big'')
       else if len > 0
       then rbind (str_netfd_read st1 len) (\<lambda>(retval, d, st2).
              if retval \<noteq> int len then Inl (Die ''priv_sock_get_str: read error'') else Inr (d, st2))
       else Inr ([], st1))"

definition priv_sock_recv_buf :: "nat \<Rightarrow> stream \<Rightarrow> (string \<times> stream) res" where
  "priv_sock_recv_buf len st =
     rbind (priv_sock_get_int st) (\<lambda>(v, st1).
       let recv_len = nat (v mod 4294967296) in
       if recv_len > len then Inl (Bug ''recv_len bigger than buffer'')
       else if recv_len > 0
       then rbind (vsf_sysutil_read_loop st1 recv_len) (\<lambda>(retval, d, st2).
              if retval \<noteq> sint32 (int recv_len) then Inl (Die ''priv_sock_recv_buf'') else Inr (d, st2))
       else Inr ([], st1))"

section \<open>Integers in memory\<close>

lemma length_int_bytes [simp]: "length (int_bytes v) = 4"
  by (simp add: int_bytes_def Let_def)

lemma bytes_uint_int_bytes: "bytes_uint (int_bytes v) = nat (v mod 4294967296)"
proof -
  define n where "n = nat (v mod 4294967296)"
  have "n < 4294967296" by (simp add: n_def nat_less_iff)
  then have top: "n div 16777216 < 256" by (simp add: div_less_iff_less_mult)
  have "n = n mod 256 + 256 * (n div 256 mod 256 + 256 * (n div 256 div 256 mod 256 + 256 * (n div 256 div 256 div 256)))"
    by (metis mod_mult_div_eq)
  then show ?thesis
    using top by (simp add: int_bytes_def bytes_uint_def Let_def n_def [symmetric] of_char_of
        div_mult2_eq [symmetric])
qed

lemma sint32_mod [simp]: "sint32 v mod 4294967296 = v mod 4294967296"
proof -
  have "sint32 v mod 4294967296 = ((v + 2147483648) mod 4294967296 - 2147483648) mod 4294967296"
    by (simp add: sint32_def)
  also have "\<dots> = (v + 2147483648 - 2147483648) mod 4294967296" by (rule mod_diff_left_eq)
  finally show ?thesis by simp
qed

lemma sint32_of_uint [simp]: "sint32 (v mod 4294967296) = sint32 v"
  by (simp add: sint32_def mod_add_left_eq)

section \<open>Messages arrive as they were sent\<close>

datatype msg = MCmd char | MResult char | MInt int | MStr string

fun send_msg :: "msg \<Rightarrow> answer list \<Rightarrow> (string \<times> answer list) res" where
  "send_msg (MCmd c) ks = priv_sock_send_cmd c ks"
| "send_msg (MResult c) ks = priv_sock_send_result c ks"
| "send_msg (MInt v) ks = priv_sock_send_int v ks"
| "send_msg (MStr s) ks = priv_sock_send_str s ks"

text \<open>The receiver knows the kind of each message; the argument is used for its kind only.\<close>

fun recv_msg :: "msg \<Rightarrow> stream \<Rightarrow> (msg \<times> stream) res" where
  "recv_msg (MCmd _) st = rbind (priv_sock_get_cmd st) (\<lambda>(c, st1). Inr (MCmd c, st1))"
| "recv_msg (MResult _) st = rbind (priv_sock_get_result st) (\<lambda>(c, st1). Inr (MResult c, st1))"
| "recv_msg (MInt _) st = rbind (priv_sock_get_int st) (\<lambda>(v, st1). Inr (MInt v, st1))"
| "recv_msg (MStr _) st = rbind (priv_sock_get_str st) (\<lambda>(s, st1). Inr (MStr s, st1))"

fun msg_ok :: "msg \<Rightarrow> bool" where
  "msg_ok (MInt v) \<longleftrightarrow> -2147483648 \<le> v \<and> v < 2147483648"
| "msg_ok (MStr s) \<longleftrightarrow> length s \<le> VSFTP_PRIVSOCK_MAXSTR"
| "msg_ok _ \<longleftrightarrow> True"

fun wire :: "msg \<Rightarrow> string" where
  "wire (MCmd c) = [c]"
| "wire (MResult c) = [c]"
| "wire (MInt v) = int_bytes v"
| "wire (MStr s) = int_bytes (int (length s)) @ s"

fun send_all :: "msg list \<Rightarrow> answer list \<Rightarrow> (string \<times> answer list) res" where
  "send_all [] ks = Inr ([], ks)"
| "send_all (m # ms) ks =
     rbind (send_msg m ks) (\<lambda>(b, ks1). rbind (send_all ms ks1) (\<lambda>(bs, ks2). Inr (b @ bs, ks2)))"

fun recv_all :: "msg list \<Rightarrow> stream \<Rightarrow> (msg list \<times> stream) res" where
  "recv_all [] st = Inr ([], st)"
| "recv_all (m # ms) st =
     rbind (recv_msg m st) (\<lambda>(x, st1). rbind (recv_all ms st1) (\<lambda>(xs, st2). Inr (x # xs, st2)))"

lemma maxstr_bound: "VSFTP_PRIVSOCK_MAXSTR = 65536" "4 \<le> INT_MAX" "65536 \<le> INT_MAX" "1 \<le> INT_MAX"
  by (simp_all add: VSFTP_PRIVSOCK_MAXSTR_def INT_MAX_def)

lemma send_int_ok:
  assumes "no_errors ks"
  obtains ks1 where "priv_sock_send_int v ks = Inr (int_bytes v, ks1)" "no_errors ks1"
proof -
  obtain ks1 where "vsf_sysutil_write_loop ks (int_bytes v) = Inr (4, int_bytes v, ks1)" "no_errors ks1"
    using write_loop_ok [OF assms, of "int_bytes v"] maxstr_bound by auto
  then show ?thesis using that by (simp add: priv_sock_send_int_def)
qed

lemma send_str_ok:
  assumes "no_errors ks" and "length s \<le> VSFTP_PRIVSOCK_MAXSTR"
  obtains ks1 where "priv_sock_send_str s ks = Inr (int_bytes (int (length s)) @ s, ks1)" "no_errors ks1"
proof -
  obtain ks1 where i: "priv_sock_send_int (int (length s)) ks = Inr (int_bytes (int (length s)), ks1)" "no_errors ks1"
    using send_int_ok [OF assms(1)] by blast
  obtain ks2 where "vsf_sysutil_write_loop ks1 s = Inr (int (length s), s, ks2)" "no_errors ks2"
    using write_loop_ok [OF i(2), of s] assms(2) maxstr_bound by auto
  then show ?thesis using that i assms(2) maxstr_bound
    by (cases "s = []") (auto simp: priv_sock_send_str_def str_netfd_write_def)
qed

lemma send_msg_ok:
  assumes "no_errors ks" and "msg_ok m"
  obtains ks1 where "send_msg m ks = Inr (wire m, ks1)" "no_errors ks1"
proof -
  have one: "\<exists>ks1. vsf_sysutil_write_loop ks [c] = Inr (1, [c], ks1) \<and> no_errors ks1" for c
    using write_loop_ok [OF assms(1), of "[c]"] maxstr_bound by auto
  have "\<exists>ks1. send_msg m ks = Inr (wire m, ks1) \<and> no_errors ks1"
  proof (cases m)
    case (MCmd c)
    then show ?thesis using one [of c] by (auto simp: priv_sock_send_cmd_def)
  next
    case (MResult c)
    then show ?thesis using one [of c] by (auto simp: priv_sock_send_result_def)
  next
    case (MInt v)
    then show ?thesis using send_int_ok [OF assms(1), of v] by auto
  next
    case (MStr s)
    then show ?thesis using send_str_ok [OF assms(1), of s] assms(2) by auto
  qed
  then show ?thesis using that by blast
qed

lemma read_exact:
  assumes "no_errors (answers st)" and "input st = d @ r" and "d \<noteq> []" and "length d \<le> INT_MAX"
  obtains st1 where "vsf_sysutil_read_loop st (length d) = Inr (int (length d), d, st1)" "input st1 = r"
    "no_errors (answers st1)"
  using read_loop_full [OF assms(1), of "length d" "[]"] assms that by (auto simp: vsf_sysutil_read_loop_def)

lemma get_int_ok:
  assumes "no_errors (answers st)" and "input st = int_bytes v @ r"
  obtains st1 where "priv_sock_get_int st = Inr (sint32 v, st1)" "input st1 = r" "no_errors (answers st1)"
proof -
  have "int_bytes v \<noteq> []" by (metis length_int_bytes list.size(3) zero_neq_numeral)
  then obtain st1 where s: "vsf_sysutil_read_loop st 4 = Inr (4, int_bytes v, st1)" "input st1 = r"
      "no_errors (answers st1)"
    using read_exact [OF assms] maxstr_bound by auto
  have "sint32 (int (bytes_uint (int_bytes v))) = sint32 v" by (simp add: bytes_uint_int_bytes)
  then show ?thesis using that s by (simp add: priv_sock_get_int_def)
qed

lemma get_str_ok:
  assumes "no_errors (answers st)" and "input st = int_bytes (int (length s)) @ s @ r"
    and "length s \<le> VSFTP_PRIVSOCK_MAXSTR"
  obtains st1 where "priv_sock_get_str st = Inr (s, st1)" "input st1 = r" "no_errors (answers st1)"
proof -
  obtain st1 where i: "priv_sock_get_int st = Inr (sint32 (int (length s)), st1)" "input st1 = s @ r"
      "no_errors (answers st1)"
    using get_int_ok [OF assms(1,2)] by blast
  have len: "nat (sint32 (int (length s)) mod 4294967296) = length s" using assms(3) maxstr_bound by simp
  show ?thesis
  proof (cases "s = []")
    case True
    then show ?thesis using that i by (simp add: priv_sock_get_str_def Let_def)
  next
    case False
    then obtain st2 where "vsf_sysutil_read_loop st1 (length s) = Inr (int (length s), s, st2)" "input st2 = r"
        "no_errors (answers st2)"
      using read_exact [OF i(3,2)] assms(3) maxstr_bound by auto
    then show ?thesis using that i False assms(3) len
      by (simp add: priv_sock_get_str_def str_netfd_read_def Let_def)
  qed
qed

lemma recv_msg_ok:
  assumes "no_errors (answers st)" and "input st = wire m @ r" and "msg_ok m"
  obtains st1 where "recv_msg m st = Inr (m, st1)" "input st1 = r" "no_errors (answers st1)"
proof -
  have one: "\<exists>st1. vsf_sysutil_read_loop st 1 = Inr (1, [c], st1) \<and> input st1 = r \<and> no_errors (answers st1)"
    if "input st = [c] @ r" for c using read_exact [OF assms(1) that] maxstr_bound by auto
  have "\<exists>st1. recv_msg m st = Inr (m, st1) \<and> input st1 = r \<and> no_errors (answers st1)"
  proof (cases m)
    case (MCmd c)
    then show ?thesis using one [of c] assms(2) by (auto simp: priv_sock_get_cmd_def)
  next
    case (MResult c)
    then show ?thesis using one [of c] assms(2) by (auto simp: priv_sock_get_result_def)
  next
    case (MInt v)
    then obtain st1 where "priv_sock_get_int st = Inr (sint32 v, st1)" "input st1 = r" "no_errors (answers st1)"
      using get_int_ok [OF assms(1), of v r] assms(2) by auto
    then show ?thesis using MInt assms(3) by auto
  next
    case (MStr s)
    then obtain st1 where "priv_sock_get_str st = Inr (s, st1)" "input st1 = r" "no_errors (answers st1)"
      using get_str_ok [OF assms(1), of s r] assms(2,3) by auto
    then show ?thesis using MStr by auto
  qed
  then show ?thesis using that by blast
qed

lemma send_all_ok:
  "no_errors ks \<Longrightarrow> list_all msg_ok ms \<Longrightarrow>
   \<exists>ks1. send_all ms ks = Inr (concat (map wire ms), ks1) \<and> no_errors ks1"
proof (induction ms arbitrary: ks)
  case (Cons m ms)
  obtain ks1 where "send_msg m ks = Inr (wire m, ks1)" "no_errors ks1"
    by (rule send_msg_ok [of ks m]) (use Cons.prems in auto)
  then show ?case using Cons.IH [of ks1] Cons.prems by auto
qed simp

lemma recv_all_ok:
  "no_errors (answers st) \<Longrightarrow> list_all msg_ok ms \<Longrightarrow> input st = concat (map wire ms) @ r \<Longrightarrow>
   \<exists>st1. recv_all ms st = Inr (ms, st1) \<and> input st1 = r \<and> no_errors (answers st1)"
proof (induction ms arbitrary: st)
  case (Cons m ms)
  obtain st1 where "recv_msg m st = Inr (m, st1)" "input st1 = concat (map wire ms) @ r" "no_errors (answers st1)"
    by (rule recv_msg_ok [of st m "concat (map wire ms) @ r"]) (use Cons.prems in auto)
  then show ?case using Cons.IH [of st1] Cons.prems by auto
qed simp

text \<open>
  The two processes understand each other. Any sequence of commands, results, integers and strings of
  permitted size, sent through a socket that fragments and interrupts reads and writes at will,
  is received as exactly this sequence, and the stream continues right after it.
\<close>

theorem privsock_roundtrip:
  assumes "no_errors ks" and "no_errors rs" and "list_all msg_ok ms"
  shows "\<exists>bytes ks1. send_all ms ks = Inr (bytes, ks1) \<and>
           (\<exists>st. recv_all ms \<lparr>input = bytes @ rest, answers = rs\<rparr> = Inr (ms, st) \<and> input st = rest)"
proof -
  obtain ks1 where "send_all ms ks = Inr (concat (map wire ms), ks1)" using send_all_ok assms by blast
  then show ?thesis using recv_all_ok [of "\<lparr>input = concat (map wire ms) @ rest, answers = rs\<rparr>" ms rest] assms
    by auto
qed

theorem privsock_roundtrip_witness:
  "\<exists>bytes ks1. send_all [MCmd (char_of (1::nat)), MStr ''anna'', MStr [], MInt (-2)] [Grant 3, Eintr] = Inr (bytes, ks1) \<and>
     (\<exists>st. recv_all [MCmd (char_of (1::nat)), MStr ''anna'', MStr [], MInt (-2)]
             \<lparr>input = bytes @ ''x'', answers = [Grant 1, Grant 2]\<rparr> =
           Inr ([MCmd (char_of (1::nat)), MStr ''anna'', MStr [], MInt (-2)], st) \<and> input st = ''x'')"
  by (rule privsock_roundtrip) (simp_all add: no_errors_def VSFTP_PRIVSOCK_MAXSTR_def)

section \<open>No message waits forever in the model\<close>

lemma privsock_send_no_hang:
  "priv_sock_send_cmd c ks \<noteq> Inl Hang" "priv_sock_send_int v ks \<noteq> Inl Hang" "priv_sock_send_str s ks \<noteq> Inl Hang"
  "priv_sock_send_result c ks \<noteq> Inl Hang"
proof -
  show i: "priv_sock_send_int v ks \<noteq> Inl Hang" for v ks
    using sysutil_write_loop_no_hang [of ks "int_bytes v"]
    by (auto simp: priv_sock_send_int_def rbind_eq_Inl split: prod.splits if_splits)
  show "priv_sock_send_cmd c ks \<noteq> Inl Hang" "priv_sock_send_result c ks \<noteq> Inl Hang"
    using sysutil_write_loop_no_hang [of ks "[c]"]
    by (auto simp: priv_sock_send_cmd_def priv_sock_send_result_def rbind_eq_Inl split: prod.splits if_splits)
  show "priv_sock_send_str s ks \<noteq> Inl Hang"
    using i netfd_write_no_hang
    by (auto simp: priv_sock_send_str_def rbind_eq_Inl split: prod.splits if_splits)
qed

lemma privsock_get_no_hang:
  "priv_sock_get_cmd st \<noteq> Inl Hang" "priv_sock_get_result st \<noteq> Inl Hang" "priv_sock_get_int st \<noteq> Inl Hang"
  "priv_sock_get_str st \<noteq> Inl Hang"
proof -
  show "priv_sock_get_cmd st \<noteq> Inl Hang" "priv_sock_get_result st \<noteq> Inl Hang"
    using sysutil_read_loop_no_hang [of st 1]
    by (auto simp: priv_sock_get_cmd_def priv_sock_get_result_def rbind_eq_Inl split: prod.splits if_splits)
  show i: "priv_sock_get_int st \<noteq> Inl Hang" for st
    using sysutil_read_loop_no_hang [of st 4]
    by (auto simp: priv_sock_get_int_def rbind_eq_Inl split: prod.splits if_splits)
  show "priv_sock_get_str st \<noteq> Inl Hang"
    using i sysutil_read_loop_no_hang
    by (auto simp: priv_sock_get_str_def str_netfd_read_def rbind_eq_Inl Let_def split: prod.splits if_splits)
qed

lemma privsock_benign:
  "priv_sock_send_cmd c ks = Inl e \<Longrightarrow> benign e" "priv_sock_send_result c ks = Inl e \<Longrightarrow> benign e"
  "priv_sock_send_int v ks = Inl e \<Longrightarrow> benign e" "priv_sock_get_cmd st = Inl e \<Longrightarrow> benign e"
  "priv_sock_get_result st = Inl e \<Longrightarrow> benign e" "priv_sock_get_int st = Inl e \<Longrightarrow> benign e"
  unfolding priv_sock_send_cmd_def priv_sock_send_result_def priv_sock_send_int_def priv_sock_get_cmd_def
    priv_sock_get_result_def priv_sock_get_int_def
  by (auto simp: rbind_eq_Inl dest: sysutil_write_loop_benign sysutil_read_loop_benign split: if_splits)

end
