(* ===== verification/Session.thy ===== *)
theory Session
  imports Sockaddr Tunables Cmdio Privsock Parseconf Ls
begin

text \<open>
  The state of a session and the actions on it. \<open>vsf_session\<close> is \<open>struct vsf_session\<close> of \<^verbatim>\<open>session.h\<close> without
  the descriptors of the control connection, the logs and the socket pair (there is one of each, they have
  fields of \<open>world\<close>), the clocks of the bandwidth limiter, and the SSL objects, which this build does not use.

  The operating system is a function that answers a call from the calls that have been made so far and
  the call itself, so every behaviour of files, directories, sockets and other processes is covered by some
  \<open>os\<close>. The calls are recorded in \<open>trace\<close>, which the program cannot read. The C strings that calls receive end
  at the first NUL.

  An action runs on the \<open>world\<close>: the session of the process that talks to the client (\<open>child\<close>), that of its
  privileged parent in the two-process model (\<open>parent\<close>), the control connection, the socket pair between the two
  with the bytes and descriptors under way, and the statics of the functions modelled here. \<open>sent\<close> is what
  the client has been sent, \<open>logs\<close> the log entries, and \<open>asked\<close> the credentials the login service has been
  asked for.
\<close>

section \<open>The session\<close>

datatype EVSFLogEntryType =
    kVSFLogEntryNull | kVSFLogEntryDownload | kVSFLogEntryUpload | kVSFLogEntryMkdir | kVSFLogEntryLogin
  | kVSFLogEntryFTPInput | kVSFLogEntryFTPOutput | kVSFLogEntryConnection | kVSFLogEntryDelete
  | kVSFLogEntryRename | kVSFLogEntryRmdir | kVSFLogEntryChmod | kVSFLogEntryDebug

text \<open>\<open>None\<close> in \<open>p_port_sockaddr\<close> is the null pointer, in \<open>log_type\<close> the value 0.\<close>

record vsf_session =
  p_local_addr :: vsf_sysutil_sockaddr
  p_remote_addr :: vsf_sysutil_sockaddr
  pasv_listen_fd :: int
  p_port_sockaddr :: "vsf_sysutil_sockaddr option"
  data_fd :: int
  bw_rate_max :: nat
  is_anonymous :: bool
  is_guest :: bool
  user_str :: string
  anon_pass_str :: string
  restart_pos :: int
  is_ascii :: bool
  rnfr_filename_str :: string
  abor_received :: bool
  epsv_all :: bool
  p_visited_dir_list :: "string list"
  anon_ftp_uid :: int
  guest_user_uid :: int
  anon_upload_chown_uid :: int
  banned_email_str :: string
  email_passwords_str :: string
  userlist_str :: string
  banner_str :: string
  tcp_wrapper_ok :: bool
  remote_ip_str :: string
  log_type :: "EVSFLogEntryType option"
  log_str :: string
  transfer_size :: int
  ftp_cmd_str :: string
  ftp_arg_str :: string
  num_clients :: nat
  num_this_ip :: nat
  home_str :: string
  control_use_ssl :: bool
  data_use_ssl :: bool
  login_fails :: nat

section \<open>The operating system\<close>

datatype call =
    Getcwd | Chdir string | Stat string | OpenFile string | CreateFile string | CreateOrOpen string nat
  | Fstat int | Fchmod int nat | Fchown int int | LockRead int | LockWrite int | Lseek int int | Ftruncate int
  | Mkdir string nat | Rmdir string | Unlink string | Rename string string | Chmod string nat
  | Utime string int | Opendir string | DirStat int | Readdir int | Umask nat | Getpwnam string
  | ReadFile string | Socket bool | Bind int vsf_sysutil_sockaddr | ListenOn int | AcceptOn int
  | Connect int vsf_sysutil_sockaddr | RandomByte | Close int | GetOffset int | Pump int int
  | Sendfile int int int int | Wrote int string | Mktime "int list" | NumericDate bool | Closedir int | Shutdown int

datatype errno = ADDRINUSE | ACCES | NOENT | OtherErr

text \<open>
  What a call answers: its return value and error, a text, what \<open>stat\<close> reports, the address of a peer, what
  successive reads deliver and how successive writes are answered during a transfer, the content of a file or
  directory, and the number of urgent-data signals that arrive.
\<close>

record reply =
  r_ret :: int
  r_errno :: errno
  r_text :: "string option"
  r_regfile :: bool
  r_dir :: bool
  r_readable_other :: bool
  r_size :: int
  r_uid :: int
  r_addr :: vsf_sysutil_sockaddr
  r_reads :: "string option list"
  r_acks :: "answer list"
  r_file :: file_source
  r_dirents :: "dirent list"
  r_urgent :: nat

text \<open>
  The operating system with what the C library computes from its own tables: the names of users and groups,
  sorting, the text of addresses, the time zone, and what the static buffers of the address parsers hold.
  \<open>Pump\<close> stands for the system calls of a transfer loop, whose data its reply holds; \<open>Wrote\<close> records what the
  loop has written.
\<close>

record oskit =
  answer_of :: "call list \<Rightarrow> call \<Rightarrow> reply"
  names :: names_db
  str_sort :: "bool \<Rightarrow> entry list \<Rightarrow> entry list"
  inet_ntop6 :: "string \<Rightarrow> string"
  inet_aton :: "string \<Rightarrow> string option"
  s_timezone :: int
  stale :: string

record world =
  child :: vsf_session
  parent :: vsf_session
  ctl_in :: stream
  ctl_out :: "answer list"
  req_w :: "answer list"
  req_r :: "answer list"
  rep_w :: "answer list"
  rep_r :: "answer list"
  to_parent :: string
  to_child :: string
  fds_to_parent :: "int list"
  fds_to_child :: "int list"
  sent :: string
  asked :: "(string \<times> string) list"
  os :: oskit
  trace :: "call list"
  logs :: "(EVSFLogEntryType \<times> bool \<times> string) list"
  s_deny_str :: string
  s_hide_str :: string
  s_current_umask :: nat
  s_pasv_sockaddr :: "vsf_sysutil_sockaddr option"

section \<open>Actions\<close>

type_synonym 'a act = "world \<Rightarrow> 'a res \<times> world"

definition aret :: "'a \<Rightarrow> 'a act" where
  "aret x w = (Inr x, w)"

definition abind :: "'a act \<Rightarrow> ('a \<Rightarrow> 'b act) \<Rightarrow> 'b act" where
  "abind m f w = (case m w of (Inl e, w1) \<Rightarrow> (Inl e, w1) | (Inr x, w1) \<Rightarrow> f x w1)"

definition aseq :: "unit act \<Rightarrow> 'b act \<Rightarrow> 'b act" where
  "aseq m n = abind m (\<lambda>_. n)"

text \<open>An action chosen by looking at the state.\<close>

definition awith :: "(world \<Rightarrow> 'a act) \<Rightarrow> 'a act" where
  "awith f w = f w w"

definition astop :: "fault \<Rightarrow> 'a act" where
  "astop e w = (Inl e, w)"

definition awhen :: "bool \<Rightarrow> unit act \<Rightarrow> unit act" where
  "awhen c m = (if c then m else aret ())"

text \<open>A computation that does not touch the state.\<close>

definition alift :: "'a res \<Rightarrow> 'a act" where
  "alift r w = (r, w)"

definition upd_child :: "(vsf_session \<Rightarrow> vsf_session) \<Rightarrow> unit act" where
  "upd_child f w = (Inr (), w\<lparr>child := f (child w)\<rparr>)"

text \<open>Bytes for the client from one of the writers of \<open>Cmdio\<close>.\<close>

definition emit :: "(answer list \<Rightarrow> (string \<times> answer list) res) \<Rightarrow> unit act" where
  "emit wr w =
     (case wr (ctl_out w) of
        Inl e \<Rightarrow> (Inl e, w)
      | Inr (b, ks) \<Rightarrow> (Inr (), w\<lparr>sent := sent w @ b, ctl_out := ks\<rparr>))"

definition cmdio_write :: "nat \<Rightarrow> string \<Rightarrow> unit act" where
  "cmdio_write status p_text = emit (vsf_cmdio_write status p_text)"

definition cmdio_write_hyphen :: "nat \<Rightarrow> string \<Rightarrow> unit act" where
  "cmdio_write_hyphen status p_text = emit (vsf_cmdio_write_hyphen status p_text)"

definition cmdio_write_raw :: "string \<Rightarrow> unit act" where
  "cmdio_write_raw p_text = emit (vsf_cmdio_write_raw p_text)"

text \<open>The reply that ends the process; a failing write does not stop it from exiting.\<close>

definition cmdio_write_exit :: "nat \<Rightarrow> string \<Rightarrow> 'a act" where
  "cmdio_write_exit status p_text =
     aseq (emit (ftp_write_str_common status CHR '' '' p_text True)) (astop (Exit 0))"

definition get_cmd_and_arg :: "tunables \<Rightarrow> unit act" where
  "get_cmd_and_arg t w =
     (case vsf_cmdio_get_cmd_and_arg (tbool t ''log_ftp_protocol'') (ctl_in w) of
        Inl e \<Rightarrow> (Inl e, w)
      | Inr (cmd, arg, _, st) \<Rightarrow>
          (Inr (), w\<lparr>ctl_in := st, child := (child w)\<lparr>ftp_cmd_str := cmd, ftp_arg_str := arg\<rparr>\<rparr>))"

text \<open>A system call.\<close>

definition sys :: "call \<Rightarrow> reply act" where
  "sys c w = (Inr (answer_of (os w) (trace w) c), w\<lparr>trace := trace w @ [c]\<rparr>)"

section \<open>Reasoning about actions\<close>

text \<open>
  From a state with \<open>P\<close>, the action ends with a value and a state in \<open>Q\<close>, or stops with a fault and a state
  in \<open>E\<close>.
\<close>

definition avalid :: "(world \<Rightarrow> bool) \<Rightarrow> 'a act \<Rightarrow> ('a \<Rightarrow> world \<Rightarrow> bool) \<Rightarrow> (fault \<Rightarrow> world \<Rightarrow> bool) \<Rightarrow> bool" where
  "avalid P m Q E \<longleftrightarrow> (\<forall>w. P w \<longrightarrow> (case m w of (Inr x, w1) \<Rightarrow> Q x w1 | (Inl e, w1) \<Rightarrow> E e w1))"

lemma avalidD: "avalid P m Q E \<Longrightarrow> P w \<Longrightarrow> m w = (r, w1) \<Longrightarrow> case r of Inr x \<Rightarrow> Q x w1 | Inl e \<Rightarrow> E e w1"
  by (force simp: avalid_def split: sum.splits)

lemma avalid_abind:
  "avalid P m R E \<Longrightarrow> (\<And>x. avalid (R x) (f x) Q E) \<Longrightarrow> avalid P (abind m f) Q E"
  unfolding avalid_def abind_def by (fastforce split: prod.splits sum.splits)

lemma avalid_aseq: "avalid P m (\<lambda>_. R) E \<Longrightarrow> avalid R n Q E \<Longrightarrow> avalid P (aseq m n) Q E"
  unfolding aseq_def by (rule avalid_abind)

lemma avalid_aret: "(\<And>w. P w \<Longrightarrow> Q x w) \<Longrightarrow> avalid P (aret x) Q E"
  by (simp add: avalid_def aret_def)

lemma avalid_astop: "(\<And>w. P w \<Longrightarrow> E e w) \<Longrightarrow> avalid P (astop e) Q E"
  by (simp add: avalid_def astop_def)

lemma avalid_awith: "(\<And>w. P w \<Longrightarrow> avalid (\<lambda>v. v = w) (f w) Q E) \<Longrightarrow> avalid P (awith f) Q E"
  by (simp add: avalid_def awith_def)

lemma avalid_upd: "(\<And>w. P w \<Longrightarrow> Q () (w\<lparr>child := f (child w)\<rparr>)) \<Longrightarrow> avalid P (upd_child f) Q E"
  by (simp add: avalid_def upd_child_def)

lemma avalid_pre: "avalid P m Q E \<Longrightarrow> (\<And>w. P' w \<Longrightarrow> P w) \<Longrightarrow> avalid P' m Q E"
  by (simp add: avalid_def)

lemma avalid_if:
  "(C \<Longrightarrow> avalid P m Q E) \<Longrightarrow> (\<not> C \<Longrightarrow> avalid P n Q E) \<Longrightarrow> avalid P (if C then m else n) Q E"
  by simp

lemma avalid_post: "avalid P m Q E \<Longrightarrow> (\<And>x w. Q x w \<Longrightarrow> Q' x w) \<Longrightarrow> avalid P m Q' E"
  unfolding avalid_def by (simp split: prod.splits sum.splits)

lemma avalid_emit:
  "(\<And>ks. wr ks \<noteq> Inl Hang) \<Longrightarrow> (\<And>w b ks. P w \<Longrightarrow> Q () (w\<lparr>sent := b, ctl_out := ks\<rparr>)) \<Longrightarrow>
   (\<And>e w. P w \<Longrightarrow> e \<noteq> Hang \<Longrightarrow> E e w) \<Longrightarrow> avalid P (emit wr) Q E"
  by (simp add: avalid_def emit_def split: sum.splits) metis

text \<open>Predicates that do not look at what has been sent survive every reply.\<close>

definition reply_stable :: "(world \<Rightarrow> bool) \<Rightarrow> bool" where
  "reply_stable P \<longleftrightarrow> (\<forall>w b ks. P w \<longrightarrow> P (w\<lparr>sent := b, ctl_out := ks\<rparr>))"

definition survives :: "(world \<Rightarrow> bool) \<Rightarrow> (fault \<Rightarrow> world \<Rightarrow> bool) \<Rightarrow> bool" where
  "survives P E \<longleftrightarrow> reply_stable P \<and> (\<forall>e w. P w \<longrightarrow> e \<noteq> Hang \<longrightarrow> E e w)"

lemma avalid_emit_keep: "(\<And>ks. wr ks \<noteq> Inl Hang) \<Longrightarrow> survives P E \<Longrightarrow> avalid P (emit wr) (\<lambda>_. P) E"
  by (rule avalid_emit) (auto simp: survives_def reply_stable_def)

lemma avalid_write: "survives P E \<Longrightarrow> avalid P (cmdio_write st txt) (\<lambda>_. P) E"
  unfolding cmdio_write_def by (rule avalid_emit_keep) (rule cmdio_writers_no_hang)

lemma avalid_write_hyphen: "survives P E \<Longrightarrow> avalid P (cmdio_write_hyphen st txt) (\<lambda>_. P) E"
  unfolding cmdio_write_hyphen_def by (rule avalid_emit_keep) (rule cmdio_writers_no_hang)

lemma avalid_write_raw: "survives P E \<Longrightarrow> avalid P (cmdio_write_raw txt) (\<lambda>_. P) E"
  unfolding cmdio_write_raw_def by (rule avalid_emit_keep) (rule cmdio_writers_no_hang)

lemma avalid_write_exit: "survives P E \<Longrightarrow> avalid P (cmdio_write_exit st txt) Q E"
  unfolding cmdio_write_exit_def
  by (rule avalid_aseq [of _ _ P]) (auto intro!: avalid_emit_keep avalid_astop write_common_no_hang simp: survives_def)

end
