(* ===== verification/Syscalls.thy ===== *)
theory Syscalls
  imports Session
begin

text \<open>
  The wrappers of system calls (\<^verbatim>\<open>apps/vsftpd-2.2.0/sysutil.c\<close> and \<^verbatim>\<open>sysstr.c\<close>) that the session uses, with the
  errors that they turn into \<open>die()\<close>. A call that the source repeats while it is interrupted is one call with its
  final answer. Setting socket options, and the flags of a descriptor by \<open>fcntl\<close>, is left out.
\<close>

section \<open>Files and directories\<close>

definition die_if :: "string \<Rightarrow> (reply \<Rightarrow> bool) \<Rightarrow> call \<Rightarrow> reply act" where
  "die_if what bad c = abind (sys c) (\<lambda>r. if bad r then astop (Die what) else aret r)"

definition vsf_sysutil_close :: "int \<Rightarrow> unit act" where
  "vsf_sysutil_close fd = abind (die_if ''close'' (\<lambda>r. r_ret r \<noteq> 0) (Close fd)) (\<lambda>_. aret ())"

definition vsf_sysutil_fstat :: "int \<Rightarrow> reply act" where
  "vsf_sysutil_fstat fd = die_if ''fstat'' (\<lambda>r. r_ret r \<noteq> 0) (Fstat fd)"

definition vsf_sysutil_get_file_offset :: "int \<Rightarrow> int act" where
  "vsf_sysutil_get_file_offset fd =
     abind (die_if ''lseek'' (\<lambda>r. r_ret r < 0) (GetOffset fd)) (\<lambda>r. aret (r_ret r))"

definition vsf_sysutil_lseek_to :: "int \<Rightarrow> int \<Rightarrow> unit act" where
  "vsf_sysutil_lseek_to fd seek_pos =
     (if seek_pos < 0 then astop (Die ''negative seek_pos in vsf_sysutil_lseek_to'')
      else abind (die_if ''lseek'' (\<lambda>r. r_ret r < 0) (Lseek fd seek_pos)) (\<lambda>_. aret ()))"

definition vsf_sysutil_ftruncate :: "int \<Rightarrow> unit act" where
  "vsf_sysutil_ftruncate fd = abind (die_if ''ftruncate'' (\<lambda>r. r_ret r \<noteq> 0) (Ftruncate fd)) (\<lambda>_. aret ())"

text \<open>The permission bits; set-user-id, set-group-id and sticky bits are masked out.\<close>

definition perm_bits :: "nat \<Rightarrow> nat" where
  "perm_bits mode = and mode 511"

definition vsf_sysutil_fchmod :: "int \<Rightarrow> nat \<Rightarrow> unit act" where
  "vsf_sysutil_fchmod fd mode =
     abind (die_if ''fchmod'' (\<lambda>r. r_ret r \<noteq> 0) (Fchmod fd (perm_bits mode))) (\<lambda>_. aret ())"

definition vsf_sysutil_fchown :: "int \<Rightarrow> int \<Rightarrow> unit act" where
  "vsf_sysutil_fchown fd uid = abind (die_if ''fchown'' (\<lambda>r. r_ret r \<noteq> 0) (Fchown fd uid)) (\<lambda>_. aret ())"

definition vsf_sysutil_dir_stat :: "int \<Rightarrow> reply act" where
  "vsf_sysutil_dir_stat p_dir = die_if ''fstat'' (\<lambda>r. r_ret r \<noteq> 0) (DirStat p_dir)"

definition vsf_sysutil_set_umask :: "nat \<Rightarrow> unit act" where
  "vsf_sysutil_set_umask new_umask =
     abind (sys (Umask (perm_bits new_umask))) (\<lambda>_ w. (Inr (), w\<lparr>s_current_umask := perm_bits new_umask\<rparr>))"

definition str_getcwd :: "string act" where
  "str_getcwd = abind (sys Getcwd) (\<lambda>r. aret (case r_text r of None \<Rightarrow> [] | Some d \<Rightarrow> cstr d))"

definition str_mkdir :: "string \<Rightarrow> nat \<Rightarrow> int act" where
  "str_mkdir s mode = abind (sys (Mkdir (cstr s) mode)) (\<lambda>r. aret (r_ret r))"

definition str_rmdir :: "string \<Rightarrow> int act" where
  "str_rmdir s = abind (sys (Rmdir (cstr s))) (\<lambda>r. aret (r_ret r))"

definition str_unlink :: "string \<Rightarrow> int act" where
  "str_unlink s = abind (sys (Unlink (cstr s))) (\<lambda>r. aret (r_ret r))"

definition str_chdir :: "string \<Rightarrow> int act" where
  "str_chdir s = abind (sys (Chdir (cstr s))) (\<lambda>r. aret (r_ret r))"

definition str_open :: "string \<Rightarrow> int act" where
  "str_open s = abind (sys (OpenFile (cstr s))) (\<lambda>r. aret (r_ret r))"

definition str_stat :: "string \<Rightarrow> reply act" where
  "str_stat s = sys (Stat (cstr s))"

definition str_create :: "string \<Rightarrow> int act" where
  "str_create s = abind (sys (CreateFile (cstr s))) (\<lambda>r. aret (r_ret r))"

definition str_create_append :: "tunables \<Rightarrow> string \<Rightarrow> int act" where
  "str_create_append t s =
     abind (sys (CreateOrOpen (cstr s) (tuint t ''file_open_mode''))) (\<lambda>r. aret (r_ret r))"

definition str_chmod :: "string \<Rightarrow> nat \<Rightarrow> int act" where
  "str_chmod s mode = abind (sys (Chmod (cstr s) (perm_bits mode))) (\<lambda>r. aret (r_ret r))"

definition str_rename :: "string \<Rightarrow> string \<Rightarrow> int act" where
  "str_rename from to = abind (sys (Rename (cstr from) (cstr to))) (\<lambda>r. aret (r_ret r))"

text \<open>A directory handle, 0 for the null pointer.\<close>

definition str_opendir :: "string \<Rightarrow> int act" where
  "str_opendir s = abind (sys (Opendir (cstr s))) (\<lambda>r. aret (r_ret r))"

text \<open>The home directory of a user, if there is such a user.\<close>

definition str_getpwnam :: "string \<Rightarrow> string option act" where
  "str_getpwnam s = abind (sys (Getpwnam (cstr s))) (\<lambda>r. aret (map_option cstr (r_text r)))"

section \<open>Sockets\<close>

definition vsf_sysutil_get_ipsock :: "vsf_sysutil_sockaddr \<Rightarrow> int act" where
  "vsf_sysutil_get_ipsock p_addr =
     (if p_addr = AF_UNSPEC then astop (Bug ''bad family'')
      else abind (die_if ''socket'' (\<lambda>r. r_ret r < 0) (Socket (vsf_sysutil_sockaddr_is_ipv6 p_addr)))
             (\<lambda>r. aret (r_ret r)))"

definition vsf_sysutil_bind :: "int \<Rightarrow> vsf_sysutil_sockaddr \<Rightarrow> reply act" where
  "vsf_sysutil_bind fd p =
     (if p = AF_UNSPEC then astop (Die ''can only support ipv4 and ipv6 currently'') else sys (Bind fd p))"

definition vsf_sysutil_listen :: "int \<Rightarrow> reply act" where
  "vsf_sysutil_listen fd = die_if ''listen'' (\<lambda>r. r_ret r < 0 \<and> r_errno r \<noteq> ADDRINUSE) (ListenOn fd)"

definition vsf_sysutil_accept_timeout :: "int \<Rightarrow> (int \<times> vsf_sysutil_sockaddr) act" where
  "vsf_sysutil_accept_timeout fd =
     abind (die_if ''can only support ipv4 and ipv6 currently'' (\<lambda>r. r_ret r \<ge> 0 \<and> r_addr r = AF_UNSPEC)
              (AcceptOn fd))
       (\<lambda>r. aret (r_ret r, r_addr r))"

definition vsf_sysutil_connect_timeout :: "int \<Rightarrow> vsf_sysutil_sockaddr \<Rightarrow> int act" where
  "vsf_sysutil_connect_timeout fd p_addr =
     (if p_addr = AF_UNSPEC then astop (Die ''can only support ipv4 and ipv6 currently'')
      else abind (sys (Connect fd p_addr)) (\<lambda>r. aret (r_ret r)))"

definition vsf_sysutil_get_random_byte :: "nat act" where
  "vsf_sysutil_get_random_byte = abind (sys RandomByte) (\<lambda>r. aret (nat (r_ret r mod 256)))"

text \<open>The loop of \<open>vsf_sysutil_sendfile\<close>; a round sends at least a byte, so \<open>num_send\<close> rounds suffice.\<close>

fun sendfile_loop :: "nat \<Rightarrow> int \<Rightarrow> int \<Rightarrow> int \<Rightarrow> int \<Rightarrow> int \<Rightarrow> (int \<times> int) act" where
  "sendfile_loop fuel out_fd in_fd offset num_send max_chunk =
     (if num_send \<le> 0 then aret (0, offset)
      else case fuel of
        0 \<Rightarrow> astop Hang
      | Suc n \<Rightarrow>
          aseq (vsf_sysutil_lseek_to in_fd offset)
          (abind (sys (Sendfile out_fd in_fd offset (min num_send max_chunk))) (\<lambda>r.
             if r_ret r \<le> 0 then aret (r_ret r, offset)
             else sendfile_loop n out_fd in_fd (offset + r_ret r) (num_send - r_ret r) max_chunk)))"

definition vsf_sysutil_sendfile :: "int \<Rightarrow> int \<Rightarrow> int \<Rightarrow> int \<Rightarrow> int \<Rightarrow> (int \<times> int) act" where
  "vsf_sysutil_sendfile out_fd in_fd offset num_send max_chunk =
     (if offset < 0 \<or> num_send < 0 then astop (Die ''invalid offset or send count in vsf_sysutil_sendfile'')
      else sendfile_loop (nat num_send) out_fd in_fd offset num_send
             (if max_chunk = 0 then int INT_MAX else max_chunk))"

declare sendfile_loop.simps [simp del]

section \<open>Invariants of actions\<close>

text \<open>
  The judgement of the proofs about a session: the action keeps the invariant \<open>I\<close>, its value satisfies \<open>F\<close>, and a
  fault leaves a state in \<open>E\<close>.
\<close>

definition gives :: "(world \<Rightarrow> bool) \<Rightarrow> (fault \<Rightarrow> world \<Rightarrow> bool) \<Rightarrow> 'a act \<Rightarrow> ('a \<Rightarrow> bool) \<Rightarrow> bool" where
  "gives I E m F \<longleftrightarrow> avalid I m (\<lambda>x w. I w \<and> F x) E"

abbreviation keeps :: "(world \<Rightarrow> bool) \<Rightarrow> (fault \<Rightarrow> world \<Rightarrow> bool) \<Rightarrow> 'a act \<Rightarrow> bool" where
  "keeps I E m \<equiv> gives I E m (\<lambda>_. True)"

text \<open>Every fault that the program chooses itself may end a state in \<open>I\<close>.\<close>

definition endable :: "(world \<Rightarrow> bool) \<Rightarrow> (fault \<Rightarrow> world \<Rightarrow> bool) \<Rightarrow> bool" where
  "endable I E \<longleftrightarrow> (\<forall>e w. benign e \<longrightarrow> I w \<longrightarrow> E e w)"

named_theorems keeps_intros \<open>introduction rules for invariants of actions\<close>

lemma gives_weaken: "gives I E m F \<Longrightarrow> (\<And>x. F x \<Longrightarrow> G x) \<Longrightarrow> gives I E m G"
  unfolding gives_def by (erule avalid_post) auto

lemma gives_bind: "gives I E m F \<Longrightarrow> (\<And>x. F x \<Longrightarrow> gives I E (f x) G) \<Longrightarrow> gives I E (abind m f) G"
  unfolding gives_def
  by (rule avalid_abind, assumption) (auto simp: avalid_def)

lemma gives_seq: "keeps I E m \<Longrightarrow> gives I E n G \<Longrightarrow> gives I E (aseq m n) G"
  unfolding aseq_def by (rule gives_bind)

lemma gives_ret: "F x \<Longrightarrow> gives I E (aret x) F"
  by (simp add: gives_def avalid_aret)

lemma gives_stop: "(\<And>w. I w \<Longrightarrow> E e w) \<Longrightarrow> gives I E (astop e) F"
  by (simp add: gives_def avalid_astop)

lemma gives_die: "endable I E \<Longrightarrow> benign e \<Longrightarrow> gives I E (astop e) F"
  by (rule gives_stop) (simp add: endable_def)

lemma gives_with: "(\<And>w. I w \<Longrightarrow> gives I E (f w) F) \<Longrightarrow> gives I E (awith f) F"
  by (auto simp: gives_def avalid_def awith_def)

lemma gives_if: "(C \<Longrightarrow> gives I E m F) \<Longrightarrow> (\<not> C \<Longrightarrow> gives I E n F) \<Longrightarrow> gives I E (if C then m else n) F"
  by simp

lemma gives_when: "(C \<Longrightarrow> keeps I E m) \<Longrightarrow> keeps I E (awhen C m)"
  by (simp add: awhen_def gives_ret)

lemma gives_lift: "(\<And>e w. r = Inl e \<Longrightarrow> I w \<Longrightarrow> E e w) \<Longrightarrow> (\<And>x. r = Inr x \<Longrightarrow> F x) \<Longrightarrow> gives I E (alift r) F"
  by (simp add: gives_def avalid_def alift_def split: sum.splits)

lemma gives_sys: "(\<And>w. I w \<Longrightarrow> I (w\<lparr>trace := trace w @ [c]\<rparr>)) \<Longrightarrow> keeps I E (sys c)"
  by (simp add: gives_def avalid_def sys_def)

lemma gives_upd: "(\<And>w. I w \<Longrightarrow> I (w\<lparr>child := f (child w)\<rparr>)) \<Longrightarrow> keeps I E (upd_child f)"
  by (simp add: gives_def avalid_upd)

text \<open>For invariants that do not look at the replies.\<close>

lemma gives_emit:
  assumes "reply_stable I" and "endable I E" and "\<And>ks e. wr ks = Inl e \<Longrightarrow> benign e"
  shows "keeps I E (emit wr)"
  using assms by (auto simp: gives_def avalid_def emit_def reply_stable_def endable_def split: sum.splits)

lemma gives_replies:
  assumes "reply_stable I" and "endable I E"
  shows "keeps I E (cmdio_write st tx)" and "keeps I E (cmdio_write_hyphen st tx)"
    and "tx \<noteq> [] \<Longrightarrow> keeps I E (cmdio_write_raw tx)" and "gives I E (cmdio_write_exit st tx) F"
  unfolding cmdio_write_def cmdio_write_hyphen_def cmdio_write_raw_def cmdio_write_exit_def
  by (auto intro!: gives_emit [OF assms] gives_seq gives_die [OF assms(2)] dest: cmdio_writers_benign write_common_benign)

section \<open>The socket pair between the processes\<close>

text \<open>Sending and receiving by the functions of \<open>Privsock\<close>, by the child and by the parent.\<close>

definition child_send :: "(answer list \<Rightarrow> (string \<times> answer list) res) \<Rightarrow> unit act" where
  "child_send f w =
     (case f (req_w w) of
        Inl e \<Rightarrow> (Inl e, w)
      | Inr (b, ks) \<Rightarrow> (Inr (), w\<lparr>to_parent := to_parent w @ b, req_w := ks\<rparr>))"

definition parent_recv :: "(stream \<Rightarrow> ('a \<times> stream) res) \<Rightarrow> 'a act" where
  "parent_recv g w =
     (case g \<lparr>input = to_parent w, answers = req_r w\<rparr> of
        Inl e \<Rightarrow> (Inl e, w)
      | Inr (x, st) \<Rightarrow> (Inr x, w\<lparr>to_parent := input st, req_r := answers st\<rparr>))"

definition parent_send :: "(answer list \<Rightarrow> (string \<times> answer list) res) \<Rightarrow> unit act" where
  "parent_send f w =
     (case f (rep_w w) of
        Inl e \<Rightarrow> (Inl e, w)
      | Inr (b, ks) \<Rightarrow> (Inr (), w\<lparr>to_child := to_child w @ b, rep_w := ks\<rparr>))"

definition child_recv :: "(stream \<Rightarrow> ('a \<times> stream) res) \<Rightarrow> 'a act" where
  "child_recv g w =
     (case g \<lparr>input = to_child w, answers = rep_r w\<rparr> of
        Inl e \<Rightarrow> (Inl e, w)
      | Inr (x, st) \<Rightarrow> (Inr x, w\<lparr>to_child := input st, rep_r := answers st\<rparr>))"

text \<open>A descriptor travels with one byte, which the model leaves out.\<close>

definition child_send_fd :: "int \<Rightarrow> unit act" where
  "child_send_fd fd w = (Inr (), w\<lparr>fds_to_parent := fds_to_parent w @ [fd]\<rparr>)"

definition parent_recv_fd :: "int act" where
  "parent_recv_fd w =
     (case fds_to_parent w of [] \<Rightarrow> (Inl (Die ''recvmsg''), w) | fd # fds \<Rightarrow> (Inr fd, w\<lparr>fds_to_parent := fds\<rparr>))"

definition parent_send_fd :: "int \<Rightarrow> unit act" where
  "parent_send_fd fd w = (Inr (), w\<lparr>fds_to_child := fds_to_child w @ [fd]\<rparr>)"

definition child_recv_fd :: "int act" where
  "child_recv_fd w =
     (case fds_to_child w of [] \<Rightarrow> (Inl (Die ''recvmsg''), w) | fd # fds \<Rightarrow> (Inr fd, w\<lparr>fds_to_child := fds\<rparr>))"

text \<open>Reading a whole file by name; a null name cannot be opened.\<close>

definition sys_fileread :: "string option \<Rightarrow> nat \<Rightarrow> (int \<times> string) act" where
  "sys_fileread p_filename maxsize =
     (case p_filename of
        None \<Rightarrow> aret (-1, [])
      | Some f \<Rightarrow> abind (sys (ReadFile f)) (\<lambda>r. alift (str_fileread (r_file r) maxsize)))"

end
