(* ===== verification/Privops.thy ===== *)
theory Privops
  imports Syscalls
begin

text \<open>
  The privileged side (\<^verbatim>\<open>apps/vsftpd-2.2.0/privops.c\<close>): the login decision, the data sockets and the change of
  owner of an upload. In the source the user name argument of \<open>handle_login\<close> and \<open>handle_local_login\<close> is the
  field \<open>user_str\<close> of the session itself; the model reads and writes that field. \<open>vsf_sysdep_check_auth\<close> asks PAM,
  which is a parameter: it answers whether the user is authenticated and what it leaves in the user name,
  which PAM may replace. The log entry of the login, the process title and the pauses are left out.

  The operations on data sockets run on the session of the calling process: the child's own in the
  one-process model, the parent's otherwise.
\<close>

section \<open>Logins\<close>

datatype EVSFPrivopLoginResult = kVSFLoginNull | kVSFLoginFail | kVSFLoginAnon | kVSFLoginReal

definition VSFTP_USERNAME_MAX :: nat where
  "VSFTP_USERNAME_MAX = 128"

definition VSFTP_PASSWORD_MAX :: nat where
  "VSFTP_PASSWORD_MAX = 128"

text \<open>User name, password and remote address to the answer and the user name afterwards.\<close>

type_synonym auth = "string \<Rightarrow> string \<Rightarrow> string \<Rightarrow> bool \<times> string"

definition setup_username_globals :: "vsf_session \<Rightarrow> string \<Rightarrow> vsf_session" where
  "setup_username_globals s p_str = s\<lparr>user_str := p_str\<rparr>"

definition handle_local_login :: "auth \<Rightarrow> vsf_session \<Rightarrow> string \<Rightarrow> EVSFPrivopLoginResult \<times> vsf_session" where
  "handle_local_login check_auth s pass =
     (let (ok, name) = check_auth (user_str s) pass (remote_ip_str s);
          s1 = s\<lparr>user_str := name\<rparr>
      in if \<not> ok then (kVSFLoginFail, s1)
         else (kVSFLoginReal, setup_username_globals s1 (user_str s1)))"

definition handle_anonymous_login ::
  "tunables \<Rightarrow> vsf_session \<Rightarrow> string \<Rightarrow> (EVSFPrivopLoginResult \<times> vsf_session) res" where
  "handle_anonymous_login t s pass =
     (if banned_email_str s \<noteq> [] \<and> pass \<in> set (t_lines (banned_email_str s)) then Inr (kVSFLoginFail, s)
      else if email_passwords_str s \<noteq> [] \<and> (pass \<notin> set (t_lines (email_passwords_str s)) \<or> pass = [])
      then Inr (kVSFLoginFail, s)
      else
        let ident = (if pass = [] then ''?'' else pass);
            s1 = s\<lparr>anon_pass_str := t_replace_char (t_replace_char ident CHR '' '' CHR ''_'') LF CHR ''?''\<rparr>
        in case tstr t ''ftp_username'' of
             None \<Rightarrow> Inl Overrun
           | Some name \<Rightarrow>
               Inr (kVSFLoginAnon,
                 (setup_username_globals s1 name)\<lparr>banned_email_str := [], email_passwords_str := []\<rparr>))"

definition handle_login ::
  "tunables \<Rightarrow> auth \<Rightarrow> vsf_session \<Rightarrow> string \<Rightarrow> (EVSFPrivopLoginResult \<times> vsf_session) res" where
  "handle_login t check_auth s pass =
     (let user = user_str s; len = length user in
      if len = 0 \<or> len > VSFTP_USERNAME_MAX then Inr (kVSFLoginFail, s)
      else
        let first_char = user ! 0 in
        if \<not> vsf_sysutil_isalnum first_char \<and> first_char \<noteq> CHR ''_'' \<and> first_char \<noteq> CHR ''.''
        then Inr (kVSFLoginFail, s)
        else if list_ex vsf_sysutil_isspace user \<or> list_ex (\<lambda>c. \<not> vsf_sysutil_isprint c) user
        then Inr (kVSFLoginFail, s)
        else if length pass > VSFTP_PASSWORD_MAX then Inr (kVSFLoginFail, s)
        else
          let anonymous_login =
            (tbool t ''anonymous_enable'' \<and> (t_upper user = ''FTP'' \<or> t_upper user = ''ANONYMOUS''))
          in if anonymous_login then handle_anonymous_login t s pass
             else if \<not> tbool t ''local_enable'' then Inl (Die ''unexpected local login in handle_login'')
             else Inr (handle_local_login check_auth s pass))"

definition vsf_privop_do_login ::
  "tunables \<Rightarrow> auth \<Rightarrow> vsf_session \<Rightarrow> string \<Rightarrow> (EVSFPrivopLoginResult \<times> vsf_session) res" where
  "vsf_privop_do_login t check_auth s pass = handle_login t check_auth s pass"

section \<open>Data sockets and uploads\<close>

datatype side = OnChild | OnParent

fun sess :: "side \<Rightarrow> world \<Rightarrow> vsf_session" where
  "sess OnChild w = child w"
| "sess OnParent w = parent w"

fun upd_sess :: "side \<Rightarrow> (vsf_session \<Rightarrow> vsf_session) \<Rightarrow> unit act" where
  "upd_sess OnChild f = upd_child f"
| "upd_sess OnParent f = (\<lambda>w. (Inr (), w\<lparr>parent := f (parent w)\<rparr>))"

text \<open>Two attempts to bind the local end of a data connection to the client.\<close>

fun port_bind_loop :: "nat \<Rightarrow> side \<Rightarrow> int \<Rightarrow> nat \<Rightarrow> unit act" where
  "port_bind_loop 0 sd s port = aret ()"
| "port_bind_loop (Suc n) sd s port = awith (\<lambda>w.
     abind (alift (rbind (vsf_sysutil_sockaddr_clone (p_local_addr (sess sd w)))
              (\<lambda>p. vsf_sysutil_sockaddr_set_port p (port mod 65536)))) (\<lambda>p_sockaddr.
     abind (vsf_sysutil_bind s p_sockaddr) (\<lambda>r.
       if r_ret r = 0 then aret ()
       else if r_errno r \<noteq> ADDRINUSE \<or> n = 0 then astop (Die ''vsf_sysutil_bind'')
       else abind vsf_sysutil_get_random_byte (\<lambda>_. port_bind_loop n sd s port))))"

definition vsf_privop_get_ftp_port_sock :: "tunables \<Rightarrow> side \<Rightarrow> nat \<Rightarrow> int act" where
  "vsf_privop_get_ftp_port_sock t sd remote_port = awith (\<lambda>w.
     abind (vsf_sysutil_get_ipsock (p_local_addr (sess sd w))) (\<lambda>s.
     if vsf_sysutil_is_port_reserved remote_port then astop (Die ''Illegal port request'')
     else
       aseq (port_bind_loop 2 sd s (if tbool t ''connect_from_port_20'' then tuint t ''ftp_data_port'' else 0))
       (abind (alift (vsf_sysutil_sockaddr_set_port (p_remote_addr (sess sd w)) remote_port)) (\<lambda>p_remote.
        aseq (upd_sess sd (\<lambda>v. v\<lparr>p_remote_addr := p_remote\<rparr>))
        (abind (vsf_sysutil_connect_timeout s p_remote) (\<lambda>retval.
           if retval < 0 then aseq (vsf_sysutil_close s) (aret (-1)) else aret s))))))"

definition vsf_privop_pasv_cleanup :: "side \<Rightarrow> unit act" where
  "vsf_privop_pasv_cleanup sd = awith (\<lambda>w.
     if pasv_listen_fd (sess sd w) \<noteq> -1
     then aseq (vsf_sysutil_close (pasv_listen_fd (sess sd w))) (upd_sess sd (\<lambda>v. v\<lparr>pasv_listen_fd := -1\<rparr>))
     else aret ())"

definition vsf_privop_pasv_active :: "side \<Rightarrow> bool act" where
  "vsf_privop_pasv_active sd = awith (\<lambda>w. aret (pasv_listen_fd (sess sd w) \<noteq> -1))"

text \<open>The range of ports, and the scaling of sixteen random bits into it, which the source does in \<open>double\<close>, exactly.\<close>

definition pasv_ports :: "tunables \<Rightarrow> nat \<times> nat" where
  "pasv_ports t =
     (let lo = tuint t ''pasv_min_port''; hi = tuint t ''pasv_max_port'';
          min_port = (if lo > 1024 \<and> lo \<le> 65535 then lo else 1024);
          max_port = (if hi \<ge> min_port \<and> hi < 65535 then hi else 65535)
      in (min_port, max_port))"

definition scale_port :: "nat \<Rightarrow> nat \<Rightarrow> nat \<Rightarrow> nat" where
  "scale_port min_port max_port r = min_port + r * (max_port - min_port + 1) div 65536"

fun pasv_bind_loop :: "nat \<Rightarrow> tunables \<Rightarrow> side \<Rightarrow> nat act" where
  "pasv_bind_loop 0 t sd = astop (Die ''vsf_sysutil_bind'')"
| "pasv_bind_loop (Suc n) t sd =
     abind vsf_sysutil_get_random_byte (\<lambda>hi. abind vsf_sysutil_get_random_byte (\<lambda>lo. awith (\<lambda>w.
       let the_port = scale_port (fst (pasv_ports t)) (snd (pasv_ports t)) (hi * 256 + lo);
           fd = pasv_listen_fd (sess sd w);
           again = (\<lambda>r. if r_errno r = ADDRINUSE \<or> r_errno r = ACCES then pasv_bind_loop n t sd
                        else astop (Die ''vsf_sysutil_bind / listen''))
       in abind (alift (rbind (vsf_sysutil_sockaddr_clone (p_local_addr (sess sd w)))
                   (\<lambda>p. vsf_sysutil_sockaddr_set_port p the_port))) (\<lambda>p_sockaddr.
          abind (vsf_sysutil_bind fd p_sockaddr) (\<lambda>r.
            if r_ret r < 0 then again r
            else abind (vsf_sysutil_listen fd) (\<lambda>r1. if r_ret r1 < 0 then again r1 else aret the_port))))))"

text \<open>The source decrements its counter of ten before each attempt and fails when it reaches 0: nine attempts.\<close>

definition vsf_privop_pasv_listen :: "tunables \<Rightarrow> side \<Rightarrow> nat act" where
  "vsf_privop_pasv_listen t sd = awith (\<lambda>w.
     abind (die_if ''socket'' (\<lambda>r. r_ret r < 0) (Socket (vsf_sysutil_sockaddr_is_ipv6 (p_local_addr (sess sd w))))) (\<lambda>r.
     aseq (upd_sess sd (\<lambda>v. v\<lparr>pasv_listen_fd := r_ret r\<rparr>)) (pasv_bind_loop 9 t sd)))"

definition vsf_privop_accept_pasv :: "tunables \<Rightarrow> side \<Rightarrow> int act" where
  "vsf_privop_accept_pasv t sd = awith (\<lambda>w.
     abind (vsf_sysutil_accept_timeout (pasv_listen_fd (sess sd w))) (\<lambda>(remote_fd, p_accept_addr).
       if remote_fd < 0 then aret (-1)
       else if \<not> tbool t ''pasv_promiscuous'' \<and>
         \<not> vsf_sysutil_sockaddr_addr_equal (p_remote_addr (sess sd w)) p_accept_addr
       then aseq (vsf_sysutil_close remote_fd) (aret (-2))
       else aret remote_fd))"

definition vsf_privop_do_file_chown :: "side \<Rightarrow> int \<Rightarrow> unit act" where
  "vsf_privop_do_file_chown sd fd =
     abind (vsf_sysutil_fstat fd) (\<lambda>r. awith (\<lambda>w.
       let s = sess sd w in
       if r_uid r = anon_upload_chown_uid s then aret ()
       else if anon_upload_chown_uid s = -1 \<or> \<not> r_regfile r \<or>
         (r_uid r \<noteq> anon_ftp_uid s \<and> r_uid r \<noteq> guest_user_uid s)
       then astop (Die ''invalid fd in cmd_process_chown'')
       else vsf_sysutil_fchown fd (anon_upload_chown_uid s)))"

lemma scale_port_range:
  assumes "lo \<le> hi" and "r < 65536"
  shows "lo \<le> scale_port lo hi r \<and> scale_port lo hi r \<le> hi"
proof -
  have "r * (hi - lo + 1) div 65536 \<le> hi - lo"
  proof -
    have "r * (hi - lo + 1) < 65536 * (hi - lo + 1)" using assms(2) by (intro mult_strict_right_mono) auto
    then have "r * (hi - lo + 1) div 65536 < hi - lo + 1" by (simp add: less_mult_imp_div_less mult.commute)
    then show ?thesis by simp
  qed
  then show ?thesis using assms(1) by (simp add: scale_port_def)
qed

lemma pasv_ports_range:
  "fst (pasv_ports t) \<le> snd (pasv_ports t) \<and> 1024 \<le> fst (pasv_ports t) \<and> snd (pasv_ports t) \<le> 65535"
  by (simp add: pasv_ports_def Let_def)

section \<open>What a login needs\<close>

definition anon_name :: "string \<Rightarrow> bool" where
  "anon_name u \<longleftrightarrow> t_upper u = ''FTP'' \<or> t_upper u = ''ANONYMOUS''"

definition name_ok :: "string \<Rightarrow> bool" where
  "name_ok u \<longleftrightarrow>
     u \<noteq> [] \<and> length u \<le> VSFTP_USERNAME_MAX \<and>
     (vsf_sysutil_isalnum (hd u) \<or> hd u = CHR ''_'' \<or> hd u = CHR ''.'') \<and>
     list_all (\<lambda>c. \<not> vsf_sysutil_isspace c \<and> vsf_sysutil_isprint c) u"

definition email_ok :: "vsf_session \<Rightarrow> string \<Rightarrow> bool" where
  "email_ok s pass \<longleftrightarrow>
     pass \<notin> set (t_lines (banned_email_str s)) \<and>
     (email_passwords_str s = [] \<or> pass \<in> set (t_lines (email_passwords_str s)) \<and> pass \<noteq> [])"

lemma handle_login_cases:
  "handle_login t check_auth s pass =
     (if \<not> name_ok (user_str s) \<or> length pass > VSFTP_PASSWORD_MAX then Inr (kVSFLoginFail, s)
      else if tbool t ''anonymous_enable'' \<and> anon_name (user_str s) then handle_anonymous_login t s pass
      else if \<not> tbool t ''local_enable'' then Inl (Die ''unexpected local login in handle_login'')
      else Inr (handle_local_login check_auth s pass))"
  by (cases "user_str s")
    (auto simp: handle_login_def name_ok_def anon_name_def list_ex_iff list_all_iff Let_def)

lemma do_login_kinds:
  "vsf_privop_do_login t check_auth s pass = Inr (r, s1) \<Longrightarrow>
   r \<noteq> kVSFLoginNull \<and> (r = kVSFLoginAnon \<longrightarrow> tstr t ''ftp_username'' \<noteq> None)"
  by (auto simp: vsf_privop_do_login_def handle_login_cases handle_anonymous_login_def handle_local_login_def
      Let_def split: if_splits option.splits prod.splits)

section \<open>Properties\<close>

text \<open>
  C13: the privileged side lets in only whom it should, whatever the unprivileged side sends. A
  granted login has a user name of at most 128 printable characters without spaces and a
  password of at most 128; it is anonymous only if anonymous access is enabled, the name is \<open>ftp\<close> or \<open>anonymous\<close>
  and the e-mail rules allow the password, and then runs under the configured anonymous user with an
  identity that has no space or line feed to confuse the log; it is a real login only if local logins are
  enabled and PAM has authenticated the name and password. A refused login leaves the e-mail lists as they
  were.
\<close>

theorem login_sound:
  assumes "vsf_privop_do_login t check_auth s pass = Inr (r, s1)"
  shows "(r = kVSFLoginFail \<longrightarrow>
            banned_email_str s1 = banned_email_str s \<and> email_passwords_str s1 = email_passwords_str s) \<and>
         (r \<noteq> kVSFLoginFail \<longrightarrow> name_ok (user_str s) \<and> length pass \<le> 128) \<and>
         (r = kVSFLoginAnon \<longrightarrow>
            tbool t ''anonymous_enable'' \<and> anon_name (user_str s) \<and> email_ok s pass \<and>
            tstr t ''ftp_username'' = Some (user_str s1) \<and> set (anon_pass_str s1) \<inter> {CHR '' '', LF} = {}) \<and>
         (r = kVSFLoginReal \<longrightarrow>
            tbool t ''local_enable'' \<and> check_auth (user_str s) pass (remote_ip_str s) = (True, user_str s1)) \<and>
         r \<noteq> kVSFLoginNull"
proof -
  have clean: "set (t_replace_char (t_replace_char u CHR '' '' CHR ''_'') LF CHR ''?'') \<inter> {CHR '' '', LF} = {}" for u
    by (auto simp: t_replace_char_def split: if_splits)
  have ban: "pass \<notin> set (t_lines (banned_email_str s))"
    if "banned_email_str s = [] \<or> pass \<notin> set (t_lines (banned_email_str s))" using that by auto
  show ?thesis
    using assms clean ban
    by (auto simp: vsf_privop_do_login_def handle_login_cases handle_anonymous_login_def handle_local_login_def
        setup_username_globals_def email_ok_def VSFTP_PASSWORD_MAX_def Let_def
        split: if_splits option.splits prod.splits)
qed

definition demo_session :: vsf_session where
  "demo_session = \<lparr>p_local_addr = AF_INET [CHR 0x0A, NUL, NUL, CHR 0x01] 21,
     p_remote_addr = AF_INET [CHR 0x0A, NUL, NUL, CHR 0x02] 40000, pasv_listen_fd = -1, p_port_sockaddr = None,
     data_fd = -1, bw_rate_max = 0, is_anonymous = True, is_guest = False, user_str = ''anna'',
     anon_pass_str = [], restart_pos = 0, is_ascii = True, rnfr_filename_str = [], abor_received = False,
     epsv_all = False, p_visited_dir_list = [], anon_ftp_uid = -1, guest_user_uid = -1,
     anon_upload_chown_uid = -1, banned_email_str = [], email_passwords_str = [], userlist_str = [],
     banner_str = [], tcp_wrapper_ok = True, remote_ip_str = ''10.0.0.2'', log_type = None, log_str = [],
     transfer_size = 0, ftp_cmd_str = [], ftp_arg_str = [], num_clients = 0, num_this_ip = 0,
     home_str = [], control_use_ssl = False, data_use_ssl = False, login_fails = 0\<rparr>"

theorem login_sound_witness:
  "vsf_privop_do_login \<lparr>tbool = (\<lambda>_. True), tuint = (\<lambda>_. 0), tstr = (\<lambda>_. None)\<rparr>
       (\<lambda>u p a. (p = ''secret'', u)) demo_session ''secret'' = Inr (kVSFLoginReal, demo_session) \<and>
   name_ok ''anna''"
proof -
  let ?t = "\<lparr>tbool = (\<lambda>_. True), tuint = (\<lambda>_. 0), tstr = (\<lambda>_. None)\<rparr>"
  have "vsf_privop_do_login ?t (\<lambda>u p a. (p = ''secret'', u)) demo_session ''secret'' =
      Inr (kVSFLoginReal, demo_session)"
    by (simp add: vsf_privop_do_login_def handle_login_def demo_session_def handle_local_login_def
        setup_username_globals_def vsf_sysutil_isalnum_def vsf_sysutil_isspace_def vsf_sysutil_isprint_def
        t_upper_def vsf_sysutil_toupper_def VSFTP_USERNAME_MAX_def VSFTP_PASSWORD_MAX_def Let_def)
  then show ?thesis using login_sound [of ?t "\<lambda>u p a. (p = ''secret'', u)" demo_session "''secret''"]
    by (auto simp: demo_session_def)
qed

end
