(* ===== verification/Prelogin.thy ===== *)
theory Prelogin
  imports Privops
begin

text \<open>
  The life of a connection before the login: \<^verbatim>\<open>prelogin.c\<close>, with the replies of \<^verbatim>\<open>features.c\<close>, \<^verbatim>\<open>opts.c\<close> and
  \<^verbatim>\<open>banner.c\<close>, and the login exchange of \<^verbatim>\<open>oneprocess.c\<close> and \<^verbatim>\<open>twoprocess.c\<close> up to the point where the session after
  the login starts. The build options (\<^verbatim>\<open>builddefs.h\<close>) compile the program without SSL: \<open>handle_auth\<close>,
  \<open>handle_pbsz\<close>, \<open>handle_prot\<close> and \<open>ssl_control_handshake\<close> are the empty functions at the end of \<^verbatim>\<open>ssl.c\<close>.
  Alarms, log lines, pauses and process titles are left out.
\<close>

section \<open>Replies that need no state\<close>

definition FTP_FEAT :: nat where "FTP_FEAT = 211"
definition FTP_GREET :: nat where "FTP_GREET = 220"
definition FTP_GOODBYE :: nat where "FTP_GOODBYE = 221"
definition FTP_GIVEPWORD :: nat where "FTP_GIVEPWORD = 331"
definition FTP_TOO_MANY_USERS :: nat where "FTP_TOO_MANY_USERS = 421"
definition FTP_IP_LIMIT :: nat where "FTP_IP_LIMIT = 421"
definition FTP_IP_DENY :: nat where "FTP_IP_DENY = 421"
definition FTP_BADOPTS :: nat where "FTP_BADOPTS = 501"
definition FTP_NEEDUSER :: nat where "FTP_NEEDUSER = 503"
definition FTP_LOGINERR :: nat where "FTP_LOGINERR = 530"
definition FTP_OPTSOK :: nat where "FTP_OPTSOK = 200"

fun banner_lines :: "nat \<Rightarrow> string list \<Rightarrow> unit act" where
  "banner_lines ftpcode [] = aret ()"
| "banner_lines ftpcode (l # ls) =
     aseq (emit (ftp_write_str_common ftpcode CHR ''-'' l False)) (banner_lines ftpcode ls)"

definition vsf_banner_write :: "string \<Rightarrow> nat \<Rightarrow> unit act" where
  "vsf_banner_write p_str ftpcode = banner_lines ftpcode (t_lines p_str)"

fun raw_lines :: "string list \<Rightarrow> unit act" where
  "raw_lines [] = aret ()"
| "raw_lines (l # ls) = aseq (emit (vsf_cmdio_write_raw (l @ [CR, LF]))) (raw_lines ls)"

definition handle_feat :: "tunables \<Rightarrow> unit act" where
  "handle_feat t =
     aseq (emit (vsf_cmdio_write_hyphen FTP_FEAT ''Features:''))
     (aseq (raw_lines
        ((if tbool t ''ssl_enable'' then ['' AUTH SSL'', '' AUTH TLS''] else []) @
         (if tbool t ''port_enable'' then ['' EPRT''] else []) @
         (if tbool t ''pasv_enable'' then ['' EPSV''] else []) @ ['' MDTM''] @
         (if tbool t ''pasv_enable'' then ['' PASV''] else []) @
         (if tbool t ''ssl_enable'' then ['' PBSZ'', '' PROT''] else []) @
         ['' REST STREAM'', '' SIZE'', '' TVFS'', '' UTF8'']))
     (cmdio_write FTP_FEAT ''End''))"

definition handle_opts :: "unit act" where
  "handle_opts =
     aseq (upd_child (\<lambda>s. s\<lparr>ftp_arg_str := t_upper (ftp_arg_str s)\<rparr>)) (awith (\<lambda>w.
       if ftp_arg_str (child w) = ''UTF8 ON'' then cmdio_write FTP_OPTSOK ''Always in UTF8 mode.''
       else cmdio_write FTP_BADOPTS ''Option not understood.''))"

section \<open>Limits and greeting\<close>

definition check_limits :: "tunables \<Rightarrow> unit act" where
  "check_limits t = awith (\<lambda>w.
     let s = child w in
     if tuint t ''max_clients'' > 0 \<and> num_clients s > tuint t ''max_clients''
     then cmdio_write_exit FTP_TOO_MANY_USERS ''There are too many connected users, please try later.''
     else if tuint t ''max_per_ip'' > 0 \<and> num_this_ip s > tuint t ''max_per_ip''
     then cmdio_write_exit FTP_IP_LIMIT ''There are too many connections from your internet address.''
     else if \<not> tcp_wrapper_ok s then cmdio_write_exit FTP_IP_DENY ''Service not available.''
     else aret ())"

definition emit_greeting :: "tunables \<Rightarrow> unit act" where
  "emit_greeting t = awith (\<lambda>w.
     if banner_str (child w) \<noteq> []
     then aseq (vsf_banner_write (banner_str (child w)) FTP_GREET)
          (aseq (upd_child (\<lambda>s. s\<lparr>banner_str := []\<rparr>)) (cmdio_write FTP_GREET []))
     else case tstr t ''ftpd_banner'' of
            None \<Rightarrow> cmdio_write FTP_GREET ''(vsFTPd 2.2.0)''
          | Some b \<Rightarrow> cmdio_write FTP_GREET b)"

section \<open>Asking for a login\<close>

definition PRIV_SOCK_LOGIN :: char where "PRIV_SOCK_LOGIN = CHR 0x01"
definition PRIV_SOCK_RESULT_OK :: char where "PRIV_SOCK_RESULT_OK = CHR 0x01"
definition PRIV_SOCK_RESULT_BAD :: char where "PRIV_SOCK_RESULT_BAD = CHR 0x02"

definition flag_int :: "bool \<Rightarrow> int" where
  "flag_int b = (if b then 1 else 0)"

text \<open>The request of the child: command, user name, password and the two SSL flags.\<close>

definition login_request :: "vsf_session \<Rightarrow> string \<Rightarrow> answer list \<Rightarrow> (string \<times> answer list) res" where
  "login_request s pass ks =
     rbind (priv_sock_send_cmd PRIV_SOCK_LOGIN ks) (\<lambda>(b1, ks1).
     rbind (priv_sock_send_str (user_str s) ks1) (\<lambda>(b2, ks2).
     rbind (priv_sock_send_str pass ks2) (\<lambda>(b3, ks3).
     rbind (priv_sock_send_int (flag_int (control_use_ssl s)) ks3) (\<lambda>(b4, ks4).
     rbind (priv_sock_send_int (flag_int (data_use_ssl s)) ks4) (\<lambda>(b5, ks5).
       Inr (b1 @ b2 @ b3 @ b4 @ b5, ks5))))))"

text \<open>
  A granted login: its kind, and whether the session is to be confined to its directory. Whether a real user is
  confined is decided by \<open>chroot_local_user\<close>, turned round for the users on the list.
\<close>

type_synonym login = "EVSFPrivopLoginResult \<times> bool"

definition chroot_decision :: "tunables \<Rightarrow> string \<Rightarrow> bool act" where
  "chroot_decision t user =
     (let do_chroot = tbool t ''chroot_local_user'' in
      if \<not> tbool t ''chroot_list_enable'' then aret do_chroot
      else abind (sys_fileread (tstr t ''chroot_list_file'') VSFTP_CONF_FILE_MAX) (\<lambda>(retval, content).
        if retval < 0 then astop (Die ''could not read chroot() list file:'')
        else aret (if user \<in> set (t_lines content) then \<not> do_chroot else do_chroot)))"

definition upd_parent :: "(vsf_session \<Rightarrow> vsf_session) \<Rightarrow> unit act" where
  "upd_parent f = upd_sess OnParent f"

text \<open>
  \<open>process_login_req\<close> of the parent up to the result it sends, \<open>None\<close> for a refused login. After a granted login
  the parent goes on in \<open>common_do_login\<close>, whose first action is that result; it sets \<open>is_anonymous\<close> before it
  creates the process that serves the client.
\<close>

definition process_login_req :: "tunables \<Rightarrow> auth \<Rightarrow> login option act" where
  "process_login_req t check_auth =
     abind (parent_recv priv_sock_get_cmd) (\<lambda>cmd.
     if cmd \<noteq> PRIV_SOCK_LOGIN then astop (Die ''bad request'')
     else
       abind (parent_recv priv_sock_get_str) (\<lambda>user.
       abind (parent_recv priv_sock_get_str) (\<lambda>pass.
       abind (parent_recv priv_sock_get_int) (\<lambda>cssl.
       abind (parent_recv priv_sock_get_int) (\<lambda>dssl. awith (\<lambda>w.
         abind (alift (vsf_privop_do_login t check_auth
                  ((parent w)\<lparr>user_str := user,
                      control_use_ssl := (tbool t ''ssl_enable'' \<and> cssl \<noteq> 0),
                      data_use_ssl := (tbool t ''ssl_enable'' \<and> dssl \<noteq> 0)\<rparr>) pass)) (\<lambda>(r, p).
         aseq (upd_parent (\<lambda>_. p))
         (case r of
            kVSFLoginFail \<Rightarrow> aseq (parent_send (priv_sock_send_result PRIV_SOCK_RESULT_BAD)) (aret None)
          | kVSFLoginAnon \<Rightarrow>
              (case tstr t ''ftp_username'' of
                 None \<Rightarrow> astop Overrun
               | Some name \<Rightarrow>
                   aseq (parent_send (priv_sock_send_result PRIV_SOCK_RESULT_OK))
                   (aseq (upd_parent (\<lambda>p. p\<lparr>user_str := name, is_anonymous := True\<rparr>)) (aret (Some (r, True)))))
          | kVSFLoginReal \<Rightarrow>
              abind (chroot_decision t (user_str p)) (\<lambda>do_chroot.
              aseq (parent_send (priv_sock_send_result PRIV_SOCK_RESULT_OK))
              (aseq (upd_parent (\<lambda>p. p\<lparr>is_anonymous := False\<rparr>)) (aret (Some (r, do_chroot)))))
          | kVSFLoginNull \<Rightarrow> astop (Bug ''weird state in process_login_request'')))))))))"

definition note_asked :: "string \<Rightarrow> string \<Rightarrow> unit act" where
  "note_asked user pass w = (Inr (), w\<lparr>asked := asked w @ [(user, pass)]\<rparr>)"

text \<open>
  The login calls return \<open>None\<close> when they return in the source, and the login when they do not, because
  the session after the login has started. The parent serves the request while the child waits for the result.
\<close>

definition vsf_two_process_login :: "tunables \<Rightarrow> auth \<Rightarrow> string \<Rightarrow> login option act" where
  "vsf_two_process_login t check_auth pass = awith (\<lambda>w.
     aseq (child_send (login_request (child w) pass))
     (aseq (note_asked (user_str (child w)) pass)
     (abind (process_login_req t check_auth) (\<lambda>granted.
      abind (child_recv priv_sock_get_result) (\<lambda>result.
        if result = PRIV_SOCK_RESULT_OK then aret granted
        else if result = PRIV_SOCK_RESULT_BAD then aret None
        else astop (Die ''priv_sock_get_result''))))))"

text \<open>In the one-process model the whole process has been confined at its start.\<close>

definition vsf_one_process_login :: "tunables \<Rightarrow> auth \<Rightarrow> string \<Rightarrow> login option act" where
  "vsf_one_process_login t check_auth pass = awith (\<lambda>w.
     aseq (note_asked (user_str (child w)) pass)
     (abind (alift (vsf_privop_do_login t check_auth (child w) pass)) (\<lambda>(r, s).
      aseq (upd_child (\<lambda>_. s))
      (case r of
         kVSFLoginFail \<Rightarrow> aret None
       | kVSFLoginAnon \<Rightarrow> aseq (upd_child (\<lambda>s. s\<lparr>is_anonymous := True\<rparr>)) (aret (Some (r, True)))
       | _ \<Rightarrow> astop (Bug ''bad state in vsf_one_process_login'')))))"

section \<open>Commands before the login\<close>

definition check_login_fails :: "tunables \<Rightarrow> unit act" where
  "check_login_fails t =
     aseq (upd_child (\<lambda>s. s\<lparr>login_fails := u32 (login_fails s + 1)\<rparr>)) (awith (\<lambda>w.
       if login_fails (child w) \<ge> tuint t ''max_login_fails'' then astop (Exit 0) else aret ()))"

definition handle_pass_command :: "tunables \<Rightarrow> auth \<Rightarrow> login option act" where
  "handle_pass_command t check_auth = awith (\<lambda>w.
     if user_str (child w) = []
     then aseq (cmdio_write FTP_NEEDUSER ''Login with USER first.'') (aret None)
     else
       abind (if tbool t ''one_process_model''
              then vsf_one_process_login t check_auth (ftp_arg_str (child w))
              else vsf_two_process_login t check_auth (ftp_arg_str (child w)))
         (\<lambda>r. case r of
            Some k \<Rightarrow> aret (Some k)
          | None \<Rightarrow>
              aseq (cmdio_write FTP_LOGINERR ''Login incorrect.'')
              (aseq (check_login_fails t)
              (aseq (upd_child (\<lambda>s. s\<lparr>user_str := []\<rparr>)) (aret None)))))"

text \<open>Refusing a user name: a reply, and the name is forgotten.\<close>

definition refuse_user :: "string \<Rightarrow> login option act" where
  "refuse_user p_text =
     aseq (cmdio_write FTP_LOGINERR p_text) (aseq (upd_child (\<lambda>s. s\<lparr>user_str := []\<rparr>)) (aret None))"

definition handle_user_command :: "tunables \<Rightarrow> auth \<Rightarrow> login option act" where
  "handle_user_command t check_auth =
     aseq (upd_child (\<lambda>s. s\<lparr>user_str := ftp_arg_str s, ftp_arg_str := t_upper (ftp_arg_str s)\<rparr>)) (awith (\<lambda>w.
       let s = child w;
           is_anon = (ftp_arg_str s = ''FTP'' \<or> ftp_arg_str s = ''ANONYMOUS'');
           ssl = tbool t ''ssl_enable''
       in if \<not> tbool t ''local_enable'' \<and> \<not> is_anon
          then refuse_user ''This FTP server is anonymous only.''
          else if is_anon \<and> control_use_ssl s \<and> \<not> tbool t ''allow_anon_ssl'' \<and> \<not> tbool t ''force_anon_logins_ssl''
          then refuse_user ''Anonymous sessions may not use encryption.''
          else if ssl \<and> \<not> is_anon \<and> \<not> control_use_ssl s \<and> tbool t ''force_local_logins_ssl''
          then refuse_user ''Non-anonymous sessions must use encryption.''
          else if ssl \<and> is_anon \<and> \<not> control_use_ssl s \<and> tbool t ''force_anon_logins_ssl''
          then refuse_user ''Anonymous sessions must use encryption.''
          else if tbool t ''userlist_enable'' \<and>
            (user_str s \<in> set (t_lines (userlist_str s)) \<longleftrightarrow> tbool t ''userlist_deny'')
          then aseq (cmdio_write FTP_LOGINERR ''Permission denied.'')
               (aseq (check_login_fails t)
               (aseq (upd_child (\<lambda>s. s\<lparr>user_str := []\<rparr>)) (aret None)))
          else if is_anon \<and> tbool t ''no_anon_password''
          then aseq (upd_child (\<lambda>s. s\<lparr>ftp_arg_str := ''<no password>''\<rparr>)) (handle_pass_command t check_auth)
          else aseq (cmdio_write FTP_GIVEPWORD ''Please specify the password.'') (aret None)))"

text \<open>One round of the loop of \<open>parse_username_password\<close>.\<close>

definition prelogin_round :: "tunables \<Rightarrow> auth \<Rightarrow> login option act" where
  "prelogin_round t check_auth =
     aseq (get_cmd_and_arg t) (awith (\<lambda>w.
       let cmd = ftp_cmd_str (child w); ssl = tbool t ''ssl_enable'' in
       if cmd = ''USER'' then handle_user_command t check_auth
       else if cmd = ''PASS'' then handle_pass_command t check_auth
       else if cmd = ''QUIT'' then cmdio_write_exit FTP_GOODBYE ''Goodbye.''
       else if cmd = ''FEAT'' then aseq (handle_feat t) (aret None)
       else if cmd = ''OPTS'' then aseq handle_opts (aret None)
       else if ssl \<and> cmd = ''AUTH'' \<and> \<not> control_use_ssl (child w) then aret None
       else if ssl \<and> cmd = ''PBSZ'' then aret None
       else if ssl \<and> cmd = ''PROT'' then aret None
       else if cmd = [] \<and> ftp_arg_str (child w) = [] then aret None
       else aseq (cmdio_write FTP_LOGINERR ''Please login with USER and PASS.'') (aret None)))"

text \<open>The loop, with rounds granted by the first argument; it ends with the kind of the login.\<close>

fun parse_username_password :: "nat \<Rightarrow> tunables \<Rightarrow> auth \<Rightarrow> login act" where
  "parse_username_password 0 t check_auth = astop Hang"
| "parse_username_password (Suc n) t check_auth =
     abind (prelogin_round t check_auth) (\<lambda>r.
       case r of None \<Rightarrow> parse_username_password n t check_auth | Some k \<Rightarrow> aret k)"

definition init_connection :: "nat \<Rightarrow> tunables \<Rightarrow> auth \<Rightarrow> login act" where
  "init_connection n t check_auth =
     aseq (check_limits t) (aseq (emit_greeting t) (parse_username_password n t check_auth))"

section \<open>Which names reach the login, and how often\<close>

lemma avalid_feat: "survives P E \<Longrightarrow> avalid P (handle_feat t) (\<lambda>_. P) E"
proof -
  assume s: "survives P E"
  have raw: "avalid P (raw_lines ls) (\<lambda>_. P) E" for ls
    by (induction ls) (auto intro!: avalid_aret avalid_aseq [of _ _ P] avalid_emit_keep s cmdio_writers_no_hang)
  show ?thesis unfolding handle_feat_def
    by (rule avalid_aseq [of _ _ P], rule avalid_emit_keep [OF _ s], rule cmdio_writers_no_hang)
      (rule avalid_aseq [of _ _ P], rule raw, rule avalid_write [OF s])
qed

text \<open>The policy of \<open>handle_user_command\<close> on a name.\<close>

definition admitted :: "tunables \<Rightarrow> string \<Rightarrow> bool \<Rightarrow> string \<Rightarrow> bool" where
  "admitted t userlist use_ssl u \<longleftrightarrow>
     (tbool t ''local_enable'' \<or> anon_name u) \<and>
     (tbool t ''userlist_enable'' \<longrightarrow> (u \<in> set (t_lines userlist) \<longleftrightarrow> \<not> tbool t ''userlist_deny'')) \<and>
     (anon_name u \<and> use_ssl \<longrightarrow> tbool t ''allow_anon_ssl'' \<or> tbool t ''force_anon_logins_ssl'') \<and>
     (tbool t ''ssl_enable'' \<and> \<not> use_ssl \<longrightarrow>
        (if anon_name u then \<not> tbool t ''force_anon_logins_ssl'' else \<not> tbool t ''force_local_logins_ssl''))"

definition asked_ok :: "tunables \<Rightarrow> string \<Rightarrow> bool \<Rightarrow> world \<Rightarrow> bool" where
  "asked_ok t ul ssl w \<longleftrightarrow> list_all (\<lambda>(u, p). u \<noteq> [] \<and> admitted t ul ssl u) (asked w)"

text \<open>
  The books of the loop: at most \<open>k\<close> more requests than counted failures, and the count below the limit. \<open>n\<close>
  bounds the input that is left.
\<close>

definition fails_ok :: "tunables \<Rightarrow> string \<Rightarrow> bool \<Rightarrow> nat \<Rightarrow> nat \<Rightarrow> world \<Rightarrow> bool" where
  "fails_ok t ul ssl n k w \<longleftrightarrow>
     userlist_str (child w) = ul \<and> control_use_ssl (child w) = ssl \<and> asked_ok t ul ssl w \<and>
     length (asked w) \<le> login_fails (child w) + k \<and>
     (login_fails (child w) = 0 \<or> login_fails (child w) < tuint t ''max_login_fails'') \<and>
     length (input (ctl_in w)) < n"

definition user_ok :: "tunables \<Rightarrow> string \<Rightarrow> bool \<Rightarrow> nat \<Rightarrow> world \<Rightarrow> bool" where
  "user_ok t ul ssl n w \<longleftrightarrow>
     fails_ok t ul ssl n 0 w \<and> (user_str (child w) = [] \<or> admitted t ul ssl (user_str (child w)))"

definition bounded :: "tunables \<Rightarrow> string \<Rightarrow> bool \<Rightarrow> world \<Rightarrow> bool" where
  "bounded t ul ssl w \<longleftrightarrow> asked_ok t ul ssl w \<and> length (asked w) \<le> max 1 (tuint t ''max_login_fails'')"

abbreviation ended :: "tunables \<Rightarrow> string \<Rightarrow> bool \<Rightarrow> fault \<Rightarrow> world \<Rightarrow> bool" where
  "ended t ul ssl e w \<equiv> e \<noteq> Hang \<and> bounded t ul ssl w"

lemma fails_ok_bounded: "fails_ok t ul ssl n k w \<Longrightarrow> k \<le> 1 \<Longrightarrow> bounded t ul ssl w"
  by (auto simp: fails_ok_def bounded_def)

lemma fails_ok_mono: "fails_ok t ul ssl n k w \<Longrightarrow> k \<le> k' \<Longrightarrow> fails_ok t ul ssl n k' w"
  by (auto simp: fails_ok_def)

lemma fails_ok_survives [intro]: "k \<le> 1 \<Longrightarrow> survives (fails_ok t ul ssl n k) (ended t ul ssl)"
  using fails_ok_bounded by (auto simp: survives_def reply_stable_def fails_ok_def asked_ok_def)

lemma user_ok_survives [intro]: "survives (user_ok t ul ssl n) (ended t ul ssl)"
  using fails_ok_bounded [of t ul ssl n 0]
  by (auto simp: survives_def reply_stable_def user_ok_def fails_ok_def asked_ok_def)

lemma user_ok_child:
  "fails_ok t ul ssl n k w \<Longrightarrow> userlist_str s = ul \<Longrightarrow> control_use_ssl s = ssl \<Longrightarrow>
   login_fails s = login_fails (child w) \<Longrightarrow> fails_ok t ul ssl n k (w\<lparr>child := s\<rparr>)"
  by (simp add: fails_ok_def asked_ok_def)

lemma valid_check_login_fails:
  assumes "tuint t ''max_login_fails'' < 4294967296"
  shows "avalid (fails_ok t ul ssl n 1) (check_login_fails t) (\<lambda>_. fails_ok t ul ssl n 0) (ended t ul ssl)"
proof -
  let ?R = "\<lambda>w. userlist_str (child w) = ul \<and> control_use_ssl (child w) = ssl \<and> bounded t ul ssl w \<and>
    length (asked w) \<le> login_fails (child w) \<and> length (input (ctl_in w)) < n"
  show ?thesis unfolding check_login_fails_def
  proof (rule avalid_aseq [of _ _ ?R])
    show "avalid (fails_ok t ul ssl n 1) (upd_child (\<lambda>s. s\<lparr>login_fails := u32 (login_fails s + 1)\<rparr>)) (\<lambda>_. ?R)
        (ended t ul ssl)"
      using assms fails_ok_bounded [of t ul ssl n 1]
      by (intro avalid_upd) (auto simp: fails_ok_def bounded_def asked_ok_def)
    show "avalid ?R (awith (\<lambda>w. if login_fails (child w) \<ge> tuint t ''max_login_fails'' then astop (Exit 0) else aret ()))
        (\<lambda>_. fails_ok t ul ssl n 0) (ended t ul ssl)"
      by (rule avalid_awith) (auto intro!: avalid_astop avalid_aret simp: fails_ok_def bounded_def)
  qed
qed

text \<open>A failed attempt: the reply, the count, and the user name is forgotten.\<close>

lemma valid_failed_attempt:
  assumes "tuint t ''max_login_fails'' < 4294967296"
  shows "avalid (fails_ok t ul ssl n 1)
    (aseq (cmdio_write st txt) (aseq (check_login_fails t) (aseq (upd_child (\<lambda>s. s\<lparr>user_str := []\<rparr>)) (aret None))))
    (\<lambda>r w. r = None \<and> user_ok t ul ssl n w) (ended t ul ssl)"
proof (rule avalid_aseq [of _ _ "fails_ok t ul ssl n 1"])
  show "avalid (fails_ok t ul ssl n 1) (cmdio_write st txt) (\<lambda>_. fails_ok t ul ssl n 1) (ended t ul ssl)"
    by (rule avalid_write) (rule fails_ok_survives, simp)
  show "avalid (fails_ok t ul ssl n 1) (aseq (check_login_fails t) (aseq (upd_child (\<lambda>s. s\<lparr>user_str := []\<rparr>)) (aret None)))
    (\<lambda>r w. r = None \<and> user_ok t ul ssl n w) (ended t ul ssl)"
    by (rule avalid_aseq [OF valid_check_login_fails [OF assms]], rule avalid_aseq [of _ _ "user_ok t ul ssl n"])
      (auto intro!: avalid_upd avalid_aret simp: user_ok_def fails_ok_def asked_ok_def)
qed

text \<open>The login calls themselves: one more request, nothing else the books depend on.\<close>

lemma do_login_no_hang: "vsf_privop_do_login t auth s pass \<noteq> Inl Hang"
  by (simp add: vsf_privop_do_login_def handle_login_cases handle_anonymous_login_def Let_def split: option.splits)

lemma do_login_keeps:
  "vsf_privop_do_login t auth s pass = Inr (r, s1) \<Longrightarrow>
   userlist_str s1 = userlist_str s \<and> control_use_ssl s1 = control_use_ssl s \<and> login_fails s1 = login_fails s"
  by (auto simp: vsf_privop_do_login_def handle_login_cases handle_anonymous_login_def handle_local_login_def
      setup_username_globals_def Let_def split: if_splits option.splits prod.splits)

text \<open>Actions that leave alone what the books depend on, and do not run for ever.\<close>

definition same :: "world \<Rightarrow> world \<Rightarrow> bool" where
  "same v w \<longleftrightarrow>
     userlist_str (child w) = userlist_str (child v) \<and> control_use_ssl (child w) = control_use_ssl (child v) \<and>
     login_fails (child w) = login_fails (child v) \<and> ctl_in w = ctl_in v \<and> asked w = asked v"

definition quiet :: "'a act \<Rightarrow> bool" where
  "quiet m \<longleftrightarrow> (\<forall>v. avalid (same v) m (\<lambda>_. same v) (\<lambda>e w. e \<noteq> Hang \<and> same v w))"

lemma quietD: "quiet m \<Longrightarrow> case m w of (Inr x, w1) \<Rightarrow> same w w1 | (Inl e, w1) \<Rightarrow> e \<noteq> Hang \<and> same w w1"
proof -
  assume "quiet m"
  moreover have "same w w" by (simp add: same_def)
  ultimately show ?thesis unfolding quiet_def avalid_def by (metis (no_types, lifting))
qed

lemma quiet_bind: "quiet m \<Longrightarrow> (\<And>x. quiet (f x)) \<Longrightarrow> quiet (abind m f)"
  unfolding quiet_def by (intro allI avalid_abind) auto

lemma quiet_seq: "quiet m \<Longrightarrow> quiet n \<Longrightarrow> quiet (aseq m n)"
  unfolding aseq_def by (rule quiet_bind)

lemma quiet_simple [simp]:
  "quiet (aret x)" "e \<noteq> Hang \<Longrightarrow> quiet (astop e)" "r \<noteq> Inl Hang \<Longrightarrow> quiet (alift r)" "quiet (sys c)" "quiet (upd_parent f)"
  by (auto simp: quiet_def avalid_def aret_def astop_def alift_def sys_def upd_parent_def same_def split: sum.splits)

lemma quiet_with: "(\<And>w. quiet (f w)) \<Longrightarrow> quiet (awith f)"
  by (simp add: quiet_def avalid_def awith_def)

lemma quiet_sockets:
  "(\<And>ks. f ks \<noteq> Inl Hang) \<Longrightarrow> quiet (child_send f)" "(\<And>ks. f ks \<noteq> Inl Hang) \<Longrightarrow> quiet (parent_send f)"
  "(\<And>st. g st \<noteq> Inl Hang) \<Longrightarrow> quiet (parent_recv g)" "(\<And>st. g st \<noteq> Inl Hang) \<Longrightarrow> quiet (child_recv g)"
  by (force simp: quiet_def avalid_def child_send_def parent_send_def parent_recv_def child_recv_def same_def
      split: sum.splits prod.splits)+

lemma quiet_fails_ok:
  assumes "quiet m"
  shows "avalid (fails_ok t ul ssl n 1) m (\<lambda>_. fails_ok t ul ssl n 1) (ended t ul ssl)"
  unfolding avalid_def
proof (intro allI impI)
  fix w
  assume A: "fails_ok t ul ssl n 1 w"
  have "fails_ok t ul ssl n 1 v" if "same w v" for v
    using A that by (simp add: fails_ok_def asked_ok_def same_def)
  moreover have "bounded t ul ssl v" if "same w v" for v
    using fails_ok_bounded [OF A] that by (simp add: bounded_def asked_ok_def same_def)
  moreover have "case m w of (Inr x, w1) \<Rightarrow> same w w1 | (Inl e, w1) \<Rightarrow> e \<noteq> Hang \<and> same w w1"
    by (rule quietD [OF assms])
  ultimately show "case m w of (Inr x, w1) \<Rightarrow> fails_ok t ul ssl n 1 w1 | (Inl e, w1) \<Rightarrow> ended t ul ssl e w1"
    by (auto split: prod.splits sum.splits)
qed

lemma fileread_no_hang: "str_fileread f n \<noteq> Inl Hang"
  by (auto simp: str_fileread_def rbind_eq_Inl Let_def sysutil_read_loop_no_hang split: file_source.splits if_splits prod.splits)

lemma login_request_no_hang: "login_request s pass ks \<noteq> Inl Hang"
  using privsock_send_no_hang by (auto simp: login_request_def rbind_eq_Inl split: prod.splits)

lemma quiet_chroot_decision: "quiet (chroot_decision t user)"
  by (auto simp: chroot_decision_def Let_def sys_fileread_def fileread_no_hang
      intro!: quiet_bind split: option.splits)

lemma quiet_process_login_req: "quiet (process_login_req t auth)"
  unfolding process_login_req_def
  by (auto intro!: quiet_bind quiet_seq quiet_with quiet_sockets privsock_get_no_hang privsock_send_no_hang
      quiet_chroot_decision simp: do_login_no_hang split: EVSFPrivopLoginResult.splits option.splits)

lemma asked_counts:
  "avalid (\<lambda>w. user_ok t ul ssl n w \<and> user_str (child w) = u \<and> u \<noteq> []) (note_asked u pass)
     (\<lambda>_. fails_ok t ul ssl n 1) (ended t ul ssl)"
  by (auto simp: avalid_def note_asked_def user_ok_def fails_ok_def asked_ok_def)

lemma valid_one_process_login:
  "avalid (\<lambda>w. user_ok t ul ssl n w \<and> user_str (child w) \<noteq> []) (vsf_one_process_login t auth pass)
     (\<lambda>r. fails_ok t ul ssl n 1) (ended t ul ssl)"
  unfolding vsf_one_process_login_def
proof (rule avalid_awith)
  fix w
  assume P: "user_ok t ul ssl n w \<and> user_str (child w) \<noteq> []"
  let ?w1 = "w\<lparr>asked := asked w @ [(user_str (child w), pass)]\<rparr>"
  have A: "fails_ok t ul ssl n 1 ?w1"
    using P by (auto simp: user_ok_def fails_ok_def asked_ok_def)
  have B: "fails_ok t ul ssl n 1 (?w1\<lparr>child := s\<lparr>is_anonymous := b\<rparr>\<rparr>)" "fails_ok t ul ssl n 1 (?w1\<lparr>child := s\<rparr>)"
    if "vsf_privop_do_login t auth (child w) pass = Inr (r, s)" for r s b
    using A do_login_keeps [OF that] by (auto simp: fails_ok_def asked_ok_def)
  show "avalid (\<lambda>v. v = w) (aseq (note_asked (user_str (child w)) pass)
      (abind (alift (vsf_privop_do_login t auth (child w) pass)) (\<lambda>(r, s). aseq (upd_child (\<lambda>_. s))
        (case r of kVSFLoginFail \<Rightarrow> aret None
         | kVSFLoginAnon \<Rightarrow> aseq (upd_child (\<lambda>s. s\<lparr>is_anonymous := True\<rparr>)) (aret (Some (r, True)))
         | _ \<Rightarrow> astop (Bug ''bad state in vsf_one_process_login'')))))
      (\<lambda>r. fails_ok t ul ssl n 1) (ended t ul ssl)"
  proof (cases "vsf_privop_do_login t auth (child w) pass")
    case (Inl e)
    then show ?thesis using do_login_no_hang [of t auth "child w" pass] fails_ok_bounded [OF A]
      by (auto simp: avalid_def aseq_def abind_def note_asked_def alift_def)
  next
    case (Inr rs)
    obtain r s where rs: "rs = (r, s)" by (cases rs)
    show ?thesis using Inr rs B [of r s] fails_ok_bounded [OF B(2) [of r s]]
      by (cases r) (simp_all add: avalid_def aseq_def abind_def note_asked_def alift_def aret_def astop_def upd_child_def)
  qed
qed

lemma quiet_user_ok:
  assumes "quiet m" and "\<And>w x w1. m w = (Inr x, w1) \<Longrightarrow> user_str (child w1) = user_str (child w)"
  shows "avalid (\<lambda>w. user_ok t ul ssl n w \<and> user_str (child w) = u \<and> u \<noteq> []) m
    (\<lambda>_ w. user_ok t ul ssl n w \<and> user_str (child w) = u \<and> u \<noteq> []) (ended t ul ssl)"
  unfolding avalid_def
proof (intro allI impI)
  fix w
  assume A: "user_ok t ul ssl n w \<and> user_str (child w) = u \<and> u \<noteq> []"
  have B: "bounded t ul ssl v" if "same w v" for v
    using fails_ok_bounded [of t ul ssl n 0 w] A that by (simp add: user_ok_def bounded_def asked_ok_def same_def)
  have C: "user_ok t ul ssl n v" if "same w v" "user_str (child v) = u" for v
    using A that by (auto simp: user_ok_def fails_ok_def asked_ok_def same_def)
  have "case m w of (Inr x, w1) \<Rightarrow> same w w1 | (Inl e, w1) \<Rightarrow> e \<noteq> Hang \<and> same w w1"
    by (rule quietD [OF assms(1)])
  then show "case m w of (Inr x, w1) \<Rightarrow> user_ok t ul ssl n w1 \<and> user_str (child w1) = u \<and> u \<noteq> []
      | (Inl e, w1) \<Rightarrow> ended t ul ssl e w1"
    using A B C assms(2) by (force split: prod.splits sum.splits)
qed

lemma valid_two_process_login:
  "avalid (\<lambda>w. user_ok t ul ssl n w \<and> user_str (child w) \<noteq> []) (vsf_two_process_login t auth pass)
     (\<lambda>r. fails_ok t ul ssl n 1) (ended t ul ssl)"
  unfolding vsf_two_process_login_def
proof (rule avalid_awith)
  fix w
  assume P: "user_ok t ul ssl n w \<and> user_str (child w) \<noteq> []"
  let ?Q = "\<lambda>v. user_ok t ul ssl n v \<and> user_str (child v) = user_str (child w) \<and> user_str (child w) \<noteq> []"
  have send: "avalid ?Q (child_send (login_request (child w) pass)) (\<lambda>_. ?Q) (ended t ul ssl)"
    by (rule quiet_user_ok) (auto intro!: quiet_sockets login_request_no_hang simp: child_send_def split: sum.splits)
  have rest: "quiet (abind (process_login_req t auth) (\<lambda>granted. abind (child_recv priv_sock_get_result) (\<lambda>result.
        if result = PRIV_SOCK_RESULT_OK then aret granted
        else if result = PRIV_SOCK_RESULT_BAD then aret None
        else astop (Die ''priv_sock_get_result''))))"
    by (auto intro!: quiet_bind quiet_process_login_req quiet_sockets privsock_get_no_hang)
  show "avalid (\<lambda>v. v = w) (aseq (child_send (login_request (child w) pass))
      (aseq (note_asked (user_str (child w)) pass)
      (abind (process_login_req t auth) (\<lambda>granted. abind (child_recv priv_sock_get_result) (\<lambda>result.
        if result = PRIV_SOCK_RESULT_OK then aret granted
        else if result = PRIV_SOCK_RESULT_BAD then aret None
        else astop (Die ''priv_sock_get_result''))))))
      (\<lambda>r. fails_ok t ul ssl n 1) (ended t ul ssl)"
    by (rule avalid_pre [OF avalid_aseq [OF send avalid_aseq [OF asked_counts quiet_fails_ok [OF rest]]]])
      (use P in simp)
qed

lemma valid_handle_pass:
  assumes "tuint t ''max_login_fails'' < 4294967296"
  shows "avalid (user_ok t ul ssl n) (handle_pass_command t auth)
    (\<lambda>r w. case r of None \<Rightarrow> user_ok t ul ssl n w | Some _ \<Rightarrow> bounded t ul ssl w) (ended t ul ssl)"
    (is "avalid _ _ ?Q _")
  unfolding handle_pass_command_def
proof (rule avalid_awith)
  fix w
  assume U: "user_ok t ul ssl n w"
  let ?login = "if tbool t ''one_process_model'' then vsf_one_process_login t auth (ftp_arg_str (child w))
    else vsf_two_process_login t auth (ftp_arg_str (child w))"
  let ?fail = "aseq (cmdio_write FTP_LOGINERR ''Login incorrect.'') (aseq (check_login_fails t)
    (aseq (upd_child (\<lambda>s. s\<lparr>user_str := []\<rparr>)) (aret None)))"
  have no_user: "avalid (\<lambda>v. v = w) (aseq (cmdio_write FTP_NEEDUSER ''Login with USER first.'') (aret None)) ?Q (ended t ul ssl)"
    by (rule avalid_aseq [OF avalid_pre [OF avalid_write [OF user_ok_survives]]]) (auto intro!: avalid_aret simp: U)
  have fail: "avalid (fails_ok t ul ssl n 1) ?fail ?Q (ended t ul ssl)"
    by (rule avalid_post [OF valid_failed_attempt [OF assms]]) simp
  have login: "avalid (\<lambda>v. v = w) ?login (\<lambda>r. fails_ok t ul ssl n 1) (ended t ul ssl)" if "user_str (child w) \<noteq> []"
    using avalid_pre [OF valid_one_process_login, of "\<lambda>v. v = w"] avalid_pre [OF valid_two_process_login, of "\<lambda>v. v = w"]
      U that by simp
  show "avalid (\<lambda>v. v = w)
     (if user_str (child w) = [] then aseq (cmdio_write FTP_NEEDUSER ''Login with USER first.'') (aret None)
      else abind ?login (\<lambda>r. case r of Some k \<Rightarrow> aret (Some k) | None \<Rightarrow> ?fail)) ?Q (ended t ul ssl)"
  proof (cases "user_str (child w) = []")
    case False
    have "avalid (fails_ok t ul ssl n 1) (case r of Some k \<Rightarrow> aret (Some k) | None \<Rightarrow> ?fail) ?Q (ended t ul ssl)" for r
      using fail fails_ok_bounded [of t ul ssl n 1] by (cases r) (auto intro!: avalid_aret)
    then show ?thesis unfolding if_not_P [OF False] by (rule avalid_abind [OF login [OF False]])
  qed (simp add: no_user)
qed

lemma valid_refuse_user:
  "avalid (fails_ok t ul ssl n 0) (refuse_user txt) (\<lambda>r w. r = None \<and> user_ok t ul ssl n w) (ended t ul ssl)"
  unfolding refuse_user_def
  by (rule avalid_aseq [OF avalid_write [OF fails_ok_survives]], simp, rule avalid_aseq [of _ _ "user_ok t ul ssl n"])
    (auto intro!: avalid_upd avalid_aret simp: user_ok_def fails_ok_def asked_ok_def)

text \<open>What the tests of \<open>handle_user_command\<close> leave is an admitted name.\<close>

lemma user_tests_admit:
  assumes "\<not> (\<not> tbool t ''local_enable'' \<and> \<not> anon_name u)"
    and "\<not> (anon_name u \<and> ssl \<and> \<not> tbool t ''allow_anon_ssl'' \<and> \<not> tbool t ''force_anon_logins_ssl'')"
    and "\<not> (tbool t ''ssl_enable'' \<and> \<not> anon_name u \<and> \<not> ssl \<and> tbool t ''force_local_logins_ssl'')"
    and "\<not> (tbool t ''ssl_enable'' \<and> anon_name u \<and> \<not> ssl \<and> tbool t ''force_anon_logins_ssl'')"
    and "\<not> (tbool t ''userlist_enable'' \<and> (u \<in> set (t_lines ul) \<longleftrightarrow> tbool t ''userlist_deny''))"
  shows "admitted t ul ssl u"
  using assms by (auto simp: admitted_def)

lemma valid_handle_user:
  assumes "tuint t ''max_login_fails'' < 4294967296"
  shows "avalid (user_ok t ul ssl n) (handle_user_command t auth)
    (\<lambda>r w. case r of None \<Rightarrow> user_ok t ul ssl n w | Some _ \<Rightarrow> bounded t ul ssl w) (ended t ul ssl)"
    (is "avalid _ _ ?Q _")
proof -
  let ?R = "\<lambda>w. fails_ok t ul ssl n 0 w \<and> ftp_arg_str (child w) = t_upper (user_str (child w))"
  have copy: "avalid (user_ok t ul ssl n)
      (upd_child (\<lambda>s. s\<lparr>user_str := ftp_arg_str s, ftp_arg_str := t_upper (ftp_arg_str s)\<rparr>)) (\<lambda>_. ?R) (ended t ul ssl)"
    by (rule avalid_upd) (auto simp: user_ok_def fails_ok_def asked_ok_def)
  have refuse: "avalid (\<lambda>v. v = w) (refuse_user tx) ?Q (ended t ul ssl)" if "?R w" for w tx
    by (rule avalid_post [OF avalid_pre [OF valid_refuse_user]]) (use that in auto)
  have denied: "avalid (\<lambda>v. v = w) (aseq (cmdio_write FTP_LOGINERR ''Permission denied.'')
      (aseq (check_login_fails t) (aseq (upd_child (\<lambda>s. s\<lparr>user_str := []\<rparr>)) (aret None)))) ?Q (ended t ul ssl)"
    if "?R w" for w
    by (rule avalid_post [OF avalid_pre [OF valid_failed_attempt [OF assms]]]) (use that in \<open>auto elim: fails_ok_mono\<close>)
  have fake: "avalid (\<lambda>v. v = w) (aseq (upd_child (\<lambda>s. s\<lparr>ftp_arg_str := ''<no password>''\<rparr>)) (handle_pass_command t auth))
      ?Q (ended t ul ssl)" if "user_ok t ul ssl n w" for w
    by (rule avalid_aseq [OF _ valid_handle_pass [OF assms]], rule avalid_upd)
      (use that in \<open>auto simp: user_ok_def fails_ok_def asked_ok_def\<close>)
  have prompt: "avalid (\<lambda>v. v = w) (aseq (cmdio_write FTP_GIVEPWORD ''Please specify the password.'') (aret None))
      ?Q (ended t ul ssl)" if "user_ok t ul ssl n w" for w
    by (rule avalid_aseq [OF avalid_pre [OF avalid_write [OF user_ok_survives]]]) (use that in \<open>auto intro!: avalid_aret\<close>)
  have ok: "user_ok t ul ssl n w" if "?R w" "admitted t ul ssl (user_str (child w))" for w
    using that by (simp add: user_ok_def)
  have anon: "ftp_arg_str (child w) = ''FTP'' \<or> ftp_arg_str (child w) = ''ANONYMOUS'' \<longleftrightarrow> anon_name (user_str (child w))"
    if "?R w" for w using that by (simp add: anon_name_def)
  have env: "userlist_str (child w) = ul" "control_use_ssl (child w) = ssl" if "?R w" for w
    using that by (auto simp: fails_ok_def)
  show ?thesis unfolding handle_user_command_def
  proof (rule avalid_aseq [OF copy], rule avalid_awith)
    fix w
    assume R: "?R w"
    note rules = refuse [OF R] denied [OF R] fake [OF ok [OF R]] prompt [OF ok [OF R]]
    note adm = user_tests_admit [of t "user_str (child w)" ssl ul]
    show "avalid (\<lambda>v. v = w)
     (let s = child w; is_anon = (ftp_arg_str s = ''FTP'' \<or> ftp_arg_str s = ''ANONYMOUS''); sl = tbool t ''ssl_enable''
      in if \<not> tbool t ''local_enable'' \<and> \<not> is_anon then refuse_user ''This FTP server is anonymous only.''
         else if is_anon \<and> control_use_ssl s \<and> \<not> tbool t ''allow_anon_ssl'' \<and> \<not> tbool t ''force_anon_logins_ssl''
         then refuse_user ''Anonymous sessions may not use encryption.''
         else if sl \<and> \<not> is_anon \<and> \<not> control_use_ssl s \<and> tbool t ''force_local_logins_ssl''
         then refuse_user ''Non-anonymous sessions must use encryption.''
         else if sl \<and> is_anon \<and> \<not> control_use_ssl s \<and> tbool t ''force_anon_logins_ssl''
         then refuse_user ''Anonymous sessions must use encryption.''
         else if tbool t ''userlist_enable'' \<and> (user_str s \<in> set (t_lines (userlist_str s)) \<longleftrightarrow> tbool t ''userlist_deny'')
         then aseq (cmdio_write FTP_LOGINERR ''Permission denied.'')
              (aseq (check_login_fails t) (aseq (upd_child (\<lambda>s. s\<lparr>user_str := []\<rparr>)) (aret None)))
         else if is_anon \<and> tbool t ''no_anon_password''
         then aseq (upd_child (\<lambda>s. s\<lparr>ftp_arg_str := ''<no password>''\<rparr>)) (handle_pass_command t auth)
         else aseq (cmdio_write FTP_GIVEPWORD ''Please specify the password.'') (aret None)) ?Q (ended t ul ssl)"
      unfolding Let_def anon [OF R] env [OF R]
      by (intro avalid_if rules; rule adm; assumption)
  qed
qed

lemma valid_get_cmd:
  "avalid (user_ok t ul ssl (Suc n)) (get_cmd_and_arg t) (\<lambda>_. user_ok t ul ssl n) (ended t ul ssl)"
  unfolding avalid_def
proof (intro allI impI)
  fix w
  assume U: "user_ok t ul ssl (Suc n) w"
  have B: "bounded t ul ssl w" using U fails_ok_bounded [of t ul ssl "Suc n" 0 w] by (simp add: user_ok_def)
  show "case get_cmd_and_arg t w of (Inl e, w1) \<Rightarrow> ended t ul ssl e w1 | (Inr x, w1) \<Rightarrow> user_ok t ul ssl n w1"
    using U B get_cmd_no_hang [of "tbool t ''log_ftp_protocol''" "ctl_in w"]
      get_cmd_progress [of "tbool t ''log_ftp_protocol''" "ctl_in w"]
    by (fastforce simp: get_cmd_and_arg_def user_ok_def fails_ok_def asked_ok_def split: sum.splits prod.splits)
qed

lemma valid_round:
  assumes "tuint t ''max_login_fails'' < 4294967296"
  shows "avalid (user_ok t ul ssl (Suc n)) (prelogin_round t auth)
    (\<lambda>r w. case r of None \<Rightarrow> user_ok t ul ssl n w | Some _ \<Rightarrow> bounded t ul ssl w) (ended t ul ssl)"
    (is "avalid _ _ ?Q _")
proof -
  have keep: "avalid (user_ok t ul ssl n) (aseq m (aret None)) ?Q (ended t ul ssl)"
    if "avalid (user_ok t ul ssl n) m (\<lambda>_. user_ok t ul ssl n) (ended t ul ssl)" for m
    by (rule avalid_aseq [OF that]) (simp add: avalid_aret)
  note s = user_ok_survives
  have opts: "avalid (user_ok t ul ssl n) handle_opts (\<lambda>_. user_ok t ul ssl n) (ended t ul ssl)"
    unfolding handle_opts_def
    by (rule avalid_aseq [of _ _ "user_ok t ul ssl n"], rule avalid_upd)
      (auto intro!: avalid_awith avalid_pre [OF avalid_write [OF s]] simp: user_ok_def fails_ok_def asked_ok_def)
  have none: "avalid (user_ok t ul ssl n) (aret None) ?Q (ended t ul ssl)" by (simp add: avalid_aret)
  note cases = valid_handle_user [OF assms] valid_handle_pass [OF assms] avalid_write_exit [OF s]
    keep [OF avalid_feat [OF s]] keep [OF opts] none keep [OF avalid_write [OF s]]
  show ?thesis unfolding prelogin_round_def
  proof (rule avalid_aseq [OF valid_get_cmd], rule avalid_awith)
    fix w
    assume U: "user_ok t ul ssl n w"
    show "avalid (\<lambda>v. v = w)
      (let cmd = ftp_cmd_str (child w); sl = tbool t ''ssl_enable'' in
       if cmd = ''USER'' then handle_user_command t auth
       else if cmd = ''PASS'' then handle_pass_command t auth
       else if cmd = ''QUIT'' then cmdio_write_exit FTP_GOODBYE ''Goodbye.''
       else if cmd = ''FEAT'' then aseq (handle_feat t) (aret None)
       else if cmd = ''OPTS'' then aseq handle_opts (aret None)
       else if sl \<and> cmd = ''AUTH'' \<and> \<not> control_use_ssl (child w) then aret None
       else if sl \<and> cmd = ''PBSZ'' then aret None
       else if sl \<and> cmd = ''PROT'' then aret None
       else if cmd = [] \<and> ftp_arg_str (child w) = [] then aret None
       else aseq (cmdio_write FTP_LOGINERR ''Please login with USER and PASS.'') (aret None)) ?Q (ended t ul ssl)"
      unfolding Let_def by (rule avalid_pre [of "user_ok t ul ssl n"], intro avalid_if cases) (use U in simp)
  qed
qed

lemma valid_parse:
  assumes "tuint t ''max_login_fails'' < 4294967296"
  shows "avalid (user_ok t ul ssl n) (parse_username_password n t auth) (\<lambda>_. bounded t ul ssl) (ended t ul ssl)"
proof (induction n)
  case 0
  then show ?case by (simp add: avalid_def user_ok_def fails_ok_def)
next
  case (Suc n)
  have "avalid (case r of None \<Rightarrow> user_ok t ul ssl n | Some _ \<Rightarrow> bounded t ul ssl)
      (case r of None \<Rightarrow> parse_username_password n t auth | Some k \<Rightarrow> aret k) (\<lambda>_. bounded t ul ssl) (ended t ul ssl)" for r
    using Suc by (cases r) (auto intro: avalid_aret)
  moreover have "avalid (user_ok t ul ssl (Suc n)) (prelogin_round t auth)
      (\<lambda>r. case r of None \<Rightarrow> user_ok t ul ssl n | Some _ \<Rightarrow> bounded t ul ssl) (ended t ul ssl)"
    by (rule avalid_post [OF valid_round [OF assms]]) (simp split: option.splits)
  ultimately show ?case by (simp only: parse_username_password.simps) (rule avalid_abind)
qed

section \<open>Properties\<close>

text \<open>
  C14: whatever a client sends before it is logged in, and however the network and the socket to the
  parent behave, the loop ends (by a login, a fault or the end of the input) after at most one round per byte of
  input; the login service is asked at most \<open>max_login_fails\<close> times (once if the limit is 0), and only for
  names that the policy admits: local names only if local logins are enabled, names the user list
  lets pass, and with the encryption the settings demand.
\<close>

theorem prelogin_bounded:
  assumes "tuint t ''max_login_fails'' < 4294967296" and "login_fails (child w) = 0" and "asked w = []"
    and "user_str (child w) = []" and "length (input (ctl_in w)) < n"
    and "parse_username_password n t auth w = (r, w1)"
  shows "r \<noteq> Inl Hang \<and> length (asked w1) \<le> max 1 (tuint t ''max_login_fails'') \<and>
         list_all (\<lambda>(u, p). u \<noteq> [] \<and> admitted t (userlist_str (child w)) (control_use_ssl (child w)) u) (asked w1)"
proof -
  have "user_ok t (userlist_str (child w)) (control_use_ssl (child w)) n w"
    using assms by (simp add: user_ok_def fails_ok_def asked_ok_def)
  from avalidD [OF valid_parse [OF assms(1)] this assms(6)] show ?thesis
    by (auto simp: bounded_def asked_ok_def split: sum.splits)
qed

definition demo_reply :: reply where
  "demo_reply = \<lparr>r_ret = 0, r_errno = OtherErr, r_text = None, r_regfile = True, r_dir = False,
     r_readable_other = True, r_size = 0, r_uid = 0, r_addr = AF_UNSPEC, r_reads = [], r_acks = [],
     r_file = OpenFails, r_dirents = [], r_urgent = 0\<rparr>"

definition demo_os :: oskit where
  "demo_os = \<lparr>answer_of = (\<lambda>h c. demo_reply), names = \<lparr>pw_name = (\<lambda>_. None), gr_name = (\<lambda>_. None)\<rparr>,
     str_sort = (\<lambda>_ xs. xs), inet_ntop6 = (\<lambda>_. []), inet_aton = (\<lambda>_. None), s_timezone = 0, stale = replicate 16 NUL\<rparr>"

definition demo_world :: "string \<Rightarrow> world" where
  "demo_world s = \<lparr>child = demo_session\<lparr>user_str := []\<rparr>, parent = demo_session\<lparr>user_str := []\<rparr>,
     ctl_in = \<lparr>input = s, answers = [Grant 3]\<rparr>, ctl_out = [], req_w = [], req_r = [], rep_w = [], rep_r = [],
     to_parent = [], to_child = [], fds_to_parent = [], fds_to_child = [], sent = [], asked = [],
     os = demo_os, trace = [], logs = [], s_deny_str = [], s_hide_str = [], s_current_umask = 63,
     s_pasv_sockaddr = None\<rparr>"

theorem prelogin_bounded_witness:
  "\<exists>r w1. parse_username_password 100 \<lparr>tbool = (\<lambda>x. x = ''local_enable''), tuint = (\<lambda>_. 3), tstr = (\<lambda>_. None)\<rparr>
        (\<lambda>u p a. (False, u)) (demo_world (''USER anna'' @ [CR, LF] @ ''PASS x'' @ [CR, LF])) = (r, w1) \<and>
     r \<noteq> Inl Hang \<and> length (asked w1) \<le> 3"
proof -
  let ?t = "\<lparr>tbool = (\<lambda>x. x = ''local_enable''), tuint = (\<lambda>_. 3), tstr = (\<lambda>_. None)\<rparr>"
  let ?w = "demo_world (''USER anna'' @ [CR, LF] @ ''PASS x'' @ [CR, LF])"
  obtain r w1 where rw: "parse_username_password 100 ?t (\<lambda>u p a. (False, u)) ?w = (r, w1)" by fastforce
  then show ?thesis using prelogin_bounded [OF _ _ _ _ _ rw] by (simp add: demo_world_def demo_session_def)
qed

text \<open>The decision on confinement looks at the outside world only.\<close>

lemma chroot_decision_run:
  assumes "os v = os w" and "trace v = trace w"
  shows "\<exists>tr. chroot_decision t u v = (fst (chroot_decision t u w), v\<lparr>trace := tr\<rparr>)"
proof (cases "tbool t ''chroot_list_enable'' \<and> tstr t ''chroot_list_file'' \<noteq> None")
  case True
  then show ?thesis using assms
    by (auto simp: chroot_decision_def Let_def sys_fileread_def sys_def abind_def aret_def alift_def astop_def
        split: sum.splits prod.splits)
next
  case False
  then have "snd (chroot_decision t u v) = v \<and> fst (chroot_decision t u v) = fst (chroot_decision t u w)"
    by (auto simp: chroot_decision_def Let_def sys_fileread_def abind_def aret_def astop_def)
  moreover have "v = v\<lparr>trace := trace v\<rparr>" by simp
  ultimately show ?thesis by (metis prod.collapse)
qed

text \<open>What the parent makes of a request that has arrived complete.\<close>

definition login_outcome :: "tunables \<Rightarrow> auth \<Rightarrow> world \<Rightarrow> vsf_session \<Rightarrow> string \<Rightarrow> login option res" where
  "login_outcome t auth w p pass =
     rbind (vsf_privop_do_login t auth p pass) (\<lambda>(r, p1).
       case r of
         kVSFLoginReal \<Rightarrow> rbind (fst (chroot_decision t (user_str p1) w)) (\<lambda>c. Inr (Some (r, c)))
       | kVSFLoginAnon \<Rightarrow> Inr (Some (r, True))
       | _ \<Rightarrow> Inr None)"

lemma eta_stream [simp]: "\<lparr>input = input st, answers = answers st\<rparr> = (st::stream)"
  by simp

lemma process_login_req_run:
  assumes "\<not> tbool t ''ssl_enable''" and "no_errors (rep_w w)" and "to_child w = []"
    and "priv_sock_get_cmd \<lparr>input = to_parent w, answers = req_r w\<rparr> = Inr (PRIV_SOCK_LOGIN, st1)"
    and "priv_sock_get_str st1 = Inr (user, st2)" and "priv_sock_get_str st2 = Inr (pass, st3)"
    and "priv_sock_get_int st3 = Inr (c, st4)" and "priv_sock_get_int st4 = Inr (d, st5)"
  shows "\<exists>w1. process_login_req t auth w =
       (login_outcome t auth w ((parent w)\<lparr>user_str := user, control_use_ssl := False, data_use_ssl := False\<rparr>) pass, w1) \<and>
     child w1 = child w \<and> asked w1 = asked w \<and> rep_r w1 = rep_r w \<and>
     (\<forall>g. fst (process_login_req t auth w) = Inr g \<longrightarrow>
        to_child w1 = [if g = None then PRIV_SOCK_RESULT_BAD else PRIV_SOCK_RESULT_OK])"
proof -
  let ?p = "(parent w)\<lparr>user_str := user, control_use_ssl := False, data_use_ssl := False\<rparr>"
  have res: "\<exists>ks. priv_sock_send_result x (rep_w w) = Inr ([x], ks)" for x
    using send_msg_ok [OF assms(2), of "MResult x"] by auto
  note run = process_login_req_def parent_recv_def abind_def aseq_def awith_def alift_def aret_def astop_def
    upd_parent_def parent_send_def login_outcome_def
  let ?w = "w\<lparr>to_parent := input st5, req_r := answers st5\<rparr>"
  show ?thesis
  proof (cases "vsf_privop_do_login t auth ?p pass")
    case (Inl e)
    then show ?thesis using assms by (simp add: run)
  next
    case (Inr y)
    obtain r p2 where y: "y = (r, p2)" by (cases y)
    note kinds = do_login_kinds [OF Inr [unfolded y]]
    show ?thesis
    proof (cases "r = kVSFLoginReal")
      case True
      obtain tr where tr: "chroot_decision t (user_str p2) (?w\<lparr>parent := p2\<rparr>) =
          (fst (chroot_decision t (user_str p2) w), ?w\<lparr>parent := p2, trace := tr\<rparr>)"
        using chroot_decision_run [of "?w\<lparr>parent := p2\<rparr>" w] by auto
      then show ?thesis using assms Inr y True res [of PRIV_SOCK_RESULT_OK]
        by (cases "fst (chroot_decision t (user_str p2) w)") (auto simp: run)
    next
      case False
      then show ?thesis using assms Inr y kinds res [of PRIV_SOCK_RESULT_OK] res [of PRIV_SOCK_RESULT_BAD]
        by (cases r) (auto simp: run)
    qed
  qed
qed

text \<open>
  C15: the two processes decide as one. For a session and a password that fit the message layer, the exchange
  of \<open>vsf_two_process_login\<close> with the parent's \<open>process_login_req\<close>, over a socket that fragments and
  interrupts at will, has exactly the outcome of \<open>vsf_privop_do_login\<close> on the child's user name: a refusal returns,
  a grant starts the session, confined to its directory if it is anonymous or if the settings and the list of
  users say so.
\<close>

theorem two_process_login_faithful:
  assumes "no_errors (req_w w)" and "no_errors (req_r w)" and "no_errors (rep_w w)" and "no_errors (rep_r w)"
    and "to_parent w = []" and "to_child w = []"
    and "length (user_str (child w)) \<le> VSFTP_PRIVSOCK_MAXSTR" and "length pass \<le> VSFTP_PRIVSOCK_MAXSTR"
    and "\<not> tbool t ''ssl_enable''"
  shows "\<exists>w1. vsf_two_process_login t auth pass w =
     (login_outcome t auth w ((parent w)\<lparr>user_str := user_str (child w), control_use_ssl := False,
        data_use_ssl := False\<rparr>) pass, w1) \<and>
     child w1 = child w \<and> asked w1 = asked w @ [(user_str (child w), pass)]"
proof -
  have m: "msg_ok (MInt (flag_int b))" for b by (simp add: flag_int_def)
  define ms where "ms = [MCmd PRIV_SOCK_LOGIN, MStr (user_str (child w)), MStr pass,
    MInt (flag_int (control_use_ssl (child w))), MInt (flag_int (data_use_ssl (child w)))]"
  have ok: "list_all msg_ok ms" using assms(7,8) m by (simp add: ms_def)
  obtain bytes ks1 where s: "send_all ms (req_w w) = Inr (bytes, ks1)" "bytes = concat (map wire ms)"
    using send_all_ok [OF assms(1) ok] by blast
  have req: "login_request (child w) pass (req_w w) = Inr (bytes, ks1)"
    using s(1) by (auto simp: ms_def login_request_def rbind_eq_Inr)
  obtain st where r: "recv_all ms \<lparr>input = bytes, answers = req_r w\<rparr> = Inr (ms, st)"
    using recv_all_ok [of "\<lparr>input = bytes, answers = req_r w\<rparr>" ms "[]"] assms(2) ok s(2) by auto
  let ?w = "w\<lparr>to_parent := bytes, req_w := ks1, asked := asked w @ [(user_str (child w), pass)]\<rparr>"
  obtain st1 st2 st3 st4 st5 where g:
    "priv_sock_get_cmd \<lparr>input = bytes, answers = req_r w\<rparr> = Inr (PRIV_SOCK_LOGIN, st1)"
    "priv_sock_get_str st1 = Inr (user_str (child w), st2)" "priv_sock_get_str st2 = Inr (pass, st3)"
    "priv_sock_get_int st3 = Inr (flag_int (control_use_ssl (child w)), st4)"
    "priv_sock_get_int st4 = Inr (flag_int (data_use_ssl (child w)), st5)"
    using r by (auto simp: ms_def rbind_eq_Inr)
  have get: "\<exists>st. priv_sock_get_result \<lparr>input = [c], answers = rep_r w\<rparr> = Inr (c, st)" for c
    using recv_msg_ok [of "\<lparr>input = [c], answers = rep_r w\<rparr>" "MResult c" "[]"] assms(4)
    by (auto simp: rbind_eq_Inr)
  have codes: "PRIV_SOCK_RESULT_BAD \<noteq> PRIV_SOCK_RESULT_OK"
    by (simp add: PRIV_SOCK_RESULT_BAD_def PRIV_SOCK_RESULT_OK_def)
  have "fst (chroot_decision t u ?w) = fst (chroot_decision t u w)" for u
    using chroot_decision_run [of ?w w t u] by auto
  then have out: "login_outcome t auth ?w p pass = login_outcome t auth w p pass" for p
    by (simp add: login_outcome_def cong: EVSFPrivopLoginResult.case_cong)
  obtain w1 where w1: "process_login_req t auth ?w = (login_outcome t auth w ((parent w)\<lparr>user_str := user_str (child w),
        control_use_ssl := False, data_use_ssl := False\<rparr>) pass, w1)"
      "child w1 = child w" "asked w1 = asked w @ [(user_str (child w), pass)]" "rep_r w1 = rep_r w"
      "\<And>g. fst (process_login_req t auth ?w) = Inr g \<Longrightarrow>
        to_child w1 = [if g = None then PRIV_SOCK_RESULT_BAD else PRIV_SOCK_RESULT_OK]"
    using process_login_req_run [of t ?w st1 "user_str (child w)" st2 pass st3
      "flag_int (control_use_ssl (child w))" st4 "flag_int (data_use_ssl (child w))" st5 auth] assms(3,6,9) g out
    by auto
  note run = vsf_two_process_login_def awith_def aseq_def abind_def child_send_def note_asked_def child_recv_def
    aret_def
  show ?thesis
    using w1 req assms(5) get [of PRIV_SOCK_RESULT_OK] get [of PRIV_SOCK_RESULT_BAD] codes
    by (cases "login_outcome t auth w ((parent w)\<lparr>user_str := user_str (child w), control_use_ssl := False,
        data_use_ssl := False\<rparr>) pass") (auto simp: run split: if_splits)
qed

theorem two_process_login_faithful_witness:
  "\<exists>w1. vsf_two_process_login \<lparr>tbool = (\<lambda>x. x = ''local_enable''), tuint = (\<lambda>_. 3), tstr = (\<lambda>_. None)\<rparr>
      (\<lambda>u p a. (p = ''secret'', u)) ''secret'' ((demo_world [])\<lparr>child := demo_session\<rparr>) =
      (Inr (Some (kVSFLoginReal, False)), w1) \<and> child w1 = demo_session"
proof -
  let ?t = "\<lparr>tbool = (\<lambda>x. x = ''local_enable''), tuint = (\<lambda>_. 3), tstr = (\<lambda>_. None)\<rparr>"
  let ?w = "(demo_world [])\<lparr>child := demo_session\<rparr>"
  have "login_outcome ?t (\<lambda>u p a. (p = ''secret'', u)) ?w
      ((parent ?w)\<lparr>user_str := user_str (child ?w), control_use_ssl := False, data_use_ssl := False\<rparr>) ''secret'' =
      Inr (Some (kVSFLoginReal, False))"
    by (simp add: login_outcome_def vsf_privop_do_login_def handle_login_def demo_world_def demo_session_def
        handle_local_login_def setup_username_globals_def vsf_sysutil_isalnum_def vsf_sysutil_isspace_def
        vsf_sysutil_isprint_def t_upper_def vsf_sysutil_toupper_def VSFTP_USERNAME_MAX_def VSFTP_PASSWORD_MAX_def
        chroot_decision_def aret_def Let_def)
  then show ?thesis
    using two_process_login_faithful [of ?w "''secret''" ?t "\<lambda>u p a. (p = ''secret'', u)"]
    by (auto simp: no_errors_def demo_world_def demo_session_def VSFTP_PRIVSOCK_MAXSTR_def)
qed

section \<open>The limits on connections\<close>

definition within_limits :: "tunables \<Rightarrow> nat \<Rightarrow> nat \<Rightarrow> bool" where
  "within_limits t clients this_ip \<longleftrightarrow>
     (tuint t ''max_clients'' = 0 \<or> clients \<le> tuint t ''max_clients'') \<and>
     (tuint t ''max_per_ip'' = 0 \<or> this_ip \<le> tuint t ''max_per_ip'')"

text \<open>A reply that ends the process does end it, whatever the socket does with the reply.\<close>

lemma write_exit_exits:
  assumes "status < 4294967296" and "length tx \<le> INT_MAX div 4"
  shows "\<exists>b ks. cmdio_write_exit status tx w = (Inl (Exit 0), w\<lparr>sent := sent w @ b, ctl_out := ks\<rparr>) \<and>
           prefix b (reply_text status CHR '' '' tx) \<and>
           (no_errors (ctl_out w) \<longrightarrow> b = reply_text status CHR '' '' tx)"
proof -
  let ?r = "reply_text status CHR '' '' tx"
  have len: "length ?r \<le> INT_MAX" "?r \<noteq> []" using reply_text_length [OF assms] by (auto simp: reply_text_def)
  obtain r s ks where "vsf_sysutil_write_loop (ctl_out w) ?r = Inr (r, s, ks)" "prefix s ?r"
      "no_errors (ctl_out w) \<longrightarrow> s = ?r"
    using write_loop_prefix [of "[]" ?r ?r "ctl_out w"] len by (auto simp: vsf_sysutil_write_loop_def)
  then show ?thesis using len
    by (auto simp: cmdio_write_exit_def aseq_def abind_def emit_def astop_def ftp_write_str_common_def
        str_netfd_write_def)
qed

lemma check_limits_cases:
  "if within_limits t (vsf_session.num_clients (child w)) (vsf_session.num_this_ip (child w)) \<and> tcp_wrapper_ok (child w)
   then check_limits t w = (Inr (), w)
   else \<exists>tx b ks. check_limits t w = (Inl (Exit 0), w\<lparr>sent := sent w @ b, ctl_out := ks\<rparr>) \<and>
          (no_errors (ctl_out w) \<longrightarrow> b = reply_text 421 CHR '' '' tx)"
proof -
  have ex: "\<exists>b ks. cmdio_write_exit 421 tx w = (Inl (Exit 0), w\<lparr>sent := sent w @ b, ctl_out := ks\<rparr>) \<and>
      (no_errors (ctl_out w) \<longrightarrow> b = reply_text 421 CHR '' '' tx)" if "length tx \<le> 100" for tx
    using write_exit_exits [of 421 tx w] that by (auto simp: INT_MAX_def)
  show ?thesis
    using ex [of "''There are too many connected users, please try later.''"]
      ex [of "''There are too many connections from your internet address.''"] ex [of "''Service not available.''"]
    by (auto simp: check_limits_def awith_def Let_def within_limits_def aret_def FTP_TOO_MANY_USERS_def
        FTP_IP_LIMIT_def FTP_IP_DENY_def)
qed


end
