(* ===== verification/Procmodel.thy ===== *)
theory Procmodel
  imports Prelogin
begin

text \<open>
  How the session after the login reaches the privileged operations: directly in the one-process model
  (\<^verbatim>\<open>oneprocess.c\<close>), and by requests to the parent (\<^verbatim>\<open>twoprocess.c\<close>), which serves them in the loop of
  \<^verbatim>\<open>postprivparent.c\<close>. The child waits for the answer of every request, so that the parent's round runs between the
  request and the answer. A call in the source that chooses between the two models by
  \<open>tunable_one_process_model\<close> has one definition here.
\<close>

section \<open>Model\<close>

definition PRIV_SOCK_CHOWN :: char where "PRIV_SOCK_CHOWN = CHR 0x02"
definition PRIV_SOCK_GET_DATA_SOCK :: char where "PRIV_SOCK_GET_DATA_SOCK = CHR 0x03"
definition PRIV_SOCK_PASV_CLEANUP :: char where "PRIV_SOCK_PASV_CLEANUP = CHR 0x0A"
definition PRIV_SOCK_PASV_ACTIVE :: char where "PRIV_SOCK_PASV_ACTIVE = CHR 0x0B"
definition PRIV_SOCK_PASV_LISTEN :: char where "PRIV_SOCK_PASV_LISTEN = CHR 0x0C"
definition PRIV_SOCK_PASV_ACCEPT :: char where "PRIV_SOCK_PASV_ACCEPT = CHR 0x0D"

lemmas privsock_cmds =
  PRIV_SOCK_CHOWN_def PRIV_SOCK_GET_DATA_SOCK_def PRIV_SOCK_PASV_CLEANUP_def PRIV_SOCK_PASV_ACTIVE_def
  PRIV_SOCK_PASV_LISTEN_def PRIV_SOCK_PASV_ACCEPT_def PRIV_SOCK_RESULT_OK_def PRIV_SOCK_RESULT_BAD_def

definition cmd_process_chown :: "unit act" where
  "cmd_process_chown =
     abind parent_recv_fd (\<lambda>the_fd.
     aseq (vsf_privop_do_file_chown OnParent the_fd)
     (aseq (vsf_sysutil_close the_fd)
     (parent_send (priv_sock_send_result PRIV_SOCK_RESULT_OK))))"

definition cmd_process_get_data_sock :: "tunables \<Rightarrow> unit act" where
  "cmd_process_get_data_sock t =
     abind (parent_recv priv_sock_get_int) (\<lambda>v.
     abind (vsf_privop_get_ftp_port_sock t OnParent (nat (v mod 65536))) (\<lambda>sock_fd.
       if sock_fd = -1 then parent_send (priv_sock_send_result PRIV_SOCK_RESULT_BAD)
       else aseq (parent_send (priv_sock_send_result PRIV_SOCK_RESULT_OK))
            (aseq (parent_send_fd sock_fd) (vsf_sysutil_close sock_fd))))"

definition cmd_process_pasv_cleanup :: "unit act" where
  "cmd_process_pasv_cleanup =
     aseq (vsf_privop_pasv_cleanup OnParent) (parent_send (priv_sock_send_result PRIV_SOCK_RESULT_OK))"

definition cmd_process_pasv_active :: "unit act" where
  "cmd_process_pasv_active =
     abind (vsf_privop_pasv_active OnParent) (\<lambda>active. parent_send (priv_sock_send_int (flag_int active)))"

definition cmd_process_pasv_listen :: "tunables \<Rightarrow> unit act" where
  "cmd_process_pasv_listen t =
     abind (vsf_privop_pasv_listen t OnParent) (\<lambda>port. parent_send (priv_sock_send_int (int port)))"

definition cmd_process_pasv_accept :: "tunables \<Rightarrow> unit act" where
  "cmd_process_pasv_accept t =
     abind (vsf_privop_accept_pasv t OnParent) (\<lambda>fd.
       if fd < 0
       then aseq (parent_send (priv_sock_send_result PRIV_SOCK_RESULT_BAD)) (parent_send (priv_sock_send_int fd))
       else aseq (parent_send (priv_sock_send_result PRIV_SOCK_RESULT_OK))
            (aseq (parent_send_fd fd) (vsf_sysutil_close fd)))"

definition serve_cmd :: "tunables \<Rightarrow> char \<Rightarrow> unit act" where
  "serve_cmd t cmd =
     (if tbool t ''chown_uploads'' \<and> cmd = PRIV_SOCK_CHOWN then cmd_process_chown
      else if cmd = PRIV_SOCK_GET_DATA_SOCK then cmd_process_get_data_sock t
      else if cmd = PRIV_SOCK_PASV_CLEANUP then cmd_process_pasv_cleanup
      else if cmd = PRIV_SOCK_PASV_ACTIVE then cmd_process_pasv_active
      else if cmd = PRIV_SOCK_PASV_LISTEN then cmd_process_pasv_listen t
      else if cmd = PRIV_SOCK_PASV_ACCEPT then cmd_process_pasv_accept t
      else astop (Die ''bad request in process_post_login_req''))"

definition process_post_login_req :: "tunables \<Rightarrow> unit act" where
  "process_post_login_req t = abind (parent_recv priv_sock_get_cmd) (serve_cmd t)"

text \<open>The port of the address that the client has named; a null pointer if it has not.\<close>

definition port_wanted :: "nat act" where
  "port_wanted = awith (\<lambda>w.
     case p_port_sockaddr (child w) of
       None \<Rightarrow> astop Overrun
     | Some p \<Rightarrow> alift (vsf_sysutil_sockaddr_get_port p))"

definition vsf_one_process_get_priv_data_sock :: "tunables \<Rightarrow> int act" where
  "vsf_one_process_get_priv_data_sock t =
     abind port_wanted (\<lambda>port. vsf_privop_get_ftp_port_sock t OnChild port)"

definition vsf_two_process_get_priv_data_sock :: "tunables \<Rightarrow> int act" where
  "vsf_two_process_get_priv_data_sock t =
     abind port_wanted (\<lambda>port.
     aseq (child_send (priv_sock_send_cmd PRIV_SOCK_GET_DATA_SOCK))
     (aseq (child_send (priv_sock_send_int (int port)))
     (aseq (process_post_login_req t)
     (abind (child_recv priv_sock_get_result) (\<lambda>res.
        if res = PRIV_SOCK_RESULT_BAD then aret (-1)
        else if res \<noteq> PRIV_SOCK_RESULT_OK then astop (Die ''could not get privileged socket'')
        else child_recv_fd)))))"

definition vsf_two_process_pasv_cleanup :: "tunables \<Rightarrow> unit act" where
  "vsf_two_process_pasv_cleanup t =
     aseq (child_send (priv_sock_send_cmd PRIV_SOCK_PASV_CLEANUP))
     (aseq (process_post_login_req t)
     (abind (child_recv priv_sock_get_result) (\<lambda>res.
        if res \<noteq> PRIV_SOCK_RESULT_OK then astop (Die ''could not clean up socket'') else aret ())))"

definition vsf_two_process_pasv_active :: "tunables \<Rightarrow> bool act" where
  "vsf_two_process_pasv_active t =
     aseq (child_send (priv_sock_send_cmd PRIV_SOCK_PASV_ACTIVE))
     (aseq (process_post_login_req t)
     (abind (child_recv priv_sock_get_int) (\<lambda>v. aret (v \<noteq> 0))))"

definition vsf_two_process_listen :: "tunables \<Rightarrow> nat act" where
  "vsf_two_process_listen t =
     aseq (child_send (priv_sock_send_cmd PRIV_SOCK_PASV_LISTEN))
     (aseq (process_post_login_req t)
     (abind (child_recv priv_sock_get_int) (\<lambda>v. aret (nat (v mod 65536)))))"

definition vsf_two_process_get_pasv_fd :: "tunables \<Rightarrow> int act" where
  "vsf_two_process_get_pasv_fd t =
     aseq (child_send (priv_sock_send_cmd PRIV_SOCK_PASV_ACCEPT))
     (aseq (process_post_login_req t)
     (abind (child_recv priv_sock_get_result) (\<lambda>res.
        if res = PRIV_SOCK_RESULT_BAD then child_recv priv_sock_get_int
        else if res \<noteq> PRIV_SOCK_RESULT_OK then astop (Die ''could not accept on listening socket'')
        else child_recv_fd)))"

definition vsf_two_process_chown_upload :: "tunables \<Rightarrow> int \<Rightarrow> unit act" where
  "vsf_two_process_chown_upload t fd =
     aseq (child_send (priv_sock_send_cmd PRIV_SOCK_CHOWN))
     (aseq (child_send_fd fd)
     (aseq (process_post_login_req t)
     (abind (child_recv priv_sock_get_result) (\<lambda>res.
        if res \<noteq> PRIV_SOCK_RESULT_OK then astop (Die ''unexpected failure in vsf_two_process_chown_upload'')
        else aret ()))))"

text \<open>The choice of the model at the places where the session calls.\<close>

definition server :: "tunables \<Rightarrow> side" where
  "server t = (if tbool t ''one_process_model'' then OnChild else OnParent)"

definition pasv_cleanup :: "tunables \<Rightarrow> unit act" where
  "pasv_cleanup t =
     (if tbool t ''one_process_model'' then vsf_privop_pasv_cleanup OnChild else vsf_two_process_pasv_cleanup t)"

definition pasv_query :: "tunables \<Rightarrow> bool act" where
  "pasv_query t =
     (if tbool t ''one_process_model'' then vsf_privop_pasv_active OnChild else vsf_two_process_pasv_active t)"

definition pasv_listen :: "tunables \<Rightarrow> nat act" where
  "pasv_listen t =
     (if tbool t ''one_process_model'' then vsf_privop_pasv_listen t OnChild else vsf_two_process_listen t)"

definition get_pasv_fd :: "tunables \<Rightarrow> int act" where
  "get_pasv_fd t =
     (if tbool t ''one_process_model'' then vsf_privop_accept_pasv t OnChild else vsf_two_process_get_pasv_fd t)"

definition get_port_fd :: "tunables \<Rightarrow> int act" where
  "get_port_fd t =
     (if tbool t ''one_process_model'' \<or> tbool t ''port_promiscuous'' then vsf_one_process_get_priv_data_sock t
      else vsf_two_process_get_priv_data_sock t)"

definition chown_upload :: "tunables \<Rightarrow> int \<Rightarrow> unit act" where
  "chown_upload t fd =
     (if tbool t ''one_process_model'' then vsf_privop_do_file_chown OnChild fd else vsf_two_process_chown_upload t fd)"

section \<open>What arrives is what was sent\<close>

text \<open>These facts hold on a socket with errors too: a call that does not stop the process has moved its message.\<close>

lemma sent_whole:
  assumes "vsf_sysutil_write_loop ks d = Inr (int (length d), s, ks1)" and "length d \<le> INT_MAX"
  shows "s = d"
proof -
  obtain r x k where "write_loop ks d [] = Inr (r, x, k)" "prefix x d" "r \<ge> 0 \<longrightarrow> r = int (length x)"
    using write_loop_prefix [of "[]" d d ks] assms(2) by auto
  then show ?thesis using assms(1) by (auto simp: vsf_sysutil_write_loop_def prefix_def split: if_splits)
qed

lemma sent_messages:
  "priv_sock_send_cmd c ks = Inr (b, ks1) \<Longrightarrow> b = [c]"
  "priv_sock_send_result c ks = Inr (b, ks1) \<Longrightarrow> b = [c]"
  "priv_sock_send_int v ks = Inr (b, ks1) \<Longrightarrow> b = int_bytes v"
  using sent_whole [of ks "[c]"] sent_whole [of ks "int_bytes v"] maxstr_bound
  by (auto simp: priv_sock_send_cmd_def priv_sock_send_result_def priv_sock_send_int_def rbind_eq_Inr split: if_splits)

lemma read_whole:
  assumes "vsf_sysutil_read_loop st n = Inr (int n, d, st1)" and "n = length y" and "input st = y @ rest"
  shows "d = y \<and> input st1 = rest"
proof -
  have "\<exists>e. input st = e @ input st1 \<and> d = e \<and> int n = int (length d)"
    using read_loop_consumes [of st n "[]" "int n" d st1] assms(1)
    by (auto simp: vsf_sysutil_read_loop_def split: if_splits)
  then show ?thesis using assms(2,3) by (metis append_eq_append_conv of_nat_eq_iff)
qed

lemma got_messages:
  "input st = [c] @ rest \<Longrightarrow> priv_sock_get_cmd st = Inr (x, st1) \<Longrightarrow> x = c \<and> input st1 = rest"
  "input st = [c] @ rest \<Longrightarrow> priv_sock_get_result st = Inr (x, st1) \<Longrightarrow> x = c \<and> input st1 = rest"
  "input st = int_bytes v @ rest \<Longrightarrow> priv_sock_get_int st = Inr (i, st1) \<Longrightarrow> i = sint32 v \<and> input st1 = rest"
proof -
  show "x = c \<and> input st1 = rest" if "input st = [c] @ rest" "priv_sock_get_cmd st = Inr (x, st1)"
    using that read_whole [of st 1 _ st1 "[c]" rest]
    by (auto simp: priv_sock_get_cmd_def rbind_eq_Inr split: if_splits)
  show "x = c \<and> input st1 = rest" if "input st = [c] @ rest" "priv_sock_get_result st = Inr (x, st1)"
    using that read_whole [of st 1 _ st1 "[c]" rest]
    by (auto simp: priv_sock_get_result_def rbind_eq_Inr split: if_splits)
  show "i = sint32 v \<and> input st1 = rest" if H: "input st = int_bytes v @ rest" "priv_sock_get_int st = Inr (i, st1)"
  proof -
    obtain d where d: "vsf_sysutil_read_loop st 4 = Inr (int 4, d, st1)" "i = sint32 (int (bytes_uint d))"
      using H(2) by (auto simp: priv_sock_get_int_def rbind_eq_Inr split: if_splits)
    have "d = int_bytes v" "input st1 = rest" using read_whole [OF d(1) _ H(1)] by simp_all
    then show ?thesis using d(2) by (simp add: bytes_uint_int_bytes)
  qed
qed

section \<open>The exchange leaves the rest alone\<close>

text \<open>What is under way between the processes, and predicates that do not look at it.\<close>

definition chan :: "world \<Rightarrow> string \<times> string \<times> int list \<times> int list" where
  "chan w = (to_parent w, to_child w, fds_to_parent w, fds_to_child w)"

abbreviation idle :: "world \<Rightarrow> bool" where
  "idle w \<equiv> chan w = ([], [], [], [])"

definition chan_stable :: "(world \<Rightarrow> bool) \<Rightarrow> bool" where
  "chan_stable P \<longleftrightarrow> (\<forall>w tp tc fp fc k1 k2 k3 k4. P w \<longrightarrow>
     P (w\<lparr>to_parent := tp, to_child := tc, fds_to_parent := fp, fds_to_child := fc, req_w := k1, req_r := k2,
          rep_w := k3, rep_r := k4\<rparr>))"

lemma chan_stableD:
  assumes "chan_stable P" and "P w"
  shows "P (w\<lparr>to_parent := tp, req_w := k\<rparr>)" and "P (w\<lparr>to_parent := tp, req_r := k\<rparr>)"
    and "P (w\<lparr>to_child := tp, rep_w := k\<rparr>)" and "P (w\<lparr>to_child := tp, rep_r := k\<rparr>)"
    and "P (w\<lparr>fds_to_parent := f\<rparr>)" and "P (w\<lparr>fds_to_child := f\<rparr>)"
proof -
  note S = assms(1) [unfolded chan_stable_def, rule_format, OF assms(2)]
  show "P (w\<lparr>to_parent := tp, req_w := k\<rparr>)"
    using S [where tp = tp and tc = "to_child w" and fp = "fds_to_parent w" and fc = "fds_to_child w" and ?k1.0 = k and ?k2.0 = "req_r w" and ?k3.0 = "rep_w w" and ?k4.0 = "rep_r w"] by simp
  show "P (w\<lparr>to_parent := tp, req_r := k\<rparr>)"
    using S [where tp = tp and tc = "to_child w" and fp = "fds_to_parent w" and fc = "fds_to_child w" and ?k1.0 = "req_w w" and ?k2.0 = k and ?k3.0 = "rep_w w" and ?k4.0 = "rep_r w"] by simp
  show "P (w\<lparr>to_child := tp, rep_w := k\<rparr>)"
    using S [where tp = "to_parent w" and tc = tp and fp = "fds_to_parent w" and fc = "fds_to_child w" and ?k1.0 = "req_w w" and ?k2.0 = "req_r w" and ?k3.0 = k and ?k4.0 = "rep_r w"] by simp
  show "P (w\<lparr>to_child := tp, rep_r := k\<rparr>)"
    using S [where tp = "to_parent w" and tc = tp and fp = "fds_to_parent w" and fc = "fds_to_child w" and ?k1.0 = "req_w w" and ?k2.0 = "req_r w" and ?k3.0 = "rep_w w" and ?k4.0 = k] by simp
  show "P (w\<lparr>fds_to_parent := f\<rparr>)"
    using S [where tp = "to_parent w" and tc = "to_child w" and fp = f and fc = "fds_to_child w" and ?k1.0 = "req_w w" and ?k2.0 = "req_r w" and ?k3.0 = "rep_w w" and ?k4.0 = "rep_r w"] by simp
  show "P (w\<lparr>fds_to_child := f\<rparr>)"
    using S [where tp = "to_parent w" and tc = "to_child w" and fp = "fds_to_parent w" and fc = f and ?k1.0 = "req_w w" and ?k2.0 = "req_r w" and ?k3.0 = "rep_w w" and ?k4.0 = "rep_r w"] by simp
qed

text \<open>
  The predicate \<open>P\<close> with \<open>c\<close> under way. The rules below run an exchange step by step; sequences are nested to the
  right for them.
\<close>

definition under :: "(world \<Rightarrow> bool) \<Rightarrow> string \<times> string \<times> int list \<times> int list \<Rightarrow> world \<Rightarrow> bool" where
  "under P c w \<longleftrightarrow> P w \<and> chan w = c"

definition sends :: "(answer list \<Rightarrow> (string \<times> answer list) res) \<Rightarrow> string \<Rightarrow> bool" where
  "sends f y \<longleftrightarrow> (\<forall>ks b ks1. f ks = Inr (b, ks1) \<longrightarrow> b = y) \<and> (\<forall>ks e. f ks = Inl e \<longrightarrow> benign e)"

definition gets :: "(stream \<Rightarrow> ('a \<times> stream) res) \<Rightarrow> string \<Rightarrow> 'a \<Rightarrow> bool" where
  "gets g y v \<longleftrightarrow> (\<forall>st rest x st1. input st = y @ rest \<longrightarrow> g st = Inr (x, st1) \<longrightarrow> x = v \<and> input st1 = rest) \<and>
     (\<forall>st e. g st = Inl e \<longrightarrow> benign e)"

lemma moves [simp]:
  "sends (priv_sock_send_cmd c) [c]" "sends (priv_sock_send_result c) [c]" "sends (priv_sock_send_int v) (int_bytes v)"
  "gets priv_sock_get_cmd [c] c" "gets priv_sock_get_result [c] c" "gets priv_sock_get_int (int_bytes v) (sint32 v)"
proof -
  show "sends (priv_sock_send_cmd c) [c]" unfolding sends_def using sent_messages(1) privsock_benign(1) by blast
  show "sends (priv_sock_send_result c) [c]" unfolding sends_def using sent_messages(2) privsock_benign(2) by blast
  show "sends (priv_sock_send_int v) (int_bytes v)" unfolding sends_def using sent_messages(3) privsock_benign(3) by blast
  show "gets priv_sock_get_cmd [c] c" unfolding gets_def using got_messages(1) privsock_benign(4) by blast
  show "gets priv_sock_get_result [c] c" unfolding gets_def using got_messages(2) privsock_benign(5) by blast
  show "gets priv_sock_get_int (int_bytes v) (sint32 v)" unfolding gets_def using got_messages(3) privsock_benign(6) by blast
qed

lemma abind_assoc: "abind (abind m f) g = abind m (\<lambda>x. abind (f x) g)"
  by (rule ext) (auto simp: abind_def split: prod.splits sum.splits)

lemma abind_aret [simp]: "abind (aret x) f = f x"
  by (rule ext) (simp add: abind_def aret_def)

lemma abind_if: "abind (if c then m else n) f = (if c then abind m f else abind n f)"
  by simp

lemmas right_nested = aseq_def abind_assoc abind_if if_distrib [where f = "\<lambda>m. abind m _"]

lemma run_child_send:
  assumes "chan_stable P" and "endable P E" and "sends f y"
    and "avalid (under P (z, tc, fp, fc)) (k ()) Q E" and "z = tp @ y"
  shows "avalid (under P (tp, tc, fp, fc)) (abind (child_send f) k) Q E"
proof (rule avalid_abind)
  show "avalid (under P (tp, tc, fp, fc)) (child_send f) (\<lambda>_. under P (tp @ y, tc, fp, fc)) E"
    using chan_stableD(1) [OF assms(1)] assms(2,3)
    by (force simp: avalid_def child_send_def chan_def under_def sends_def endable_def split: sum.splits)
qed (use assms(4,5) in simp)

lemma run_parent_send:
  assumes "chan_stable P" and "endable P E" and "sends f y"
    and "avalid (under P (tp, z, fp, fc)) (k ()) Q E" and "z = tc @ y"
  shows "avalid (under P (tp, tc, fp, fc)) (abind (parent_send f) k) Q E"
proof (rule avalid_abind)
  show "avalid (under P (tp, tc, fp, fc)) (parent_send f) (\<lambda>_. under P (tp, tc @ y, fp, fc)) E"
    using chan_stableD(3) [OF assms(1)] assms(2,3)
    by (force simp: avalid_def parent_send_def chan_def under_def sends_def endable_def split: sum.splits)
qed (use assms(4,5) in simp)

lemma run_parent_recv:
  assumes "chan_stable P" and "endable P E" and "gets g y v"
    and "avalid (under P (rest, tc, fp, fc)) (k v) Q E" and "z = y @ rest"
  shows "avalid (under P (z, tc, fp, fc)) (abind (parent_recv g) k) Q E"
  unfolding assms(5)
proof (rule avalid_abind)
  show "avalid (under P (y @ rest, tc, fp, fc)) (parent_recv g) (\<lambda>x w. x = v \<and> under P (rest, tc, fp, fc) w) E"
    using chan_stableD(2) [OF assms(1)] assms(2)
    by (auto simp: avalid_def parent_recv_def chan_def under_def endable_def split: sum.splits
        dest: assms(3) [unfolded gets_def, THEN conjunct1, rule_format, rotated] assms(3) [unfolded gets_def, THEN conjunct2, rule_format])
qed (use assms(4) in \<open>auto simp: avalid_def\<close>)

lemma run_child_recv:
  assumes "chan_stable P" and "endable P E" and "gets g y v"
    and "avalid (under P (tp, rest, fp, fc)) (k v) Q E" and "z = y @ rest"
  shows "avalid (under P (tp, z, fp, fc)) (abind (child_recv g) k) Q E"
  unfolding assms(5)
proof (rule avalid_abind)
  show "avalid (under P (tp, y @ rest, fp, fc)) (child_recv g) (\<lambda>x w. x = v \<and> under P (tp, rest, fp, fc) w) E"
    using chan_stableD(4) [OF assms(1)] assms(2)
    by (auto simp: avalid_def child_recv_def chan_def under_def endable_def split: sum.splits
        dest: assms(3) [unfolded gets_def, THEN conjunct1, rule_format, rotated] assms(3) [unfolded gets_def, THEN conjunct2, rule_format])
qed (use assms(4) in \<open>auto simp: avalid_def\<close>)

lemma run_fds:
  assumes "chan_stable P"
  shows "avalid (under P (tp, tc, fp @ [fd], fc)) (k ()) Q E \<Longrightarrow>
      avalid (under P (tp, tc, fp, fc)) (abind (child_send_fd fd) k) Q E"
    and "avalid (under P (tp, tc, fp, fc @ [fd])) (k ()) Q E \<Longrightarrow>
      avalid (under P (tp, tc, fp, fc)) (abind (parent_send_fd fd) k) Q E"
    and "avalid (under P (tp, tc, fp, fc)) (k2 fd) Q E \<Longrightarrow>
      avalid (under P (tp, tc, fd # fp, fc)) (abind parent_recv_fd k2) Q E"
    and "avalid (under P (tp, tc, fp, fc)) (k2 fd) Q E \<Longrightarrow>
      avalid (under P (tp, tc, fp, fd # fc)) (abind child_recv_fd k2) Q E"
  using chan_stableD(5,6) [OF assms]
  by (force simp: avalid_def abind_def child_send_fd_def parent_send_fd_def parent_recv_fd_def child_recv_fd_def
      chan_def under_def)+

text \<open>Actions that do not use the socket pair.\<close>

definition framed :: "'a act \<Rightarrow> bool" where
  "framed m \<longleftrightarrow> (\<forall>w. chan (snd (m w)) = chan w)"

lemma framed_bind: "framed m \<Longrightarrow> (\<And>x. framed (f x)) \<Longrightarrow> framed (abind m f)"
  unfolding framed_def abind_def by (simp split: prod.splits sum.splits) (metis snd_conv)

lemma framed_seq: "framed m \<Longrightarrow> framed n \<Longrightarrow> framed (aseq m n)"
  unfolding aseq_def by (rule framed_bind)

lemma framed_with: "(\<And>w. framed (f w)) \<Longrightarrow> framed (awith f)"
  by (simp add: framed_def awith_def)

lemma framed_simple [simp]:
  "framed (aret x)" "framed (astop e)" "framed (alift r)" "framed (sys c)" "framed (upd_sess sd f)"
  by (simp_all add: framed_def aret_def astop_def alift_def sys_def chan_def) (cases sd; simp add: upd_child_def)

lemma framed_calls [simp]:
  "framed (die_if s b c)" "framed (vsf_sysutil_close fd)" "framed (vsf_sysutil_fstat fd)"
  "framed (vsf_sysutil_bind fd p)" "framed vsf_sysutil_get_random_byte" "framed (vsf_sysutil_listen fd)"
  "framed (vsf_sysutil_fchown fd uid)" "framed (vsf_sysutil_get_ipsock p)"
  "framed (vsf_sysutil_connect_timeout fd p)" "framed (vsf_sysutil_accept_timeout fd)"
  by (auto simp: die_if_def vsf_sysutil_close_def vsf_sysutil_fstat_def vsf_sysutil_bind_def vsf_sysutil_listen_def
      vsf_sysutil_get_random_byte_def vsf_sysutil_fchown_def vsf_sysutil_get_ipsock_def vsf_sysutil_connect_timeout_def
      vsf_sysutil_accept_timeout_def intro!: framed_bind)

lemma framed_loops [simp]: "framed (port_bind_loop n sd s port)" "framed (pasv_bind_loop n t sd)"
  by (induction n) (auto simp: Let_def intro!: framed_bind framed_with)

lemma framed_privops [simp]:
  "framed (vsf_privop_pasv_active sd)" "framed (vsf_privop_pasv_cleanup sd)" "framed (vsf_privop_pasv_listen t sd)"
  "framed (vsf_privop_accept_pasv t sd)" "framed (vsf_privop_do_file_chown sd fd)"
  "framed (vsf_privop_get_ftp_port_sock t sd port)"
  by (auto simp: vsf_privop_pasv_active_def vsf_privop_pasv_cleanup_def vsf_privop_pasv_listen_def Let_def
      vsf_privop_accept_pasv_def vsf_privop_do_file_chown_def vsf_privop_get_ftp_port_sock_def
      intro!: framed_bind framed_with framed_seq)

lemma run_framed:
  assumes "framed m" and "avalid P m R E" and "\<And>x. avalid (under (R x) c) (k x) Q E"
  shows "avalid (under P c) (abind m k) Q E"
proof (rule avalid_abind)
  have "chan w1 = chan w" if "m w = (r, w1)" for w r w1
    using assms(1) that unfolding framed_def by (metis snd_conv)
  then show "avalid (under P c) m (\<lambda>x. under (R x) c) E"
    using assms(2) unfolding avalid_def under_def by (auto split: prod.splits sum.splits)
qed (rule assms(3))

lemma run_end: "(\<And>w. P w \<Longrightarrow> chan w = c \<Longrightarrow> Q x w) \<Longrightarrow> avalid (under P c) (aret x) Q E"
  by (rule avalid_aret) (simp add: under_def)

section \<open>Either process model implements the privileged operation\<close>

text \<open>
  Closing a descriptor leaves a predicate alone. \<open>serves call priv\<close>: whatever holds after the privileged
  operation \<open>priv\<close> holds after \<open>call\<close> made with nothing under way, and nothing is under way after it, whatever
  the socket does. This is refinement, stated for predicates that look neither at the socket pair nor at the
  closing of descriptors (the parent closes its copy of a descriptor that it hands over).
\<close>

definition close_stable :: "(world \<Rightarrow> bool) \<Rightarrow> bool" where
  "close_stable P \<longleftrightarrow> (\<forall>w fd. P w \<longrightarrow> P (w\<lparr>trace := trace w @ [Close fd]\<rparr>))"

definition serves :: "'a act \<Rightarrow> 'a act \<Rightarrow> bool" where
  "serves call priv \<longleftrightarrow>
     (\<forall>P Q E. chan_stable P \<longrightarrow> (\<forall>x. chan_stable (Q x) \<and> close_stable (Q x)) \<longrightarrow> endable P E \<longrightarrow>
        (\<forall>x. endable (Q x) E) \<longrightarrow> avalid P priv Q E \<longrightarrow>
        avalid (under P ([], [], [], [])) call (\<lambda>x w. Q x w \<and> idle w) E)"

text \<open>Closing the parent's copy of a descriptor.\<close>

lemma run_close:
  assumes "close_stable P" and "endable P E" and "avalid (under P c) (k ()) Q E"
  shows "avalid (under P c) (abind (vsf_sysutil_close fd) k) Q E"
proof (rule avalid_abind)
  show "avalid (under P c) (vsf_sysutil_close fd) (\<lambda>_. under P c) E"
    using assms(1,2)
    by (auto simp: avalid_def vsf_sysutil_close_def die_if_def abind_def sys_def aret_def astop_def close_stable_def
        chan_def under_def endable_def)
qed (use assms(3) in simp)

lemma servesI:
  assumes "\<And>P Q E. chan_stable P \<Longrightarrow> (\<And>x. chan_stable (Q x)) \<Longrightarrow> (\<And>x. close_stable (Q x)) \<Longrightarrow> endable P E \<Longrightarrow>
     (\<And>x. endable (Q x) E) \<Longrightarrow> avalid P priv Q E \<Longrightarrow>
     avalid (under P ([], [], [], [])) call (\<lambda>x w. Q x w \<and> idle w) E"
  shows "serves call priv"
  unfolding serves_def by (intro allI impI assms) auto

lemma serves_self: "framed priv \<Longrightarrow> serves priv priv"
proof (rule servesI)
  fix P :: "world \<Rightarrow> bool" and Q and E :: "fault \<Rightarrow> world \<Rightarrow> bool"
  assume "framed priv" and "avalid P priv Q E"
  then have "avalid (under P ([], [], [], [])) (abind priv aret) (\<lambda>x w. Q x w \<and> idle w) E"
    by (rule run_framed) (auto intro: run_end)
  moreover have "abind priv aret = priv"
    by (rule ext) (simp add: abind_def aret_def split: prod.splits sum.splits)
  ultimately show "avalid (under P ([], [], [], [])) priv (\<lambda>x w. Q x w \<and> idle w) E" by simp
qed

lemma serve_cmds [simp]:
  "serve_cmd t PRIV_SOCK_GET_DATA_SOCK = cmd_process_get_data_sock t"
  "serve_cmd t PRIV_SOCK_PASV_CLEANUP = cmd_process_pasv_cleanup"
  "serve_cmd t PRIV_SOCK_PASV_ACTIVE = cmd_process_pasv_active"
  "serve_cmd t PRIV_SOCK_PASV_LISTEN = cmd_process_pasv_listen t"
  "serve_cmd t PRIV_SOCK_PASV_ACCEPT = cmd_process_pasv_accept t"
  "tbool t ''chown_uploads'' \<Longrightarrow> serve_cmd t PRIV_SOCK_CHOWN = cmd_process_chown"
  "PRIV_SOCK_RESULT_OK \<noteq> PRIV_SOCK_RESULT_BAD" "PRIV_SOCK_RESULT_BAD \<noteq> PRIV_SOCK_RESULT_OK"
  by (simp_all add: serve_cmd_def privsock_cmds)

lemma run_serve:
  assumes "chan_stable P" and "endable P E" and "avalid (under P (rest, tc, fp, fc)) (abind (serve_cmd t c) k) Q E"
  shows "avalid (under P (c # rest, tc, fp, fc)) (abind (process_post_login_req t) k) Q E"
  unfolding process_post_login_req_def abind_assoc
  by (rule run_parent_recv [where y = "[c]" and v = c]) (use assms in simp_all)

text \<open>The request, the parent's round and the answer, for a request of one byte.\<close>

lemma run_request:
  assumes "chan_stable P" and "endable P E" and "avalid (under P ([], [], [], [])) (abind (serve_cmd t c) (\<lambda>_. k)) Q E"
  shows "avalid (under P ([], [], [], []))
    (aseq (child_send (priv_sock_send_cmd c)) (aseq (process_post_login_req t) k)) Q E"
  unfolding aseq_def by (rule run_child_send [OF assms(1,2) moves(1) run_serve [OF assms]]) simp

text \<open>The result codes and integers that come back.\<close>

lemma run_result:
  assumes "chan_stable P" and "endable P E" and "avalid (under P ([], tc, [], fc)) (k c) Q E"
  shows "avalid (under P ([], c # tc, [], fc)) (abind (child_recv priv_sock_get_result) k) Q E"
  by (rule run_child_recv [OF assms(1,2) moves(5) [of c]]) (simp_all add: assms(3))

lemma run_int:
  assumes "chan_stable P" and "endable P E" and "avalid (under P ([], [], [], [])) (k (sint32 v)) Q E"
  shows "avalid (under P ([], int_bytes v, [], [])) (abind (child_recv priv_sock_get_int) k) Q E"
  by (rule run_child_recv [OF assms(1,2) moves(6) [of v]]) (simp_all add: assms(3))

lemma serves_active: "serves (vsf_two_process_pasv_active t) (vsf_privop_pasv_active OnParent)"
  unfolding vsf_two_process_pasv_active_def
proof (rule servesI, rule run_request)
  fix P :: "world \<Rightarrow> bool" and Q :: "bool \<Rightarrow> world \<Rightarrow> bool" and E :: "fault \<Rightarrow> world \<Rightarrow> bool"
  assume H: "\<And>x. chan_stable (Q x)" "\<And>x. endable (Q x) E"
    and V: "avalid P (vsf_privop_pasv_active OnParent) Q E"
  show "avalid (under P ([], [], [], [])) (abind (serve_cmd t PRIV_SOCK_PASV_ACTIVE)
      (\<lambda>_. abind (child_recv priv_sock_get_int) (\<lambda>v. aret (v \<noteq> 0)))) (\<lambda>x w. Q x w \<and> idle w) E"
    unfolding serve_cmds cmd_process_pasv_active_def abind_assoc
    by (rule run_framed [OF _ V], simp, rule run_parent_send [OF H moves(3)], rule run_int [OF H])
      (auto intro!: run_end simp: flag_int_def sint32_def split: if_splits)
qed

lemma serves_cleanup: "serves (vsf_two_process_pasv_cleanup t) (vsf_privop_pasv_cleanup OnParent)"
  unfolding vsf_two_process_pasv_cleanup_def
proof (rule servesI, rule run_request)
  fix P :: "world \<Rightarrow> bool" and Q :: "unit \<Rightarrow> world \<Rightarrow> bool" and E :: "fault \<Rightarrow> world \<Rightarrow> bool"
  assume H: "\<And>x. chan_stable (Q x)" "\<And>x. endable (Q x) E"
    and V: "avalid P (vsf_privop_pasv_cleanup OnParent) Q E"
  show "avalid (under P ([], [], [], [])) (abind (serve_cmd t PRIV_SOCK_PASV_CLEANUP)
      (\<lambda>_. abind (child_recv priv_sock_get_result) (\<lambda>res.
        if res \<noteq> PRIV_SOCK_RESULT_OK then astop (Die ''could not clean up socket'') else aret ())))
      (\<lambda>x w. Q x w \<and> idle w) E"
    unfolding serve_cmds cmd_process_pasv_cleanup_def aseq_def abind_assoc
    by (rule run_framed [OF _ V], simp, rule run_parent_send [OF H moves(2)], rule run_result [OF H])
      (auto intro!: run_end)
qed

text \<open>What the values of the privileged operations can be.\<close>

definition returns :: "'a act \<Rightarrow> ('a \<Rightarrow> bool) \<Rightarrow> bool" where
  "returns m F \<longleftrightarrow> (\<forall>w x w1. m w = (Inr x, w1) \<longrightarrow> F x)"

lemma returns_bind: "(\<And>x. returns (f x) F) \<Longrightarrow> returns (abind m f) F"
  unfolding returns_def abind_def by (auto split: prod.splits sum.splits)

lemma returns_bind_val: "returns m G \<Longrightarrow> (\<And>x. G x \<Longrightarrow> returns (f x) F) \<Longrightarrow> returns (abind m f) F"
  unfolding returns_def abind_def by (auto split: prod.splits sum.splits) blast

lemma returns_seq: "returns n F \<Longrightarrow> returns (aseq m n) F"
  unfolding aseq_def by (rule returns_bind)

lemma returns_with: "(\<And>w. returns (f w) F) \<Longrightarrow> returns (awith f) F"
  by (auto simp: returns_def awith_def)

lemma returns_simple [simp]: "returns (aret x) F \<longleftrightarrow> F x" "returns (astop e) F"
  by (auto simp: returns_def aret_def astop_def)

lemma random_byte_range: "returns vsf_sysutil_get_random_byte (\<lambda>n. n < 256)"
  unfolding vsf_sysutil_get_random_byte_def by (rule returns_bind) (simp add: nat_less_iff)

lemma pasv_bind_range: "returns (pasv_bind_loop n t sd) (\<lambda>p. 1024 \<le> p \<and> p \<le> 65535)"
proof (induction n)
  case (Suc n)
  have r: "1024 \<le> scale_port (fst (pasv_ports t)) (snd (pasv_ports t)) (hi * 256 + lo) \<and>
      scale_port (fst (pasv_ports t)) (snd (pasv_ports t)) (hi * 256 + lo) \<le> 65535" if "hi < 256" "lo < 256" for hi lo
    using scale_port_range [of "fst (pasv_ports t)" "snd (pasv_ports t)" "hi * 256 + lo"] pasv_ports_range [of t] that
    by auto
  show ?case
    by (simp only: pasv_bind_loop.simps Let_def, rule returns_bind_val [OF random_byte_range],
        rule returns_bind_val [OF random_byte_range], rule returns_with, rule returns_bind, rule returns_bind)
      (use Suc r in \<open>auto intro!: returns_bind\<close>)
qed simp

lemma listen_range: "returns (vsf_privop_pasv_listen t sd) (\<lambda>p. 1024 \<le> p \<and> p \<le> 65535)"
  unfolding vsf_privop_pasv_listen_def
  by (rule returns_with, rule returns_bind, rule returns_seq, rule pasv_bind_range)

lemma accept_values: "returns (vsf_privop_accept_pasv t sd) (\<lambda>fd. fd = -1 \<or> fd = -2 \<or> 0 \<le> fd)"
  unfolding vsf_privop_accept_pasv_def by (intro returns_with returns_bind) (auto intro!: returns_seq)

lemma port_sock_values: "returns (vsf_privop_get_ftp_port_sock t sd port) (\<lambda>fd. fd = -1 \<or> 0 \<le> fd)"
proof -
  have "returns (vsf_sysutil_get_ipsock p) (\<lambda>fd. 0 \<le> fd)" for p
    by (auto simp: vsf_sysutil_get_ipsock_def die_if_def abind_def returns_def aret_def astop_def sys_def
        split: if_splits prod.splits sum.splits)
  then show ?thesis unfolding vsf_privop_get_ftp_port_sock_def
    by (intro returns_with, rule returns_bind_val) (auto intro!: returns_seq returns_bind)
qed

lemma run_framed_val:
  assumes "framed m" and "avalid P m R E" and "returns m F" and "\<And>x. F x \<Longrightarrow> avalid (under (R x) c) (k x) Q E"
  shows "avalid (under P c) (abind m k) Q E"
proof (rule avalid_abind)
  have "chan w1 = chan w" if "m w = (r, w1)" for w r w1
    using assms(1) that unfolding framed_def by (metis snd_conv)
  then show "avalid (under P c) m (\<lambda>x w. F x \<and> under (R x) c w) E"
    using assms(2,3) unfolding avalid_def under_def returns_def by (auto split: prod.splits sum.splits) blast
qed (use assms(4) in \<open>auto simp: avalid_def\<close>)

lemma serves_listen: "serves (vsf_two_process_listen t) (vsf_privop_pasv_listen t OnParent)"
  unfolding vsf_two_process_listen_def
proof (rule servesI, rule run_request)
  fix P :: "world \<Rightarrow> bool" and Q :: "nat \<Rightarrow> world \<Rightarrow> bool" and E :: "fault \<Rightarrow> world \<Rightarrow> bool"
  assume H: "\<And>x. chan_stable (Q x)" "\<And>x. endable (Q x) E"
    and V: "avalid P (vsf_privop_pasv_listen t OnParent) Q E"
  have port: "nat (sint32 (int p) mod 65536) = p" if "p \<le> 65535" for p
    using that by (simp add: sint32_def)
  show "avalid (under P ([], [], [], [])) (abind (serve_cmd t PRIV_SOCK_PASV_LISTEN)
      (\<lambda>_. abind (child_recv priv_sock_get_int) (\<lambda>v. aret (nat (v mod 65536))))) (\<lambda>x w. Q x w \<and> idle w) E"
    unfolding serve_cmds cmd_process_pasv_listen_def abind_assoc
    by (rule run_framed_val [OF _ V listen_range], simp, rule run_parent_send [OF H moves(3)], rule run_int [OF H])
      (auto intro!: run_end simp: port)
qed

text \<open>A descriptor on its way back, with the result code before it.\<close>

lemma run_fd_back:
  assumes "chan_stable P" and "close_stable P" and "endable P E" and "avalid (under P ([], [PRIV_SOCK_RESULT_OK], [], [fd])) k Q E"
  shows "avalid (under P ([], [], [], [])) (abind (parent_send (priv_sock_send_result PRIV_SOCK_RESULT_OK))
    (\<lambda>_. abind (parent_send_fd fd) (\<lambda>_. abind (vsf_sysutil_close fd) (\<lambda>_. k)))) Q E"
  by (rule run_parent_send [OF assms(1,3) moves(2)], rule run_fds(2) [OF assms(1)], rule run_close)
    (use assms in simp_all)

lemma run_fd_last:
  assumes "chan_stable P" and "\<And>w. P w \<Longrightarrow> idle w \<Longrightarrow> Q fd w"
  shows "avalid (under P ([], [], [], [fd])) child_recv_fd Q E"
  using chan_stableD(6) [OF assms(1)] assms(2) by (auto simp: avalid_def child_recv_fd_def under_def chan_def)

lemma run_int_last:
  assumes "chan_stable P" and "endable P E" and "\<And>w. P w \<Longrightarrow> idle w \<Longrightarrow> Q (sint32 v) w"
  shows "avalid (under P ([], int_bytes v, [], [])) (child_recv priv_sock_get_int) Q E"
proof -
  have "avalid (under P ([], int_bytes v, [], [])) (abind (child_recv priv_sock_get_int) aret) Q E"
    by (rule run_int [OF assms(1,2)]) (simp add: run_end assms(3))
  moreover have "abind (child_recv priv_sock_get_int) aret = child_recv priv_sock_get_int"
    by (rule ext) (simp add: abind_def aret_def split: prod.splits sum.splits)
  ultimately show ?thesis by simp
qed

lemma serves_accept: "serves (vsf_two_process_get_pasv_fd t) (vsf_privop_accept_pasv t OnParent)"
  unfolding vsf_two_process_get_pasv_fd_def
proof (rule servesI, rule run_request)
  fix P :: "world \<Rightarrow> bool" and Q :: "int \<Rightarrow> world \<Rightarrow> bool" and E :: "fault \<Rightarrow> world \<Rightarrow> bool"
  let ?k = "abind (child_recv priv_sock_get_result) (\<lambda>res.
        if res = PRIV_SOCK_RESULT_BAD then child_recv priv_sock_get_int
        else if res \<noteq> PRIV_SOCK_RESULT_OK then astop (Die ''could not accept on listening socket'')
        else child_recv_fd)"
  assume H: "\<And>x. chan_stable (Q x)" "\<And>x. endable (Q x) E" and C: "\<And>x. close_stable (Q x)"
    and V: "avalid P (vsf_privop_accept_pasv t OnParent) Q E"
  have small: "sint32 fd = fd" if "fd = -1 \<or> fd = -2" for fd using that by (auto simp: sint32_def)
  have bad: "avalid (under (Q fd) ([], [], [], [])) (abind (parent_send (priv_sock_send_result PRIV_SOCK_RESULT_BAD))
      (\<lambda>_. abind (parent_send (priv_sock_send_int fd)) (\<lambda>_. ?k))) (\<lambda>x w. Q x w \<and> idle w) E"
    if "fd = -1 \<or> fd = -2" for fd
    by (rule run_parent_send [OF H moves(2)], rule run_parent_send [OF H moves(3)], rule run_result [OF H])
      (use that in \<open>auto intro!: run_int_last H simp: small\<close>)
  have ok: "avalid (under (Q fd) ([], [], [], [])) (abind (parent_send (priv_sock_send_result PRIV_SOCK_RESULT_OK))
      (\<lambda>_. abind (parent_send_fd fd) (\<lambda>_. abind (vsf_sysutil_close fd) (\<lambda>_. ?k)))) (\<lambda>x w. Q x w \<and> idle w) E" for fd
    by (rule run_fd_back [OF H(1) C H(2)], rule run_result [OF H]) (auto intro!: run_fd_last H)
  show "avalid (under P ([], [], [], [])) (abind (serve_cmd t PRIV_SOCK_PASV_ACCEPT) (\<lambda>_. ?k)) (\<lambda>x w. Q x w \<and> idle w) E"
    unfolding serve_cmds cmd_process_pasv_accept_def abind_assoc
    by (rule run_framed_val [OF _ V accept_values], simp)
      (use bad ok in \<open>auto simp: aseq_def abind_assoc\<close>)
qed

lemma serves_chown:
  assumes "tbool t ''chown_uploads''"
  shows "serves (vsf_two_process_chown_upload t fd) (vsf_privop_do_file_chown OnParent fd)"
  unfolding vsf_two_process_chown_upload_def aseq_def
proof (rule servesI)
  fix P :: "world \<Rightarrow> bool" and Q :: "unit \<Rightarrow> world \<Rightarrow> bool" and E :: "fault \<Rightarrow> world \<Rightarrow> bool"
  let ?k = "abind (child_recv priv_sock_get_result) (\<lambda>res.
        if res \<noteq> PRIV_SOCK_RESULT_OK then astop (Die ''unexpected failure in vsf_two_process_chown_upload'') else aret ())"
  assume P: "chan_stable P" "endable P E" and H: "\<And>x. chan_stable (Q x)" "\<And>x. endable (Q x) E"
    and C: "\<And>x. close_stable (Q x)" and V: "avalid P (vsf_privop_do_file_chown OnParent fd) Q E"
  have "avalid (under (Q x) ([], [], [], [])) (abind (vsf_sysutil_close fd)
      (\<lambda>_. abind (parent_send (priv_sock_send_result PRIV_SOCK_RESULT_OK)) (\<lambda>_. ?k))) (\<lambda>x w. Q x w \<and> idle w) E" for x
    by (rule run_close [OF C H(2)], rule run_parent_send [OF H moves(2)], rule run_result [OF H]) (auto intro!: run_end)
  then have "avalid (under P ([], [], [fd], [])) (abind cmd_process_chown (\<lambda>_. ?k)) (\<lambda>x w. Q x w \<and> idle w) E"
    unfolding cmd_process_chown_def aseq_def abind_assoc
    by (intro run_fds(3) [OF P(1)] run_framed [OF _ V]) simp_all
  then show "avalid (under P ([], [], [], [])) (abind (child_send (priv_sock_send_cmd PRIV_SOCK_CHOWN))
      (\<lambda>_. abind (child_send_fd fd) (\<lambda>_. abind (process_post_login_req t) (\<lambda>_. ?k)))) (\<lambda>x w. Q x w \<and> idle w) E"
    by (intro run_child_send [OF P moves(1), where z = "[PRIV_SOCK_CHOWN]"] run_fds(1) [OF P(1)] run_serve [OF P])
      (simp_all add: assms)
qed

text \<open>The data connection to the client, whatever port it has named.\<close>

definition port_named :: "world \<Rightarrow> bool" where
  "port_named w \<longleftrightarrow> (\<exists>p. p_port_sockaddr (child w) = Some p \<and> p \<noteq> AF_UNSPEC)"

lemma port_wanted_keeps: "(\<And>w. P w \<Longrightarrow> port_named w) \<Longrightarrow> avalid P port_wanted (\<lambda>_. P) E"
  by (auto simp: avalid_def port_wanted_def awith_def astop_def alift_def port_named_def
      vsf_sysutil_sockaddr_get_port_def split: option.splits sum.splits vsf_sysutil_sockaddr.splits) fastforce+

lemma serves_port:
  assumes "chan_stable P" and "endable P E" and "\<And>x. chan_stable (Q x)" and "\<And>x. endable (Q x) E"
    and "\<And>x. close_stable (Q x)" and "\<And>port. avalid P (vsf_privop_get_ftp_port_sock t OnParent port) Q E"
    and "\<And>w. P w \<Longrightarrow> port_named w"
  shows "avalid (under P ([], [], [], [])) (vsf_two_process_get_priv_data_sock t) (\<lambda>x w. Q x w \<and> idle w) E"
proof -
  let ?k = "abind (child_recv priv_sock_get_result) (\<lambda>res.
        if res = PRIV_SOCK_RESULT_BAD then aret (-1)
        else if res \<noteq> PRIV_SOCK_RESULT_OK then astop (Die ''could not get privileged socket'')
        else child_recv_fd)"
  note H = assms(3,4)
  have bad: "avalid (under (Q (-1)) ([], [], [], [])) (abind (parent_send (priv_sock_send_result PRIV_SOCK_RESULT_BAD)) (\<lambda>_. ?k))
      (\<lambda>x w. Q x w \<and> idle w) E"
    by (rule run_parent_send [OF H moves(2)], rule run_result [OF H]) (auto intro!: run_end)
  have ok: "avalid (under (Q fd) ([], [], [], [])) (abind (parent_send (priv_sock_send_result PRIV_SOCK_RESULT_OK))
      (\<lambda>_. abind (parent_send_fd fd) (\<lambda>_. abind (vsf_sysutil_close fd) (\<lambda>_. ?k)))) (\<lambda>x w. Q x w \<and> idle w) E" for fd
    by (rule run_fd_back [OF H(1) assms(5) H(2)], rule run_result [OF H]) (auto intro!: run_fd_last H)
  have serve: "avalid (under P (int_bytes (int port), [], [], [])) (abind (cmd_process_get_data_sock t) (\<lambda>_. ?k))
      (\<lambda>x w. Q x w \<and> idle w) E" for port
    unfolding cmd_process_get_data_sock_def abind_assoc
    by (rule run_parent_recv [OF assms(1,2) moves(6)], rule run_framed [OF _ assms(6)])
      (use bad ok in \<open>auto simp: aseq_def abind_assoc\<close>)
  have ask: "avalid (under P ([], [], [], [])) (abind (child_send (priv_sock_send_cmd PRIV_SOCK_GET_DATA_SOCK))
      (\<lambda>_. abind (child_send (priv_sock_send_int (int port))) (\<lambda>_. abind (process_post_login_req t) (\<lambda>_. ?k))))
      (\<lambda>x w. Q x w \<and> idle w) E" for port
    by (rule run_child_send [OF assms(1,2) moves(1), where z = "[PRIV_SOCK_GET_DATA_SOCK]"],
        rule run_child_send [OF assms(1,2) moves(3), where z = "PRIV_SOCK_GET_DATA_SOCK # int_bytes (int port)"],
        rule run_serve [OF assms(1,2)]) (use serve in simp_all)
  have "avalid P port_wanted (\<lambda>_. P) E" by (rule port_wanted_keeps) (rule assms(7))
  moreover have "framed port_wanted"
    by (auto simp: port_wanted_def intro!: framed_with split: option.splits)
  ultimately show ?thesis unfolding vsf_two_process_get_priv_data_sock_def aseq_def
    by (intro run_framed [of port_wanted P "\<lambda>_. P"] ask)
qed

section \<open>The services of either process model\<close>

locale privileged_service =
  fixes call :: "tunables \<Rightarrow> 'a act" and priv :: "tunables \<Rightarrow> side \<Rightarrow> 'a act"
  assumes serves_priv: "serves (call t) (priv t (server t))"
begin

lemma transfer:
  assumes "chan_stable P" and "\<And>x. chan_stable (Q x)" and "\<And>x. close_stable (Q x)" and "endable P E"
    and "\<And>x. endable (Q x) E" and "avalid P (priv t (server t)) Q E"
  shows "avalid (\<lambda>w. P w \<and> idle w) (call t) (\<lambda>x w. Q x w \<and> idle w) E"
  using serves_priv [of t, unfolded serves_def, rule_format, of P Q E] assms by (simp add: under_def [abs_def])

lemma keeps_inv:
  assumes "chan_stable I" and "close_stable I" and "endable I E" and "gives I E (priv t (server t)) F"
  shows "gives (\<lambda>w. I w \<and> idle w) E (call t) F"
proof -
  have st: "chan_stable (\<lambda>w. I w \<and> F x)" "close_stable (\<lambda>w. I w \<and> F x)" for x
    using assms(1,2) by (simp_all add: chan_stable_def close_stable_def)
  have "avalid (\<lambda>w. I w \<and> idle w) (call t) (\<lambda>x w. (I w \<and> F x) \<and> idle w) E"
    by (rule transfer [OF assms(1) st]) (use assms(3,4) in \<open>auto simp: gives_def endable_def\<close>)
  then show ?thesis unfolding gives_def by (rule avalid_post) auto
qed

end

lemma serves_choice:
  assumes "framed (p OnChild)" and "serves two (p OnParent)"
  shows "serves (if tbool t ''one_process_model'' then p OnChild else two) (p (server t))"
  using assms(2) serves_self [OF assms(1)] by (simp add: server_def)

interpretation cleanup_svc: privileged_service pasv_cleanup "\<lambda>t. vsf_privop_pasv_cleanup"
  by unfold_locales (simp only: pasv_cleanup_def, rule serves_choice, simp, rule serves_cleanup)

interpretation query_svc: privileged_service pasv_query "\<lambda>t. vsf_privop_pasv_active"
  by unfold_locales (simp only: pasv_query_def, rule serves_choice, simp, rule serves_active)

interpretation listen_svc: privileged_service pasv_listen vsf_privop_pasv_listen
  by unfold_locales (simp only: pasv_listen_def, rule serves_choice, simp, rule serves_listen)

interpretation accept_svc: privileged_service get_pasv_fd vsf_privop_accept_pasv
  by unfold_locales (simp only: get_pasv_fd_def, rule serves_choice, simp, rule serves_accept)

section \<open>Properties\<close>

text \<open>
  The world without the socket pair, and without the closing of descriptors.
\<close>

definition chanless :: "world \<Rightarrow> world" where
  "chanless w = w\<lparr>to_parent := [], to_child := [], fds_to_parent := [], fds_to_child := [], req_w := [], req_r := [],
     rep_w := [], rep_r := []\<rparr>"

definition closeless :: "world \<Rightarrow> world" where
  "closeless w = (chanless w)\<lparr>trace := filter (\<lambda>c. \<nexists>fd. c = Close fd) (trace w)\<rparr>"

lemma chanless_eqD:
  assumes "chanless v = chanless w"
  shows "child v = child w" "parent v = parent w" "os v = os w" "trace v = trace w" "sess sd v = sess sd w"
proof -
  note sel = arg_cong [OF assms, of child] arg_cong [OF assms, of parent] arg_cong [OF assms, of os]
    arg_cong [OF assms, of trace]
  show "child v = child w" "parent v = parent w" "os v = os w" "trace v = trace w" "sess sd v = sess sd w"
    using sel by (simp_all add: chanless_def) (cases sd; simp)
qed

lemma chanless_upd:
  assumes "chanless v = chanless w"
  shows "chanless (v\<lparr>trace := tr\<rparr>) = chanless (w\<lparr>trace := tr\<rparr>)"
    "chanless (v\<lparr>child := s\<rparr>) = chanless (w\<lparr>child := s\<rparr>)" "chanless (v\<lparr>parent := s\<rparr>) = chanless (w\<lparr>parent := s\<rparr>)"
proof -
  have "chanless (v\<lparr>trace := tr\<rparr>) = (chanless v)\<lparr>trace := tr\<rparr>" "chanless (v\<lparr>child := s\<rparr>) = (chanless v)\<lparr>child := s\<rparr>"
    "chanless (v\<lparr>parent := s\<rparr>) = (chanless v)\<lparr>parent := s\<rparr>" for v by (simp_all add: chanless_def)
  then show "chanless (v\<lparr>trace := tr\<rparr>) = chanless (w\<lparr>trace := tr\<rparr>)"
    "chanless (v\<lparr>child := s\<rparr>) = chanless (w\<lparr>child := s\<rparr>)" "chanless (v\<lparr>parent := s\<rparr>) = chanless (w\<lparr>parent := s\<rparr>)"
    using assms by simp_all
qed

text \<open>Actions that do not look at the socket pair either.\<close>

definition oblivious :: "'a act \<Rightarrow> bool" where
  "oblivious m \<longleftrightarrow> (\<forall>v w. chanless v = chanless w \<longrightarrow>
     fst (m v) = fst (m w) \<and> chanless (snd (m v)) = chanless (snd (m w)))"

lemma obliviousD:
  "oblivious m \<Longrightarrow> chanless v = chanless w \<Longrightarrow> fst (m v) = fst (m w) \<and> chanless (snd (m v)) = chanless (snd (m w))"
  unfolding oblivious_def by blast

lemma abind_parts:
  "abind m f w = (case fst (m w) of Inl e \<Rightarrow> (Inl e, snd (m w)) | Inr x \<Rightarrow> f x (snd (m w)))"
  by (simp add: abind_def split: prod.splits sum.splits)

lemma oblivious_bind: assumes "oblivious m" and "\<And>x. oblivious (f x)" shows "oblivious (abind m f)"
  unfolding oblivious_def
proof (intro allI impI)
  fix v w assume "chanless v = chanless w"
  note m = obliviousD [OF assms(1) this]
  show "fst (abind m f v) = fst (abind m f w) \<and> chanless (snd (abind m f v)) = chanless (snd (abind m f w))"
  proof (cases "fst (m w)")
    case (Inr x)
    then show ?thesis using m obliviousD [OF assms(2) [of x], of "snd (m v)" "snd (m w)"] by (simp add: abind_parts)
  qed (use m in \<open>simp add: abind_parts\<close>)
qed

lemma oblivious_seq: "oblivious m \<Longrightarrow> oblivious n \<Longrightarrow> oblivious (aseq m n)"
  unfolding aseq_def by (rule oblivious_bind)

lemma oblivious_with:
  assumes "\<And>w. oblivious (f w)" and "\<And>v w. chanless v = chanless w \<Longrightarrow> f v = f w"
  shows "oblivious (awith f)"
  unfolding oblivious_def awith_def
proof (intro allI impI)
  fix v w assume e: "chanless v = chanless w"
  show "fst (f v v) = fst (f w w) \<and> chanless (snd (f v v)) = chanless (snd (f w w))"
    using obliviousD [OF assms(1) e, of w] assms(2) [OF e] by simp
qed

lemma oblivious_basic [simp]: "oblivious (aret x)" "oblivious (astop e)" "oblivious (alift r)"
  by (simp_all add: oblivious_def aret_def astop_def alift_def)

lemma oblivious_sys [simp]: "oblivious (sys c)"
  unfolding oblivious_def
proof (intro allI impI)
  fix v w assume e: "chanless v = chanless w"
  show "fst (sys c v) = fst (sys c w) \<and> chanless (snd (sys c v)) = chanless (snd (sys c w))"
    using chanless_upd(1) [OF e] by (simp add: sys_def chanless_eqD(3,4) [OF e])
qed

lemma oblivious_upd [simp]: "oblivious (upd_sess sd f)"
  unfolding oblivious_def
proof (intro allI impI)
  fix v w assume e: "chanless v = chanless w"
  show "fst (upd_sess sd f v) = fst (upd_sess sd f w) \<and> chanless (snd (upd_sess sd f v)) = chanless (snd (upd_sess sd f w))"
    using chanless_upd(2,3) [OF e] by (cases sd) (simp_all add: upd_child_def chanless_eqD(1,2) [OF e])
qed

lemma oblivious_calls [simp]:
  "oblivious (die_if s b c)" "oblivious (vsf_sysutil_close fd)" "oblivious (vsf_sysutil_bind fd p)"
  "oblivious vsf_sysutil_get_random_byte" "oblivious (vsf_sysutil_listen fd)" "oblivious (vsf_sysutil_accept_timeout fd)"
  by (auto simp: die_if_def vsf_sysutil_close_def vsf_sysutil_bind_def vsf_sysutil_listen_def
      vsf_sysutil_get_random_byte_def vsf_sysutil_accept_timeout_def intro!: oblivious_bind)

text \<open>A choice by the session alone.\<close>

lemma oblivious_sess:
  assumes "\<And>w. oblivious (f w)" and "\<And>v w. sess sd v = sess sd w \<Longrightarrow> f v = f w"
  shows "oblivious (awith f)"
  by (rule oblivious_with [OF assms(1)], rule assms(2), erule chanless_eqD(5))

lemma oblivious_loop [simp]: "oblivious (pasv_bind_loop n t sd)"
proof (induction n)
  case (Suc n)
  show ?case unfolding pasv_bind_loop.simps Let_def
    by (rule oblivious_bind, simp, rule oblivious_bind, simp, rule oblivious_sess [where sd = sd])
      (simp_all add: Suc oblivious_bind cong: if_cong)
qed simp

lemma oblivious_privops [simp]:
  "oblivious (vsf_privop_pasv_active sd)" "oblivious (vsf_privop_pasv_cleanup sd)"
  "oblivious (vsf_privop_pasv_listen t sd)" "oblivious (vsf_privop_accept_pasv t sd)"
  unfolding vsf_privop_pasv_active_def vsf_privop_pasv_cleanup_def vsf_privop_pasv_listen_def vsf_privop_accept_pasv_def
  by (rule oblivious_sess [where sd = sd]; simp add: oblivious_bind oblivious_seq split: prod.split cong: if_cong prod.case_cong)+

lemma chanless_chan [simp]:
  "chanless (w\<lparr>to_parent := tp, to_child := tc, fds_to_parent := fp, fds_to_child := fc, req_w := k1, req_r := k2,
          rep_w := k3, rep_r := k4\<rparr>) = chanless w"
  by (simp add: chanless_def)

lemma closeless_chan [simp]:
  "closeless (w\<lparr>to_parent := tp, to_child := tc, fds_to_parent := fp, fds_to_child := fc, req_w := k1, req_r := k2,
          rep_w := k3, rep_r := k4\<rparr>) = closeless w"
  by (simp add: closeless_def)

lemma closeless_close [simp]: "closeless (w\<lparr>trace := trace w @ [Close fd]\<rparr>) = closeless w"
  by (simp add: closeless_def chanless_def)

lemma chanless_closeless: "chanless v = chanless w \<Longrightarrow> closeless v = closeless w"
  using chanless_eqD(4) [of v w] by (simp add: closeless_def)

lemma serves_result:
  assumes "serves call priv" and "oblivious priv" and "idle w" and "call w = (Inr x, w1)"
  shows "\<exists>w2. priv w = (Inr x, w2) \<and> closeless w1 = closeless w2 \<and> idle w1"
proof -
  define P where "P v \<longleftrightarrow> chanless v = chanless w" for v
  define Q where "Q y v \<longleftrightarrow> (\<exists>w2. priv w = (Inr y, w2) \<and> closeless v = closeless w2)" for y v
  have "avalid P priv Q (\<lambda>_ _. True)"
    unfolding avalid_def P_def Q_def
  proof (intro allI impI)
    fix v assume "chanless v = chanless w"
    note o = obliviousD [OF assms(2) this]
    obtain a v1 where v: "priv v = (a, v1)" by (cases "priv v")
    have w: "priv w = (a, snd (priv w))" "closeless v1 = closeless (snd (priv w))"
      using o chanless_closeless [of v1 "snd (priv w)"] unfolding v fst_conv snd_conv by (metis prod.collapse)+
    show "case priv v of (Inr y, v1) \<Rightarrow> \<exists>w2. priv w = (Inr y, w2) \<and> closeless v1 = closeless w2 | (Inl e, v1) \<Rightarrow> True"
    proof (cases a)
      case (Inr y)
      then have "priv w = (Inr y, snd (priv w)) \<and> closeless v1 = closeless (snd (priv w))" using w by (intro conjI) simp_all
      then have "\<exists>w2. priv w = (Inr y, w2) \<and> closeless v1 = closeless w2" by (rule exI)
      then show ?thesis unfolding v Inr prod.case sum.case .
    qed (simp add: v)
  qed
  moreover have "chan_stable P" "chan_stable (Q y)" "close_stable (Q y)" for y
    unfolding chan_stable_def close_stable_def P_def Q_def chanless_chan closeless_chan closeless_close by blast+
  ultimately have "avalid (under P ([], [], [], [])) call (\<lambda>x w. Q x w \<and> idle w) (\<lambda>_ _. True)"
    using assms(1) [unfolded serves_def, rule_format, of P Q "\<lambda>_ _. True"] by (simp add: endable_def)
  moreover have "under P ([], [], [], []) w" unfolding under_def P_def by (intro conjI refl assms(3))
  ultimately have "Q x w1 \<and> idle w1" using assms(4) by (auto dest: avalidD)
  then show ?thesis unfolding Q_def by blast
qed

text \<open>
  C16: the two process models agree. A call of the session to a privileged operation on passive data
  connections, made with nothing under way between the processes, can only return what the operation itself
  returns on the session of the serving process, and leaves the state that the operation leaves, up to the
  closing of descriptors that were handed over; nothing is left under way. This holds whatever the socket
  pair, the files and the network do.
\<close>

theorem process_models_agree:
  assumes "idle w"
  shows "(\<forall>b w1. pasv_query t w = (Inr b, w1) \<longrightarrow>
      (\<exists>w2. vsf_privop_pasv_active (server t) w = (Inr b, w2) \<and> closeless w1 = closeless w2 \<and> idle w1)) \<and>
    (\<forall>w1. pasv_cleanup t w = (Inr (), w1) \<longrightarrow>
      (\<exists>w2. vsf_privop_pasv_cleanup (server t) w = (Inr (), w2) \<and> closeless w1 = closeless w2 \<and> idle w1)) \<and>
    (\<forall>port w1. pasv_listen t w = (Inr port, w1) \<longrightarrow>
      (\<exists>w2. vsf_privop_pasv_listen t (server t) w = (Inr port, w2) \<and> closeless w1 = closeless w2 \<and> idle w1)) \<and>
    (\<forall>fd w1. get_pasv_fd t w = (Inr fd, w1) \<longrightarrow>
      (\<exists>w2. vsf_privop_accept_pasv t (server t) w = (Inr fd, w2) \<and> closeless w1 = closeless w2 \<and> idle w1))"
  using serves_result [OF query_svc.serves_priv _ assms] serves_result [OF cleanup_svc.serves_priv _ assms]
    serves_result [OF listen_svc.serves_priv _ assms] serves_result [OF accept_svc.serves_priv _ assms]
  by (intro conjI allI impI) (simp_all only: oblivious_privops simp_thms)

theorem process_models_agree_witness:
  "\<exists>w1. pasv_query \<lparr>tbool = (\<lambda>_. False), tuint = (\<lambda>_. 0), tstr = (\<lambda>_. None)\<rparr> (demo_world []) = (Inr False, w1) \<and>
     idle w1 \<and> fst (vsf_privop_pasv_active OnParent (demo_world [])) = Inr False"
proof -
  let ?t = "\<lparr>tbool = (\<lambda>_. False), tuint = (\<lambda>_. 0), tstr = (\<lambda>_. None)\<rparr>"
  have "fst (pasv_query ?t (demo_world [])) = Inr False"
    by (simp add: pasv_query_def vsf_two_process_pasv_active_def process_post_login_req_def cmd_process_pasv_active_def
        vsf_privop_pasv_active_def aseq_def abind_def awith_def aret_def child_send_def child_recv_def parent_send_def
        parent_recv_def demo_world_def demo_session_def priv_sock_send_cmd_def priv_sock_get_cmd_def priv_sock_send_int_def
        priv_sock_get_int_def vsf_sysutil_write_loop_def vsf_sysutil_read_loop_def write_loop.simps read_loop.simps
        vsf_sysutil_write_def vsf_sysutil_read_def INT_MAX_def int_bytes_def flag_int_def bytes_uint_def sint32_def
        rbind_eq_Inr Let_def)
  then obtain w1 where w1: "pasv_query ?t (demo_world []) = (Inr False, w1)" by (metis prod.collapse)
  have "idle (demo_world [])" by (simp add: demo_world_def chan_def)
  from conjunct1 [OF process_models_agree [OF this], rule_format, OF w1]
  obtain w2 where "vsf_privop_pasv_active OnParent (demo_world []) = (Inr False, w2)" "idle w1"
    unfolding server_def by auto
  then show ?thesis using w1 by (metis fst_conv)
qed

end
