(* ===== verification/Logging.thy ===== *)
theory Logging
  imports Procmodel
begin

text \<open>
  The log of \<^verbatim>\<open>apps/vsftpd-2.2.0/logging.c\<close>. A command opens an entry, fills in the text, and the entry is closed
  as a success by the handler or as a failure after it; \<open>logs\<close> of the session's world lists the entries that
  have been written. The lines that an entry becomes in the two log files are functions of the session and of the
  clock: the date, the process number, the seconds the transfer took and the rate, which the source computes in
  floating point, are the arguments.
\<close>

section \<open>Entries\<close>

definition vsf_log_type_is_transfer :: "EVSFLogEntryType \<Rightarrow> bool" where
  "vsf_log_type_is_transfer type \<longleftrightarrow> type = kVSFLogEntryDownload \<or> type = kVSFLogEntryUpload"

definition vsf_log_start_entry :: "EVSFLogEntryType \<Rightarrow> unit act" where
  "vsf_log_start_entry what = awith (\<lambda>w.
     if log_type (child w) \<noteq> None then astop (Bug ''non null log_type in vsf_log_start_entry'')
     else upd_child (\<lambda>s. s\<lparr>log_type := Some what, transfer_size := 0, log_str := []\<rparr>))"

definition vsf_log_entry_pending :: "bool act" where
  "vsf_log_entry_pending = awith (\<lambda>w. aret (log_type (child w) \<noteq> None))"

definition vsf_log_clear_entry :: "unit act" where
  "vsf_log_clear_entry = upd_child (\<lambda>s. s\<lparr>log_type := None\<rparr>)"

definition vsf_log_common :: "bool \<Rightarrow> EVSFLogEntryType \<Rightarrow> string \<Rightarrow> unit act" where
  "vsf_log_common succeeded what p_str w = (Inr (), w\<lparr>logs := logs w @ [(what, succeeded, p_str)]\<rparr>)"

text \<open>Without an open entry the type is 0, which the formatter refuses.\<close>

definition vsf_log_do_log :: "bool \<Rightarrow> unit act" where
  "vsf_log_do_log succeeded = awith (\<lambda>w.
     case log_type (child w) of
       None \<Rightarrow> astop (Bug ''bad entry_type in vsf_log_do_log'')
     | Some what \<Rightarrow> aseq (vsf_log_common succeeded what (log_str (child w))) vsf_log_clear_entry)"

section \<open>Lines\<close>

record log_clock =
  current_date :: string
  log_pid :: nat
  delta_sec :: int
  kbyte_rate :: string

definition vsf_log_do_log_wuftpd_format ::
  "vsf_session \<Rightarrow> log_clock \<Rightarrow> bool \<Rightarrow> EVSFLogEntryType \<Rightarrow> string" where
  "vsf_log_do_log_wuftpd_format s k succeeded what =
     current_date k @ '' '' @
     vsf_sysutil_ulong_to_str (nat (if delta_sec k \<le> 0 then 1 else delta_sec k)) @ '' '' @
     remote_ip_str s @ '' '' @ vsf_sysutil_filesize_t_to_str (transfer_size s) @ '' '' @
     t_replace_char (log_str s) CHR '' '' CHR ''_'' @ '' '' @
     (if is_ascii s then ''a '' else ''b '') @ ''_ '' @
     (if what = kVSFLogEntryUpload then ''i '' else ''o '') @
     (if is_anonymous s \<and> \<not> is_guest s then ''a '' @ anon_pass_str s
      else (if is_guest s then ''g '' else ''r '') @ user_str s) @ '' '' @
     ''ftp 0 * '' @ (if succeeded then ''c'' else ''i'')"

fun log_action :: "EVSFLogEntryType \<Rightarrow> string res" where
  "log_action kVSFLogEntryDownload = Inr ''DOWNLOAD''"
| "log_action kVSFLogEntryUpload = Inr ''UPLOAD''"
| "log_action kVSFLogEntryMkdir = Inr ''MKDIR''"
| "log_action kVSFLogEntryLogin = Inr ''LOGIN''"
| "log_action kVSFLogEntryFTPInput = Inr ''FTP command''"
| "log_action kVSFLogEntryFTPOutput = Inr ''FTP response''"
| "log_action kVSFLogEntryConnection = Inr ''CONNECT''"
| "log_action kVSFLogEntryDelete = Inr ''DELETE''"
| "log_action kVSFLogEntryRename = Inr ''RENAME''"
| "log_action kVSFLogEntryRmdir = Inr ''RMDIR''"
| "log_action kVSFLogEntryChmod = Inr ''CHMOD''"
| "log_action kVSFLogEntryDebug = Inr ''DEBUG''"
| "log_action kVSFLogEntryNull = Inl (Bug ''bad entry_type in vsf_log_do_log'')"

definition vsf_log_do_log_vsftpd_format ::
  "tunables \<Rightarrow> vsf_session \<Rightarrow> log_clock \<Rightarrow> bool \<Rightarrow> EVSFLogEntryType \<Rightarrow> string \<Rightarrow> string res" where
  "vsf_log_do_log_vsftpd_format t s k succeeded what p_log_str =
     rbind (log_action what) (\<lambda>action. Inr (
       (if tbool t ''syslog_enable'' then []
        else current_date k @ '' [pid '' @ vsf_sysutil_ulong_to_str (log_pid k) @ ''] '') @
       (if user_str s = [] then [] else ''['' @ user_str s @ ''] '') @
       (if what \<in> {kVSFLogEntryFTPInput, kVSFLogEntryFTPOutput, kVSFLogEntryConnection, kVSFLogEntryDebug} then []
        else if succeeded then ''OK '' else ''FAIL '') @
       action @ '': Client '' @ [CHR 0x22] @ remote_ip_str s @ [CHR 0x22] @
       (if what = kVSFLogEntryLogin \<and> anon_pass_str s \<noteq> []
        then '', anon password '' @ [CHR 0x22] @ anon_pass_str s @ [CHR 0x22] else []) @
       (if p_log_str = [] then [] else '', '' @ [CHR 0x22] @ p_log_str @ [CHR 0x22]) @
       (if what \<in> {kVSFLogEntryFTPInput, kVSFLogEntryFTPOutput, kVSFLogEntryDebug} then []
        else
          (if transfer_size s = 0 then []
           else '', '' @ vsf_sysutil_filesize_t_to_str (transfer_size s) @ '' bytes'') @
          (if vsf_log_type_is_transfer what then '', '' @ kbyte_rate k @ ''Kbyte/sec'' else []))))"

text \<open>What one entry adds to a log file whose lock could be taken.\<close>

definition vsf_log_do_log_to_file :: "string \<Rightarrow> string" where
  "vsf_log_do_log_to_file p_str = map (\<lambda>c. if vsf_sysutil_isprint c then c else CHR ''?'') p_str @ [LF]"

text \<open>The lines for the transfer log and for the log of the server, if these are open.\<close>

definition log_lines ::
  "tunables \<Rightarrow> bool \<Rightarrow> bool \<Rightarrow> vsf_session \<Rightarrow> log_clock \<Rightarrow> bool \<Rightarrow> EVSFLogEntryType \<Rightarrow> string \<Rightarrow>
   (string option \<times> string option) res" where
  "log_lines t xferlog_open vsftpd_log_open s k succeeded what p_str =
     rbind (if vsftpd_log_open
            then rbind (vsf_log_do_log_vsftpd_format t s k succeeded what p_str) (\<lambda>l. Inr (Some (vsf_log_do_log_to_file l)))
            else Inr None) (\<lambda>v.
     Inr (if xferlog_open \<and> vsf_log_type_is_transfer what
          then Some (vsf_log_do_log_to_file (vsf_log_do_log_wuftpd_format s k succeeded what)) else None, v))"

end
