(* ===== verification/Dataconn.thy ===== *)
theory Dataconn
  imports Logging Ftpdataio
begin

text \<open>
  Data connections after the login: the functions of \<^verbatim>\<open>apps/vsftpd-2.2.0/ftpdataio.c\<close> around the transfer loops of
  \<open>Ftpdataio\<close>, the listing of directories, the urgent command that aborts a transfer (\<open>handle_sigurg\<close> of
  \<^verbatim>\<open>postlogin.c\<close>), and the messages of \<^verbatim>\<open>banner.c\<close>.

  A transfer loop asks the operating system once what its reads deliver and how its writes are answered
  (\<open>Pump\<close>), and records what it has written (\<open>Wrote\<close>). The number of urgent signals that arrive meanwhile is part
  of the answer; they are handled at the end of the loop, and what the shutdown of the socket did to
  the loop is in its reads and answers. In this build \<open>ssl_accept\<close> always fails. The data alarm, socket
  options and the bandwidth limiter are left out.
\<close>

section \<open>Reply codes\<close>

abbreviation FTP_DATACONN :: nat where "FTP_DATACONN \<equiv> 150"
abbreviation FTP_ABOROK :: nat where "FTP_ABOROK \<equiv> 226"
abbreviation FTP_BADSENDCONN :: nat where "FTP_BADSENDCONN \<equiv> 425"
abbreviation FTP_BADCMD :: nat where "FTP_BADCMD \<equiv> 500"
abbreviation FTP_DATATLSBAD :: nat where "FTP_DATATLSBAD \<equiv> 522"

section \<open>Opening and closing\<close>

definition init_data_sock_params :: "int \<Rightarrow> unit act" where
  "init_data_sock_params sock_fd = awith (\<lambda>w.
     if data_fd (child w) \<noteq> -1 then astop (Bug ''data descriptor still present in init_data_sock_params'')
     else upd_child (\<lambda>s. s\<lparr>data_fd := sock_fd\<rparr>))"

definition vsf_ftpdataio_dispose_transfer_fd :: "int act" where
  "vsf_ftpdataio_dispose_transfer_fd = awith (\<lambda>w.
     if data_fd (child w) = -1 then astop (Bug ''no data descriptor in vsf_ftpdataio_dispose_transfer_fd'')
     else abind (sys (Close (data_fd (child w)))) (\<lambda>r.
          abind (if r_ret r < 0 then sys (Close (data_fd (child w))) else aret r) (\<lambda>_.
          aseq (upd_child (\<lambda>s. s\<lparr>data_fd := -1\<rparr>)) (aret 1))))"

definition vsf_ftpdataio_get_pasv_fd :: "tunables \<Rightarrow> int act" where
  "vsf_ftpdataio_get_pasv_fd t =
     abind (get_pasv_fd t) (\<lambda>remote_fd.
       if remote_fd = -1
       then aseq (cmdio_write FTP_BADSENDCONN ''Failed to establish connection.'') (aret remote_fd)
       else if remote_fd = -2
       then aseq (cmdio_write FTP_BADSENDCONN ''Security: Bad IP connecting.'')
            (aseq (vsf_sysutil_close remote_fd) (aret (-1)))
       else aseq (init_data_sock_params remote_fd) (aret remote_fd))"

definition vsf_ftpdataio_get_port_fd :: "tunables \<Rightarrow> int act" where
  "vsf_ftpdataio_get_port_fd t =
     abind (get_port_fd t) (\<lambda>remote_fd.
       if remote_fd < 0
       then aseq (cmdio_write FTP_BADSENDCONN ''Failed to establish connection.'') (aret (-1))
       else aseq (init_data_sock_params remote_fd) (aret remote_fd))"

definition vsf_ftpdataio_post_mark_connect :: "tunables \<Rightarrow> int act" where
  "vsf_ftpdataio_post_mark_connect t = awith (\<lambda>w.
     if \<not> data_use_ssl (child w) then aret 1
     else aseq (cmdio_write FTP_DATATLSBAD
                  (''SSL connection failed'' @
                   (if tbool t ''require_ssl_reuse''
                    then ''; session reuse required: see require_ssl_reuse option in vsftpd.conf man page'' else [])))
          (aret (-1)))"

section \<open>Urgent commands\<close>

text \<open>Reading a command without storing it in the session.\<close>

definition get_async_cmd :: "tunables \<Rightarrow> string act" where
  "get_async_cmd t w =
     (case vsf_cmdio_get_cmd_and_arg (tbool t ''log_ftp_protocol'') (ctl_in w) of
        Inl e \<Rightarrow> (Inl e, w)
      | Inr (cmd, _, _, st) \<Rightarrow> (Inr cmd, w\<lparr>ctl_in := st\<rparr>))"

definition handle_sigurg :: "tunables \<Rightarrow> unit act" where
  "handle_sigurg t = awith (\<lambda>w.
     if data_fd (child w) = -1 then aret ()
     else abind (get_async_cmd t) (\<lambda>async_cmd_str.
       let real_cmd_str = (if length async_cmd_str \<ge> 4 then drop 4 async_cmd_str else []) in
       if real_cmd_str = ''ABOR''
       then aseq (upd_child (\<lambda>s. s\<lparr>abor_received := True\<rparr>))
            (abind (sys (Shutdown (data_fd (child w)))) (\<lambda>_. aret ()))
       else cmdio_write FTP_BADCMD ''Unknown command.''))"

fun urgent_signals :: "tunables \<Rightarrow> nat \<Rightarrow> unit act" where
  "urgent_signals t 0 = aret ()"
| "urgent_signals t (Suc n) = aseq (handle_sigurg t) (urgent_signals t n)"

definition signals_of :: "tunables \<Rightarrow> reply \<Rightarrow> unit act" where
  "signals_of t r = (if tbool t ''async_abor_enable'' then urgent_signals t (r_urgent r) else aret ())"

section \<open>File transfers\<close>

text \<open>A loop that copies from one descriptor to another, at most \<open>chunk_size\<close> bytes per read.\<close>

definition pump ::
  "tunables \<Rightarrow> int \<Rightarrow> int \<Rightarrow> (string option list \<Rightarrow> answer list \<Rightarrow> (vsf_transfer_ret \<times> string) res) \<Rightarrow>
   vsf_transfer_ret act" where
  "pump t from_fd to_fd loop =
     abind (sys (Pump from_fd to_fd)) (\<lambda>r.
     abind (alift (loop (map (map_option (take (get_chunk_size (tuint t ''trans_chunk_size'')))) (r_reads r)) (r_acks r)))
       (\<lambda>(ret, out).
     abind (sys (Wrote to_fd out)) (\<lambda>_.
     aseq (signals_of t r) (aret ret))))"

definition vsf_ftpdataio_transfer_file :: "tunables \<Rightarrow> int \<Rightarrow> int \<Rightarrow> bool \<Rightarrow> bool \<Rightarrow> vsf_transfer_ret act" where
  "vsf_ftpdataio_transfer_file t remote_fd file_fd is_recv is_asc = awith (\<lambda>w.
     if \<not> is_recv
     then if is_asc \<or> data_use_ssl (child w)
          then pump t file_fd (data_fd (child w)) (do_file_send_rwloop is_asc)
          else
            abind (vsf_sysutil_get_file_offset file_fd) (\<lambda>curr_offset.
            abind (vsf_sysutil_fstat file_fd) (\<lambda>st.
            abind (alift (calc_num_send (r_size st) curr_offset)) (\<lambda>num_send.
            abind (vsf_sysutil_sendfile remote_fd file_fd curr_offset num_send
                     (if bw_rate_max (child w) \<noteq> 0 then int (get_chunk_size (tuint t ''trans_chunk_size'')) else 0))
              (\<lambda>(ret, offset).
            abind (sys (Pump file_fd remote_fd)) (\<lambda>r.
            aseq (signals_of t r) (aret (do_file_send_sendfile curr_offset num_send ret offset)))))))
     else pump t (data_fd (child w)) file_fd (do_file_recv is_asc))"

section \<open>Directory listings\<close>

text \<open>Writing to the control connection or to the data connection, without stopping on an error.\<close>

definition ftp_write_to ::
  "tunables \<Rightarrow> bool \<Rightarrow> (answer list \<Rightarrow> (int \<times> string \<times> answer list) res) \<Rightarrow> int act" where
  "ftp_write_to t is_control wr =
     (if is_control
      then (\<lambda>w. case wr (ctl_out w) of
                  Inl e \<Rightarrow> (Inl e, w)
                | Inr (ret, b, ks) \<Rightarrow> (Inr ret, w\<lparr>sent := sent w @ b, ctl_out := ks\<rparr>))
      else awith (\<lambda>w.
        abind (sys (Pump (data_fd (child w)) (data_fd (child w)))) (\<lambda>r.
        abind (alift (wr (r_acks r))) (\<lambda>(ret, b, ks).
        abind (sys (Wrote (data_fd (child w)) b)) (\<lambda>_.
        aseq (signals_of t r) (aret ret))))))"

definition vsf_sysutil_closedir :: "int \<Rightarrow> unit act" where
  "vsf_sysutil_closedir p_dir = abind (die_if ''closedir'' (\<lambda>r. r_ret r \<noteq> 0) (Closedir p_dir)) (\<lambda>_. aret ())"

text \<open>The loop over the subdirectories; \<open>transfer\<close> lists one of them.\<close>

fun subdir_loop ::
  "tunables \<Rightarrow> bool \<Rightarrow> (int \<Rightarrow> string \<Rightarrow> int act) \<Rightarrow> string \<Rightarrow> string list \<Rightarrow> int act" where
  "subdir_loop t is_control transfer base [] = aret 0"
| "subdir_loop t is_control transfer base (d # ds) =
     (if d = ''.'' \<or> d = ''..'' then subdir_loop t is_control transfer base ds
      else
        abind (str_opendir (base @ ''/'' @ d)) (\<lambda>p_subdir.
        if p_subdir = 0 then subdir_loop t is_control transfer base ds
        else
          abind (ftp_write_to t is_control (\<lambda>ks. str_netfd_write ks [CR, LF])) (\<lambda>ret.
          if ret \<noteq> 0 then aret (-1)
          else
            abind (transfer p_subdir (base @ ''/'' @ d)) (\<lambda>ret1.
            aseq (vsf_sysutil_closedir p_subdir)
            (if ret1 \<noteq> 0 then aret (-1) else subdir_loop t is_control transfer base ds)))))"

definition set_hide_str :: "string \<Rightarrow> unit act" where
  "set_hide_str acc w = (Inr (), w\<lparr>s_hide_str := acc\<rparr>)"

text \<open>The fuel bounds the depth of the directory tree.\<close>

fun transfer_dir_internal ::
  "nat \<Rightarrow> tunables \<Rightarrow> bool \<Rightarrow> string \<Rightarrow> string \<Rightarrow> bool \<Rightarrow> int \<Rightarrow> string \<Rightarrow> int act" where
  "transfer_dir_internal 0 t is_control p_option p_filter verbose p_dir p_base_dir = astop Hang"
| "transfer_dir_internal (Suc n) t is_control p_option p_filter verbose p_dir p_base_dir =
     abind (sys (Readdir p_dir)) (\<lambda>r. awith (\<lambda>w.
       let recurse = (found (t_locate_text p_option ''R'') \<and> tbool t ''ls_recurse_enable'');
           (dir_list, subdir_list, acc) =
             vsf_ls_populate_dir_list (str_sort (os w)) t (names (os w)) (s_hide_str w) recurse (r_dirents r) p_base_dir
               p_option p_filter verbose
       in aseq (set_hide_str acc)
          (abind (if recurse then ftp_write_to t is_control (\<lambda>ks. str_netfd_write ks (p_base_dir @ '':'' @ [CR, LF]))
                  else aret 0) (\<lambda>ret.
           if ret \<noteq> 0 then aret (-1)
           else
             abind (ftp_write_to t is_control (write_dir_list (map fst dir_list))) (\<lambda>failed.
             if failed \<noteq> 0 then aret (-1)
             else subdir_loop t is_control (transfer_dir_internal n t is_control p_option p_filter verbose) p_base_dir
                    (map fst subdir_list))))))"

definition vsf_ftpdataio_transfer_dir ::
  "nat \<Rightarrow> tunables \<Rightarrow> bool \<Rightarrow> int \<Rightarrow> string \<Rightarrow> string \<Rightarrow> string \<Rightarrow> bool \<Rightarrow> int act" where
  "vsf_ftpdataio_transfer_dir n t is_control p_dir p_base_dir p_option p_filter verbose =
     transfer_dir_internal n t is_control p_option p_filter verbose p_dir p_base_dir"

section \<open>Messages\<close>

definition VSFTP_MAX_VISIT_REMEMBER :: nat where "VSFTP_MAX_VISIT_REMEMBER = 100"
definition VSFTP_MAX_MSGFILE_SIZE :: nat where "VSFTP_MAX_MSGFILE_SIZE = 4000"

definition vsf_banner_dir_changed :: "tunables \<Rightarrow> nat \<Rightarrow> unit act" where
  "vsf_banner_dir_changed t ftpcode =
     (if \<not> tbool t ''dirmessage_enable'' then aret ()
      else
        abind str_getcwd (\<lambda>dir_str. awith (\<lambda>w.
          if dir_str \<in> set (p_visited_dir_list (child w)) then aret ()
          else
            aseq (if length (p_visited_dir_list (child w)) < VSFTP_MAX_VISIT_REMEMBER
                  then upd_child (\<lambda>s. s\<lparr>p_visited_dir_list := p_visited_dir_list s @ [dir_str]\<rparr>) else aret ())
            (abind (sys_fileread (tstr t ''message_file'') VSFTP_MAX_MSGFILE_SIZE) (\<lambda>(_, msg).
             vsf_banner_write msg ftpcode)))))"

end
