(* ===== verification/Postlogin.thy ===== *)
theory Postlogin
  imports Dataconn
begin

text \<open>
  The commands after the login: \<^verbatim>\<open>apps/vsftpd-2.2.0/postlogin.c\<close>. Every handler is an action with the name of the
  function in the source; handlers that need it read the argument of the command once, where the source
  passes a pointer to \<open>ftp_arg_str\<close>, and store the value that the source would have changed it to. \<open>static\<close> strings
  of a handler that are rewritten before they are read are bound names. Process titles, the installation of signal
  handlers and file flags are left out; \<open>handle_sigurg\<close> is in \<open>Dataconn\<close>. Loops that the operating system
  could prolong without end have fuel.
\<close>

section \<open>Reply codes\<close>

abbreviation FTP_NOOPOK :: nat where "FTP_NOOPOK \<equiv> 200"
abbreviation FTP_TYPEOK :: nat where "FTP_TYPEOK \<equiv> 200"
abbreviation FTP_PORTOK :: nat where "FTP_PORTOK \<equiv> 200"
abbreviation FTP_EPRTOK :: nat where "FTP_EPRTOK \<equiv> 200"
abbreviation FTP_UMASKOK :: nat where "FTP_UMASKOK \<equiv> 200"
abbreviation FTP_CHMODOK :: nat where "FTP_CHMODOK \<equiv> 200"
abbreviation FTP_EPSVALLOK :: nat where "FTP_EPSVALLOK \<equiv> 200"
abbreviation FTP_STRUOK :: nat where "FTP_STRUOK \<equiv> 200"
abbreviation FTP_MODEOK :: nat where "FTP_MODEOK \<equiv> 200"
abbreviation FTP_ALLOOK :: nat where "FTP_ALLOOK \<equiv> 202"
abbreviation FTP_STATOK :: nat where "FTP_STATOK \<equiv> 211"
abbreviation FTP_SIZEOK :: nat where "FTP_SIZEOK \<equiv> 213"
abbreviation FTP_MDTMOK :: nat where "FTP_MDTMOK \<equiv> 213"
abbreviation FTP_STATFILE_OK :: nat where "FTP_STATFILE_OK \<equiv> 213"
abbreviation FTP_SITEHELP :: nat where "FTP_SITEHELP \<equiv> 214"
abbreviation FTP_HELP :: nat where "FTP_HELP \<equiv> 214"
abbreviation FTP_SYSTOK :: nat where "FTP_SYSTOK \<equiv> 215"
abbreviation FTP_ABOR_NOCONN :: nat where "FTP_ABOR_NOCONN \<equiv> 225"
abbreviation FTP_TRANSFEROK :: nat where "FTP_TRANSFEROK \<equiv> 226"
abbreviation FTP_PASVOK :: nat where "FTP_PASVOK \<equiv> 227"
abbreviation FTP_EPSVOK :: nat where "FTP_EPSVOK \<equiv> 229"
abbreviation FTP_LOGINOK :: nat where "FTP_LOGINOK \<equiv> 230"
abbreviation FTP_CWDOK :: nat where "FTP_CWDOK \<equiv> 250"
abbreviation FTP_RMDIROK :: nat where "FTP_RMDIROK \<equiv> 250"
abbreviation FTP_DELEOK :: nat where "FTP_DELEOK \<equiv> 250"
abbreviation FTP_RENAMEOK :: nat where "FTP_RENAMEOK \<equiv> 250"
abbreviation FTP_PWDOK :: nat where "FTP_PWDOK \<equiv> 257"
abbreviation FTP_MKDIROK :: nat where "FTP_MKDIROK \<equiv> 257"
abbreviation FTP_RESTOK :: nat where "FTP_RESTOK \<equiv> 350"
abbreviation FTP_RNFROK :: nat where "FTP_RNFROK \<equiv> 350"
abbreviation FTP_BADSENDNET :: nat where "FTP_BADSENDNET \<equiv> 426"
abbreviation FTP_BADSENDFILE :: nat where "FTP_BADSENDFILE \<equiv> 451"
abbreviation FTP_COMMANDNOTIMPL :: nat where "FTP_COMMANDNOTIMPL \<equiv> 502"
abbreviation FTP_NEEDRNFR :: nat where "FTP_NEEDRNFR \<equiv> 503"
abbreviation FTP_BADSTRU :: nat where "FTP_BADSTRU \<equiv> 504"
abbreviation FTP_BADMODE :: nat where "FTP_BADMODE \<equiv> 504"
abbreviation FTP_NEEDENCRYPT :: nat where "FTP_NEEDENCRYPT \<equiv> 522"
abbreviation FTP_EPSVBAD :: nat where "FTP_EPSVBAD \<equiv> 522"
abbreviation FTP_FILEFAIL :: nat where "FTP_FILEFAIL \<equiv> 550"
abbreviation FTP_NOPERM :: nat where "FTP_NOPERM \<equiv> 550"
abbreviation FTP_UPLOADFAIL :: nat where "FTP_UPLOADFAIL \<equiv> 553"

section \<open>Names of files\<close>

definition get_arg :: "string act" where
  "get_arg = awith (\<lambda>w. aret (ftp_arg_str (child w)))"

definition set_arg :: "string \<Rightarrow> unit act" where
  "set_arg a = upd_child (\<lambda>s. s\<lparr>ftp_arg_str := a\<rparr>)"

definition resolve_tilde :: "tunables \<Rightarrow> string \<Rightarrow> string act" where
  "resolve_tilde t p =
     (if length p > 0 \<and> p ! 0 = CHR ''~''
      then if length p = 1 \<or> p ! 1 = CHR ''/''
           then awith (\<lambda>w. aret (home_str (child w) @ snd (t_split_char p CHR ''~'')))
           else if tbool t ''tilde_user_enable'' \<and> length p > 1
           then let (user, rhs) = t_split_char (snd (t_split_char p CHR ''~'')) CHR ''/'' in
                abind (str_getpwnam user) (\<lambda>p_user.
                  case p_user of
                    None \<Rightarrow> aret p
                  | Some homedir \<Rightarrow> aret (if rhs = [] then homedir else homedir @ ''/'' @ rhs))
           else aret p
      else aret p)"

text \<open>The argument with its tilde resolved, which also becomes the new argument.\<close>

definition resolved_arg :: "tunables \<Rightarrow> string act" where
  "resolved_arg t = abind get_arg (\<lambda>a. abind (resolve_tilde t a) (\<lambda>p. aseq (set_arg p) (aret p)))"

definition prepend_path_to_filename :: "string \<Rightarrow> string act" where
  "prepend_path_to_filename p =
     (if p = [] \<or> p ! 0 \<noteq> CHR ''/''
      then abind str_getcwd (\<lambda>d. aret ((if d = [] \<or> last d \<noteq> CHR ''/'' then d @ ''/'' else d) @ p))
      else aret p)"

text \<open>An entry for the log with the full name of a file as its text.\<close>

definition log_path :: "EVSFLogEntryType \<Rightarrow> string \<Rightarrow> unit act" where
  "log_path what p =
     aseq (vsf_log_start_entry what)
     (abind (prepend_path_to_filename p) (\<lambda>q. upd_child (\<lambda>s. s\<lparr>log_str := q\<rparr>)))"

definition access_check_file :: "tunables \<Rightarrow> string \<Rightarrow> bool act" where
  "access_check_file t p w =
     (let (ok, acc) = vsf_access_check_file t (s_deny_str w) p in (Inr ok, w\<lparr>s_deny_str := acc\<rparr>))"

definition no_permission :: "unit act" where
  "no_permission = cmdio_write FTP_NOPERM ''Permission denied.''"

text \<open>\<open>inet_ntoa\<close> of the C library.\<close>

definition inet_ntoa :: "string \<Rightarrow> string" where
  "inet_ntoa a = join CHR ''.'' (map (\<lambda>c. vsf_sysutil_ulong_to_str (ord c)) a)"

section \<open>The mode of data connections\<close>

text \<open>
  The two functions call each other, without end if both modes are active, until the stack is exhausted. In a
  session only one mode is active (see \<open>Session_Inv\<close>), and then two levels are enough.
\<close>

fun port_active :: "nat \<Rightarrow> tunables \<Rightarrow> bool act" and pasv_active :: "nat \<Rightarrow> tunables \<Rightarrow> bool act" where
  "port_active 0 t = astop Overrun"
| "port_active (Suc n) t = awith (\<lambda>w.
     if p_port_sockaddr (child w) \<noteq> None
     then abind (pasv_active n t) (\<lambda>b. if b then astop (Bug ''port and pasv both active'') else aret True)
     else aret False)"
| "pasv_active 0 t = astop Overrun"
| "pasv_active (Suc n) t =
     abind (pasv_query t) (\<lambda>ret.
       if ret
       then abind (port_active n t) (\<lambda>b. if b then astop (Bug ''pasv and port both active'') else aret True)
       else aret False)"

definition port_cleanup :: "unit act" where
  "port_cleanup = upd_child (\<lambda>s. s\<lparr>p_port_sockaddr := None\<rparr>)"

definition data_transfer_checks_ok :: "tunables \<Rightarrow> bool act" where
  "data_transfer_checks_ok t =
     abind (pasv_active 2 t) (\<lambda>pasv.
     abind (if pasv then aret True else port_active 2 t) (\<lambda>active.
       if \<not> active then aseq (cmdio_write FTP_BADSENDCONN ''Use PORT or PASV first.'') (aret False)
       else awith (\<lambda>w.
         if tbool t ''ssl_enable'' \<and> \<not> data_use_ssl (child w) \<and>
           (tbool t ''force_local_data_ssl'' \<and> \<not> is_anonymous (child w) \<or>
            tbool t ''force_anon_data_ssl'' \<and> is_anonymous (child w))
         then aseq (cmdio_write FTP_NEEDENCRYPT ''Data connections must be encrypted.'') (aret False)
         else aret True)))"

definition get_remote_transfer_fd :: "tunables \<Rightarrow> string \<Rightarrow> int act" where
  "get_remote_transfer_fd t p_status_msg =
     abind (pasv_active 2 t) (\<lambda>pasv.
     abind (if pasv then aret True else port_active 2 t) (\<lambda>active.
       if \<not> active then astop (Bug ''neither PORT nor PASV active in get_remote_transfer_fd'')
       else
         aseq (upd_child (\<lambda>s. s\<lparr>abor_received := False\<rparr>))
         (abind (pasv_active 2 t) (\<lambda>pasv.
          abind (if pasv then vsf_ftpdataio_get_pasv_fd t else vsf_ftpdataio_get_port_fd t) (\<lambda>remote_fd.
            if remote_fd < 0 then aret remote_fd
            else
              aseq (cmdio_write FTP_DATACONN p_status_msg)
              (abind (vsf_ftpdataio_post_mark_connect t) (\<lambda>ret.
                 if ret \<noteq> 1 then abind vsf_ftpdataio_dispose_transfer_fd (\<lambda>_. aret (-1))
                 else aret remote_fd)))))))"

definition check_abor :: "unit act" where
  "check_abor = awith (\<lambda>w.
     if abor_received (child w)
     then aseq (upd_child (\<lambda>s. s\<lparr>abor_received := False\<rparr>)) (cmdio_write FTP_ABOROK ''ABOR successful.'')
     else aret ())"

text \<open>The end of a transfer: closing the connection, with a failure if that fails.\<close>

definition data_cleanup :: "tunables \<Rightarrow> unit act" where
  "data_cleanup t = aseq port_cleanup (pasv_cleanup t)"

definition handle_pasv_reply :: "tunables \<Rightarrow> bool \<Rightarrow> nat \<Rightarrow> unit act" where
  "handle_pasv_reply t is_ipv6 the_port = awith (\<lambda>w.
     abind (case tstr t ''pasv_address'' of
              Some addr \<Rightarrow>
                (case s_pasv_sockaddr w of
                   None \<Rightarrow> astop Overrun
                 | Some (AF_INET a p) \<Rightarrow>
                     (case inet_aton (os w) addr of
                        None \<Rightarrow> astop (Die ''invalid pasv_address'')
                      | Some raw \<Rightarrow> aret (AF_INET raw p))
                 | Some _ \<Rightarrow> astop (Bug ''bad family''))
            | None \<Rightarrow> alift (vsf_sysutil_sockaddr_clone (p_local_addr (child w)))) (\<lambda>p_sockaddr.
     aseq (\<lambda>v. (Inr (), v\<lparr>s_pasv_sockaddr := Some p_sockaddr\<rparr>))
     (abind (if \<not> is_ipv6
             then case p_sockaddr of
                    AF_INET a _ \<Rightarrow> aret (inet_ntoa a)
                  | AF_INET6 a _ _ \<Rightarrow> aret (inet_ntop6 (os w) a)
                  | AF_UNSPEC \<Rightarrow> astop (Die ''can only support ipv4 and ipv6 currently'')
             else aret (case vsf_sysutil_sockaddr_ipv6_v4 p_sockaddr of Some a \<Rightarrow> inet_ntoa a | None \<Rightarrow> ''0,0,0,0''))
        (\<lambda>addr_text.
      cmdio_write FTP_PASVOK
        (t_replace_char (''Entering Passive Mode ('' @ addr_text) CHR ''.'' CHR '','' @ '','' @
         vsf_sysutil_ulong_to_str (the_port div 256) @ '','' @ vsf_sysutil_ulong_to_str (the_port mod 256) @ '').'')))))"

definition handle_pasv :: "tunables \<Rightarrow> bool \<Rightarrow> unit act" where
  "handle_pasv t is_epsv = awith (\<lambda>w.
     let is_ipv6 = vsf_sysutil_sockaddr_is_ipv6 (p_local_addr (child w));
         arg = t_upper (ftp_arg_str (child w));
         argval = vsf_sysutil_atoi (cstr arg);
         enter =
           aseq (pasv_cleanup t)
           (aseq port_cleanup
           (abind (pasv_listen t) (\<lambda>the_port.
              if is_epsv
              then cmdio_write FTP_EPSVOK
                     (''Entering Extended Passive Mode (|||'' @ vsf_sysutil_ulong_to_str the_port @ ''|).'')
              else handle_pasv_reply t is_ipv6 the_port)))
     in if is_epsv \<and> arg \<noteq> []
        then aseq (set_arg arg)
             (if arg = ''ALL''
              then aseq (upd_child (\<lambda>s. s\<lparr>epsv_all := True\<rparr>)) (cmdio_write FTP_EPSVALLOK ''EPSV ALL ok.'')
              else if argval < 1 \<or> argval > 2 \<or> (\<not> is_ipv6 \<and> argval = 2)
              then cmdio_write FTP_EPSVBAD ''Bad network protocol.''
              else enter)
        else enter)"

text \<open>Storing the address that a client has named, after the checks against bounce attacks.\<close>

definition port_accept :: "tunables \<Rightarrow> (vsf_sysutil_sockaddr \<Rightarrow> vsf_sysutil_sockaddr res) \<Rightarrow> nat \<Rightarrow> string \<Rightarrow> string \<Rightarrow> unit act" where
  "port_accept t set_addr the_port bad good = awith (\<lambda>w.
     abind (alift (rbind (vsf_sysutil_sockaddr_clone (p_local_addr (child w))) (\<lambda>p.
                   rbind (set_addr p) (\<lambda>q. vsf_sysutil_sockaddr_set_port q the_port)))) (\<lambda>p.
     aseq (upd_child (\<lambda>s. s\<lparr>p_port_sockaddr := Some p\<rparr>))
     (if \<not> tbool t ''port_promiscuous'' \<and>
        (\<not> vsf_sysutil_sockaddr_addr_equal (p_remote_addr (child w)) p \<or> vsf_sysutil_is_port_reserved the_port)
      then aseq (cmdio_write FTP_BADCMD bad) port_cleanup
      else cmdio_write FTP_PORTOK good)))"

definition handle_port :: "tunables \<Rightarrow> unit act" where
  "handle_port t =
     aseq (pasv_cleanup t)
     (aseq port_cleanup
     (abind get_arg (\<lambda>a.
       case vsf_sysutil_parse_uchar_string_sep a CHR '','' 6 of
         None \<Rightarrow> cmdio_write FTP_BADCMD ''Illegal PORT command.''
       | Some vals \<Rightarrow>
           port_accept t (\<lambda>p. vsf_sysutil_sockaddr_set_ipv4addr p (map char_of (take 4 vals)))
             (vals ! 4 * 256 + vals ! 5) ''Illegal PORT command.'' ''PORT command successful. Consider using PASV.'')))"

definition handle_eprt :: "tunables \<Rightarrow> unit act" where
  "handle_eprt t =
     aseq port_cleanup
     (aseq (pasv_cleanup t)
     (awith (\<lambda>w.
        let is_ipv6 = vsf_sysutil_sockaddr_is_ipv6 (p_local_addr (child w));
            (before, rest) = t_split_char (ftp_arg_str (child w)) CHR ''|'';
            (proto_str, rest1) = t_split_char rest CHR ''|'';
            (addr, rest2) = t_split_char rest1 CHR ''|'';
            (port_str, rest3) = t_split_char rest2 CHR ''|'';
            proto = vsf_sysutil_atoi (cstr proto_str);
            port = vsf_sysutil_atoi (cstr port_str);
            raw = (if proto = 2 then vsf_sysutil_parse_ipv6 (fst (t_split_char addr CHR ''%''))
                   else map_option (map char_of) (vsf_sysutil_parse_ipv4 addr));
            bad_eprt = cmdio_write FTP_BADCMD ''Bad EPRT command.''
        in if before \<noteq> [] then bad_eprt
           else if proto < 1 \<or> proto > 2 \<or> (\<not> is_ipv6 \<and> proto = 2)
           then cmdio_write FTP_BADCMD ''Bad EPRT protocol.''
           else case raw of
                  None \<Rightarrow> bad_eprt
                | Some a \<Rightarrow>
                    if rest3 \<noteq> [] \<or> port_str = [] then bad_eprt
                    else if port < 0 \<or> port > 65535 then bad_eprt
                    else port_accept t
                           (\<lambda>p. if proto = 2 then vsf_sysutil_sockaddr_set_ipv6addr p (a @ stale (os w))
                                else vsf_sysutil_sockaddr_set_ipv4addr p a)
                           (nat port) ''Illegal EPRT command.'' ''EPRT command successful. Consider using EPSV.'')))"

section \<open>Directories and files\<close>

definition handle_pwd :: "unit act" where
  "handle_pwd = abind str_getcwd (\<lambda>cwd.
     cmdio_write FTP_PWDOK ([CHR 0x22] @ t_replace_text [CHR 0x22] [CHR 0x22, CHR 0x22] cwd @ [CHR 0x22]))"

definition handle_cwd :: "tunables \<Rightarrow> unit act" where
  "handle_cwd t =
     abind (resolved_arg t) (\<lambda>p.
     abind (access_check_file t p) (\<lambda>ok.
       if \<not> ok then no_permission
       else abind (str_chdir p) (\<lambda>retval.
         if retval = 0
         then aseq (vsf_banner_dir_changed t FTP_CWDOK) (cmdio_write FTP_CWDOK ''Directory successfully changed.'')
         else cmdio_write FTP_FILEFAIL ''Failed to change directory.'')))"

definition handle_cdup :: "tunables \<Rightarrow> unit act" where
  "handle_cdup t = aseq (set_arg ''..'') (handle_cwd t)"

definition handle_mkd :: "tunables \<Rightarrow> unit act" where
  "handle_mkd t =
     abind (resolved_arg t) (\<lambda>p.
     aseq (log_path kVSFLogEntryMkdir p)
     (abind (access_check_file t p) (\<lambda>ok.
       if \<not> ok then no_permission
       else abind (str_mkdir p 511) (\<lambda>retval.
         if retval \<noteq> 0 then cmdio_write FTP_FILEFAIL ''Create directory operation failed.''
         else
           aseq (vsf_log_do_log True)
           (abind (prepend_path_to_filename p) (\<lambda>q.
            cmdio_write FTP_MKDIROK
              ([CHR 0x22] @ t_replace_text [CHR 0x22] [CHR 0x22, CHR 0x22] q @ [CHR 0x22] @ '' created'')))))))"

definition handle_rmd :: "tunables \<Rightarrow> unit act" where
  "handle_rmd t =
     abind (resolved_arg t) (\<lambda>p.
     aseq (log_path kVSFLogEntryRmdir p)
     (abind (access_check_file t p) (\<lambda>ok.
       if \<not> ok then no_permission
       else abind (str_rmdir p) (\<lambda>retval.
         if retval \<noteq> 0 then cmdio_write FTP_FILEFAIL ''Remove directory operation failed.''
         else aseq (vsf_log_do_log True) (cmdio_write FTP_RMDIROK ''Remove directory operation successful.'')))))"

definition handle_dele :: "tunables \<Rightarrow> unit act" where
  "handle_dele t =
     abind (resolved_arg t) (\<lambda>p.
     aseq (log_path kVSFLogEntryDelete p)
     (abind (access_check_file t p) (\<lambda>ok.
       if \<not> ok then no_permission
       else abind (str_unlink p) (\<lambda>retval.
         if retval \<noteq> 0 then cmdio_write FTP_FILEFAIL ''Delete operation failed.''
         else aseq (vsf_log_do_log True) (cmdio_write FTP_DELEOK ''Delete operation successful.'')))))"

definition handle_rest :: "unit act" where
  "handle_rest = abind get_arg (\<lambda>a.
     abind (alift (vsf_sysutil_a_to_filesize_t (cstr a))) (\<lambda>v.
       let val = (if v < 0 then 0 else v) in
       aseq (upd_child (\<lambda>s. s\<lparr>restart_pos := val\<rparr>))
       (cmdio_write FTP_RESTOK (''Restart position accepted ('' @ vsf_sysutil_filesize_t_to_str val @ '').''))))"

definition handle_rnfr :: "tunables \<Rightarrow> unit act" where
  "handle_rnfr t =
     aseq (upd_child (\<lambda>s. s\<lparr>rnfr_filename_str := []\<rparr>))
     (abind (resolved_arg t) (\<lambda>p.
      abind (access_check_file t p) (\<lambda>ok.
        if \<not> ok then aseq (log_path kVSFLogEntryRename p) no_permission
        else abind (str_stat p) (\<lambda>r.
          if r_ret r = 0
          then aseq (upd_child (\<lambda>s. s\<lparr>rnfr_filename_str := p\<rparr>)) (cmdio_write FTP_RNFROK ''Ready for RNTO.'')
          else aseq (log_path kVSFLogEntryRename p) (cmdio_write FTP_FILEFAIL ''RNFR command failed.'')))))"

definition handle_rnto :: "tunables \<Rightarrow> unit act" where
  "handle_rnto t = awith (\<lambda>w.
     let from = rnfr_filename_str (child w) in
     if from = [] then cmdio_write FTP_NEEDRNFR ''RNFR required first.''
     else
       abind (resolved_arg t) (\<lambda>p.
       aseq (log_path kVSFLogEntryRename from)
       (abind (prepend_path_to_filename p) (\<lambda>q.
        aseq (upd_child (\<lambda>s. s\<lparr>log_str := log_str s @ '' '' @ q\<rparr>))
        (abind (access_check_file t p) (\<lambda>ok.
          if \<not> ok then no_permission
          else
            abind (str_rename from p) (\<lambda>retval.
            aseq (upd_child (\<lambda>s. s\<lparr>rnfr_filename_str := []\<rparr>))
            (if retval = 0 then aseq (vsf_log_do_log True) (cmdio_write FTP_RENAMEOK ''Rename successful.'')
             else cmdio_write FTP_FILEFAIL ''Rename failed.''))))))))"

definition handle_size :: "tunables \<Rightarrow> unit act" where
  "handle_size t =
     abind (resolved_arg t) (\<lambda>p.
     abind (access_check_file t p) (\<lambda>ok.
       if \<not> ok then no_permission
       else abind (str_stat p) (\<lambda>r.
         if r_ret r \<noteq> 0 \<or> \<not> r_regfile r then cmdio_write FTP_FILEFAIL ''Could not get file size.''
         else cmdio_write FTP_SIZEOK (vsf_sysutil_filesize_t_to_str (r_size r)))))"

section \<open>Site commands and file times\<close>

definition handle_site_chmod :: "tunables \<Rightarrow> string \<Rightarrow> unit act" where
  "handle_site_chmod t args =
     (if args = [] then cmdio_write FTP_BADCMD ''SITE CHMOD needs 2 arguments.''
      else
        let (mode_str, file_str) = t_split_char args CHR '' '' in
        if file_str = [] then cmdio_write FTP_BADCMD ''SITE CHMOD needs 2 arguments.''
        else
          abind (resolve_tilde t file_str) (\<lambda>p.
          aseq (log_path kVSFLogEntryChmod p)
          (aseq (upd_child (\<lambda>s. s\<lparr>log_str := log_str s @ '' '' @ mode_str\<rparr>))
          (abind (access_check_file t p) (\<lambda>ok.
            if \<not> ok then no_permission
            else abind (str_chmod p (vsf_sysutil_octal_to_uint (cstr mode_str))) (\<lambda>retval.
              if retval < 0 then cmdio_write FTP_FILEFAIL ''SITE CHMOD command failed.''
              else aseq (vsf_log_do_log True) (cmdio_write FTP_CHMODOK ''SITE CHMOD command ok.'')))))))"

definition handle_site_umask :: "string \<Rightarrow> unit act" where
  "handle_site_umask args =
     (if args = []
      then awith (\<lambda>w. cmdio_write FTP_UMASKOK (''Your current UMASK is '' @ vsf_sysutil_uint_to_octal (s_current_umask w)))
      else
        aseq (vsf_sysutil_set_umask (vsf_sysutil_octal_to_uint (cstr args))) (awith (\<lambda>w.
        cmdio_write FTP_UMASKOK (''UMASK set to '' @ vsf_sysutil_uint_to_octal (s_current_umask w)))))"

definition handle_site :: "tunables \<Rightarrow> unit act" where
  "handle_site t =
     abind get_arg (\<lambda>a.
       let (sub, site_args) = t_split_char a CHR '' ''; cmd = t_upper sub in
       aseq (set_arg cmd)
       (if tbool t ''write_enable'' \<and> tbool t ''chmod_enable'' \<and> cmd = ''CHMOD'' then handle_site_chmod t site_args
        else if cmd = ''UMASK'' then handle_site_umask site_args
        else if cmd = ''HELP'' then cmdio_write FTP_SITEHELP ''CHMOD UMASK HELP''
        else cmdio_write FTP_BADCMD ''Unknown SITE command.''))"

text \<open>The fields of a time, as \<open>mktime\<close> gets them: year from 1900, month from 0, day, hour, minute, second.\<close>

definition vsf_sysutil_parse_time :: "string \<Rightarrow> int act" where
  "vsf_sysutil_parse_time s =
     abind (alift (vsf_sysutil_strlen s)) (\<lambda>len.
       let field = (\<lambda>i n. vsf_sysutil_atoi (take n (drop i s)));
           d = (if len \<ge> 8 then [field 0 4 - 1900, field 4 2 - 1, field 6 2] else [0, 0, 0]);
           h = (if len \<ge> 14 then [field 8 2, field 10 2, field 12 2] else [0, 0, 0])
       in abind (sys (Mktime (d @ h))) (\<lambda>r. aret (r_ret r)))"

definition vsf_sysutil_setmodtime :: "string \<Rightarrow> int \<Rightarrow> bool \<Rightarrow> int act" where
  "vsf_sysutil_setmodtime p the_time is_localtime = awith (\<lambda>w.
     abind (sys (Utime p (if is_localtime then the_time else the_time - s_timezone (os w)))) (\<lambda>r. aret (r_ret r)))"

definition vsf_sysutil_statbuf_get_numeric_date :: "bool \<Rightarrow> string act" where
  "vsf_sysutil_statbuf_get_numeric_date use_localtime =
     abind (sys (NumericDate use_localtime)) (\<lambda>r.
       case r_text r of None \<Rightarrow> astop (Die ''strftime'') | Some d \<Rightarrow> aret (cstr d))"

definition may_write :: "tunables \<Rightarrow> string \<Rightarrow> bool \<Rightarrow> bool" where
  "may_write t anon_setting anonymous \<longleftrightarrow> tbool t ''write_enable'' \<and> (tbool t anon_setting \<or> \<not> anonymous)"

text \<open>Whether the argument begins with a time to be set: one of 8 or 14 characters, or longer ones with a fraction.\<close>

definition mdtm_sets_time :: "tunables \<Rightarrow> int \<Rightarrow> string \<Rightarrow> bool" where
  "mdtm_sets_time t ret a \<longleftrightarrow>
     (let loc = t_locate_text a '' '' in
      tbool t ''mdtm_write'' \<and> ret \<noteq> 0 \<and> found loc \<and> vsf_sysutil_isdigit (a ! 0) \<and>
      (index loc = 8 \<or> index loc = 14 \<or> index loc > 15 \<and> a ! 14 = CHR ''.''))"

definition handle_mdtm :: "tunables \<Rightarrow> unit act" where
  "handle_mdtm t =
     abind get_arg (\<lambda>a.
     abind (str_stat a) (\<lambda>r.
       let do_write = mdtm_sets_time t (r_ret r) a; (time_str, file_str) = t_split_char a CHR '' '' in
       abind (if do_write
              then abind (vsf_sysutil_parse_time (cstr time_str)) (\<lambda>m. aseq (set_arg file_str) (aret m))
              else aret 0) (\<lambda>modtime.
       abind (resolved_arg t) (\<lambda>p.
       abind (access_check_file t p) (\<lambda>ok.
         if \<not> ok then no_permission
         else awith (\<lambda>w.
           if do_write \<and> may_write t ''anon_other_write_enable'' (is_anonymous (child w))
           then abind (str_stat p) (\<lambda>r1.
             if r_ret r1 \<noteq> 0 \<or> \<not> r_regfile r1 then cmdio_write FTP_FILEFAIL ''Could not set file modification time.''
             else abind (vsf_sysutil_setmodtime (cstr p) modtime (tbool t ''use_localtime'')) (\<lambda>retval.
               if retval \<noteq> 0 then cmdio_write FTP_FILEFAIL ''Could not set file modification time.''
               else cmdio_write FTP_MDTMOK ''File modification time set.''))
           else
             if r_ret r \<noteq> 0 \<or> \<not> r_regfile r then cmdio_write FTP_FILEFAIL ''Could not get file modification time.''
             else abind (vsf_sysutil_statbuf_get_numeric_date (tbool t ''use_localtime'')) (cmdio_write FTP_MDTMOK)))))))"

section \<open>Transfers\<close>

text \<open>The results of locking are not looked at.\<close>

definition vsf_sysutil_lock_file_read :: "int \<Rightarrow> unit act" where
  "vsf_sysutil_lock_file_read fd = abind (sys (LockRead fd)) (\<lambda>_. aret ())"

definition vsf_sysutil_lock_file_write :: "int \<Rightarrow> unit act" where
  "vsf_sysutil_lock_file_write fd = abind (sys (LockWrite fd)) (\<lambda>_. aret ())"

text \<open>The result code of a transfer, counting a failure to close the connection as a network failure.\<close>

definition disposed :: "vsf_transfer_ret \<Rightarrow> int \<Rightarrow> int" where
  "disposed tr dispose_ret = (if dispose_ret \<noteq> 1 \<and> retval tr = 0 then -2 else retval tr)"

text \<open>The part of \<open>handle_retr\<close> after the checks, up to \<open>port_pasv_cleanup_out\<close>.\<close>

definition retr_send :: "tunables \<Rightarrow> string \<Rightarrow> int \<Rightarrow> int \<Rightarrow> unit act" where
  "retr_send t p opened_file file_size = awith (\<lambda>w.
     let asc = (tbool t ''ascii_download_enable'' \<and> is_ascii (child w)) in
     abind (get_remote_transfer_fd t
              (cstr (''Opening '' @ (if asc then ''ASCII'' else ''BINARY'') @ '' mode data connection for '' @ p @ '' ('' @
               vsf_sysutil_filesize_t_to_str file_size @ '' bytes).''))) (\<lambda>remote_fd.
       if remote_fd < 0 then data_cleanup t
       else
         abind (vsf_ftpdataio_transfer_file t remote_fd opened_file False asc) (\<lambda>tr.
         abind vsf_ftpdataio_dispose_transfer_fd (\<lambda>dispose_ret.
           let res = disposed tr dispose_ret in
           aseq (upd_child (\<lambda>s. s\<lparr>transfer_size := int (transferred tr)\<rparr>))
           (aseq (if res = 0 then vsf_log_do_log True else aret ())
           (aseq (if res = -1 then cmdio_write FTP_BADSENDFILE ''Failure reading local file.''
                  else if res = -2 then cmdio_write FTP_BADSENDNET ''Failure writing network stream.''
                  else cmdio_write FTP_TRANSFEROK ''File send OK.'')
           (aseq check_abor (data_cleanup t))))))))"

definition handle_retr :: "tunables \<Rightarrow> unit act" where
  "handle_retr t = awith (\<lambda>w.
     let offset = restart_pos (child w) in
     aseq (upd_child (\<lambda>s. s\<lparr>restart_pos := 0\<rparr>))
     (abind (data_transfer_checks_ok t) (\<lambda>checks.
        if \<not> checks then aret ()
        else if is_ascii (child w) \<and> offset \<noteq> 0
        then cmdio_write FTP_FILEFAIL ''No support for resume of ASCII transfer.''
        else
          abind (resolved_arg t) (\<lambda>p.
          aseq (log_path kVSFLogEntryDownload p)
          (abind (access_check_file t p) (\<lambda>ok.
            if \<not> ok then no_permission
            else
              abind (str_open p) (\<lambda>opened_file.
              if opened_file < 0 then cmdio_write FTP_FILEFAIL ''Failed to open file.''
              else
                aseq (if tbool t ''lock_upload_files'' then vsf_sysutil_lock_file_read opened_file else aret ())
                (abind (vsf_sysutil_fstat opened_file) (\<lambda>st.
                aseq (if \<not> r_regfile st
                      then aseq (cmdio_write FTP_FILEFAIL ''Failed to open file.'')
                           (if r_dir st then vsf_log_clear_entry else aret ())
                      else if is_anonymous (child w) \<and> tbool t ''anon_world_readable_only'' \<and> \<not> r_readable_other st
                      then cmdio_write FTP_FILEFAIL ''Failed to open file.''
                      else
                        aseq (if offset \<noteq> 0 then vsf_sysutil_lseek_to opened_file offset else aret ())
                        (retr_send t p opened_file (r_size st)))
                (vsf_sysutil_close opened_file))))))))))"

text \<open>The two parts of the argument of a listing: the options and the pattern or directory.\<close>

definition list_args :: "string \<Rightarrow> string \<times> string" where
  "list_args a = (if a \<noteq> [] \<and> a ! 0 = CHR ''-'' then t_split_char (drop 1 a) CHR '' '' else ([], a))"

text \<open>The directory to list: its handle, name and the filter that is left; \<open>named\<close> if the client has named one.\<close>

definition open_listed_dir :: "bool \<Rightarrow> string \<Rightarrow> (int \<times> string \<times> string) act" where
  "open_listed_dir named filter_str =
     abind (if named then str_opendir filter_str else aret 0) (\<lambda>p_dir.
       if p_dir \<noteq> 0 then aret (p_dir, filter_str, [])
       else
         let (dir_name, filter1) =
               (if found (t_locate_text filter_str ''/'')
                then let (d, f) = t_split_text_reverse filter_str ''/'' in (if d = [] then ''/'' else d, f)
                else (''.'', filter_str))
         in abind (str_opendir dir_name) (\<lambda>p_dir1. aret (p_dir1, dir_name, filter1)))"

definition dir_readable :: "tunables \<Rightarrow> int \<Rightarrow> bool act" where
  "dir_readable t p_dir = awith (\<lambda>w.
     if is_anonymous (child w) \<and> p_dir \<noteq> 0 \<and> tbool t ''anon_world_readable_only''
     then abind (vsf_sysutil_dir_stat p_dir) (\<lambda>st. aret (r_readable_other st))
     else aret True)"

definition transfer_listing ::
  "nat \<Rightarrow> tunables \<Rightarrow> bool \<Rightarrow> int \<Rightarrow> string \<Rightarrow> string \<Rightarrow> string \<Rightarrow> bool \<Rightarrow> bool \<Rightarrow> int act" where
  "transfer_listing n t is_control p_dir dir_name opts filter_str full_details allow_read =
     (if p_dir \<noteq> 0 \<and> allow_read
      then vsf_ftpdataio_transfer_dir n t is_control p_dir dir_name opts filter_str full_details else aret 0)"

definition close_listed_dir :: "int \<Rightarrow> unit act" where
  "close_listed_dir p_dir = (if p_dir \<noteq> 0 then vsf_sysutil_closedir p_dir else aret ())"

definition send_listing ::
  "nat \<Rightarrow> tunables \<Rightarrow> bool \<Rightarrow> bool \<Rightarrow> string \<Rightarrow> bool \<Rightarrow> string \<Rightarrow> unit act" where
  "send_listing n t full_details stat_cmd option_str named filter_str =
     abind (open_listed_dir named filter_str) (\<lambda>(p_dir, dir_name, filter1).
       if stat_cmd
       then
         aseq (cmdio_write_hyphen FTP_STATFILE_OK ''Status follows:'')
         (abind (dir_readable t p_dir) (\<lambda>allow_read.
          abind (transfer_listing n t True p_dir dir_name (option_str @ ''a'') filter1 full_details allow_read) (\<lambda>_.
          aseq (cmdio_write FTP_STATFILE_OK ''End of status'')
          (aseq check_abor (close_listed_dir p_dir)))))
       else
         abind (get_remote_transfer_fd t ''Here comes the directory listing.'') (\<lambda>remote_fd.
           aseq
             (if remote_fd < 0 then aret ()
              else
                abind (dir_readable t p_dir) (\<lambda>allow_read.
                abind (transfer_listing n t False p_dir dir_name option_str filter1 full_details allow_read) (\<lambda>ret.
                abind vsf_ftpdataio_dispose_transfer_fd (\<lambda>dispose_ret.
                aseq (if p_dir = 0 \<or> \<not> allow_read
                      then cmdio_write FTP_TRANSFEROK ''Transfer done (but failed to open directory).''
                      else if (if dispose_ret \<noteq> 1 \<and> ret = 0 then -1 else ret) = 0
                      then cmdio_write FTP_TRANSFEROK ''Directory send OK.''
                      else cmdio_write FTP_BADSENDNET ''Failure writing network stream.'')
                check_abor))))
           (aseq (close_listed_dir p_dir) (data_cleanup t))))"

definition handle_dir_common :: "nat \<Rightarrow> tunables \<Rightarrow> bool \<Rightarrow> bool \<Rightarrow> unit act" where
  "handle_dir_common n t full_details stat_cmd =
     abind (if stat_cmd then aret True else data_transfer_checks_ok t) (\<lambda>checks.
       if \<not> checks then aret ()
       else
         abind get_arg (\<lambda>a.
           let (option_str, filter_str) = list_args a in
           if filter_str = [] then send_listing n t full_details stat_cmd option_str False []
           else
             abind (resolve_tilde t filter_str) (\<lambda>p.
             abind (access_check_file t p) (\<lambda>ok.
               if \<not> ok then no_permission else send_listing n t full_details stat_cmd option_str True p))))"

text \<open>The search for an unused name; the suffix is an \<open>unsigned int\<close>.\<close>

fun unique_loop :: "nat \<Rightarrow> string \<Rightarrow> nat \<Rightarrow> string act" where
  "unique_loop 0 base sfx = astop Hang"
| "unique_loop (Suc n) base sfx =
     (let name = base @ ''.'' @ vsf_sysutil_ulong_to_str sfx in
      abind (str_stat name) (\<lambda>r. if r_ret r < 0 then aret name else unique_loop n base (u32 (sfx + 1))))"

definition get_unique_filename :: "nat \<Rightarrow> string \<Rightarrow> string act" where
  "get_unique_filename n base = abind (str_stat base) (\<lambda>r. if r_ret r < 0 then aret base else unique_loop n base 1)"

text \<open>The part of \<open>handle_upload_common\<close> that prepares the new file.\<close>

definition upload_prepare :: "tunables \<Rightarrow> int \<Rightarrow> bool \<Rightarrow> bool \<Rightarrow> int \<Rightarrow> unit act" where
  "upload_prepare t new_file_fd is_append do_truncate offset = awith (\<lambda>w.
     abind (vsf_sysutil_fstat new_file_fd) (\<lambda>_.
     aseq (if is_anonymous (child w) \<and> tbool t ''chown_uploads''
           then aseq (vsf_sysutil_fchmod new_file_fd (tuint t ''chown_upload_mode'')) (chown_upload t new_file_fd)
           else aret ())
     (aseq (if tbool t ''lock_upload_files'' then vsf_sysutil_lock_file_write new_file_fd else aret ())
     (aseq (if do_truncate then aseq (vsf_sysutil_ftruncate new_file_fd) (vsf_sysutil_lseek_to new_file_fd 0) else aret ())
     (if \<not> is_append \<and> offset \<noteq> 0 then vsf_sysutil_lseek_to new_file_fd offset else aret ())))))"

text \<open>The transfer itself; the value says whether it succeeded.\<close>

definition upload_receive :: "tunables \<Rightarrow> int \<Rightarrow> string \<Rightarrow> bool act" where
  "upload_receive t new_file_fd p_status_msg =
     abind (get_remote_transfer_fd t p_status_msg) (\<lambda>remote_fd.
       if remote_fd < 0 then aret False
       else awith (\<lambda>w.
         abind (vsf_ftpdataio_transfer_file t remote_fd new_file_fd True
                  (tbool t ''ascii_upload_enable'' \<and> is_ascii (child w))) (\<lambda>tr.
         abind vsf_ftpdataio_dispose_transfer_fd (\<lambda>dispose_ret.
           let res = disposed tr dispose_ret in
           aseq (upd_child (\<lambda>s. s\<lparr>transfer_size := int (transferred tr)\<rparr>))
           (aseq (if res = 0 then vsf_log_do_log True else aret ())
           (aseq (if res = -1 then cmdio_write FTP_BADSENDFILE ''Failure writing to local file.''
                  else awith (\<lambda>v.
                    if res = -2 \<or> abor_received (child v)
                    then cmdio_write FTP_BADSENDNET ''Failure reading network stream.''
                    else cmdio_write FTP_TRANSFEROK ''File receive OK.''))
           (aseq check_abor (aret (res = 0)))))))))"

definition handle_upload_common :: "nat \<Rightarrow> tunables \<Rightarrow> bool \<Rightarrow> bool \<Rightarrow> unit act" where
  "handle_upload_common n t is_append is_unique = awith (\<lambda>w.
     let offset = restart_pos (child w) in
     aseq (upd_child (\<lambda>s. s\<lparr>restart_pos := 0\<rparr>))
     (abind (data_transfer_checks_ok t) (\<lambda>checks.
        if \<not> checks then aret ()
        else
          abind (resolved_arg t) (\<lambda>p.
          abind (if is_unique then get_unique_filename n p else aret p) (\<lambda>filename.
          aseq (log_path kVSFLogEntryUpload p)
          (abind (access_check_file t filename) (\<lambda>ok.
            if \<not> ok then no_permission
            else
              let fresh = (is_unique \<or> is_anonymous (child w) \<and> \<not> tbool t ''anon_other_write_enable'') in
              abind (if fresh then str_create filename else str_create_append t filename) (\<lambda>new_file_fd.
              if new_file_fd < 0 then cmdio_write FTP_UPLOADFAIL ''Could not create file.''
              else
                aseq (upload_prepare t new_file_fd is_append (\<not> fresh \<and> \<not> is_append \<and> offset = 0) offset)
                (abind (upload_receive t new_file_fd
                          (if is_unique then cstr (''FILE: '' @ filename) else ''Ok to send data.'')) (\<lambda>success.
                 aseq (data_cleanup t)
                 (aseq (if tbool t ''delete_failed_uploads'' \<and> \<not> success
                        then abind (str_unlink filename) (\<lambda>_. aret ()) else aret ())
                 (vsf_sysutil_close new_file_fd))))))))))))"

section \<open>Other commands\<close>

definition handle_type :: "unit act" where
  "handle_type =
     abind get_arg (\<lambda>a.
       let arg = t_upper a in
       aseq (set_arg arg)
       (if arg = ''I'' \<or> arg = ''L8'' \<or> arg = ''L 8''
        then aseq (upd_child (\<lambda>s. s\<lparr>is_ascii := False\<rparr>)) (cmdio_write FTP_TYPEOK ''Switching to Binary mode.'')
        else if arg = ''A'' \<or> arg = ''A N''
        then aseq (upd_child (\<lambda>s. s\<lparr>is_ascii := True\<rparr>)) (cmdio_write FTP_TYPEOK ''Switching to ASCII mode.'')
        else cmdio_write FTP_BADCMD ''Unrecognised TYPE command.''))"

definition handle_help :: "unit act" where
  "handle_help =
     aseq (cmdio_write_hyphen FTP_HELP ''The following commands are recognized.'')
     (aseq (raw_lines
        ['' ABOR ACCT ALLO APPE CDUP CWD  DELE EPRT EPSV FEAT HELP LIST MDTM MKD'',
         '' MODE NLST NOOP OPTS PASS PASV PORT PWD  QUIT REIN REST RETR RMD  RNFR'',
         '' RNTO SITE SIZE SMNT STAT STOR STOU STRU SYST TYPE USER XCUP XCWD XMKD'', '' XPWD XRMD''])
     (cmdio_write FTP_HELP ''Help OK.''))"

fun raw_texts :: "string list \<Rightarrow> unit act" where
  "raw_texts [] = aret ()"
| "raw_texts (x # xs) = aseq (cmdio_write_raw x) (raw_texts xs)"

definition stat_texts :: "tunables \<Rightarrow> vsf_session \<Rightarrow> string list" where
  "stat_texts t s =
     [''     Connected to '', cstr (remote_ip_str s), [CR, LF], ''     Logged in as '', cstr (user_str s), [CR, LF],
      ''     TYPE: '', (if is_ascii s then ''ASCII'' else ''BINARY'') @ [CR, LF]] @
     (if bw_rate_max s = 0 then [''     No session bandwidth limit'' @ [CR, LF]]
      else [''     Session bandwidth limit in byte/s is '', vsf_sysutil_ulong_to_str (bw_rate_max s), [CR, LF]]) @
     (if tuint t ''idle_session_timeout'' = 0 then [''     No session timeout'' @ [CR, LF]]
      else [''     Session timeout in seconds is '', vsf_sysutil_ulong_to_str (tuint t ''idle_session_timeout''), [CR, LF]]) @
     [(if control_use_ssl s then ''     Control connection is encrypted'' else ''     Control connection is plain text'') @ [CR, LF],
      (if data_use_ssl s then ''     Data connections will be encrypted'' else ''     Data connections will be plain text'') @ [CR, LF]] @
     (if vsf_session.num_clients s > 0
      then [''     At session startup, client count was '', vsf_sysutil_ulong_to_str (vsf_session.num_clients s), [CR, LF]]
      else []) @
     [''     vsFTPd 2.2.0 - secure, fast, stable'' @ [CR, LF]]"

definition handle_stat :: "tunables \<Rightarrow> unit act" where
  "handle_stat t =
     aseq (cmdio_write_hyphen FTP_STATOK ''FTP server status:'')
     (aseq (awith (\<lambda>w. raw_texts (stat_texts t (child w)))) (cmdio_write FTP_STATOK ''End of status''))"

definition handle_logged_in_user :: "unit act" where
  "handle_logged_in_user = awith (\<lambda>w.
     if is_anonymous (child w) then cmdio_write FTP_LOGINERR (''Can'' @ [CHR 0x27] @ ''t change from guest user.'')
     else if user_str (child w) = ftp_arg_str (child w) then cmdio_write FTP_GIVEPWORD ''Any password will do.''
     else cmdio_write FTP_LOGINERR (''Can'' @ [CHR 0x27] @ ''t change to another user.''))"

definition handle_logged_in_pass :: "unit act" where
  "handle_logged_in_pass = cmdio_write FTP_LOGINOK ''Already logged in.''"

definition handle_stru :: "unit act" where
  "handle_stru = abind get_arg (\<lambda>a.
     aseq (set_arg (t_upper a))
     (if t_upper a = ''F'' then cmdio_write FTP_STRUOK ''Structure set to F.''
      else cmdio_write FTP_BADSTRU ''Bad STRU command.''))"

definition handle_mode :: "unit act" where
  "handle_mode = abind get_arg (\<lambda>a.
     aseq (set_arg (t_upper a))
     (if t_upper a = ''S'' then cmdio_write FTP_MODEOK ''Mode set to S.''
      else cmdio_write FTP_BADMODE ''Bad MODE command.''))"

section \<open>The command loop\<close>

text \<open>The search in a list of commands separated by commas, which ends at an empty field.\<close>

function cmd_listed :: "string \<Rightarrow> string \<Rightarrow> bool" where
  "cmd_listed cmd src =
     (let (field, rhs) = t_split_char src CHR '','' in
      if field = [] then False else if field = cmd then True else cmd_listed cmd rhs)"
  by pat_completeness auto
termination
proof (relation "measure (\<lambda>(cmd, src). length src)", goal_cases)
  case (2 cmd src p field rhs)
  then have "length field + length rhs \<le> length src" using split_char_length(1) [of src _ field rhs] by simp
  then show ?case using 2 by (cases field) auto
qed simp

declare cmd_listed.simps [simp del]

definition cmd_ok :: "tunables \<Rightarrow> string \<Rightarrow> bool" where
  "cmd_ok t cmd \<longleftrightarrow>
     (case tstr t ''cmds_allowed'' of None \<Rightarrow> True | Some l \<Rightarrow> cmd_listed cmd l) \<and>
     (case tstr t ''cmds_denied'' of None \<Rightarrow> True | Some l \<Rightarrow> \<not> cmd_listed cmd l)"

definition refused_cmds :: "string list" where
  "refused_cmds =
     [''PASV'', ''PORT'', ''STOR'', ''MKD'', ''XMKD'', ''RMD'', ''XRMD'', ''DELE'', ''RNFR'', ''RNTO'', ''SITE'', ''APPE'',
      ''EPSV'', ''EPRT'', ''RETR'', ''LIST'', ''NLST'', ''STOU'', ''ALLO'', ''REIN'', ''ACCT'', ''SMNT'', ''FEAT'', ''OPTS'',
      ''STAT'', ''PBSZ'', ''PROT'']"

definition dispatch_cmd :: "nat \<Rightarrow> tunables \<Rightarrow> unit act" where
  "dispatch_cmd n t = awith (\<lambda>w.
     let cmd = ftp_cmd_str (child w); arg = ftp_arg_str (child w); anon = is_anonymous (child w) in
     if \<not> cmd_ok t cmd then no_permission
     else if cmd = ''QUIT'' then cmdio_write_exit FTP_GOODBYE ''Goodbye.''
     else if cmd = ''PWD'' \<or> cmd = ''XPWD'' then handle_pwd
     else if cmd = ''CWD'' \<or> cmd = ''XCWD'' then handle_cwd t
     else if cmd = ''CDUP'' \<or> cmd = ''XCUP'' then handle_cdup t
     else if tbool t ''pasv_enable'' \<and> \<not> epsv_all (child w) \<and> (cmd = ''PASV'' \<or> cmd = ''P@SW'') then handle_pasv t False
     else if tbool t ''pasv_enable'' \<and> cmd = ''EPSV'' then handle_pasv t True
     else if tbool t ''download_enable'' \<and> cmd = ''RETR'' then handle_retr t
     else if cmd = ''NOOP'' then cmdio_write FTP_NOOPOK ''NOOP ok.''
     else if cmd = ''SYST'' then cmdio_write FTP_SYSTOK ''UNIX Type: L8''
     else if cmd = ''HELP'' then handle_help
     else if tbool t ''dirlist_enable'' \<and> cmd = ''LIST'' then handle_dir_common n t True False
     else if cmd = ''TYPE'' then handle_type
     else if tbool t ''port_enable'' \<and> \<not> epsv_all (child w) \<and> cmd = ''PORT'' then handle_port t
     else if may_write t ''anon_upload_enable'' anon \<and> cmd = ''STOR'' then handle_upload_common n t False False
     else if may_write t ''anon_mkdir_write_enable'' anon \<and> (cmd = ''MKD'' \<or> cmd = ''XMKD'') then handle_mkd t
     else if may_write t ''anon_other_write_enable'' anon \<and> (cmd = ''RMD'' \<or> cmd = ''XRMD'') then handle_rmd t
     else if may_write t ''anon_other_write_enable'' anon \<and> cmd = ''DELE'' then handle_dele t
     else if cmd = ''REST'' then handle_rest
     else if may_write t ''anon_other_write_enable'' anon \<and> cmd = ''RNFR'' then handle_rnfr t
     else if may_write t ''anon_other_write_enable'' anon \<and> cmd = ''RNTO'' then handle_rnto t
     else if tbool t ''dirlist_enable'' \<and> cmd = ''NLST'' then handle_dir_common n t False False
     else if cmd = ''SIZE'' then handle_size t
     else if \<not> anon \<and> cmd = ''SITE'' then handle_site t
     else if cmd = ''ABOR'' \<or> cmd = [CHR 0xFF, CHR 0xF4, CHR 0xFF, CHR 0xF2] @ ''ABOR''
     then cmdio_write FTP_ABOR_NOCONN ''No transfer to ABOR.''
     else if may_write t ''anon_other_write_enable'' anon \<and> cmd = ''APPE'' then handle_upload_common n t True False
     else if cmd = ''MDTM'' then handle_mdtm t
     else if tbool t ''port_enable'' \<and> cmd = ''EPRT'' then handle_eprt t
     else if cmd = ''STRU'' then handle_stru
     else if cmd = ''MODE'' then handle_mode
     else if may_write t ''anon_upload_enable'' anon \<and> cmd = ''STOU'' then handle_upload_common n t False True
     else if cmd = ''ALLO'' then cmdio_write FTP_ALLOOK ''ALLO command ignored.''
     else if cmd = ''REIN'' then cmdio_write FTP_COMMANDNOTIMPL ''REIN not implemented.''
     else if cmd = ''ACCT'' then cmdio_write FTP_COMMANDNOTIMPL ''ACCT not implemented.''
     else if cmd = ''SMNT'' then cmdio_write FTP_COMMANDNOTIMPL ''SMNT not implemented.''
     else if cmd = ''FEAT'' then handle_feat t
     else if cmd = ''OPTS'' then handle_opts
     else if cmd = ''STAT'' \<and> arg = [] then handle_stat t
     else if tbool t ''dirlist_enable'' \<and> cmd = ''STAT'' then handle_dir_common n t True True
     else if tbool t ''ssl_enable'' \<and> cmd = ''PBSZ'' then aret ()
     else if tbool t ''ssl_enable'' \<and> cmd = ''PROT'' then aret ()
     else if cmd = ''USER'' then handle_logged_in_user
     else if cmd = ''PASS'' then handle_logged_in_pass
     else if cmd \<in> set refused_cmds then no_permission
     else if cmd = [] \<and> arg = [] then aret ()
     else cmdio_write FTP_BADCMD ''Unknown command.'')"

definition log_pending_entry :: "unit act" where
  "log_pending_entry = abind vsf_log_entry_pending (\<lambda>p. if p then vsf_log_do_log False else aret ())"

definition post_login_round :: "nat \<Rightarrow> tunables \<Rightarrow> unit act" where
  "post_login_round n t = aseq (get_cmd_and_arg t) (aseq (dispatch_cmd n t) log_pending_entry)"

fun post_login_loop :: "nat \<Rightarrow> nat \<Rightarrow> tunables \<Rightarrow> unit act" where
  "post_login_loop 0 n t = astop Hang"
| "post_login_loop (Suc k) n t = aseq (post_login_round n t) (post_login_loop k n t)"

definition post_login_start :: "tunables \<Rightarrow> unit act" where
  "post_login_start t =
     abind str_getcwd (\<lambda>cwd.
     aseq (upd_child (\<lambda>s. s\<lparr>home_str := cwd\<rparr>))
     (awith (\<lambda>w.
        let anon = is_anonymous (child w) in
        aseq (vsf_sysutil_set_umask (tuint t (if anon then ''anon_umask'' else ''local_umask'')))
        (aseq (upd_child (\<lambda>s. s\<lparr>bw_rate_max := tuint t (if anon then ''anon_max_rate'' else ''local_max_rate'')\<rparr>))
        (aseq (vsf_banner_dir_changed t FTP_LOGINOK) (cmdio_write FTP_LOGINOK ''Login successful.''))))))"

definition process_post_login :: "nat \<Rightarrow> nat \<Rightarrow> tunables \<Rightarrow> unit act" where
  "process_post_login k n t = aseq (post_login_start t) (post_login_loop k n t)"

end
