(* ===== verification/Session_Inv.thy ===== *)
theory Session_Inv
  imports Postlogin
begin

text \<open>
  What holds throughout a session after the login: which system calls its configuration allows (\<open>call_ok\<close>), and
  the invariant of its state (\<open>inv\<close>). The invariant has three parameters for the stages of a command: whether a mode
  for data connections is known to be active, whether a data connection is open, and whether an entry of
  the log is open. Every handler is shown to lead from the state between commands back to it, in a logic of
  triples (\<open>runs\<close>) whose rules follow the structure of the handlers.
\<close>

section \<open>Which calls are allowed\<close>

text \<open>The name of a file is not matched by \<open>deny_file\<close>.\<close>

definition file_allowed :: "tunables \<Rightarrow> string \<Rightarrow> bool" where
  "file_allowed t p \<longleftrightarrow>
     (case tstr t ''deny_file'' of
        None \<Rightarrow> True
      | Some pat \<Rightarrow> \<not> (vsf_filename_passes_filter p pat \<or> found (t_locate_text p pat)))"

abbreviation may_create :: "tunables \<Rightarrow> bool \<Rightarrow> bool" where
  "may_create t A \<equiv> may_write t ''anon_upload_enable'' A \<or> may_write t ''anon_other_write_enable'' A"

text \<open>
  The policy for the system calls of a session of an anonymous user (\<open>A\<close>) or another, with a client on host \<open>H\<close>.
\<close>

fun call_ok :: "tunables \<Rightarrow> bool \<Rightarrow> string \<Rightarrow> call \<Rightarrow> bool" where
  "call_ok t A H (OpenFile p) \<longleftrightarrow> tbool t ''download_enable'' \<and> file_allowed t p"
| "call_ok t A H (Chdir p) \<longleftrightarrow> file_allowed t p"
| "call_ok t A H (CreateFile p) \<longleftrightarrow> may_create t A \<and> file_allowed t p"
| "call_ok t A H (CreateOrOpen p m) \<longleftrightarrow> may_write t ''anon_other_write_enable'' A \<and> file_allowed t p"
| "call_ok t A H (Ftruncate fd) \<longleftrightarrow> may_write t ''anon_other_write_enable'' A"
| "call_ok t A H (Mkdir p m) \<longleftrightarrow> may_write t ''anon_mkdir_write_enable'' A \<and> file_allowed t p"
| "call_ok t A H (Rmdir p) \<longleftrightarrow> may_write t ''anon_other_write_enable'' A \<and> file_allowed t p"
| "call_ok t A H (Unlink p) \<longleftrightarrow>
     (may_write t ''anon_other_write_enable'' A \<or> tbool t ''delete_failed_uploads'' \<and> may_create t A) \<and> file_allowed t p"
| "call_ok t A H (Rename p q) \<longleftrightarrow>
     may_write t ''anon_other_write_enable'' A \<and> p \<noteq> [] \<and> file_allowed t p \<and> file_allowed t q"
| "call_ok t A H (Chmod p m) \<longleftrightarrow>
     tbool t ''write_enable'' \<and> tbool t ''chmod_enable'' \<and> \<not> A \<and> file_allowed t p \<and> m \<le> 511"
| "call_ok t A H (Utime p m) \<longleftrightarrow> may_write t ''anon_other_write_enable'' A \<and> file_allowed t p"
| "call_ok t A H (Fchmod fd m) \<longleftrightarrow> A \<and> tbool t ''chown_uploads'' \<and> may_create t A"
| "call_ok t A H (Fchown fd u) \<longleftrightarrow> A \<and> tbool t ''chown_uploads'' \<and> may_create t A"
| "call_ok t A H (Opendir p) \<longleftrightarrow> tbool t ''dirlist_enable''"
| "call_ok t A H (Connect fd p) \<longleftrightarrow> host p = H \<and> port_of p \<ge> 1024"
| "call_ok t A H c \<longleftrightarrow> True"

section \<open>The invariant\<close>

definition sess_ok :: "string \<Rightarrow> vsf_session \<Rightarrow> bool" where
  "sess_ok H s \<longleftrightarrow> p_local_addr s \<noteq> AF_UNSPEC \<and> p_remote_addr s \<noteq> AF_UNSPEC \<and> host (p_remote_addr s) = H"

definition listening :: "tunables \<Rightarrow> world \<Rightarrow> bool" where
  "listening t w \<longleftrightarrow> pasv_listen_fd (sess (server t) w) \<noteq> -1"

definition active :: "tunables \<Rightarrow> world \<Rightarrow> bool" where
  "active t w \<longleftrightarrow> listening t w \<or> p_port_sockaddr (child w) \<noteq> None"

text \<open>The fields of a session that the invariant looks at.\<close>

definition texts_ok :: "tunables \<Rightarrow> bool \<Rightarrow> vsf_session \<Rightarrow> bool" where
  "texts_ok t A s \<longleftrightarrow>
     is_anonymous s = A \<and> NUL \<notin> set (ftp_arg_str s) \<and> NUL \<notin> set (home_str s) \<and>
     NUL \<notin> set (rnfr_filename_str s) \<and> (rnfr_filename_str s \<noteq> [] \<longrightarrow> file_allowed t (rnfr_filename_str s)) \<and>
     cstr (user_str s) \<noteq> [] \<and> cstr (remote_ip_str s) \<noteq> []"

definition base_ok :: "tunables \<Rightarrow> bool \<Rightarrow> string \<Rightarrow> world \<Rightarrow> bool" where
  "base_ok t A H w \<longleftrightarrow>
     list_all (call_ok t A H) (trace w) \<and> sess_ok H (child w) \<and> sess_ok H (parent w) \<and> texts_ok t A (child w) \<and>
     (s_deny_str w = [] \<or> tstr t ''deny_file'' = Some (s_deny_str w)) \<and>
     (\<forall>b xs. set (str_sort (os w) b xs) \<subseteq> set xs) \<and>
     (\<forall>p. p_port_sockaddr (child w) = Some p \<longrightarrow> p \<noteq> AF_UNSPEC) \<and>
     (p_port_sockaddr (child w) = None \<or> \<not> listening t w)"

text \<open>
  The stages: \<open>a\<close> demands an active mode, \<open>d\<close> is whether a data connection is open, and \<open>l\<close>, if given, whether the
  log is free (no entry is open).
\<close>

definition pre_inv :: "tunables \<Rightarrow> bool \<Rightarrow> string \<Rightarrow> bool \<Rightarrow> bool \<Rightarrow> bool option \<Rightarrow> world \<Rightarrow> bool" where
  "pre_inv t A H a d l w \<longleftrightarrow>
     base_ok t A H w \<and> (a \<longrightarrow> active t w) \<and> (data_fd (child w) \<noteq> -1 \<longleftrightarrow> d) \<and>
     (\<forall>b. l = Some b \<longrightarrow> (log_type (child w) = None \<longleftrightarrow> b))"

definition inv :: "tunables \<Rightarrow> bool \<Rightarrow> string \<Rightarrow> bool \<Rightarrow> bool \<Rightarrow> bool option \<Rightarrow> world \<Rightarrow> bool" where
  "inv t A H a d l w \<longleftrightarrow> pre_inv t A H a d l w \<and> idle w"

text \<open>How a session may end: by its own decision, with all its calls allowed, or out of fuel.\<close>

definition stopped :: "tunables \<Rightarrow> bool \<Rightarrow> string \<Rightarrow> fault \<Rightarrow> world \<Rightarrow> bool" where
  "stopped t A H e w \<longleftrightarrow> (benign e \<or> e = Hang) \<and> list_all (call_ok t A H) (trace w)"

lemmas inv_defs = inv_def pre_inv_def base_ok_def active_def listening_def

lemma inv_weaken: "inv t A H a d l w \<Longrightarrow> (b \<longrightarrow> a) \<Longrightarrow> (m = None \<or> m = l) \<Longrightarrow> inv t A H b d m w"
  by (auto simp: inv_def pre_inv_def)

lemma endable_inv [simp]: "endable (inv t A H a d l) (stopped t A H)" "endable (pre_inv t A H a d l) (stopped t A H)"
  by (auto simp: endable_def stopped_def inv_defs)

lemma reply_stable_inv [simp]: "reply_stable (inv t A H a d l)"
  unfolding reply_stable_def inv_defs chan_def
  by (cases "server t") simp_all

lemma pre_inv_stable [simp]: "chan_stable (pre_inv t A H a d l)" "close_stable (pre_inv t A H a d l)"
  unfolding chan_stable_def close_stable_def pre_inv_def base_ok_def active_def listening_def
  by (cases "server t"; simp)+

section \<open>Actions that keep every stage\<close>

lemma gives_bindk: "keeps I E m \<Longrightarrow> (\<And>x. gives I E (f x) G) \<Longrightarrow> gives I E (abind m f) G"
  by (rule gives_bind)

lemma perm_bits_le: "perm_bits m \<le> 511"
proof -
  have "perm_bits m = take_bit 9 m" by (simp add: perm_bits_def take_bit_eq_mask mask_eq_exp_minus_1)
  then show ?thesis using take_bit_nat_less_exp [of 9 m] by simp
qed

lemma alift_Inr [simp]: "alift (Inr x) = aret x"
  by (rule ext) (simp add: alift_def aret_def)

text \<open>
  The contract between an invariant and the wrappers of system calls: allowed calls keep it, and a state in it may
  end the session.
\<close>

locale stage =
  fixes t :: tunables and A :: bool and H :: string and I :: "world \<Rightarrow> bool"
  assumes keeps_call: "call_ok t A H c \<Longrightarrow> keeps I (stopped t A H) (sys c)"
    and may_end: "endable I (stopped t A H)"
begin

abbreviation K :: "'a act \<Rightarrow> bool" where "K \<equiv> keeps I (stopped t A H)"

lemma stop: "benign e \<Longrightarrow> gives I (stopped t A H) (astop e) F"
  by (rule gives_die [OF may_end])

lemma hang: "gives I (stopped t A H) (astop Hang) F"
  using may_end by (intro gives_stop) (force simp: endable_def stopped_def dest: spec [of _ "Exit 0"])

lemma dies: "call_ok t A H c \<Longrightarrow> gives I (stopped t A H) (die_if s bad c) (\<lambda>r. \<not> bad r)"
  unfolding die_if_def by (rule gives_bindk [OF keeps_call]) (auto intro: stop gives_ret)

lemma dies_keeps: "call_ok t A H c \<Longrightarrow> K (die_if s bad c)"
  by (rule gives_weaken [OF dies]) auto

lemma call_value: "call_ok t A H c \<Longrightarrow> K (abind (sys c) (\<lambda>r. aret (f r)))"
  by (rule gives_bindk [OF keeps_call]) (auto intro: gives_ret)

lemma died_value: "call_ok t A H c \<Longrightarrow> K (abind (die_if s bad c) (\<lambda>r. aret (f r)))"
  by (rule gives_bindk [OF dies_keeps]) (auto intro: gives_ret)

lemma calls:
  "K (vsf_sysutil_close fd)" "K (vsf_sysutil_fstat fd)" "K (vsf_sysutil_get_file_offset fd)" "K (vsf_sysutil_lseek_to fd pos)"
  "K (vsf_sysutil_dir_stat p_dir)" "K (vsf_sysutil_closedir p_dir)" "K (str_stat s)" "K vsf_sysutil_get_random_byte"
  "K (vsf_sysutil_listen fd)" "K (vsf_sysutil_accept_timeout fd)" "K (vsf_sysutil_bind fd addr)"
  "K (vsf_sysutil_lock_file_read fd)" "K (vsf_sysutil_lock_file_write fd)"
  "addr \<noteq> AF_UNSPEC \<Longrightarrow> K (vsf_sysutil_get_ipsock addr)"
  unfolding vsf_sysutil_close_def vsf_sysutil_fstat_def vsf_sysutil_get_file_offset_def vsf_sysutil_lseek_to_def
    vsf_sysutil_dir_stat_def vsf_sysutil_closedir_def str_stat_def vsf_sysutil_get_random_byte_def vsf_sysutil_listen_def
    vsf_sysutil_accept_timeout_def vsf_sysutil_bind_def vsf_sysutil_lock_file_read_def vsf_sysutil_lock_file_write_def
    vsf_sysutil_get_ipsock_def
  by (auto intro!: call_value died_value dies_keeps keeps_call stop)

lemma opendir: "tbool t ''dirlist_enable'' \<Longrightarrow> K (str_opendir s)"
  unfolding str_opendir_def by (rule call_value) simp

text \<open>Calls that name a file.\<close>

lemma file_calls:
  assumes "file_allowed t p" and "NUL \<notin> set p"
  shows "K (str_chdir p)" "tbool t ''download_enable'' \<Longrightarrow> K (str_open p)"
    "may_write t ''anon_mkdir_write_enable'' A \<Longrightarrow> K (str_mkdir p m)"
    "may_write t ''anon_other_write_enable'' A \<Longrightarrow> K (str_rmdir p)"
    "may_write t ''anon_other_write_enable'' A \<or> tbool t ''delete_failed_uploads'' \<and> may_create t A \<Longrightarrow> K (str_unlink p)"
    "may_create t A \<Longrightarrow> K (str_create p)"
    "may_write t ''anon_other_write_enable'' A \<Longrightarrow> K (str_create_append t p)"
    "tbool t ''write_enable'' \<Longrightarrow> tbool t ''chmod_enable'' \<Longrightarrow> \<not> A \<Longrightarrow> K (str_chmod p m)"
    "may_write t ''anon_other_write_enable'' A \<Longrightarrow> file_allowed t q \<Longrightarrow> NUL \<notin> set q \<Longrightarrow> q \<noteq> [] \<Longrightarrow> K (str_rename q p)"
  unfolding str_chdir_def str_open_def str_mkdir_def str_rmdir_def str_unlink_def str_create_def str_create_append_def
    str_chmod_def str_rename_def
  by (rule call_value; simp add: assms perm_bits_le)+

lemma fd_calls:
  "may_write t ''anon_other_write_enable'' A \<Longrightarrow> K (vsf_sysutil_ftruncate fd)"
  "A \<Longrightarrow> tbool t ''chown_uploads'' \<Longrightarrow> may_create t A \<Longrightarrow> K (vsf_sysutil_fchmod fd m)"
  "A \<Longrightarrow> tbool t ''chown_uploads'' \<Longrightarrow> may_create t A \<Longrightarrow> K (vsf_sysutil_fchown fd u)"
  unfolding vsf_sysutil_ftruncate_def vsf_sysutil_fchmod_def vsf_sysutil_fchown_def by (rule died_value; simp)+

lemma connect: "host p = H \<Longrightarrow> port_of p \<ge> 1024 \<Longrightarrow> K (vsf_sysutil_connect_timeout fd p)"
  unfolding vsf_sysutil_connect_timeout_def by (rule gives_if; (rule stop call_value)?; simp)

lemma getcwd: "gives I (stopped t A H) str_getcwd (\<lambda>d. NUL \<notin> set d)"
  unfolding str_getcwd_def
  by (rule gives_bindk [OF keeps_call]) (auto intro!: gives_ret split: option.splits)

lemma getpwnam: "gives I (stopped t A H) (str_getpwnam u) (\<lambda>r. \<forall>d. r = Some d \<longrightarrow> NUL \<notin> set d)"
  unfolding str_getpwnam_def
  by (rule gives_bindk [OF keeps_call]) (auto intro!: gives_ret)

end

interpretation full: stage t A H "inv t A H a d l" for t A H a d l
proof unfold_locales
  show "keeps (inv t A H a d l) (stopped t A H) (sys c)" if "call_ok t A H c" for c
    using that by (intro gives_sys) (cases "server t"; simp add: inv_defs chan_def)
qed simp

interpretation part: stage t A H "pre_inv t A H a d l" for t A H a d l
proof unfold_locales
  show "keeps (pre_inv t A H a d l) (stopped t A H) (sys c)" if "call_ok t A H c" for c
    using that by (intro gives_sys) (cases "server t"; simp add: inv_defs)
qed simp

section \<open>The privileged operations\<close>

lemma sess_okD: "pre_inv t A H a d l w \<Longrightarrow> sess_ok H (sess sd w)" "inv t A H a d l w \<Longrightarrow> sess_ok H (sess sd w)"
  by (cases sd; simp add: inv_def pre_inv_def base_ok_def)+

lemma gives_upd_sess:
  "(\<And>w. I w \<Longrightarrow> I (w\<lparr>child := f (child w)\<rparr>)) \<Longrightarrow> (\<And>w. I w \<Longrightarrow> I (w\<lparr>parent := f (parent w)\<rparr>)) \<Longrightarrow>
   keeps I E (upd_sess sd f)"
  by (cases sd) (auto simp: gives_def avalid_def upd_child_def)

lemma pre_inv_remote:
  assumes "q \<noteq> AF_UNSPEC" and "host q = H"
  shows "keeps (pre_inv t A H a d l) E (upd_sess sd (\<lambda>v. v\<lparr>p_remote_addr := q\<rparr>))"
  by (rule gives_upd_sess; cases "server t"; simp add: inv_defs sess_ok_def texts_ok_def assms)

lemma clone_port:
  assumes "p \<noteq> AF_UNSPEC"
  shows "\<exists>q. rbind (vsf_sysutil_sockaddr_clone p) (\<lambda>p. vsf_sysutil_sockaddr_set_port p n) = Inr q"
  using assms by (cases p) (simp_all add: vsf_sysutil_sockaddr_clone_def vsf_sysutil_sockaddr_set_port_def)

lemma p_port_bind:
  "keeps (pre_inv t A H a d l) (stopped t A H) (port_bind_loop n sd s port)"
proof (induction n)
  case (Suc n)
  have "keeps (pre_inv t A H a d l) (stopped t A H) (alift (rbind (vsf_sysutil_sockaddr_clone (p_local_addr (sess sd w)))
      (\<lambda>p. vsf_sysutil_sockaddr_set_port p (port mod 65536))))" if "pre_inv t A H a d l w" for w
    using clone_port [of "p_local_addr (sess sd w)" "port mod 65536"] sess_okD(1) [OF that, of sd]
    by (intro gives_lift) (auto simp: sess_ok_def)
  then show ?case
    by (auto intro!: gives_with gives_bindk [OF part.calls(11)] gives_bindk [OF part.calls(8)] gives_bindk part.stop
        gives_ret Suc)
qed (simp add: gives_ret)

lemma p_get_port_sock:
  "keeps (pre_inv t A H a d l) (stopped t A H) (vsf_privop_get_ftp_port_sock t sd port)"
  unfolding vsf_privop_get_ftp_port_sock_def
proof (rule gives_with)
  fix w assume "pre_inv t A H a d l w"
  then have s: "sess_ok H (sess sd w)" by (rule sess_okD)
  let ?G = "gives (pre_inv t A H a d l) (stopped t A H)"
  let ?set = "vsf_sysutil_sockaddr_set_port (p_remote_addr (sess sd w)) port"
  obtain q where q: "?set = Inr q" "q \<noteq> AF_UNSPEC" "host q = H" "port_of q = port"
    using s set_port_keeps [of "p_remote_addr (sess sd w)" port]
    by (cases "p_remote_addr (sess sd w)") (auto simp: sess_ok_def vsf_sysutil_sockaddr_set_port_def)
  have conn: "?G (vsf_sysutil_connect_timeout fd q) (\<lambda>_. True)" if "\<not> vsf_sysutil_is_port_reserved port" for fd
    using that q by (intro part.connect) (simp_all add: vsf_sysutil_is_port_reserved_def IPPORT_RESERVED_def)
  show "?G (abind (vsf_sysutil_get_ipsock (p_local_addr (sess sd w))) (\<lambda>fd.
     if vsf_sysutil_is_port_reserved port then astop (Die ''Illegal port request'')
     else
       aseq (port_bind_loop 2 sd fd (if tbool t ''connect_from_port_20'' then tuint t ''ftp_data_port'' else 0))
       (abind (alift ?set) (\<lambda>p_remote.
        aseq (upd_sess sd (\<lambda>v. v\<lparr>p_remote_addr := p_remote\<rparr>))
        (abind (vsf_sysutil_connect_timeout fd p_remote) (\<lambda>retval.
           if retval < 0 then aseq (vsf_sysutil_close fd) (aret (-1)) else aret fd)))))) (\<lambda>_. True)"
    unfolding q(1) alift_Inr abind_aret
    by (intro gives_bindk gives_if gives_seq part.calls part.stop p_port_bind pre_inv_remote conn q gives_ret)
      (use s in \<open>auto simp: sess_ok_def\<close>)
qed

text \<open>The contract also holds for the invariant with a condition that does not look at the calls.\<close>

definition call_free :: "(world \<Rightarrow> bool) \<Rightarrow> bool" where
  "call_free Q \<longleftrightarrow> (\<forall>w c. Q w \<longrightarrow> Q (w\<lparr>trace := trace w @ [c]\<rparr>))"

definition with_cond :: "(world \<Rightarrow> bool) \<Rightarrow> (world \<Rightarrow> bool) \<Rightarrow> world \<Rightarrow> bool" where
  "with_cond I Q w \<longleftrightarrow> I w \<and> (call_free Q \<longrightarrow> Q w)"

lemma with_cond_iff [simp]: "call_free Q \<Longrightarrow> with_cond I Q w \<longleftrightarrow> I w \<and> Q w"
  by (simp add: with_cond_def)

interpretation cond: stage t A H "with_cond (pre_inv t A H a d l) Q" for t A H a d l Q
proof unfold_locales
  show "keeps (with_cond (pre_inv t A H a d l) Q) (stopped t A H) (sys c)" if "call_ok t A H c" for c
    using that by (intro gives_sys) (cases "server t"; simp add: with_cond_def inv_defs call_free_def)
  show "endable (with_cond (pre_inv t A H a d l) Q) (stopped t A H)"
    using endable_inv(2) [of t A H a d l] unfolding endable_def with_cond_def by blast
qed

lemma c_pasv_bind:
  "keeps (with_cond (pre_inv t A H a d l) Q) (stopped t A H) (pasv_bind_loop n t sd)"
proof (induction n)
  case (Suc n)
  let ?G = "keeps (with_cond (pre_inv t A H a d l) Q) (stopped t A H)"
  have lift: "?G (alift (rbind (vsf_sysutil_sockaddr_clone (p_local_addr (sess sd w)))
      (\<lambda>p. vsf_sysutil_sockaddr_set_port p port)))" if "with_cond (pre_inv t A H a d l) Q w" for w port
    using clone_port [of "p_local_addr (sess sd w)" port] sess_okD(1) [of t A H a d l w sd] that
    by (intro gives_lift) (auto simp: sess_ok_def with_cond_def)
  show ?case unfolding pasv_bind_loop.simps Let_def
    by (intro gives_bindk gives_with gives_if cond.calls cond.stop Suc gives_ret lift) simp_all
qed (simp add: cond.stop)

lemma call_free_unmoded [simp]: "call_free (\<lambda>w. p_port_sockaddr (child w) = None)"
  by (simp add: call_free_def)

lemma k_listen:
  "avalid (\<lambda>w. inv t A H False d l w \<and> p_port_sockaddr (child w) = None) (pasv_listen t) (\<lambda>_. inv t A H False d l)
     (stopped t A H)"
proof -
  let ?P = "with_cond (pre_inv t A H False d l) (\<lambda>w. p_port_sockaddr (child w) = None)"
  have upd: "keeps ?P (stopped t A H) (upd_sess (server t) (\<lambda>v. v\<lparr>pasv_listen_fd := fd\<rparr>))" for fd
    by (rule gives_upd_sess; cases "server t"; simp add: inv_defs sess_ok_def texts_ok_def)
  have "keeps ?P (stopped t A H) (vsf_privop_pasv_listen t (server t))"
    unfolding vsf_privop_pasv_listen_def
    by (intro gives_with gives_bindk gives_seq cond.dies_keeps upd c_pasv_bind) simp
  moreover have "chan_stable ?P" "close_stable ?P"
    unfolding chan_stable_def close_stable_def with_cond_def pre_inv_def base_ok_def active_def listening_def
    by (cases "server t"; simp)+
  ultimately have "keeps (\<lambda>w. ?P w \<and> idle w) (stopped t A H) (pasv_listen t)"
    by (intro listen_svc.keeps_inv cond.may_end)
  then show ?thesis unfolding gives_def
    by (rule avalid_pre [OF avalid_post]) (auto simp: inv_def)
qed

lemma k_query:
  assumes "chan_stable R" and "close_stable R"
  shows "avalid (\<lambda>w. inv t A H a d l w \<and> R w) (pasv_query t) (\<lambda>b w. inv t A H a d l w \<and> R w \<and> (b \<longleftrightarrow> listening t w))
     (stopped t A H)"
proof -
  let ?P = "\<lambda>w. pre_inv t A H a d l w \<and> R w"
  let ?Q = "\<lambda>b w. (pre_inv t A H a d l w \<and> R w) \<and> (b \<longleftrightarrow> listening t w)"
  have li: "chan_stable (\<lambda>w. b \<longleftrightarrow> listening t w)" "close_stable (\<lambda>w. b \<longleftrightarrow> listening t w)" for b
    unfolding chan_stable_def close_stable_def listening_def by (cases "server t"; simp)+
  have st: "chan_stable ?P" "close_stable ?P" "chan_stable (?Q b)" "close_stable (?Q b)" for b
    using assms pre_inv_stable [of t A H a d l] li [of b] by (simp_all add: chan_stable_def close_stable_def)
  have en: "endable ?P (stopped t A H)" "endable (?Q b) (stopped t A H)" for b
    using endable_inv(2) [of t A H a d l] unfolding endable_def by blast+
  have "avalid ?P (vsf_privop_pasv_active (server t)) ?Q (stopped t A H)"
    by (auto simp: avalid_def vsf_privop_pasv_active_def awith_def aret_def listening_def)
  then have "avalid (\<lambda>w. ?P w \<and> idle w) (pasv_query t) (\<lambda>b w. ?Q b w \<and> idle w) (stopped t A H)"
    by (intro query_svc.transfer st en)
  then show ?thesis by (rule avalid_pre [OF avalid_post]) (auto simp: inv_def)
qed

lemma k_cleanup:
  "avalid (\<lambda>w. inv t A H False d l w \<and> (c \<longrightarrow> p_port_sockaddr (child w) = None)) (pasv_cleanup t)
     (\<lambda>_ w. inv t A H False d l w \<and> (c \<longrightarrow> p_port_sockaddr (child w) = None) \<and> \<not> listening t w) (stopped t A H)"
proof -
  let ?C = "\<lambda>w. c \<longrightarrow> p_port_sockaddr (child w) = None"
  let ?P = "with_cond (pre_inv t A H False d l) ?C" and ?Q = "\<lambda>_ :: unit. \<lambda>w. with_cond (pre_inv t A H False d l) ?C w \<and> \<not> listening t w"
  have cf [simp]: "call_free ?C" by (simp add: call_free_def)
  have st: "chan_stable ?P" "close_stable ?P" "chan_stable (?Q u)" "close_stable (?Q u)" for u
    unfolding chan_stable_def close_stable_def with_cond_def pre_inv_def base_ok_def active_def listening_def
    by (cases "server t"; simp)+
  have en: "endable (?Q u) (stopped t A H)" for u
    using cond.may_end [of t A H False d l ?C] unfolding endable_def by blast
  have upd: "avalid ?P (upd_sess (server t) (\<lambda>v. v\<lparr>pasv_listen_fd := -1\<rparr>)) ?Q (stopped t A H)"
    by (cases "server t") (simp_all add: avalid_def upd_child_def inv_defs sess_ok_def texts_ok_def)
  have "avalid ?P (vsf_sysutil_close fd) (\<lambda>_. ?P) (stopped t A H)" for fd
    using cond.calls(1) [of t A H False d l ?C fd] unfolding gives_def by (rule avalid_post) simp
  then have cl: "avalid ?P (aseq (vsf_sysutil_close fd) (upd_sess (server t) (\<lambda>v. v\<lparr>pasv_listen_fd := -1\<rparr>))) ?Q (stopped t A H)" for fd
    by (rule avalid_aseq [OF _ upd])
  have "avalid ?P (vsf_privop_pasv_cleanup (server t)) ?Q (stopped t A H)"
    unfolding vsf_privop_pasv_cleanup_def
  proof (rule avalid_awith)
    fix w assume P: "?P w"
    show "avalid (\<lambda>v. v = w) (if pasv_listen_fd (sess (server t) w) \<noteq> -1
        then aseq (vsf_sysutil_close (pasv_listen_fd (sess (server t) w))) (upd_sess (server t) (\<lambda>v. v\<lparr>pasv_listen_fd := -1\<rparr>))
        else aret ()) ?Q (stopped t A H)"
      by (rule avalid_if; (rule avalid_pre [OF cl] avalid_aret)?) (use P in \<open>auto simp: listening_def\<close>)
  qed
  then have "avalid (\<lambda>w. ?P w \<and> idle w) (pasv_cleanup t) (\<lambda>u w. ?Q u w \<and> idle w) (stopped t A H)"
    by (intro cleanup_svc.transfer st en cond.may_end)
  then show ?thesis by (rule avalid_pre [OF avalid_post]) (auto simp: inv_def)
qed

lemma k_accept: "gives (inv t A H a d l) (stopped t A H) (get_pasv_fd t) (\<lambda>fd. fd = -1 \<or> fd = -2 \<or> 0 \<le> fd)"
proof -
  have "keeps (pre_inv t A H a d l) (stopped t A H) (vsf_privop_accept_pasv t (server t))"
    unfolding vsf_privop_accept_pasv_def
    by (intro gives_with gives_bindk part.calls)
      (auto split: prod.splits intro!: gives_ret gives_seq part.calls)
  then have "gives (pre_inv t A H a d l) (stopped t A H) (vsf_privop_accept_pasv t (server t)) (\<lambda>fd. fd = -1 \<or> fd = -2 \<or> 0 \<le> fd)"
    using accept_values [of t "server t"] unfolding gives_def avalid_def returns_def
    by (auto split: prod.splits sum.splits) blast
  then have "gives (\<lambda>w. pre_inv t A H a d l w \<and> idle w) (stopped t A H) (get_pasv_fd t) (\<lambda>fd. fd = -1 \<or> fd = -2 \<or> 0 \<le> fd)"
    by (intro accept_svc.keeps_inv) simp_all
  then show ?thesis unfolding gives_def by (rule avalid_pre [OF avalid_post]) (auto simp: inv_def)
qed

text \<open>A session in either process model: the port of the client is in the session of the child.\<close>

lemma framed_keeps:
  assumes "framed m" and "avalid P m Q E"
  shows "avalid (\<lambda>w. P w \<and> idle w) m (\<lambda>x w. Q x w \<and> idle w) E"
  using serves_self [OF assms(1)] assms unfolding avalid_def framed_def
  by (auto split: prod.splits sum.splits) (metis snd_conv)+

lemma port_sock_valid:
  "avalid (pre_inv t A H a d l) (vsf_privop_get_ftp_port_sock t sd port)
     (\<lambda>fd w. pre_inv t A H a d l w \<and> (fd = -1 \<or> 0 \<le> fd)) (stopped t A H)"
  using p_get_port_sock [of t A H a d l sd port] port_sock_values [of t sd port]
  unfolding gives_def avalid_def returns_def by (auto split: prod.splits sum.splits) blast

lemma k_port_fd:
  "avalid (\<lambda>w. inv t A H a d l w \<and> p_port_sockaddr (child w) \<noteq> None) (get_port_fd t)
     (\<lambda>fd w. inv t A H a d l w \<and> (fd = -1 \<or> 0 \<le> fd)) (stopped t A H)"
proof -
  let ?P = "\<lambda>w. pre_inv t A H a d l w \<and> p_port_sockaddr (child w) \<noteq> None"
  let ?Q = "\<lambda>fd :: int. \<lambda>w. pre_inv t A H a d l w \<and> (fd = -1 \<or> 0 \<le> fd)"
  have named: "port_named w" if "?P w" for w
    using that by (auto simp: port_named_def pre_inv_def base_ok_def)
  have st: "chan_stable ?P" "chan_stable (?Q fd)" "close_stable (?Q fd)" for fd
    unfolding chan_stable_def close_stable_def pre_inv_def base_ok_def active_def listening_def
    by (cases "server t"; simp)+
  have en: "endable ?P (stopped t A H)" "endable (?Q fd) (stopped t A H)" for fd
    using endable_inv(2) [of t A H a d l] unfolding endable_def by blast+
  have sock: "avalid ?P (vsf_privop_get_ftp_port_sock t sd port) ?Q (stopped t A H)" for sd port
    by (rule avalid_pre [OF port_sock_valid]) simp
  have "framed (vsf_one_process_get_priv_data_sock t)"
    unfolding vsf_one_process_get_priv_data_sock_def port_wanted_def
    by (auto intro!: framed_bind framed_with split: option.splits)
  moreover have "avalid ?P (vsf_one_process_get_priv_data_sock t) ?Q (stopped t A H)"
    unfolding vsf_one_process_get_priv_data_sock_def
    by (rule avalid_abind [OF port_wanted_keeps sock]) (rule named)
  ultimately have one: "avalid (\<lambda>w. ?P w \<and> idle w) (vsf_one_process_get_priv_data_sock t) (\<lambda>fd w. ?Q fd w \<and> idle w) (stopped t A H)"
    by (rule framed_keeps)
  have two: "avalid (\<lambda>w. ?P w \<and> idle w) (vsf_two_process_get_priv_data_sock t) (\<lambda>fd w. ?Q fd w \<and> idle w) (stopped t A H)"
    using serves_port [OF st(1) en(1) st(2) en(2) st(3) sock named] by (simp add: under_def [abs_def])
  have "avalid (\<lambda>w. ?P w \<and> idle w) (get_port_fd t) (\<lambda>fd w. ?Q fd w \<and> idle w) (stopped t A H)"
    unfolding get_port_fd_def by (rule avalid_if) (rule one two)+
  then show ?thesis by (rule avalid_pre [OF avalid_post]) (auto simp: inv_def)
qed

lemma k_chown:
  assumes "A" and "tbool t ''chown_uploads''" and "may_create t A"
  shows "keeps (inv t A H a d l) (stopped t A H) (chown_upload t fd)"
proof -
  let ?P = "pre_inv t A H a d l"
  have ch: "avalid ?P (vsf_privop_do_file_chown sd fd) (\<lambda>_. ?P) (stopped t A H)" for sd
  proof -
    have "keeps ?P (stopped t A H) (vsf_privop_do_file_chown sd fd)"
      unfolding vsf_privop_do_file_chown_def Let_def
      by (intro gives_bindk gives_with gives_if part.calls part.stop part.fd_calls gives_ret) (use assms in simp_all)
    then show ?thesis unfolding gives_def by (rule avalid_post) simp
  qed
  have en: "endable ?P (stopped t A H)" by simp
  have two: "avalid (\<lambda>w. ?P w \<and> idle w) (vsf_two_process_chown_upload t fd) (\<lambda>_ w. ?P w \<and> idle w) (stopped t A H)"
    using serves_chown [OF assms(2), of fd, unfolded serves_def, rule_format, of ?P "\<lambda>_. ?P" "stopped t A H"] ch en
    by (simp add: under_def [abs_def])
  have "avalid (\<lambda>w. ?P w \<and> idle w) (chown_upload t fd) (\<lambda>_ w. ?P w \<and> idle w) (stopped t A H)"
    unfolding chown_upload_def by (rule avalid_if) (rule framed_keeps [OF _ ch] two; simp)+
  then show ?thesis unfolding gives_def by (rule avalid_pre [OF avalid_post]) (auto simp: inv_def)
qed

section \<open>Modes and data connections\<close>

abbreviation valid :: "tunables \<Rightarrow> bool \<Rightarrow> string \<Rightarrow> (world \<Rightarrow> bool) \<Rightarrow> 'a act \<Rightarrow> ('a \<Rightarrow> world \<Rightarrow> bool) \<Rightarrow> bool" where
  "valid t A H P m Q \<equiv> avalid P m Q (stopped t A H)"

lemma mode_stable [simp]:
  "chan_stable (\<lambda>_. True)" "close_stable (\<lambda>_. True)" "chan_stable (\<lambda>w. \<not> listening t w \<and> P (p_port_sockaddr (child w)))"
  "close_stable (\<lambda>w. \<not> listening t w \<and> P (p_port_sockaddr (child w)))"
  unfolding chan_stable_def close_stable_def listening_def by (cases "server t"; simp)+

lemma v_pasv_active:
  assumes "chan_stable R" and "close_stable R"
  shows "valid t A H (\<lambda>w. inv t A H a d l w \<and> R w) (pasv_active (Suc (Suc n)) t)
    (\<lambda>b w. inv t A H a d l w \<and> R w \<and> (b \<longleftrightarrow> listening t w))"
proof -
  have "valid t A H (\<lambda>w. inv t A H a d l w \<and> R w \<and> listening t w) (port_active (Suc n) t)
      (\<lambda>b w. \<not> b \<and> inv t A H a d l w \<and> R w \<and> listening t w)"
    unfolding port_active.simps
    by (rule avalid_awith) (auto simp: avalid_def aret_def inv_def pre_inv_def base_ok_def)
  then have "valid t A H (\<lambda>w. inv t A H a d l w \<and> R w \<and> listening t w)
      (abind (port_active (Suc n) t) (\<lambda>b. if b then astop (Bug ''pasv and port both active'') else aret True))
      (\<lambda>b w. inv t A H a d l w \<and> R w \<and> (b \<longleftrightarrow> listening t w))"
    by (rule avalid_abind) (auto simp: avalid_def aret_def)
  then show ?thesis unfolding pasv_active.simps(2)
    by (intro avalid_abind [OF k_query [OF assms]]) (auto simp: avalid_def aret_def split: if_splits)
qed

lemma v_port_active:
  "valid t A H (\<lambda>w. inv t A H a d l w \<and> \<not> listening t w) (port_active (Suc (Suc n)) t)
     (\<lambda>b w. inv t A H a d l w \<and> \<not> listening t w \<and> (b \<longleftrightarrow> p_port_sockaddr (child w) \<noteq> None))"
proof -
  let ?R = "\<lambda>w. \<not> listening t w \<and> p_port_sockaddr (child w) \<noteq> None"
  have "valid t A H (\<lambda>w. inv t A H a d l w \<and> ?R w) (pasv_active (Suc n) t) (\<lambda>b w. \<not> b \<and> inv t A H a d l w \<and> ?R w)"
    unfolding pasv_active.simps(2)
    by (intro avalid_abind [OF k_query [OF mode_stable(3,4) [where P = "\<lambda>p. p \<noteq> None"]]])
      (auto simp: avalid_def aret_def split: if_splits)
  then have "valid t A H (\<lambda>w. inv t A H a d l w \<and> ?R w)
      (abind (pasv_active (Suc n) t) (\<lambda>b. if b then astop (Bug ''port and pasv both active'') else aret True))
      (\<lambda>b w. inv t A H a d l w \<and> \<not> listening t w \<and> (b \<longleftrightarrow> p_port_sockaddr (child w) \<noteq> None))"
    by (rule avalid_abind) (auto simp: avalid_def aret_def)
  then show ?thesis unfolding port_active.simps(2)
    by (intro avalid_awith) (auto simp: avalid_def aret_def split: prod.splits sum.splits)
qed

text \<open>Replies and updates of the fields that the invariant does not look at.\<close>

lemmas k_reply = gives_replies [OF reply_stable_inv endable_inv(1)]

lemma k_emit: "(\<And>ks e. wr ks = Inl e \<Longrightarrow> benign e) \<Longrightarrow> keeps (inv t A H a d l) (stopped t A H) (emit wr)"
  by (rule gives_emit [OF reply_stable_inv endable_inv(1)])

lemma k_upd:
  assumes "\<And>s. texts_ok t A s \<Longrightarrow> texts_ok t A (f s)" and "\<And>s. sess_ok H s \<Longrightarrow> sess_ok H (f s)"
    and "\<And>s. p_port_sockaddr (f s) = p_port_sockaddr s \<and> pasv_listen_fd (f s) = pasv_listen_fd s \<and> data_fd (f s) = data_fd s \<and>
      log_type (f s) = log_type s"
  shows "keeps (inv t A H a d l) E (upd_child f)"
  using assms by (intro gives_upd) (cases "server t"; simp add: inv_defs chan_def)

lemma k_fields:
  "keeps (inv t A H a d l) E (upd_child (\<lambda>s. s\<lparr>abor_received := b\<rparr>))"
  "keeps (inv t A H a d l) E (upd_child (\<lambda>s. s\<lparr>restart_pos := v\<rparr>))"
  "keeps (inv t A H a d l) E (upd_child (\<lambda>s. s\<lparr>transfer_size := v\<rparr>))"
  "keeps (inv t A H a d l) E (upd_child (\<lambda>s. s\<lparr>is_ascii := b\<rparr>))"
  "keeps (inv t A H a d l) E (upd_child (\<lambda>s. s\<lparr>epsv_all := b\<rparr>))"
  "keeps (inv t A H a d l) E (upd_child (\<lambda>s. s\<lparr>log_str := x\<rparr>))"
  "keeps (inv t A H a d l) E (upd_child (\<lambda>s. s\<lparr>log_str := log_str s @ x\<rparr>))"
  "keeps (inv t A H a d l) E (upd_child (\<lambda>s. s\<lparr>rnfr_filename_str := []\<rparr>))"
  "keeps (inv t A H a d l) E (upd_child (\<lambda>s. s\<lparr>bw_rate_max := n\<rparr>))"
  "keeps (inv t A H a d l) E (upd_child (\<lambda>s. s\<lparr>p_visited_dir_list := p_visited_dir_list s @ [x]\<rparr>))"
  "NUL \<notin> set x \<Longrightarrow> keeps (inv t A H a d l) E (upd_child (\<lambda>s. s\<lparr>ftp_arg_str := x\<rparr>))"
  "NUL \<notin> set x \<Longrightarrow> keeps (inv t A H a d l) E (upd_child (\<lambda>s. s\<lparr>home_str := x\<rparr>))"
  "NUL \<notin> set x \<Longrightarrow> file_allowed t x \<Longrightarrow> keeps (inv t A H a d l) E (upd_child (\<lambda>s. s\<lparr>rnfr_filename_str := x\<rparr>))"
  by (rule k_upd; simp add: texts_ok_def sess_ok_def)+

lemma k_umask: "keeps (inv t A H a d l) (stopped t A H) (vsf_sysutil_set_umask m)"
proof -
  have "keeps (inv t A H a d l) (stopped t A H) (\<lambda>w. (Inr (), w\<lparr>s_current_umask := v\<rparr>))" for v
    by (cases "server t") (simp_all add: gives_def avalid_def inv_defs chan_def)
  then show ?thesis unfolding vsf_sysutil_set_umask_def by (intro gives_bindk full.keeps_call) simp_all
qed

lemma k_port_cleanup: "keeps (inv t A H False d l) (stopped t A H) port_cleanup"
  unfolding port_cleanup_def
  by (rule gives_upd) (cases "server t"; simp add: inv_defs chan_def texts_ok_def sess_ok_def)

lemma k_pasv_cleanup: "keeps (inv t A H False d l) (stopped t A H) (pasv_cleanup t)"
  using k_cleanup [of t A H d l False] unfolding gives_def by (auto elim: avalid_post)

lemma k_data_cleanup: "keeps (inv t A H False d l) (stopped t A H) (data_cleanup t)"
  unfolding data_cleanup_def by (intro gives_seq k_port_cleanup k_pasv_cleanup)

lemma k_check_abor: "keeps (inv t A H a d l) (stopped t A H) check_abor"
  unfolding check_abor_def by (intro gives_with gives_if gives_seq k_fields k_reply gives_ret) simp

text \<open>Urgent commands and transfers.\<close>

lemma k_async: "keeps (inv t A H a d l) (stopped t A H) (get_async_cmd t)"
  unfolding get_async_cmd_def gives_def avalid_def
  by (cases "server t"; auto simp: inv_defs chan_def stopped_def dest: get_cmd_benign split: sum.splits prod.splits)

lemma k_sigurg: "keeps (inv t A H a d l) (stopped t A H) (handle_sigurg t)"
  unfolding handle_sigurg_def Let_def
  by (intro gives_with gives_if gives_bindk gives_seq k_async k_fields full.keeps_call k_reply gives_ret) simp_all

lemma k_signals: "keeps (inv t A H a d l) (stopped t A H) (signals_of t r)"
proof -
  have "keeps (inv t A H a d l) (stopped t A H) (urgent_signals t n)" for n
    by (induction n) (auto intro!: gives_seq k_sigurg gives_ret)
  then show ?thesis unfolding signals_of_def by (auto intro: gives_ret)
qed

end
