(* ===== verification/Session_Policy.thy ===== *)
theory Session_Policy
  imports Session_Inv
begin

text \<open>
  The handlers of \<^verbatim>\<open>postlogin.c\<close> under the invariant of \<open>Session_Inv\<close>: what a session after the login does to
  files, to other hosts and to its own state, whatever the client sends and the operating system answers.
\<close>

section \<open>Transfers\<close>

lemma k_lift: "(\<And>e. r = Inl e \<Longrightarrow> benign e \<or> e = Hang) \<Longrightarrow> keeps (inv t A H a d l) (stopped t A H) (alift r)"
  by (rule gives_lift) (auto simp: stopped_def inv_defs)

lemma get_chunk_size_le: "get_chunk_size n \<le> VSFTP_DATA_BUFSIZE"
  by (simp add: get_chunk_size_def VSFTP_DATA_BUFSIZE_def)

lemma fitting_reads: "fitting (map (map_option (take (get_chunk_size n))) rs)"
  using get_chunk_size_le [of n] by (auto simp: fitting_def map_option_case min_le_iff_disj split: option.splits)

lemma k_pump:
  assumes "\<And>rs ks. fitting rs \<Longrightarrow> \<exists>x. loop rs ks = Inr x"
  shows "keeps (inv t A H a d l) (stopped t A H) (pump t from_fd to_fd loop)"
proof -
  have "\<exists>x. loop (map (map_option (take (get_chunk_size n))) rs) ks = Inr x" for n rs ks
    by (rule assms [OF fitting_reads])
  then have lf: "keeps (inv t A H a d l) (stopped t A H) (alift (loop (map (map_option (take (get_chunk_size n))) rs) ks))" for n rs ks
    by (intro k_lift) (metis Inl_Inr_False)
  show ?thesis unfolding pump_def
    by (intro gives_bindk full.keeps_call lf) (auto intro!: gives_bindk full.keeps_call gives_seq k_signals gives_ret)
qed

lemma k_sendfile: "keeps (inv t A H a d l) (stopped t A H) (vsf_sysutil_sendfile out_fd in_fd offset num max_chunk)"
proof -
  have "keeps (inv t A H a d l) (stopped t A H) (sendfile_loop n out_fd in_fd off k m)" if "nat k \<le> n" for n off k m
    using that
  proof (induction n arbitrary: off k)
    case (Suc n)
    have "keeps (inv t A H a d l) (stopped t A H) (sendfile_loop n out_fd in_fd (off + x) (k - x) m)" if "\<not> x \<le> 0" for x
      by (rule Suc.IH) (use that Suc.prems in simp)
    then show ?case
      by (subst sendfile_loop.simps)
        (auto intro!: gives_ret gives_seq gives_bindk full.calls full.keeps_call)
  qed (subst sendfile_loop.simps, simp add: gives_ret)
  then show ?thesis unfolding vsf_sysutil_sendfile_def by (auto intro: full.stop)
qed

lemma k_transfer_file:
  "keeps (inv t A H a d l) (stopped t A H) (vsf_ftpdataio_transfer_file t remote_fd file_fd is_recv is_asc)"
proof -
  have "keeps (inv t A H a d l) (stopped t A H) (alift (calc_num_send x y))" for x y
    by (rule k_lift) (auto simp: calc_num_send_def split: if_splits)
  moreover have "\<exists>x. do_file_send_rwloop is_asc rs ks = Inr x" if "fitting rs" for rs ks
    unfolding do_file_send_rwloop_def by (rule send_rounds_total [OF that])
  ultimately show ?thesis unfolding vsf_ftpdataio_transfer_file_def
    by (auto intro!: gives_with gives_if k_pump do_file_recv_total gives_bindk gives_seq full.calls full.keeps_call
        k_sendfile k_signals gives_ret)
qed

lemma k_write_to:
  assumes "\<And>ks e. wr ks = Inl e \<Longrightarrow> benign e"
  shows "keeps (inv t A H a d l) (stopped t A H) (ftp_write_to t c wr)"
proof (cases c)
  case True
  have "keeps (inv t A H a d l) (stopped t A H) (\<lambda>w. case wr (ctl_out w) of
      Inl e \<Rightarrow> (Inl e, w) | Inr (ret, b, ks) \<Rightarrow> (Inr ret, w\<lparr>sent := sent w @ b, ctl_out := ks\<rparr>))"
    using assms reply_stable_inv [of t A H a d l] endable_inv(1) [of t A H a d l]
    by (auto simp: gives_def avalid_def reply_stable_def endable_def split: sum.splits)
  then show ?thesis using True by (simp add: ftp_write_to_def)
next
  case False
  have lf: "keeps (inv t A H a d l) (stopped t A H) (alift (wr ks))" for ks by (rule k_lift) (use assms in blast)
  show ?thesis using False unfolding ftp_write_to_def
    by (auto intro!: gives_with gives_bindk full.keeps_call lf gives_seq k_signals gives_ret)
qed

section \<open>Directory listings\<close>

lemma shown_has_stat:
  "e \<in> set (fst (ls_loop t db opts p_filter acc ds)) \<Longrightarrow> do_stat opts \<Longrightarrow> d_lstat e \<noteq> None"
  by (induction ds arbitrary: acc) (auto simp: Let_def entry_shown_def split_beta split: if_splits)

lemma listing_lines_nonempty:
  assumes "\<And>b xs. set (srt b xs) \<subseteq> set xs" and "x \<in> set (fst (vsf_ls_populate_dir_list srt t db acc sub ds base opt f verbose))"
  shows "fst x \<noteq> []"
proof -
  let ?o = "ls_options_of sub base opt f verbose"
  obtain e where e: "e \<in> set (fst (ls_loop t db ?o f acc ds))" "x = dir_entry t db ?o e"
    using assms by (auto simp: vsf_ls_populate_dir_list_def Let_def split_beta dest!: subsetD [OF assms(1)])
  have "is_verbose ?o \<Longrightarrow> d_lstat e \<noteq> None"
    by (rule shown_has_stat [OF e(1)]) (auto simp: ls_options_of_def Let_def)
  then show ?thesis by (auto simp: e(2) dir_entry_def dir_line_def Let_def build_dir_line_def split: option.splits)
qed

lemma k_subdirs:
  assumes "\<And>fd base. keeps (inv t A H a d l) (stopped t A H) (f fd base)" and "tbool t ''dirlist_enable''"
  shows "keeps (inv t A H a d l) (stopped t A H) (subdir_loop t c f base ds)"
proof (induction ds)
  case (Cons x ds)
  show ?case unfolding subdir_loop.simps
    by (intro gives_if gives_bindk gives_seq Cons full.opendir assms k_write_to full.calls gives_ret TrueI)
      (auto dest: netfd_write_benign)
qed (simp add: gives_ret)

lemma inv_set_hide: "keeps (inv t A H a d l) E (set_hide_str acc)"
  unfolding set_hide_str_def gives_def avalid_def by (cases "server t") (simp_all add: inv_defs chan_def)

lemma k_transfer_dir:
  assumes "tbool t ''dirlist_enable''"
  shows "keeps (inv t A H a d l) (stopped t A H) (vsf_ftpdataio_transfer_dir n t c p_dir base opt f verbose)"
proof -
  have "keeps (inv t A H a d l) (stopped t A H) (transfer_dir_internal n t c opt f verbose p_dir base)" for p_dir base
  proof (induction n arbitrary: p_dir base)
    case (Suc n)
    let ?K = "keeps (inv t A H a d l) (stopped t A H)"
    have dirs: "?K (ftp_write_to t c (write_dir_list (map fst (fst
        (vsf_ls_populate_dir_list (str_sort (os w)) t (names (os w)) (s_hide_str w) r ds base opt f verbose)))))"
      if "inv t A H a d l w" for w r ds
    proof (rule k_write_to)
      have "set (str_sort (os w) b xs) \<subseteq> set xs" for b xs using that by (simp add: inv_defs)
      then show "benign e" if "write_dir_list (map fst (fst (vsf_ls_populate_dir_list (str_sort (os w)) t (names (os w))
          (s_hide_str w) r ds base opt f verbose))) ks = Inl e" for ks e
        using that listing_lines_nonempty [of "str_sort (os w)"] unfolding write_dir_list_def
        by (elim write_dir_rounds_benign [rotated]) fastforce
    qed
    have head: "?K (ftp_write_to t c (\<lambda>ks. str_netfd_write ks (base @ '':'' @ [CR, LF])))"
      by (rule k_write_to) (auto dest: netfd_write_benign)
    show ?case unfolding transfer_dir_internal.simps Let_def split_beta
      by (intro gives_bindk gives_with gives_seq gives_if full.keeps_call inv_set_hide head dirs k_subdirs [OF Suc assms]
          gives_ret) simp_all
  qed (simp add: full.hang)
  then show ?thesis by (simp add: vsf_ftpdataio_transfer_dir_def)
qed

section \<open>From stage to stage\<close>

text \<open>A handler that starts in a stage and ends between commands.\<close>

abbreviation ends :: "tunables \<Rightarrow> bool \<Rightarrow> string \<Rightarrow> bool \<Rightarrow> bool \<Rightarrow> bool option \<Rightarrow> 'a act \<Rightarrow> bool" where
  "ends t A H a d l m \<equiv> valid t A H (inv t A H a d l) m (\<lambda>_. inv t A H False False None)"

lemma ends_keep: "keeps (inv t A H a False l) (stopped t A H) m \<Longrightarrow> ends t A H a False l m"
  unfolding gives_def by (erule avalid_post) (simp add: inv_weaken)

lemma step_bind:
  "gives (inv t A H a d l) (stopped t A H) m F \<Longrightarrow> (\<And>x. F x \<Longrightarrow> valid t A H (inv t A H a d l) (f x) Q) \<Longrightarrow>
   valid t A H (inv t A H a d l) (abind m f) Q"
  unfolding gives_def by (rule avalid_abind, assumption) (auto simp: avalid_def)

lemma step_bindk:
  "keeps (inv t A H a d l) (stopped t A H) m \<Longrightarrow> (\<And>x. valid t A H (inv t A H a d l) (f x) Q) \<Longrightarrow>
   valid t A H (inv t A H a d l) (abind m f) Q"
  by (rule step_bind)

lemma step_seq:
  "keeps (inv t A H a d l) (stopped t A H) m \<Longrightarrow> valid t A H (inv t A H a d l) n Q \<Longrightarrow>
   valid t A H (inv t A H a d l) (aseq m n) Q"
  unfolding aseq_def by (rule step_bindk)

lemma step_with:
  "(\<And>w. inv t A H a d l w \<Longrightarrow> valid t A H (inv t A H a d l) (f w) Q) \<Longrightarrow> valid t A H (inv t A H a d l) (awith f) Q"
  by (auto simp: avalid_def awith_def)

lemma step_weaken:
  "valid t A H (inv t A H b d m) act Q \<Longrightarrow> (b \<longrightarrow> a) \<Longrightarrow> (m = None \<or> m = l) \<Longrightarrow> valid t A H (inv t A H a d l) act Q"
  by (erule avalid_pre) (rule inv_weaken)

lemma step_keep: "keeps (inv t A H a d l) (stopped t A H) m \<Longrightarrow> valid t A H (inv t A H a d l) m (\<lambda>_. inv t A H a d l)"
  by (simp add: gives_def)

lemmas k_basic = k_reply k_fields k_check_abor full.calls gives_ret TrueI

text \<open>An update that changes the stage.\<close>

lemma inv_upd:
  assumes "inv t A H a d l w" and "\<And>s. texts_ok t A s \<Longrightarrow> texts_ok t A (f s)" and "\<And>s. sess_ok H s \<Longrightarrow> sess_ok H (f s)"
    and "\<And>s. p_port_sockaddr (f s) = p_port_sockaddr s \<and> pasv_listen_fd (f s) = pasv_listen_fd s"
    and "data_fd (f (child w)) \<noteq> -1 \<longleftrightarrow> e" and "\<forall>b. m = Some b \<longrightarrow> (log_type (f (child w)) = None \<longleftrightarrow> b)"
  shows "inv t A H a e m (w\<lparr>child := f (child w)\<rparr>)"
  using assms by (cases "server t") (simp_all add: inv_defs chan_def)

lemma v_upd:
  assumes "\<And>s. texts_ok t A s \<Longrightarrow> texts_ok t A (f s)" and "\<And>s. sess_ok H s \<Longrightarrow> sess_ok H (f s)"
    and "\<And>s. p_port_sockaddr (f s) = p_port_sockaddr s \<and> pasv_listen_fd (f s) = pasv_listen_fd s"
    and "\<And>w. inv t A H a d l w \<Longrightarrow> data_fd (f (child w)) \<noteq> -1 \<longleftrightarrow> e"
    and "\<And>w b. inv t A H a d l w \<Longrightarrow> m = Some b \<Longrightarrow> log_type (f (child w)) = None \<longleftrightarrow> b"
  shows "valid t A H (inv t A H a d l) (upd_child f) (\<lambda>_. inv t A H a e m)"
  by (rule avalid_upd) (rule inv_upd; use assms in blast)

lemma inv_stage:
  "inv t A H a d l w \<Longrightarrow> data_fd (child w) \<noteq> -1 \<longleftrightarrow> d" "inv t A H a d (Some b) w \<Longrightarrow> log_type (child w) = None \<longleftrightarrow> b"
  by (simp_all add: inv_def pre_inv_def)

lemma v_log_start:
  "valid t A H (inv t A H a d (Some True)) (vsf_log_start_entry what) (\<lambda>_. inv t A H a d (Some False))"
proof -
  have "valid t A H (inv t A H a d (Some True)) (upd_child (\<lambda>s. s\<lparr>log_type := Some what, transfer_size := 0, log_str := []\<rparr>))
      (\<lambda>_. inv t A H a d (Some False))"
    by (rule v_upd) (simp_all add: texts_ok_def sess_ok_def inv_stage)
  then show ?thesis unfolding vsf_log_start_entry_def by (intro step_with) (simp add: inv_stage)
qed

lemma v_log_clear: "valid t A H (inv t A H a d l) vsf_log_clear_entry (\<lambda>_. inv t A H a d (Some True))"
  unfolding vsf_log_clear_entry_def
  by (rule v_upd) (simp_all add: texts_ok_def sess_ok_def inv_stage)

lemma v_do_log: "valid t A H (inv t A H a d (Some False)) (vsf_log_do_log b) (\<lambda>_. inv t A H a d (Some True))"
proof -
  have "keeps (inv t A H a d (Some False)) (stopped t A H) (vsf_log_common b what x)" for what x
    by (cases "server t") (simp_all add: vsf_log_common_def gives_def avalid_def inv_defs chan_def)
  then have "valid t A H (inv t A H a d (Some False)) (aseq (vsf_log_common b what x) vsf_log_clear_entry)
      (\<lambda>_. inv t A H a d (Some True))" for what x
    by (intro step_seq v_log_clear)
  then show ?thesis unfolding vsf_log_do_log_def
    by (intro step_with) (auto dest: inv_stage(2) split: option.splits)
qed

lemma k_prepend: "gives (inv t A H a d l) (stopped t A H) (prepend_path_to_filename p) (\<lambda>_. True)"
  unfolding prepend_path_to_filename_def
  by (intro gives_if gives_bind [OF full.getcwd] gives_ret) simp_all

lemma v_log_path: "valid t A H (inv t A H a d (Some True)) (log_path what p) (\<lambda>_. inv t A H a d (Some False))"
proof -
  have "keeps (inv t A H a d (Some False)) (stopped t A H) (abind (prepend_path_to_filename p) (\<lambda>q. upd_child (\<lambda>s. s\<lparr>log_str := q\<rparr>)))"
    by (intro gives_bindk k_prepend k_fields)
  then show ?thesis unfolding log_path_def
    by (intro avalid_aseq [OF v_log_start]) (auto simp: gives_def)
qed

text \<open>Data connections.\<close>

lemma v_init_sock:
  assumes "fd \<noteq> -1"
  shows "valid t A H (inv t A H a False l) (init_data_sock_params fd) (\<lambda>_. inv t A H a True l)"
proof -
  have "valid t A H (inv t A H a False l) (upd_child (\<lambda>s. s\<lparr>data_fd := fd\<rparr>)) (\<lambda>_. inv t A H a True l)"
    by (rule v_upd) (simp_all add: texts_ok_def sess_ok_def inv_stage assms)
  then show ?thesis unfolding init_data_sock_params_def by (intro step_with) (simp add: inv_stage)
qed

lemma v_dispose: "valid t A H (inv t A H a True l) vsf_ftpdataio_dispose_transfer_fd (\<lambda>_. inv t A H a False l)"
proof -
  have "valid t A H (inv t A H a True l) (upd_child (\<lambda>s. s\<lparr>data_fd := -1\<rparr>)) (\<lambda>_. inv t A H a False l)"
    by (rule v_upd) (simp_all add: texts_ok_def sess_ok_def inv_stage)
  then have u: "valid t A H (inv t A H a True l) (aseq (upd_child (\<lambda>s. s\<lparr>data_fd := -1\<rparr>)) (aret 1)) (\<lambda>_. inv t A H a False l)"
    by (rule avalid_aseq) (rule avalid_aret)
  show ?thesis unfolding vsf_ftpdataio_dispose_transfer_fd_def
  proof (rule step_with)
    fix w assume w: "inv t A H a True l w"
    show "valid t A H (inv t A H a True l) (if data_fd (child w) = -1
        then astop (Bug ''no data descriptor in vsf_ftpdataio_dispose_transfer_fd'')
        else abind (sys (Close (data_fd (child w)))) (\<lambda>r.
          abind (if r_ret r < 0 then sys (Close (data_fd (child w))) else aret r) (\<lambda>_.
          aseq (upd_child (\<lambda>s. s\<lparr>data_fd := -1\<rparr>)) (aret 1)))) (\<lambda>_. inv t A H a False l)"
      using inv_stage(1) [OF w] by (auto intro!: step_bindk full.keeps_call u gives_if gives_ret)
  qed
qed

lemma v_get_pasv_fd:
  "valid t A H (inv t A H False False l) (vsf_ftpdataio_get_pasv_fd t) (\<lambda>fd. inv t A H False (0 \<le> fd) l)"
proof -
  have init: "valid t A H (inv t A H False False l) (aseq (init_data_sock_params fd) (aret fd)) (\<lambda>fd. inv t A H False (0 \<le> fd) l)"
    if "0 \<le> fd" for fd
    using that by (intro avalid_aseq [OF v_init_sock]) (auto intro: avalid_aret)
  have neg: "valid t A H (inv t A H False False l) (aret (-1)) (\<lambda>fd :: int. inv t A H False (0 \<le> fd) l)"
    by (rule avalid_aret) simp
  show ?thesis unfolding vsf_ftpdataio_get_pasv_fd_def
    by (rule step_bind [OF k_accept]) (auto intro!: step_seq k_reply full.calls init neg)
qed

lemma v_get_port_fd:
  "valid t A H (\<lambda>w. inv t A H False False l w \<and> p_port_sockaddr (child w) \<noteq> None) (vsf_ftpdataio_get_port_fd t)
     (\<lambda>fd. inv t A H False (0 \<le> fd) l)"
proof -
  have init: "valid t A H (inv t A H False False l) (aseq (init_data_sock_params fd) (aret fd)) (\<lambda>fd. inv t A H False (0 \<le> fd) l)"
    if "0 \<le> fd" for fd
    using that by (intro avalid_aseq [OF v_init_sock]) (auto intro: avalid_aret)
  have neg: "valid t A H (inv t A H False False l) (aret (-1)) (\<lambda>fd :: int. inv t A H False (0 \<le> fd) l)"
    by (rule avalid_aret) simp
  have "valid t A H (\<lambda>w. inv t A H False False l w \<and> (fd = -1 \<or> 0 \<le> fd))
      (if fd < 0 then aseq (cmdio_write FTP_BADSENDCONN ''Failed to establish connection.'') (aret (-1))
       else aseq (init_data_sock_params fd) (aret fd)) (\<lambda>fd. inv t A H False (0 \<le> fd) l)" for fd
    by (rule avalid_pre [where P = "inv t A H False False l"])
      (auto intro!: step_seq k_reply init neg)
  then show ?thesis unfolding vsf_ftpdataio_get_port_fd_def by (rule avalid_abind [OF k_port_fd])
qed

text \<open>Whether a mode is active, as both callers ask.\<close>

lemma v_pasv:
  "valid t A H (inv t A H a d l) (pasv_active 2 t) (\<lambda>b w. inv t A H a d l w \<and> (b \<longleftrightarrow> listening t w))"
  using v_pasv_active [OF mode_stable(1,2), of t A H a d l 0] by (simp add: numeral_2_eq_2)

lemma v_port:
  "valid t A H (\<lambda>w. inv t A H a d l w \<and> \<not> listening t w) (port_active 2 t) (\<lambda>b w. inv t A H b d l w \<and> (a \<longrightarrow> b))"
  unfolding numeral_2_eq_2 by (rule avalid_post [OF v_port_active]) (auto simp: inv_defs)

lemma v_modes:
  "valid t A H (inv t A H a d l)
     (abind (pasv_active 2 t) (\<lambda>pasv. if pasv then aret True else port_active 2 t))
     (\<lambda>b w. inv t A H b d l w \<and> (a \<longrightarrow> b))"
proof (rule avalid_abind [OF v_pasv])
  fix p
  show "valid t A H (\<lambda>w. inv t A H a d l w \<and> (p \<longleftrightarrow> listening t w)) (if p then aret True else port_active 2 t)
      (\<lambda>b w. inv t A H b d l w \<and> (a \<longrightarrow> b))"
  proof (cases p)
    case True
    then show ?thesis by (auto simp: avalid_def aret_def inv_defs)
  next
    case False
    then show ?thesis using v_port [of t A H a d l] by simp
  qed
qed

lemma v_checks:
  "valid t A H (inv t A H False False l) (data_transfer_checks_ok t) (\<lambda>b. inv t A H b False l)"
proof -
  have f: "valid t A H (inv t A H b False l) (aret False) (\<lambda>b. inv t A H b False l)" for b
    by (rule avalid_aret) (simp add: inv_weaken)
  have tr: "valid t A H (inv t A H True False l) (aret True) (\<lambda>b. inv t A H b False l)"
    by (rule avalid_aret) simp
  show ?thesis unfolding data_transfer_checks_ok_def abind_assoc [symmetric]
    by (rule avalid_abind [OF v_modes]) (auto intro!: step_seq k_reply step_with f tr)
qed

text \<open>With an active mode one of the two ways to connect is open, and it leads to a connection or to none.\<close>

lemma v_connect:
  "valid t A H (inv t A H True False l)
     (abind (pasv_active 2 t) (\<lambda>pasv. if pasv then vsf_ftpdataio_get_pasv_fd t else vsf_ftpdataio_get_port_fd t))
     (\<lambda>fd. inv t A H False (0 \<le> fd) l)"
proof (rule avalid_abind [OF v_pasv])
  fix p
  show "valid t A H (\<lambda>w. inv t A H True False l w \<and> (p \<longleftrightarrow> listening t w))
      (if p then vsf_ftpdataio_get_pasv_fd t else vsf_ftpdataio_get_port_fd t) (\<lambda>fd. inv t A H False (0 \<le> fd) l)"
  proof (cases p)
    case True
    have "valid t A H (\<lambda>w. inv t A H True False l w \<and> listening t w) (vsf_ftpdataio_get_pasv_fd t) (\<lambda>fd. inv t A H False (0 \<le> fd) l)"
      by (rule avalid_pre [OF v_get_pasv_fd]) (auto intro: inv_weaken)
    then show ?thesis using True by simp
  next
    case False
    have "valid t A H (\<lambda>w. inv t A H True False l w \<and> \<not> listening t w) (vsf_ftpdataio_get_port_fd t) (\<lambda>fd. inv t A H False (0 \<le> fd) l)"
      by (rule avalid_pre [OF v_get_port_fd]) (auto simp: inv_def pre_inv_def active_def)
    then show ?thesis using False by simp
  qed
qed

lemma v_remote_fd:
  "valid t A H (inv t A H True False l) (get_remote_transfer_fd t msg) (\<lambda>fd. inv t A H False (0 \<le> fd) l)"
proof -
  let ?Q = "\<lambda>fd :: int. inv t A H False (0 \<le> fd) l"
  have bad: "valid t A H (inv t A H False True l) (abind vsf_ftpdataio_dispose_transfer_fd (\<lambda>_. aret (-1))) ?Q"
    by (rule avalid_abind [OF v_dispose], rule avalid_aret) simp
  have good: "valid t A H (inv t A H False True l) (aret fd) ?Q" if "0 \<le> fd" for fd
    by (rule avalid_aret) (simp add: that)
  have mark: "gives (inv t A H False True l) (stopped t A H) (vsf_ftpdataio_post_mark_connect t) (\<lambda>_. True)"
    unfolding vsf_ftpdataio_post_mark_connect_def by (intro gives_with gives_if gives_seq k_basic)
  have rest: "valid t A H (inv t A H False (0 \<le> fd) l) (if fd < 0 then aret fd else
      aseq (cmdio_write FTP_DATACONN msg) (abind (vsf_ftpdataio_post_mark_connect t) (\<lambda>ret.
        if ret \<noteq> 1 then abind vsf_ftpdataio_dispose_transfer_fd (\<lambda>_. aret (-1)) else aret fd))) ?Q" for fd
    by (rule avalid_if) (auto intro!: avalid_aret step_seq k_reply step_bindk mark bad good)
  have conn: "valid t A H (inv t A H True False l)
      (abind (pasv_active 2 t) (\<lambda>pasv. abind (if pasv then vsf_ftpdataio_get_pasv_fd t else vsf_ftpdataio_get_port_fd t)
        (\<lambda>fd. if fd < 0 then aret fd else
      aseq (cmdio_write FTP_DATACONN msg) (abind (vsf_ftpdataio_post_mark_connect t) (\<lambda>ret.
        if ret \<noteq> 1 then abind vsf_ftpdataio_dispose_transfer_fd (\<lambda>_. aret (-1)) else aret fd))))) ?Q"
    using avalid_abind [OF v_connect rest] unfolding abind_assoc .
  show ?thesis unfolding get_remote_transfer_fd_def abind_assoc [symmetric, of "pasv_active 2 t" "\<lambda>pasv. if pasv then aret True else port_active 2 t"]
  proof (rule avalid_abind [OF v_modes])
    fix b
    let ?m = "aseq (upd_child (\<lambda>s. s\<lparr>abor_received := False\<rparr>)) (abind (pasv_active 2 t) (\<lambda>pasv.
        abind (if pasv then vsf_ftpdataio_get_pasv_fd t else vsf_ftpdataio_get_port_fd t) (\<lambda>fd. if fd < 0 then aret fd else
        aseq (cmdio_write FTP_DATACONN msg) (abind (vsf_ftpdataio_post_mark_connect t) (\<lambda>ret.
          if ret \<noteq> 1 then abind vsf_ftpdataio_dispose_transfer_fd (\<lambda>_. aret (-1)) else aret fd)))))"
    have "valid t A H (inv t A H True False l) ?m ?Q" by (intro step_seq k_fields conn)
    then show "valid t A H (\<lambda>w. inv t A H b False l w \<and> (True \<longrightarrow> b))
        (if \<not> b then astop (Bug ''neither PORT nor PASV active in get_remote_transfer_fd'') else ?m) ?Q"
      by (cases b) (simp_all add: avalid_def)
  qed
qed

section \<open>Names of files\<close>

lemma split_char_free:
  assumes "x \<notin> set s"
  shows "x \<notin> set (fst (t_split_char s c))" and "x \<notin> set (snd (t_split_char s c))"
proof -
  have "set (tl (dropWhile P s)) \<subseteq> set s" for P
    by (metis dropWhile_eq_drop drop_Suc set_drop_subset tl_drop)
  then show "x \<notin> set (fst (t_split_char s c))" "x \<notin> set (snd (t_split_char s c))"
    using assms unfolding t_split_char_eq by (auto dest: set_takeWhileD)
qed

lemma upper_free [simp]: "NUL \<notin> set (t_upper s) \<longleftrightarrow> NUL \<notin> set s"
proof -
  have "vsf_sysutil_toupper c \<noteq> NUL" if "c \<noteq> NUL" for c
  proof
    assume "vsf_sysutil_toupper c = NUL"
    then have c: "97 \<le> ord c" "ord c \<le> 122" "char_of (ord c - 32) = NUL"
      using that by (auto simp: vsf_sysutil_toupper_def split: if_splits)
    then have "(ord c - 32) mod 256 = 0"
      using arg_cong [OF c(3), of "of_char :: char \<Rightarrow> nat"] unfolding of_char_of by simp
    then show False using c(1,2) by simp
  qed
  moreover have "vsf_sysutil_toupper NUL = NUL" by (simp add: vsf_sysutil_toupper_def)
  ultimately have "NUL = vsf_sysutil_toupper c \<longleftrightarrow> c = NUL" for c by metis
  then show ?thesis by (simp add: t_upper_def image_iff)
qed

lemma decimal_free [simp]: "NUL \<notin> set (vsf_sysutil_ulong_to_str n)"
  using base_str_digits [of 10 NUL n] by (auto simp: vsf_sysutil_ulong_to_str_def)

lemma k_arg: "gives (inv t A H a d l) (stopped t A H) get_arg (\<lambda>x. NUL \<notin> set x)"
  unfolding get_arg_def by (intro gives_with gives_ret) (simp add: inv_defs texts_ok_def)

lemma k_set_arg: "NUL \<notin> set x \<Longrightarrow> keeps (inv t A H a d l) E (set_arg x)"
  unfolding set_arg_def by (rule k_fields)

lemma k_tilde:
  assumes "NUL \<notin> set p"
  shows "gives (inv t A H a d l) (stopped t A H) (resolve_tilde t p) (\<lambda>x. NUL \<notin> set x)"
proof -
  have free: "NUL \<notin> set (snd (t_split_char p c))" "NUL \<notin> set (snd (t_split_char (snd (t_split_char p c)) e))" for c e
    using assms by (auto dest: split_char_free)
  have home: "NUL \<notin> set (home_str (child w))" if "inv t A H a d l w" for w using that by (simp add: inv_defs texts_ok_def)
  have user: "gives (inv t A H a d l) (stopped t A H) (case u of None \<Rightarrow> aret p
      | Some homedir \<Rightarrow> aret (if rhs = [] then homedir else homedir @ ''/'' @ rhs)) (\<lambda>x. NUL \<notin> set x)"
    if "\<forall>d. u = Some d \<longrightarrow> NUL \<notin> set d" "NUL \<notin> set rhs" for u rhs
    using that assms by (auto intro!: gives_ret split: option.splits)
  show ?thesis unfolding resolve_tilde_def split_beta Let_def
    by (intro gives_if gives_with gives_bind [OF full.getpwnam] user gives_ret) (use assms free home in \<open>auto\<close>)
qed

lemma k_resolved: "gives (inv t A H a d l) (stopped t A H) (resolved_arg t) (\<lambda>x. NUL \<notin> set x)"
  unfolding resolved_arg_def
  by (intro gives_bind [OF k_arg] gives_bind [OF k_tilde] gives_seq k_set_arg gives_ret)

lemma k_access: "gives (inv t A H a d l) (stopped t A H) (access_check_file t p) (\<lambda>ok. ok \<longrightarrow> file_allowed t p)"
  unfolding access_check_file_def gives_def avalid_def
  by (cases "server t"; auto simp: inv_defs chan_def vsf_access_check_file_def check_pattern_def file_allowed_def
      Let_def split: option.splits prod.splits if_splits)

lemma k_lines: "keeps (inv t A H a d l) (stopped t A H) (raw_lines ls)"
  by (induction ls) (auto intro!: gives_ret gives_seq k_emit dest: cmdio_writers_benign)

lemma k_fileread: "keeps (inv t A H a d l) (stopped t A H) (sys_fileread f n)"
proof -
  have "benign e" if "str_fileread s n = Inl e" for s e
    using that by (auto simp: str_fileread_def rbind_eq_Inl Let_def dest: sysutil_read_loop_benign
        split: file_source.splits if_splits prod.splits)
  then show ?thesis unfolding sys_fileread_def
    by (auto intro!: gives_ret gives_bindk full.keeps_call k_lift split: option.splits)
qed

lemma k_banner: "keeps (inv t A H a d l) (stopped t A H) (vsf_banner_dir_changed t code)"
proof -
  have b: "keeps (inv t A H a d l) (stopped t A H) (banner_lines code ls)" for ls
    by (induction ls) (auto intro!: gives_ret gives_seq k_emit dest: write_common_benign)
  show ?thesis unfolding vsf_banner_dir_changed_def vsf_banner_write_def split_beta
    by (intro gives_if gives_bind [OF full.getcwd] gives_with gives_seq gives_bindk k_fileread b k_basic)
qed

section \<open>Commands that keep every stage\<close>

lemma k_pwd: "keeps (inv t A H a d l) (stopped t A H) handle_pwd"
  unfolding handle_pwd_def by (intro gives_bind [OF full.getcwd] k_reply)

lemma k_cwd: "keeps (inv t A H a d l) (stopped t A H) (handle_cwd t)"
  unfolding handle_cwd_def no_permission_def
  by (intro gives_bind [OF k_resolved] gives_bind [OF k_access] gives_if gives_bindk gives_seq full.file_calls k_banner k_basic)
    simp_all

lemma k_cdup: "keeps (inv t A H a d l) (stopped t A H) (handle_cdup t)"
  unfolding handle_cdup_def by (intro gives_seq k_set_arg k_cwd) simp

lemma strlen_benign: "vsf_sysutil_strlen s = Inl e \<Longrightarrow> benign e"
  by (auto simp: vsf_sysutil_strlen_def Let_def split: if_splits)

lemma k_rest: "keeps (inv t A H a d l) (stopped t A H) handle_rest"
proof -
  have "benign e" if "vsf_sysutil_a_to_filesize_t x = Inl e" for x e
    using that by (auto simp: vsf_sysutil_a_to_filesize_t_def rbind_eq_Inl dest: strlen_benign split: if_splits)
  then show ?thesis unfolding handle_rest_def Let_def
    by (intro gives_bind [OF k_arg] gives_bindk k_lift gives_seq k_basic) blast
qed

lemma k_size: "keeps (inv t A H a d l) (stopped t A H) (handle_size t)"
  unfolding handle_size_def no_permission_def
  by (intro gives_bind [OF k_resolved] gives_bind [OF k_access] gives_if gives_bindk k_basic)

lemma k_site_umask: "keeps (inv t A H a d l) (stopped t A H) (handle_site_umask args)"
  unfolding handle_site_umask_def by (intro gives_if gives_with gives_seq k_umask k_basic)

lemma k_type: "keeps (inv t A H a d l) (stopped t A H) handle_type"
  unfolding handle_type_def Let_def by (intro gives_bind [OF k_arg] gives_seq gives_if k_set_arg k_basic) simp_all

lemma k_stru: "keeps (inv t A H a d l) (stopped t A H) handle_stru"
  unfolding handle_stru_def by (intro gives_bind [OF k_arg] gives_seq gives_if k_set_arg k_basic) simp_all

lemma k_mode: "keeps (inv t A H a d l) (stopped t A H) handle_mode"
  unfolding handle_mode_def by (intro gives_bind [OF k_arg] gives_seq gives_if k_set_arg k_basic) simp_all

lemma k_help: "keeps (inv t A H a d l) (stopped t A H) handle_help"
  unfolding handle_help_def by (intro gives_seq k_lines k_basic)

lemma k_feat: "keeps (inv t A H a d l) (stopped t A H) (handle_feat t)"
  unfolding handle_feat_def by (intro gives_seq k_lines k_emit k_reply) (auto dest: cmdio_writers_benign)

lemma k_opts: "keeps (inv t A H a d l) (stopped t A H) handle_opts"
  unfolding handle_opts_def
  by (intro gives_seq gives_with gives_if k_upd k_basic) (simp_all add: texts_ok_def sess_ok_def)

lemma k_texts: "\<forall>x \<in> set xs. x \<noteq> [] \<Longrightarrow> keeps (inv t A H a d l) (stopped t A H) (raw_texts xs)"
  by (induction xs) (auto intro!: gives_ret gives_seq k_reply)

lemma stat_texts_nonempty:
  "cstr (user_str s) \<noteq> [] \<Longrightarrow> cstr (remote_ip_str s) \<noteq> [] \<Longrightarrow> \<forall>x \<in> set (stat_texts t s). x \<noteq> []"
  unfolding stat_texts_def vsf_sysutil_ulong_to_str_def list_all_iff [symmetric] by simp

lemma k_stat: "keeps (inv t A H a d l) (stopped t A H) (handle_stat t)"
proof -
  have "\<forall>x \<in> set (stat_texts t (child w)). x \<noteq> []" if "inv t A H a d l w" for w
    by (rule stat_texts_nonempty) (use that in \<open>simp_all add: inv_def pre_inv_def base_ok_def texts_ok_def\<close>)
  then show ?thesis unfolding handle_stat_def by (intro gives_seq gives_with k_texts k_basic)
qed

lemma k_user: "keeps (inv t A H a d l) (stopped t A H) handle_logged_in_user"
  unfolding handle_logged_in_user_def by (intro gives_with gives_if k_basic)

lemma k_parse_time: "keeps (inv t A H a d l) (stopped t A H) (vsf_sysutil_parse_time s)"
  unfolding vsf_sysutil_parse_time_def Let_def
  by (intro gives_bindk k_lift full.keeps_call gives_ret) (auto dest: strlen_benign)

lemma k_numeric_date: "keeps (inv t A H a d l) (stopped t A H) (vsf_sysutil_statbuf_get_numeric_date b)"
  unfolding vsf_sysutil_statbuf_get_numeric_date_def
  by (intro gives_bindk full.keeps_call) (auto intro: full.stop gives_ret split: option.splits)

lemma k_setmodtime:
  "call_ok t A H (Utime p 0) \<Longrightarrow> keeps (inv t A H a d l) (stopped t A H) (vsf_sysutil_setmodtime p v b)"
  unfolding vsf_sysutil_setmodtime_def by (intro gives_with full.call_value) simp

lemma inv_anon: "inv t A H a d l w \<Longrightarrow> is_anonymous (child w) = A"
  by (simp add: inv_defs texts_ok_def)

lemma k_mdtm: "keeps (inv t A H a d l) (stopped t A H) (handle_mdtm t)"
proof -
  let ?K = "keeps (inv t A H a d l) (stopped t A H)"
  have set: "?K (if c then abind (vsf_sysutil_parse_time x) (\<lambda>m. aseq (set_arg f) (aret m)) else aret (0::int))"
    if "NUL \<notin> set f" for c x f
    using that by (intro gives_if gives_bindk gives_seq k_parse_time k_set_arg k_basic)
  have time: "?K (vsf_sysutil_setmodtime (cstr p) v b)"
    if "file_allowed t p" "NUL \<notin> set p" "may_write t ''anon_other_write_enable'' A" for p v b
    using that by (intro k_setmodtime) simp
  show ?thesis unfolding handle_mdtm_def no_permission_def split_beta Let_def
    by (intro gives_bind [OF k_arg] gives_bind [OF k_resolved] gives_bind [OF k_access] gives_with gives_if
        gives_bindk time set k_numeric_date k_basic)
      (auto simp: inv_anon split_char_free)
qed

section \<open>Choosing the mode of data connections\<close>

text \<open>After both clean-ups no mode is active, and the state allows to store an address or to listen.\<close>

abbreviation unmoded :: "tunables \<Rightarrow> bool \<Rightarrow> string \<Rightarrow> bool \<Rightarrow> bool option \<Rightarrow> world \<Rightarrow> bool" where
  "unmoded t A H d l w \<equiv> inv t A H False d l w \<and> p_port_sockaddr (child w) = None \<and> \<not> listening t w"

lemma v_clear_port:
  "valid t A H (\<lambda>w. inv t A H False d l w \<and> (c \<longrightarrow> \<not> listening t w)) port_cleanup
     (\<lambda>_ w. inv t A H False d l w \<and> p_port_sockaddr (child w) = None \<and> (c \<longrightarrow> \<not> listening t w))"
  unfolding port_cleanup_def
  by (rule avalid_upd; cases "server t") (simp_all add: inv_defs chan_def texts_ok_def sess_ok_def)

lemma v_pasv_port: "valid t A H (inv t A H False d l) (aseq (pasv_cleanup t) port_cleanup) (\<lambda>_. unmoded t A H d l)"
  by (rule avalid_aseq [of _ _ "\<lambda>w. inv t A H False d l w \<and> (True \<longrightarrow> \<not> listening t w)"])
    (use k_cleanup [of t A H d l False] v_clear_port [of t A H d l True] in simp_all)

lemma v_port_pasv: "valid t A H (inv t A H False d l) (aseq port_cleanup (pasv_cleanup t)) (\<lambda>_. unmoded t A H d l)"
  by (rule avalid_aseq [of _ _ "\<lambda>w. inv t A H False d l w \<and> (True \<longrightarrow> p_port_sockaddr (child w) = None)"])
    (use k_cleanup [of t A H d l True] v_clear_port [of t A H d l False] in simp_all)

lemma aseq_assoc: "aseq (aseq m n) k = aseq m (aseq n k)"
  by (simp add: aseq_def abind_assoc)

lemma v_enter_pasv:
  assumes "\<And>p. valid t A H (inv t A H False d l) (f p) Q"
  shows "valid t A H (inv t A H False d l) (aseq (pasv_cleanup t) (aseq port_cleanup (abind (pasv_listen t) f))) Q"
proof -
  have "valid t A H (unmoded t A H d l) (pasv_listen t) (\<lambda>_. inv t A H False d l)"
    by (rule avalid_pre [OF k_listen]) simp
  then have "valid t A H (unmoded t A H d l) (abind (pasv_listen t) f) Q" by (rule avalid_abind) (rule assms)
  then show ?thesis unfolding aseq_assoc [symmetric] by (rule avalid_aseq [OF v_pasv_port])
qed

lemma inv_local: "inv t A H a d l w \<Longrightarrow> p_local_addr (child w) \<noteq> AF_UNSPEC"
  by (simp add: inv_def pre_inv_def base_ok_def sess_ok_def)

lemma clone_ok: "p \<noteq> AF_UNSPEC \<Longrightarrow> \<exists>q. vsf_sysutil_sockaddr_clone p = Inr q"
  by (cases p) (simp_all add: vsf_sysutil_sockaddr_clone_def)

lemma inv_set_pasv: "keeps (inv t A H a d l) E (\<lambda>v. (Inr (), v\<lparr>s_pasv_sockaddr := x\<rparr>))"
  unfolding gives_def avalid_def by (cases "server t") (simp_all add: inv_defs chan_def)

lemma k_pasv_reply:
  assumes "tstr t ''pasv_address'' = None"
  shows "keeps (inv t A H a d l) (stopped t A H) (handle_pasv_reply t is_ipv6 port)"
  unfolding handle_pasv_reply_def
proof (rule gives_with)
  fix w assume "inv t A H a d l w"
  then obtain q where q: "vsf_sysutil_sockaddr_clone (p_local_addr (child w)) = Inr q" "q \<noteq> AF_UNSPEC"
    using inv_local clone_ok clone_keeps by metis
  let ?K = "keeps (inv t A H a d l) (stopped t A H)"
  have "?K (case q of AF_INET a _ \<Rightarrow> aret (inet_ntoa a) | AF_INET6 a _ _ \<Rightarrow> aret (inet_ntop6 (os w) a)
      | AF_UNSPEC \<Rightarrow> astop (Die ''can only support ipv4 and ipv6 currently''))"
    by (cases q) (auto intro: gives_ret full.stop)
  then show "?K (abind (case tstr t ''pasv_address'' of
              Some addr \<Rightarrow>
                (case s_pasv_sockaddr w of
                   None \<Rightarrow> astop Overrun
                 | Some (AF_INET a p) \<Rightarrow>
                     (case inet_aton (os w) addr of
                        None \<Rightarrow> astop (Die ''invalid pasv_address'')
                      | Some raw \<Rightarrow> aret (AF_INET raw p))
                 | Some _ \<Rightarrow> astop (Bug ''bad family''))
            | None \<Rightarrow> alift (vsf_sysutil_sockaddr_clone (p_local_addr (child w)))) (\<lambda>p_sockaddr.
     aseq (\<lambda>v. (Inr (), v\<lparr>s_pasv_sockaddr := Some p_sockaddr\<rparr>))
     (abind (if \<not> is_ipv6
             then case p_sockaddr of
                    AF_INET a _ \<Rightarrow> aret (inet_ntoa a)
                  | AF_INET6 a _ _ \<Rightarrow> aret (inet_ntop6 (os w) a)
                  | AF_UNSPEC \<Rightarrow> astop (Die ''can only support ipv4 and ipv6 currently'')
             else aret (case vsf_sysutil_sockaddr_ipv6_v4 p_sockaddr of Some a \<Rightarrow> inet_ntoa a | None \<Rightarrow> ''0,0,0,0''))
        (\<lambda>addr_text.
      cmdio_write FTP_PASVOK
        (t_replace_char (''Entering Passive Mode ('' @ addr_text) CHR ''.'' CHR '','' @ '','' @
         vsf_sysutil_ulong_to_str (port div 256) @ '','' @ vsf_sysutil_ulong_to_str (port mod 256) @ '').'')))))"
    unfolding assms option.case q(1) alift_Inr abind_aret
    by (intro gives_seq inv_set_pasv gives_bindk gives_if k_basic)
qed

lemma v_pasv_handler:
  assumes "tstr t ''pasv_address'' = None"
  shows "keeps (inv t A H False d l) (stopped t A H) (handle_pasv t is_epsv)"
proof -
  let ?K = "keeps (inv t A H False d l) (stopped t A H)"
  have enter: "?K (aseq (pasv_cleanup t) (aseq port_cleanup (abind (pasv_listen t) (\<lambda>p. if is_epsv then cmdio_write x (y p)
      else handle_pasv_reply t is_ipv6 p))))" for x y is_ipv6
    unfolding gives_def
    by (rule v_enter_pasv)
      (use gives_if [OF k_reply(1) k_pasv_reply [OF assms]] in \<open>auto simp: gives_def\<close>)
  have up: "NUL \<notin> set (t_upper (ftp_arg_str (child w)))" if "inv t A H False d l w" for w
    using that by (simp add: inv_defs texts_ok_def)
  show ?thesis unfolding handle_pasv_def Let_def
    by (intro gives_with gives_if gives_seq enter k_set_arg up k_basic)
qed

text \<open>Storing the address of a client.\<close>

lemma v_set_port:
  assumes "p \<noteq> AF_UNSPEC"
  shows "valid t A H (unmoded t A H d l) (upd_child (\<lambda>s. s\<lparr>p_port_sockaddr := Some p\<rparr>)) (\<lambda>_. inv t A H False d l)"
  by (rule avalid_upd; cases "server t") (simp_all add: inv_defs chan_def texts_ok_def sess_ok_def assms)

lemma v_port_accept:
  assumes "\<And>p. p \<noteq> AF_UNSPEC \<Longrightarrow> vsf_sysutil_sockaddr_is_ipv6 p = c \<Longrightarrow> \<exists>q. f p = Inr q \<and> q \<noteq> AF_UNSPEC"
  shows "valid t A H (\<lambda>w. unmoded t A H d l w \<and> vsf_sysutil_sockaddr_is_ipv6 (p_local_addr (child w)) = c)
     (port_accept t f port bad good) (\<lambda>_. inv t A H False d l)"
  unfolding port_accept_def
proof (rule avalid_awith)
  fix w assume w: "unmoded t A H d l w \<and> vsf_sysutil_sockaddr_is_ipv6 (p_local_addr (child w)) = c"
  obtain p where p: "vsf_sysutil_sockaddr_clone (p_local_addr (child w)) = Inr p" "p \<noteq> AF_UNSPEC"
    "vsf_sysutil_sockaddr_is_ipv6 p = c"
    using w inv_local [of t A H False d l w] clone_ok clone_keeps [of "p_local_addr (child w)"] by metis
  obtain q where q: "f p = Inr q" "q \<noteq> AF_UNSPEC" using assms p by blast
  obtain r where r: "vsf_sysutil_sockaddr_set_port q port = Inr r" "r \<noteq> AF_UNSPEC"
    using q(2) set_port_keeps [of q port] by (cases q) (auto simp: vsf_sysutil_sockaddr_set_port_def)
  let ?fin = "if \<not> tbool t ''port_promiscuous'' \<and>
        (\<not> vsf_sysutil_sockaddr_addr_equal (p_remote_addr (child w)) r \<or> vsf_sysutil_is_port_reserved port)
      then aseq (cmdio_write FTP_BADCMD bad) port_cleanup else cmdio_write FTP_PORTOK good"
  have "keeps (inv t A H False d l) (stopped t A H) ?fin" by (intro gives_if gives_seq k_port_cleanup k_reply)
  then have "valid t A H (unmoded t A H d l) (aseq (upd_child (\<lambda>s. s\<lparr>p_port_sockaddr := Some r\<rparr>)) ?fin) (\<lambda>_. inv t A H False d l)"
    by (intro avalid_aseq [OF v_set_port [OF r(2)]]) (simp add: gives_def)
  then show "valid t A H (\<lambda>v. v = w) (abind (alift (rbind (vsf_sysutil_sockaddr_clone (p_local_addr (child w))) (\<lambda>p.
        rbind (f p) (\<lambda>q. vsf_sysutil_sockaddr_set_port q port)))) (\<lambda>r.
      aseq (upd_child (\<lambda>s. s\<lparr>p_port_sockaddr := Some r\<rparr>))
      (if \<not> tbool t ''port_promiscuous'' \<and>
        (\<not> vsf_sysutil_sockaddr_addr_equal (p_remote_addr (child w)) r \<or> vsf_sysutil_is_port_reserved port)
      then aseq (cmdio_write FTP_BADCMD bad) port_cleanup else cmdio_write FTP_PORTOK good))) (\<lambda>_. inv t A H False d l)"
    unfolding p(1) q(1) r(1) rbind.simps alift_Inr abind_aret by (rule avalid_pre) (use w in simp)
qed

lemma set_ipv4_ok: "p \<noteq> AF_UNSPEC \<Longrightarrow> \<exists>q. vsf_sysutil_sockaddr_set_ipv4addr p a = Inr q \<and> q \<noteq> AF_UNSPEC"
  by (cases p) (simp_all add: vsf_sysutil_sockaddr_set_ipv4addr_def vsf_sysutil_sockaddr_ipv4_v6_def)

lemma set_ipv6_ok: "vsf_sysutil_sockaddr_is_ipv6 p \<Longrightarrow> \<exists>q. vsf_sysutil_sockaddr_set_ipv6addr p a = Inr q \<and> q \<noteq> AF_UNSPEC"
  by (cases p) (simp_all add: vsf_sysutil_sockaddr_set_ipv6addr_def vsf_sysutil_sockaddr_is_ipv6_def)

lemma avalid_split: "(\<And>c. avalid (\<lambda>w. P w \<and> f w = c) m Q E) \<Longrightarrow> avalid P m Q E"
  by (simp add: avalid_def)

lemma avalid_get_arg: "(\<And>x. avalid P (f x) Q E) \<Longrightarrow> avalid P (abind get_arg f) Q E"
  by (simp add: avalid_def get_arg_def abind_def awith_def aret_def)

lemma avalid_option:
  "avalid P m Q E \<Longrightarrow> (\<And>a. avalid P (f a) Q E) \<Longrightarrow> avalid P (case x of None \<Rightarrow> m | Some a \<Rightarrow> f a) Q E"
  by (cases x) simp_all

lemma v_unmoded_reply:
  "valid t A H (\<lambda>w. unmoded t A H d l w \<and> R w) (cmdio_write st x) (\<lambda>_. inv t A H False d l)"
  using k_reply(1) [of t A H False d l st x] unfolding gives_def by (auto elim!: avalid_pre avalid_post)

lemma k_port_handler: "keeps (inv t A H False d l) (stopped t A H) (handle_port t)"
proof -
  let ?f = "\<lambda>vals p. vsf_sysutil_sockaddr_set_ipv4addr p (map char_of (take 4 vals))"
  have acc: "valid t A H (unmoded t A H d l) (port_accept t (?f vals) n x y) (\<lambda>_. inv t A H False d l)" for vals n x y
    by (rule avalid_split [where f = "\<lambda>w. vsf_sysutil_sockaddr_is_ipv6 (p_local_addr (child w))"])
      (rule v_port_accept, rule set_ipv4_ok)
  have "valid t A H (unmoded t A H d l) (abind get_arg (\<lambda>a.
       case vsf_sysutil_parse_uchar_string_sep a CHR '','' 6 of
         None \<Rightarrow> cmdio_write FTP_BADCMD ''Illegal PORT command.''
       | Some vals \<Rightarrow>
           port_accept t (?f vals)
             (vals ! 4 * 256 + vals ! 5) ''Illegal PORT command.'' ''PORT command successful. Consider using PASV.''))
     (\<lambda>_. inv t A H False d l)"
    by (rule avalid_get_arg) (auto intro: acc v_unmoded_reply [where R = "\<lambda>_. True", simplified] split: option.splits)
  then show ?thesis unfolding gives_def handle_port_def aseq_assoc [symmetric]
    by (intro avalid_aseq [OF v_pasv_port]) simp
qed

lemma k_eprt: "keeps (inv t A H False d l) (stopped t A H) (handle_eprt t)"
proof -
  let ?ip6 = "\<lambda>w. vsf_sysutil_sockaddr_is_ipv6 (p_local_addr (child w))"
  let ?set = "\<lambda>proto b p. if proto = (2::int) then vsf_sysutil_sockaddr_set_ipv6addr p b else vsf_sysutil_sockaddr_set_ipv4addr p b"
  let ?V = "\<lambda>w m. valid t A H (\<lambda>v. unmoded t A H d l v \<and> ?ip6 v = ?ip6 w) m (\<lambda>_. inv t A H False d l)"
  have acc: "?V w (port_accept t (\<lambda>p. if proto = (2::int) then vsf_sysutil_sockaddr_set_ipv6addr p x
      else vsf_sysutil_sockaddr_set_ipv4addr p y) n b g)" if "\<not> (\<not> ?ip6 w \<and> proto = 2)" for w proto x y n b g
    by (rule v_port_accept) (use that set_ipv4_ok set_ipv6_ok in auto)
  have "valid t A H (inv t A H False d l) (handle_eprt t) (\<lambda>_. inv t A H False d l)"
    unfolding handle_eprt_def aseq_assoc [symmetric] Let_def split_beta
  proof (rule avalid_aseq [OF v_port_pasv], rule avalid_awith, goal_cases)
    case (1 w)
    show ?case
      by (rule avalid_pre [where P = "\<lambda>v. unmoded t A H d l v \<and> ?ip6 v = ?ip6 w"])
        (intro avalid_if avalid_option v_unmoded_reply acc, simp, use 1 in simp)
  qed
  then show ?thesis by (simp add: gives_def)
qed

section \<open>Commands that are logged\<close>

text \<open>Success closes the entry, a failure leaves it open for the command loop.\<close>

lemma ends_reply: "ends t A H a False l (cmdio_write st x)"
  by (rule ends_keep) (rule k_reply)

lemma ends_logged: "ends t A H a False (Some False) (aseq (vsf_log_do_log True) (cmdio_write st x))"
  by (rule avalid_aseq [OF v_do_log]) (rule ends_reply)

lemma k_mkd: "may_write t ''anon_mkdir_write_enable'' A \<Longrightarrow> ends t A H False False (Some True) (handle_mkd t)"
  unfolding handle_mkd_def no_permission_def
  by (intro step_bind [OF k_resolved] avalid_aseq [OF v_log_path] step_bind [OF k_access] avalid_if step_bindk
      full.file_calls ends_reply avalid_aseq [OF v_do_log] k_prepend) simp_all

lemma k_rmd: "may_write t ''anon_other_write_enable'' A \<Longrightarrow> ends t A H False False (Some True) (handle_rmd t)"
  unfolding handle_rmd_def no_permission_def
  by (intro step_bind [OF k_resolved] avalid_aseq [OF v_log_path] step_bind [OF k_access] avalid_if step_bindk
      full.file_calls ends_reply ends_logged) simp_all

lemma k_dele: "may_write t ''anon_other_write_enable'' A \<Longrightarrow> ends t A H False False (Some True) (handle_dele t)"
  unfolding handle_dele_def no_permission_def
  by (intro step_bind [OF k_resolved] avalid_aseq [OF v_log_path] step_bind [OF k_access] avalid_if step_bindk
      full.file_calls ends_reply ends_logged) simp_all

lemma k_rnfr: "ends t A H False False (Some True) (handle_rnfr t)"
  unfolding handle_rnfr_def no_permission_def
  by (intro step_seq step_bind [OF k_resolved] step_bind [OF k_access] avalid_if avalid_aseq [OF v_log_path] step_bindk
      k_fields full.calls ends_reply) simp_all

lemma k_rnto:
  assumes "may_write t ''anon_other_write_enable'' A"
  shows "ends t A H False False (Some True) (handle_rnto t)"
proof -
  have from_ok: "file_allowed t (rnfr_filename_str (child w))" "NUL \<notin> set (rnfr_filename_str (child w))"
    if "inv t A H False False (Some True) w" "rnfr_filename_str (child w) \<noteq> []" for w
    using that by (simp_all add: inv_def pre_inv_def base_ok_def texts_ok_def)
  show ?thesis unfolding handle_rnto_def no_permission_def Let_def
    by (intro step_with avalid_if step_bind [OF k_resolved] avalid_aseq [OF v_log_path] step_bindk [OF k_prepend] step_seq
        step_bind [OF k_access] step_bindk k_fields full.file_calls assms from_ok ends_reply ends_logged) simp_all
qed

lemma k_site_chmod:
  assumes "tbool t ''write_enable''" and "tbool t ''chmod_enable''" and "NUL \<notin> set args"
  shows "ends t False H False False (Some True) (handle_site_chmod t args)"
proof -
  have "NUL \<notin> set (snd (t_split_char args c))" for c by (rule split_char_free) (rule assms)
  then show ?thesis unfolding handle_site_chmod_def no_permission_def split_beta Let_def
    by (intro avalid_if step_bind [OF k_tilde] avalid_aseq [OF v_log_path] step_seq step_bind [OF k_access] step_bindk
        k_fields full.file_calls assms ends_reply ends_logged) simp_all
qed

lemma k_site: "ends t False H False False (Some True) (handle_site t)"
  unfolding handle_site_def split_beta Let_def
  by (intro step_bind [OF k_arg] step_seq avalid_if k_set_arg k_site_chmod ends_keep [OF k_site_umask] ends_reply)
    (simp_all add: split_char_free)

section \<open>Transfers and listings\<close>

lemma k_when: "(c \<Longrightarrow> keeps (inv t A H a d l) (stopped t A H) m) \<Longrightarrow> keeps (inv t A H a d l) (stopped t A H) (if c then m else aret ())"
  by (auto intro: gives_ret)

text \<open>Every transfer ends with both modes cleared.\<close>

lemma ends_data_cleanup: "ends t A H a False l (data_cleanup t)"
  by (rule step_weaken [where m = l, OF ends_keep [OF k_data_cleanup]]) simp_all

text \<open>The success entry of a transfer, written or not.\<close>

lemma v_maybe_log:
  "valid t A H (inv t A H a d (Some False)) (if c then vsf_log_do_log True else aret ()) (\<lambda>_. inv t A H a d None)"
  by (rule avalid_if; rule avalid_post [OF v_do_log] avalid_aret) (erule inv_weaken; simp)+

lemma v_retr_send: "ends t A H True False (Some False) (retr_send t p fd n)"
proof -
  let ?V = "\<lambda>d l m. ends t A H False d l m"
  have tail: "?V False None (aseq (if c = -1 then cmdio_write x1 y1 else if c = -2 then cmdio_write x2 y2 else cmdio_write x3 y3)
      (aseq check_abor (data_cleanup t)))" for c :: int and x1 y1 x2 y2 x3 y3
    by (intro step_seq gives_if k_basic ends_data_cleanup)
  have "?V True (Some False) (abind (vsf_ftpdataio_transfer_file t r fd False asc) (\<lambda>tr.
         abind vsf_ftpdataio_dispose_transfer_fd (\<lambda>dispose_ret.
           let res = disposed tr dispose_ret in
           aseq (upd_child (\<lambda>s. s\<lparr>transfer_size := int (transferred tr)\<rparr>))
           (aseq (if res = 0 then vsf_log_do_log True else aret ())
           (aseq (if res = -1 then cmdio_write FTP_BADSENDFILE ''Failure reading local file.''
                  else if res = -2 then cmdio_write FTP_BADSENDNET ''Failure writing network stream.''
                  else cmdio_write FTP_TRANSFEROK ''File send OK.'')
           (aseq check_abor (data_cleanup t))))))) " for r asc
    unfolding Let_def
    by (intro step_bindk k_transfer_file avalid_abind [OF v_dispose] step_seq k_fields avalid_aseq [OF v_maybe_log] tail)
  then have "ends t A H False (0 \<le> r) (Some False) (if r < 0 then data_cleanup t else
      abind (vsf_ftpdataio_transfer_file t r fd False asc) (\<lambda>tr.
         abind vsf_ftpdataio_dispose_transfer_fd (\<lambda>dispose_ret.
           let res = disposed tr dispose_ret in
           aseq (upd_child (\<lambda>s. s\<lparr>transfer_size := int (transferred tr)\<rparr>))
           (aseq (if res = 0 then vsf_log_do_log True else aret ())
           (aseq (if res = -1 then cmdio_write FTP_BADSENDFILE ''Failure reading local file.''
                  else if res = -2 then cmdio_write FTP_BADSENDNET ''Failure writing network stream.''
                  else cmdio_write FTP_TRANSFEROK ''File send OK.'')
           (aseq check_abor (data_cleanup t)))))))" for r asc
    using ends_data_cleanup [of t A H False "Some False"] by (cases "r < 0") (simp_all add: not_less)
  then show ?thesis unfolding retr_send_def Let_def
    by (intro step_with avalid_abind [OF v_remote_fd]) simp
qed

lemma v_checked:
  assumes "ends t A H True False l m"
  shows "ends t A H False False l (abind (data_transfer_checks_ok t) (\<lambda>b. if \<not> b then aret () else m))"
proof (rule avalid_abind [OF v_checks])
  fix b
  show "ends t A H b False l (if \<not> b then aret () else m)"
    using assms by (cases b) (auto intro: ends_keep gives_ret)
qed

lemma k_retr:
  assumes "tbool t ''download_enable''"
  shows "ends t A H False False (Some True) (handle_retr t)"
proof -
  let ?V = "valid t A H (inv t A H True False (Some False))"
  have mid: "?V (if \<not> r_regfile st
      then aseq (cmdio_write x y) (if r_dir st then vsf_log_clear_entry else aret ())
      else if c then cmdio_write x y
      else aseq (if k \<noteq> 0 then vsf_sysutil_lseek_to fd k else aret ()) (retr_send t p fd (r_size st)))
      (\<lambda>_. inv t A H False False None)" for st x y c k fd p
    by (intro avalid_if step_seq gives_if k_basic v_retr_send ends_reply avalid_post [OF v_log_clear]
        ends_keep [OF gives_ret]) (simp_all add: inv_weaken)
  have cl: "ends t A H False False None (vsf_sysutil_close fd)" for fd by (rule ends_keep) (rule full.calls)
  show ?thesis unfolding handle_retr_def no_permission_def Let_def
    by (intro step_with step_seq k_fields v_checked avalid_if ends_reply step_bind [OF k_resolved]
        avalid_aseq [OF v_log_path] step_bind [OF k_access] step_bindk full.file_calls k_when full.calls
        avalid_aseq [OF mid] cl assms) simp_all
qed

text \<open>Listings.\<close>

lemma k_open_dir: "tbool t ''dirlist_enable'' \<Longrightarrow> keeps (inv t A H a d l) (stopped t A H) (open_listed_dir named f)"
  unfolding open_listed_dir_def split_beta Let_def
  by (intro gives_bindk gives_if full.opendir gives_ret) simp_all

lemma k_dir_readable: "keeps (inv t A H a d l) (stopped t A H) (dir_readable t p_dir)"
  unfolding dir_readable_def by (intro gives_with gives_if gives_bindk full.calls gives_ret) simp_all

lemma k_listing:
  "tbool t ''dirlist_enable'' \<Longrightarrow>
   keeps (inv t A H a d l) (stopped t A H) (transfer_listing n t c p_dir name opts f details allow)"
  unfolding transfer_listing_def by (intro gives_if k_transfer_dir gives_ret) simp_all

lemma k_close_dir: "keeps (inv t A H a d l) (stopped t A H) (close_listed_dir p_dir)"
  unfolding close_listed_dir_def by (intro k_when full.calls)

lemma v_send_listing:
  assumes "tbool t ''dirlist_enable''" and "\<not> stat_cmd \<longrightarrow> a"
  shows "ends t A H a False l (send_listing n t details stat_cmd opts named f)"
proof -
  have ctl: "ends t A H a False l (aseq (cmdio_write_hyphen FTP_STATFILE_OK x) (abind (dir_readable t p_dir) (\<lambda>r.
      abind (transfer_listing n t True p_dir name op g details r) (\<lambda>_.
      aseq (cmdio_write FTP_STATFILE_OK y) (aseq check_abor (close_listed_dir p_dir))))))" for x y p_dir name op g
    by (intro ends_keep gives_seq gives_bindk k_reply k_dir_readable k_listing assms(1) k_check_abor k_close_dir)
  have fin: "ends t A H False False l (aseq (close_listed_dir p_dir) (data_cleanup t))" for p_dir
    by (intro step_seq k_close_dir ends_data_cleanup)
  have open_conn: "valid t A H (inv t A H False True l) (abind (dir_readable t p_dir) (\<lambda>r.
      abind (transfer_listing n t False p_dir name op g details r) (\<lambda>ret.
      abind vsf_ftpdataio_dispose_transfer_fd (\<lambda>dispose_ret.
      aseq (if p_dir = 0 \<or> \<not> r then cmdio_write s1 x1
            else if (if dispose_ret \<noteq> 1 \<and> ret = 0 then -1 else ret) = 0 then cmdio_write s2 x2 else cmdio_write s3 x3)
      check_abor)))) (\<lambda>_. inv t A H False False l)" for p_dir name op g s1 x1 s2 x2 s3 x3
    by (intro step_bindk k_dir_readable k_listing assms(1) avalid_abind [OF v_dispose] step_keep gives_seq gives_if
        k_reply k_check_abor)
  have "valid t A H (inv t A H False (0 \<le> fd) l) (if fd < 0 then aret () else m) (\<lambda>_. inv t A H False False l)"
    if "valid t A H (inv t A H False True l) m (\<lambda>_. inv t A H False False l)" for fd :: int and m
    using that by (cases "fd < 0") (auto intro: avalid_aret)
  then have data: "ends t A H True False l (abind (get_remote_transfer_fd t msg) (\<lambda>fd.
      aseq (if fd < 0 then aret () else m) (aseq (close_listed_dir p_dir) (data_cleanup t))))"
    if "valid t A H (inv t A H False True l) m (\<lambda>_. inv t A H False False l)" for msg m p_dir
    using that by (intro avalid_abind [OF v_remote_fd] avalid_aseq [OF _ fin])
  show ?thesis unfolding send_listing_def split_beta
    by (rule step_bindk [OF k_open_dir [OF assms(1)]], rule avalid_if, rule ctl) (use assms(2) data [OF open_conn] in simp)
qed

lemma list_args_free: "NUL \<notin> set x \<Longrightarrow> NUL \<notin> set (snd (list_args x))"
  using in_set_dropD [of NUL 1 x] split_char_free(2) [of NUL "drop 1 x" "CHR '' ''"] by (auto simp: list_args_def)

lemma k_dir_common:
  assumes "tbool t ''dirlist_enable''"
  shows "ends t A H False False (Some True) (handle_dir_common n t details stat_cmd)"
proof -
  let ?m = "abind get_arg (\<lambda>x. let (option_str, filter_str) = list_args x in
           if filter_str = [] then send_listing n t details stat_cmd option_str False []
           else
             abind (resolve_tilde t filter_str) (\<lambda>p.
             abind (access_check_file t p) (\<lambda>ok.
               if \<not> ok then no_permission else send_listing n t details stat_cmd option_str True p)))"
  have m: "ends t A H a False (Some True) ?m" if "\<not> stat_cmd \<longrightarrow> a" for a
    unfolding no_permission_def split_beta Let_def
    by (intro step_bind [OF k_arg] avalid_if step_bind [OF k_tilde] step_bind [OF k_access] v_send_listing assms that
        list_args_free ends_reply)
  show ?thesis
  proof (cases stat_cmd)
    case True
    show ?thesis using m [of False] unfolding handle_dir_common_def eqTrueI [OF True] by (simp add: abind_aret)
  next
    case False
    show ?thesis using v_checked [OF m [of True]] unfolding handle_dir_common_def Eq_FalseI [OF False] by simp
  qed
qed

text \<open>Uploads.\<close>

lemma k_unique: "NUL \<notin> set p \<Longrightarrow> gives (inv t A H a d l) (stopped t A H) (get_unique_filename n p) (\<lambda>x. NUL \<notin> set x)"
proof -
  assume p: "NUL \<notin> set p"
  have "gives (inv t A H a d l) (stopped t A H) (unique_loop n p k) (\<lambda>x. NUL \<notin> set x)" for k
  proof (induction n arbitrary: k)
    case (Suc n)
    show ?case unfolding unique_loop.simps Let_def
      by (intro gives_bindk full.calls gives_if gives_ret Suc) (simp add: p)
  qed (simp add: full.hang)
  then show ?thesis unfolding get_unique_filename_def
    by (intro gives_bindk full.calls gives_if gives_ret p)
qed

lemma k_upload_prepare:
  assumes "may_create t A" and "c \<longrightarrow> may_write t ''anon_other_write_enable'' A"
  shows "keeps (inv t A H a d l) (stopped t A H) (upload_prepare t fd is_append c offset)"
proof -
  have ch: "keeps (inv t A H a d l) (stopped t A H) (aseq (vsf_sysutil_fchmod fd m) (chown_upload t fd))"
    if "is_anonymous (child w) \<and> tbool t ''chown_uploads''" "inv t A H a d l w" for m w
    using that assms(1) inv_anon [OF that(2)] by (intro gives_seq full.fd_calls k_chown) auto
  have tr: "keeps (inv t A H a d l) (stopped t A H) (aseq (vsf_sysutil_ftruncate fd) (vsf_sysutil_lseek_to fd 0))" if c
    using that assms(2) by (intro gives_seq full.fd_calls full.calls) simp
  show ?thesis unfolding upload_prepare_def
    by (intro gives_with gives_bindk full.calls gives_seq k_when ch tr)
qed

lemma v_upload_receive: "ends t A H True False (Some False) (upload_receive t fd msg)"
proof -
  have tail: "ends t A H False False None (aseq (if c = -1 then cmdio_write s1 x1 else awith (\<lambda>v.
      if c = -2 \<or> abor_received (child v) then cmdio_write s2 x2 else cmdio_write s3 x3)) (aseq check_abor (aret b)))"
    for c :: int and s1 x1 s2 x2 s3 x3 b
    by (intro ends_keep gives_seq gives_if gives_with k_basic)
  let ?m = "\<lambda>r. awith (\<lambda>w. abind (vsf_ftpdataio_transfer_file t r fd True
                  (tbool t ''ascii_upload_enable'' \<and> is_ascii (child w))) (\<lambda>tr.
         abind vsf_ftpdataio_dispose_transfer_fd (\<lambda>dispose_ret.
           let res = disposed tr dispose_ret in
           aseq (upd_child (\<lambda>s. s\<lparr>transfer_size := int (transferred tr)\<rparr>))
           (aseq (if res = 0 then vsf_log_do_log True else aret ())
           (aseq (if res = -1 then cmdio_write FTP_BADSENDFILE ''Failure writing to local file.''
                  else awith (\<lambda>v.
                    if res = -2 \<or> abor_received (child v)
                    then cmdio_write FTP_BADSENDNET ''Failure reading network stream.''
                    else cmdio_write FTP_TRANSFEROK ''File receive OK.''))
           (aseq check_abor (aret (res = 0))))))))"
  have m: "ends t A H False True (Some False) (?m r)" for r
    unfolding Let_def
    by (intro step_with step_bindk k_transfer_file avalid_abind [OF v_dispose] step_seq k_fields
        avalid_aseq [OF v_maybe_log] tail)
  have no: "ends t A H False False (Some False) (aret False)" by (intro ends_keep gives_ret TrueI)
  have "ends t A H False (0 \<le> r) (Some False) (if r < 0 then aret False else ?m r)" for r
    using m [of r] no by (cases "r < 0") (simp_all add: not_less)
  then show ?thesis unfolding upload_receive_def by (rule avalid_abind [OF v_remote_fd])
qed

lemma k_upload:
  assumes "may_create t A" and "is_append \<longrightarrow> may_write t ''anon_other_write_enable'' A"
  shows "ends t A H False False (Some True) (handle_upload_common n t is_append is_unique)"
proof -
  have other: "may_write t ''anon_other_write_enable'' A"
    if "inv t A H a d l w" "\<not> (is_unique \<or> is_anonymous (child w) \<and> \<not> tbool t ''anon_other_write_enable'')" for a d l w
    using that assms(1) inv_anon [OF that(1)] by (auto simp: may_write_def)
  have cr: "keeps (inv t A H True False (Some False)) (stopped t A H)
      (if fresh then str_create f else str_create_append t f)"
    if "file_allowed t f" "NUL \<notin> set f" "\<not> fresh \<longrightarrow> may_write t ''anon_other_write_enable'' A" for f fresh
    using that assms(1) by (intro gives_if full.file_calls) auto
  have fin: "ends t A H False False None (aseq (data_cleanup t) (aseq (if tbool t ''delete_failed_uploads'' \<and> \<not> b
      then abind (str_unlink f) (\<lambda>_. aret ()) else aret ()) (vsf_sysutil_close fd)))"
    if "file_allowed t f" "NUL \<notin> set f" for f b fd
    using that assms(1)
    by (intro ends_keep gives_seq k_data_cleanup k_when gives_bindk full.file_calls full.calls gives_ret) auto
  have uniq: "gives (inv t A H a d l) (stopped t A H) (if is_unique then get_unique_filename n p else aret p) (\<lambda>x. NUL \<notin> set x)"
    if "NUL \<notin> set p" for p a d l
    using that by (intro gives_if k_unique gives_ret)
  show ?thesis unfolding handle_upload_common_def no_permission_def Let_def
    by (intro step_with step_seq k_fields v_checked step_bind [OF k_resolved] step_bind [OF uniq] avalid_aseq [OF v_log_path]
        step_bind [OF k_access] avalid_if ends_reply step_bindk [OF cr] k_upload_prepare assms(1)
        avalid_abind [OF v_upload_receive] fin) (auto dest: other)
qed

section \<open>The command loop\<close>

lemma strip_crs_subset: "set (strip_crs n s) \<subseteq> set s"
  by (induction n s rule: strip_crs.induct) (auto dest: in_set_takeD split: if_splits)

lemma get_cmd_free:
  assumes "vsf_cmdio_get_cmd_and_arg lg st = Inr (cmd, arg, r)"
  shows "NUL \<notin> set arg"
proof -
  have "NUL \<notin> set (strip_crs n (t_replace_char x NUL LF))" for n x
    using strip_crs_subset [of n "t_replace_char x NUL LF"] by (auto simp: t_replace_char_def)
  then show ?thesis using assms
    by (auto simp: vsf_cmdio_get_cmd_and_arg_def control_getline_def rbind_eq_Inr Let_def split_beta split_char_free
        split: if_splits)
qed

lemma k_get_cmd: "keeps (inv t A H a d l) (stopped t A H) (get_cmd_and_arg t)"
proof -
  have upd: "inv t A H a d l (w\<lparr>ctl_in := st, child := (child w)\<lparr>ftp_cmd_str := c, ftp_arg_str := x\<rparr>\<rparr>)"
    if "inv t A H a d l w" "NUL \<notin> set x" for w st c x
    using that by (cases "server t") (simp_all add: inv_defs chan_def texts_ok_def sess_ok_def)
  have "stopped t A H e w" if "inv t A H a d l w" "vsf_cmdio_get_cmd_and_arg lg st = Inl e" for w e lg st
    using that get_cmd_benign [OF that(2)] by (simp add: stopped_def inv_defs)
  then show ?thesis unfolding get_cmd_and_arg_def gives_def avalid_def
    by (auto intro: upd dest: get_cmd_free split: sum.splits prod.splits)
qed

lemma v_pending: "valid t A H (inv t A H a False None) log_pending_entry (\<lambda>_. inv t A H a False (Some True))"
proof -
  have "valid t A H (\<lambda>w. inv t A H a False (Some (\<not> p)) w) (if p then vsf_log_do_log False else aret ())
      (\<lambda>_. inv t A H a False (Some True))" for p
    using v_do_log [of t A H a False False] by (cases p) (auto intro: avalid_aret)
  moreover have "valid t A H (inv t A H a False None) vsf_log_entry_pending (\<lambda>p w. inv t A H a False (Some (\<not> p)) w)"
    unfolding vsf_log_entry_pending_def by (auto simp: avalid_def awith_def aret_def inv_def pre_inv_def)
  ultimately show ?thesis unfolding log_pending_entry_def by (rule avalid_abind [rotated])
qed

text \<open>The rules for all commands; a handler that keeps the stage ends between commands.\<close>

lemmas handler_rules =
  ends_keep [OF k_reply(1)] ends_keep [OF k_reply(4)] ends_keep [OF k_pwd] ends_keep [OF k_cwd] ends_keep [OF k_cdup]
  ends_keep [OF v_pasv_handler] ends_keep [OF k_help] ends_keep [OF k_type] ends_keep [OF k_port_handler] ends_keep [OF k_rest]
  ends_keep [OF k_size] ends_keep [OF k_mdtm] ends_keep [OF k_eprt] ends_keep [OF k_stru] ends_keep [OF k_mode]
  ends_keep [OF k_feat] ends_keep [OF k_opts] ends_keep [OF k_stat] ends_keep [OF k_user] ends_keep [OF gives_ret]
  k_retr k_dir_common k_upload k_mkd k_rmd k_dele k_rnfr k_rnto

lemma v_dispatch:
  assumes "tstr t ''pasv_address'' = None"
  shows "ends t A H False False (Some True) (dispatch_cmd n t)"
  unfolding dispatch_cmd_def no_permission_def handle_logged_in_pass_def Let_def
  by (intro step_with avalid_if handler_rules assms) (auto simp: inv_anon k_site)

lemma v_round:
  assumes "tstr t ''pasv_address'' = None"
  shows "keeps (inv t A H False False (Some True)) (stopped t A H) (post_login_round n t)"
proof -
  have "valid t A H (inv t A H False False (Some True)) (post_login_round n t) (\<lambda>_. inv t A H False False (Some True))"
    unfolding post_login_round_def
    by (intro step_seq k_get_cmd avalid_aseq [OF v_dispatch v_pending] assms)
  then show ?thesis by (simp add: gives_def)
qed

lemma v_loop:
  assumes "tstr t ''pasv_address'' = None"
  shows "keeps (inv t A H False False (Some True)) (stopped t A H) (post_login_loop k n t)"
  by (induction k) (auto intro: full.hang gives_seq v_round assms)

lemma k_start: "keeps (inv t A H a d l) (stopped t A H) (post_login_start t)"
proof -
  have home: "keeps (inv t A H a d l) E (upd_child (\<lambda>s. s\<lparr>home_str := x\<rparr>))" if "NUL \<notin> set x" for x E
    using that by (rule k_fields)
  have rate: "keeps (inv t A H a d l) E (upd_child (\<lambda>s. s\<lparr>bw_rate_max := x\<rparr>))" for x E by (rule k_fields)
  show ?thesis unfolding post_login_start_def Let_def
    by (intro gives_bind [OF full.getcwd] gives_seq gives_with k_umask home rate k_banner k_reply)
qed

text \<open>A state in which a session after the login starts.\<close>

definition session_start :: "tunables \<Rightarrow> bool \<Rightarrow> string \<Rightarrow> world \<Rightarrow> bool" where
  "session_start t A H w \<longleftrightarrow>
     trace w = [] \<and> sess_ok H (child w) \<and> sess_ok H (parent w) \<and> is_anonymous (child w) = A \<and>
     NUL \<notin> set (ftp_arg_str (child w)) \<and> NUL \<notin> set (home_str (child w)) \<and> rnfr_filename_str (child w) = [] \<and>
     cstr (user_str (child w)) \<noteq> [] \<and> cstr (remote_ip_str (child w)) \<noteq> [] \<and> s_deny_str w = [] \<and>
     (\<forall>b xs. set (str_sort (os w) b xs) \<subseteq> set xs) \<and> p_port_sockaddr (child w) = None \<and>
     pasv_listen_fd (child w) = -1 \<and> pasv_listen_fd (parent w) = -1 \<and> data_fd (child w) = -1 \<and> log_type (child w) = None \<and> idle w"

lemma session_start_inv: "session_start t A H w \<Longrightarrow> inv t A H False False (Some True) w"
  unfolding session_start_def inv_defs texts_ok_def by (cases "server t") simp_all

lemma session_valid:
  assumes "tstr t ''pasv_address'' = None" and "session_start t A H w"
  shows "case process_post_login k n t w of (Inl e, w1) \<Rightarrow> stopped t A H e w1 | (Inr _, w1) \<Rightarrow> inv t A H False False (Some True) w1"
proof -
  have "keeps (inv t A H False False (Some True)) (stopped t A H) (process_post_login k n t)"
    unfolding process_post_login_def by (intro gives_seq k_start v_loop assms(1))
  then show ?thesis using session_start_inv [OF assms(2)] unfolding gives_def avalid_def
    by (auto split: prod.splits sum.splits)
qed

lemma session_trace:
  assumes "tstr t ''pasv_address'' = None" and "session_start t A H w"
  shows "list_all (call_ok t A H) (trace (snd (process_post_login k n t w)))"
  using session_valid [OF assms, of k n]
  by (auto simp: stopped_def inv_def pre_inv_def base_ok_def split: prod.splits sum.splits)

section \<open>Properties\<close>

lemma loop_never_returns: "\<exists>e w1. post_login_loop k n t w = (Inl e, w1)"
proof (induction k arbitrary: w)
  case (Suc k)
  obtain r v where r: "post_login_round n t w = (r, v)" by fastforce
  show ?case
  proof (cases r)
    case (Inr u)
    then show ?thesis using r Suc [of v] by (simp add: aseq_def abind_def)
  qed (simp add: aseq_def abind_def r)
qed (simp add: astop_def)

text \<open>A session whose client sends the lines \<open>ls\<close>.\<close>

definition demo_client :: "string list \<Rightarrow> world" where
  "demo_client ls = (demo_world (concat (map (\<lambda>l. l @ [CR, LF]) ls)))\<lparr>child := demo_session\<lparr>is_anonymous := False\<rparr>, parent := demo_session\<rparr>"

definition demo_tunables :: tunables where
  "demo_tunables = \<lparr>tbool = (\<lambda>s. s \<in> {''write_enable'', ''download_enable'', ''dirlist_enable'', ''pasv_enable''}),
     tuint = (\<lambda>_. 0), tstr = [''deny_file'' \<mapsto> ''secret'']\<rparr>"

lemma demo_start: "session_start t False (v4_pattern @ [CHR 0x0A, NUL, NUL, CHR 0x02]) (demo_client ls)"
  by (simp add: session_start_def demo_client_def demo_world_def demo_session_def demo_os_def sess_ok_def chan_def cstr_def)





text \<open>The calls that change the file system.\<close>

fun modifies :: "call \<Rightarrow> bool" where
  "modifies (CreateFile p) \<longleftrightarrow> True"
| "modifies (CreateOrOpen p m) \<longleftrightarrow> True"
| "modifies (Ftruncate fd) \<longleftrightarrow> True"
| "modifies (Mkdir p m) \<longleftrightarrow> True"
| "modifies (Rmdir p) \<longleftrightarrow> True"
| "modifies (Unlink p) \<longleftrightarrow> True"
| "modifies (Rename p q) \<longleftrightarrow> True"
| "modifies (Chmod p m) \<longleftrightarrow> True"
| "modifies (Fchmod fd m) \<longleftrightarrow> True"
| "modifies (Fchown fd u) \<longleftrightarrow> True"
| "modifies (Utime p m) \<longleftrightarrow> True"
| "modifies c \<longleftrightarrow> False"

lemma modifies_needs_write: "call_ok t A H c \<Longrightarrow> modifies c \<Longrightarrow> tbool t ''write_enable''"
  by (cases c) (auto simp: may_write_def)

text \<open>
  C4: a server without \<open>write_enable\<close> is read-only: no session after the login makes a call that changes the file
  system, whoever has logged in and whatever the other settings are.
\<close>

theorem read_only_session:
  assumes "tstr t ''pasv_address'' = None" and "session_start t A H w" and "\<not> tbool t ''write_enable''"
  shows "list_all (\<lambda>c. \<not> modifies c) (trace (snd (process_post_login k n t w)))"
  using session_trace [OF assms(1,2)] by (rule list.pred_mono_strong) (use modifies_needs_write assms(3) in blast)

theorem read_only_session_witness:
  "list_all (\<lambda>c. \<not> modifies c) (trace (snd (process_post_login 4 1 (demo_tunables\<lparr>tbool := (\<lambda>_. False)\<rparr>)
     (demo_client [''DELE a'', ''STOR b'', ''QUIT'']))))"
  by (rule read_only_session [OF _ demo_start]) (simp_all add: demo_tunables_def)



end
