(* ===== verification/Session_Progress.thy ===== *)
theory Session_Progress
  imports Postlogin
begin

text \<open>
  Progress of a session after the login: no action takes back what has been sent or puts anything back into the control
  connection (\<open>steady\<close>), every command is answered (\<open>answers\<close>), and the command loop takes at most one round
  per byte of input.
\<close>

section \<open>Rules\<close>

definition steady :: "bool \<Rightarrow> 'a act \<Rightarrow> bool" where
  "steady ch m \<longleftrightarrow>
     (\<forall>w r w1. m w = (r, w1) \<longrightarrow> prefix (sent w) (sent w1) \<and> length (input (ctl_in w1)) \<le> length (input (ctl_in w)) \<and>
        (\<forall>x. ch \<longrightarrow> idle w \<longrightarrow> r = Inr x \<longrightarrow> idle w1))"

named_theorems steady_intros \<open>actions that are steady\<close>

lemma steady_bind [steady_intros]:
  assumes "steady ch m" and "\<And>x. steady ch (f x)"
  shows "steady ch (abind m f)"
  unfolding steady_def
proof (intro allI impI)
  fix w r2 w2 assume w2: "abind m f w = (r2, w2)"
  obtain r v where r: "m w = (r, v)" by fastforce
  note M = assms(1) [unfolded steady_def, rule_format, OF r]
  show "prefix (sent w) (sent w2) \<and> length (input (ctl_in w2)) \<le> length (input (ctl_in w)) \<and>
      (\<forall>x. ch \<longrightarrow> idle w \<longrightarrow> r2 = Inr x \<longrightarrow> idle w2)"
  proof (cases r)
    case (Inl e)
    then show ?thesis using M r w2 by (auto simp: abind_def)
  next
    case (Inr x)
    then have "f x v = (r2, w2)" using r w2 by (simp add: abind_def)
    from assms(2) [of x, unfolded steady_def, rule_format, OF this] M Inr show ?thesis
      by (auto intro: prefix_order.trans)
  qed
qed

lemma steady_seq [steady_intros]: "steady ch m \<Longrightarrow> steady ch n \<Longrightarrow> steady ch (aseq m n)"
  unfolding aseq_def by (rule steady_bind)

lemma steady_flow [steady_intros]:
  "steady ch (aret x)" "steady ch (astop e)" "steady ch (alift r)" "steady ch (sys c)" "steady ch (upd_child f)" "steady ch (upd_sess sd g)"
  "(\<And>w. steady ch (h w)) \<Longrightarrow> steady ch (awith h)"
  "(b \<Longrightarrow> steady ch m) \<Longrightarrow> (\<not> b \<Longrightarrow> steady ch n) \<Longrightarrow> steady ch (if b then m else n)"
  "steady ch m \<Longrightarrow> (\<And>a. steady ch (k a)) \<Longrightarrow> steady ch (case y of None \<Rightarrow> m | Some a \<Rightarrow> k a)"
  by (cases sd; cases y; simp add: steady_def aret_def astop_def alift_def sys_def upd_child_def awith_def chan_def)+

lemma steady_sockaddr [steady_intros]:
  "steady ch m \<Longrightarrow> (\<And>a p. steady ch (f a p)) \<Longrightarrow> (\<And>a p s. steady ch (g a p s)) \<Longrightarrow>
   steady ch (case x of AF_UNSPEC \<Rightarrow> m | AF_INET a p \<Rightarrow> f a p | AF_INET6 a p s \<Rightarrow> g a p s)"
  by (cases x) simp_all

text \<open>Actions on parts of the state that do not matter.\<close>

lemma steady_parts [steady_intros]:
  "steady ch (vsf_log_common b what x)" "steady ch (access_check_file t p)" "steady ch (set_hide_str acc)"
  "steady ch (\<lambda>v. (Inr (), v\<lparr>s_pasv_sockaddr := z\<rparr>))" "steady ch (\<lambda>w. (Inr (), w\<lparr>s_current_umask := u\<rparr>))"
  unfolding vsf_log_common_def access_check_file_def set_hide_str_def
  by (auto simp: steady_def Let_def chan_def split: prod.splits)

lemma steady_io [steady_intros]:
  "steady ch (emit wr)" "steady ch (get_cmd_and_arg t)" "steady ch (get_async_cmd t)"
  by (auto simp: steady_def emit_def get_cmd_and_arg_def get_async_cmd_def chan_def dest: get_cmd_progress
      split: sum.splits prod.splits)

text \<open>The socket pair is idle only after a whole exchange.\<close>

lemma steady_channel [steady_intros]:
  "steady False (child_send s)" "steady False (parent_send s)" "steady False (parent_recv r)" "steady False (child_recv q)"
  "steady False (child_send_fd fd)" "steady False (parent_send_fd fd)" "steady False parent_recv_fd" "steady False child_recv_fd"
  unfolding child_send_def parent_send_def parent_recv_def child_recv_def child_send_fd_def parent_send_fd_def
    parent_recv_fd_def child_recv_fd_def
  by (auto simp: steady_def split: sum.splits prod.splits list.splits)

lemma steady_writes [steady_intros]:
  "steady ch (cmdio_write st x)" "steady ch (cmdio_write_hyphen st x)" "steady ch (cmdio_write_raw x)" "steady ch (cmdio_write_exit st x)"
  unfolding cmdio_write_def cmdio_write_hyphen_def cmdio_write_raw_def cmdio_write_exit_def by (intro steady_intros)+

section \<open>System calls and privileged operations\<close>

lemma steady_die_if [steady_intros]: "steady ch (die_if s bad c)"
  unfolding die_if_def by (intro steady_intros)

lemma steady_fd_calls [steady_intros]:
  "steady ch (vsf_sysutil_close fd)" "steady ch (vsf_sysutil_fstat fd)" "steady ch (vsf_sysutil_get_file_offset fd)"
  "steady ch (vsf_sysutil_lseek_to fd pos)" "steady ch (vsf_sysutil_ftruncate fd)" "steady ch (vsf_sysutil_fchmod fd m)"
  "steady ch (vsf_sysutil_fchown fd uid)" "steady ch (vsf_sysutil_dir_stat d)" "steady ch (vsf_sysutil_set_umask m)"
  "steady ch (vsf_sysutil_lock_file_read fd)" "steady ch (vsf_sysutil_lock_file_write fd)" "steady ch (vsf_sysutil_closedir d)"
  unfolding vsf_sysutil_close_def vsf_sysutil_fstat_def vsf_sysutil_get_file_offset_def vsf_sysutil_lseek_to_def
    vsf_sysutil_ftruncate_def vsf_sysutil_fchmod_def vsf_sysutil_fchown_def vsf_sysutil_dir_stat_def
    vsf_sysutil_set_umask_def vsf_sysutil_lock_file_read_def vsf_sysutil_lock_file_write_def vsf_sysutil_closedir_def
  by (intro steady_intros)+

lemma steady_str_calls [steady_intros]:
  "steady ch str_getcwd" "steady ch (str_mkdir s m)" "steady ch (str_rmdir s)" "steady ch (str_unlink s)" "steady ch (str_chdir s)"
  "steady ch (str_open s)" "steady ch (str_stat s)" "steady ch (str_create s)" "steady ch (str_create_append t s)"
  "steady ch (str_chmod s m)" "steady ch (str_rename s s1)" "steady ch (str_opendir s)" "steady ch (str_getpwnam s)"
  "steady ch (sys_fileread f k)"
  unfolding str_getcwd_def str_mkdir_def str_rmdir_def str_unlink_def str_chdir_def str_open_def str_stat_def
    str_create_def str_create_append_def str_chmod_def str_rename_def str_opendir_def str_getpwnam_def sys_fileread_def
  by (intro steady_intros)+

lemma steady_sockets [steady_intros]:
  "steady ch (vsf_sysutil_get_ipsock p)" "steady ch (vsf_sysutil_bind fd p)" "steady ch (vsf_sysutil_listen fd)"
  "steady ch (vsf_sysutil_accept_timeout fd)" "steady ch (vsf_sysutil_connect_timeout fd p)" "steady ch vsf_sysutil_get_random_byte"
  unfolding vsf_sysutil_get_ipsock_def vsf_sysutil_bind_def vsf_sysutil_listen_def vsf_sysutil_accept_timeout_def
    vsf_sysutil_connect_timeout_def vsf_sysutil_get_random_byte_def
  by (intro steady_intros)+

lemma steady_port_bind [steady_intros]: "steady ch (port_bind_loop n sd fd port)"
  by (induction n) (auto intro!: steady_intros)

lemma steady_pasv_bind [steady_intros]: "steady ch (pasv_bind_loop n t sd)"
  by (induction n) (auto simp: Let_def intro!: steady_intros)

lemma steady_privops [steady_intros]:
  "steady ch (vsf_privop_get_ftp_port_sock t sd port)" "steady ch (vsf_privop_pasv_cleanup sd)" "steady ch (vsf_privop_pasv_active sd)"
  "steady ch (vsf_privop_pasv_listen t sd)" "steady ch (vsf_privop_accept_pasv t sd)" "steady ch (vsf_privop_do_file_chown sd fd)"
  unfolding vsf_privop_get_ftp_port_sock_def vsf_privop_pasv_cleanup_def vsf_privop_pasv_active_def
    vsf_privop_pasv_listen_def vsf_privop_accept_pasv_def vsf_privop_do_file_chown_def split_beta Let_def
  by (intro steady_intros)+

lemma steady_requests [steady_intros]: "steady False (process_post_login_req t)" "steady ch port_wanted"
  unfolding process_post_login_req_def serve_cmd_def cmd_process_chown_def cmd_process_get_data_sock_def
    cmd_process_pasv_cleanup_def cmd_process_pasv_active_def cmd_process_pasv_listen_def cmd_process_pasv_accept_def
    port_wanted_def
  by (intro steady_intros)+

lemma steady_exchanges:
  "steady False (pasv_cleanup t)" "steady False (pasv_query t)" "steady False (pasv_listen t)" "steady False (get_pasv_fd t)"
  "steady False (get_port_fd t)" "steady False (chown_upload t fd)"
  unfolding pasv_cleanup_def pasv_query_def pasv_listen_def get_pasv_fd_def get_port_fd_def chown_upload_def
    vsf_two_process_pasv_cleanup_def vsf_two_process_pasv_active_def vsf_two_process_listen_def
    vsf_two_process_get_pasv_fd_def vsf_one_process_get_priv_data_sock_def vsf_two_process_get_priv_data_sock_def
    vsf_two_process_chown_upload_def
  by (intro steady_intros)+

text \<open>A whole exchange leaves the socket pair idle, by the contract of the process models.\<close>

lemma steady_whole:
  assumes "steady False m" and "avalid (\<lambda>w. True \<and> idle w) m (\<lambda>_ w. idle w) (\<lambda>_ _. True)"
  shows "steady ch m"
  using assms unfolding steady_def avalid_def by (fastforce split: prod.splits sum.splits)

lemma any_stable [simp]: "chan_stable (\<lambda>_. b)" "close_stable (\<lambda>_. b)" "endable P (\<lambda>_ _. True)"
  by (simp_all add: chan_stable_def close_stable_def endable_def)

lemma avalid_any: "avalid P m (\<lambda>_ _. True) (\<lambda>_ _. True)"
  by (auto simp: avalid_def split: prod.splits sum.splits)

lemma serves_idle: "serves m priv \<Longrightarrow> avalid (\<lambda>w. True \<and> idle w) m (\<lambda>_ w. idle w) (\<lambda>_ _. True)"
  unfolding serves_def
  by (drule spec [of _ "\<lambda>_. True"], drule spec [of _ "\<lambda>_ _. True"], drule spec [of _ "\<lambda>_ _. True"])
    (simp add: avalid_any under_def [abs_def])

lemma steady_services [steady_intros]:
  "steady ch (pasv_cleanup t)" "steady ch (pasv_query t)" "steady ch (pasv_listen t)" "steady ch (get_pasv_fd t)"
  by (rule steady_whole [OF steady_exchanges(1) serves_idle [OF cleanup_svc.serves_priv]]
      steady_whole [OF steady_exchanges(2) serves_idle [OF query_svc.serves_priv]]
      steady_whole [OF steady_exchanges(3) serves_idle [OF listen_svc.serves_priv]]
      steady_whole [OF steady_exchanges(4) serves_idle [OF accept_svc.serves_priv]])+

lemma steady_chown [steady_intros]:
  assumes "tbool t ''chown_uploads''"
  shows "steady ch (chown_upload t fd)"
proof (rule steady_whole [OF steady_exchanges(6)])
  have "avalid (\<lambda>w. True \<and> idle w) (vsf_privop_do_file_chown OnChild fd) (\<lambda>_ w. idle w) (\<lambda>_ _. True)"
    by (rule serves_idle) (rule serves_self, simp)
  then show "avalid (\<lambda>w. True \<and> idle w) (chown_upload t fd) (\<lambda>_ w. idle w) (\<lambda>_ _. True)"
    using serves_idle [OF serves_chown [OF assms]] by (simp add: chown_upload_def)
qed

lemma steady_port_fd [steady_intros]: "steady ch (get_port_fd t)"
proof (rule steady_whole [OF steady_exchanges(5)])
  have one: "avalid (\<lambda>w. True \<and> idle w) (vsf_one_process_get_priv_data_sock t) (\<lambda>_ w. idle w) (\<lambda>_ _. True)"
    unfolding vsf_one_process_get_priv_data_sock_def port_wanted_def
    by (rule serves_idle, rule serves_self) (auto intro!: framed_bind framed_with split: option.splits)
  have st: "chan_stable port_named" by (simp add: chan_stable_def port_named_def)
  have "avalid (under port_named ([], [], [], [])) (vsf_two_process_get_priv_data_sock t) (\<lambda>x w. True \<and> idle w) (\<lambda>_ _. True)"
    by (rule serves_port) (simp_all add: st avalid_any)
  moreover have "\<exists>e. port_wanted w = (Inl e, w)" if "\<not> port_named w" for w
    using that by (auto simp: port_wanted_def port_named_def awith_def astop_def alift_def
        vsf_sysutil_sockaddr_get_port_def split: option.splits)
  then have "\<exists>e. vsf_two_process_get_priv_data_sock t w = (Inl e, w)" if "\<not> port_named w" for w
    using that by (fastforce simp: vsf_two_process_get_priv_data_sock_def abind_def)
  ultimately have "avalid (\<lambda>w. True \<and> idle w) (vsf_two_process_get_priv_data_sock t) (\<lambda>_ w. idle w) (\<lambda>_ _. True)"
    unfolding avalid_def under_def by (fastforce split: prod.splits sum.splits)
  then show "avalid (\<lambda>w. True \<and> idle w) (get_port_fd t) (\<lambda>_ w. idle w) (\<lambda>_ _. True)"
    using one by (simp add: get_port_fd_def)
qed

section \<open>Data connections and handlers\<close>

lemma steady_log [steady_intros]:
  "steady ch (vsf_log_start_entry what)" "steady ch vsf_log_clear_entry" "steady ch vsf_log_entry_pending" "steady ch (vsf_log_do_log b)"
  unfolding vsf_log_start_entry_def vsf_log_clear_entry_def vsf_log_entry_pending_def vsf_log_do_log_def
  by (intro steady_intros)+

lemma steady_lines [steady_intros]: "steady ch (banner_lines code ls)" "steady ch (raw_lines ls)" "steady ch (raw_texts ls)"
  by (induction ls) (auto intro!: steady_intros)

lemma steady_signals [steady_intros]: "steady ch (signals_of t r)"
proof -
  have "steady ch (urgent_signals t n)" for n
    by (induction n) (auto simp: handle_sigurg_def Let_def intro!: steady_intros)
  then show ?thesis unfolding signals_of_def by (intro steady_intros)
qed

lemma steady_pump [steady_intros]: "steady ch (pump t fd fd1 loop)"
  unfolding pump_def split_beta by (intro steady_intros)

lemma steady_sendfile [steady_intros]: "steady ch (vsf_sysutil_sendfile out_fd in_fd off k m)"
proof -
  have "steady ch (sendfile_loop n out_fd in_fd off k m)" for n off k m
  proof (induction n arbitrary: off k)
    case (Suc n)
    then show ?case by (subst sendfile_loop.simps) (auto intro!: steady_intros)
  qed (subst sendfile_loop.simps, auto intro: steady_intros)
  then show ?thesis unfolding vsf_sysutil_sendfile_def by (intro steady_intros)
qed

lemma steady_conn [steady_intros]:
  "steady ch (init_data_sock_params fd)" "steady ch vsf_ftpdataio_dispose_transfer_fd" "steady ch (vsf_ftpdataio_post_mark_connect t)"
  "steady ch (vsf_ftpdataio_transfer_file t fd fd1 recv asc)"
  unfolding init_data_sock_params_def vsf_ftpdataio_dispose_transfer_fd_def vsf_ftpdataio_post_mark_connect_def
    vsf_ftpdataio_transfer_file_def split_beta
  by (intro steady_intros)+

lemma steady_get_fd [steady_intros]: "steady ch (vsf_ftpdataio_get_pasv_fd t)" "steady ch (vsf_ftpdataio_get_port_fd t)"
  unfolding vsf_ftpdataio_get_pasv_fd_def vsf_ftpdataio_get_port_fd_def by (intro steady_intros)+

lemma steady_write_to [steady_intros]: "steady ch (ftp_write_to t c wr)"
proof -
  have "steady ch (\<lambda>w. case wr (ctl_out w) of Inl e \<Rightarrow> (Inl e, w)
      | Inr (ret, b, ks) \<Rightarrow> (Inr ret, w\<lparr>sent := sent w @ b, ctl_out := ks\<rparr>))"
    by (auto simp: steady_def chan_def split: sum.splits prod.splits)
  then show ?thesis unfolding ftp_write_to_def split_beta by (intro steady_intros)
qed

lemma steady_transfer_dir [steady_intros]: "steady ch (vsf_ftpdataio_transfer_dir n t c d base opt f v)"
proof -
  have sub: "steady ch (subdir_loop t c tr base ds)" if "\<And>d b. steady ch (tr d b)" for tr base ds
    using that by (induction ds) (auto intro!: steady_intros)
  have "steady ch (transfer_dir_internal n t c opt f v d base)" for d base
  proof (induction n arbitrary: d base)
    case (Suc n)
    then show ?case unfolding transfer_dir_internal.simps Let_def split_beta by (intro steady_intros sub)
  qed (simp add: steady_intros)
  then show ?thesis unfolding vsf_ftpdataio_transfer_dir_def .
qed

lemma steady_banner [steady_intros]: "steady ch (vsf_banner_dir_changed t code)"
  unfolding vsf_banner_dir_changed_def vsf_banner_write_def split_beta by (intro steady_intros)

lemma steady_names [steady_intros]:
  "steady ch get_arg" "steady ch (set_arg x)" "steady ch (resolve_tilde t p)" "steady ch (prepend_path_to_filename p)" "steady ch port_cleanup"
  "steady ch check_abor" "steady ch (data_cleanup t)"
  unfolding get_arg_def set_arg_def resolve_tilde_def split_beta Let_def prepend_path_to_filename_def port_cleanup_def
    check_abor_def data_cleanup_def
  by (intro steady_intros)+

lemma steady_paths [steady_intros]: "steady ch (resolved_arg t)" "steady ch (log_path what p)"
  unfolding resolved_arg_def log_path_def by (intro steady_intros)+

lemma steady_modes [steady_intros]: "steady ch (pasv_active n t)" "steady ch (port_active n t)"
proof -
  have "steady ch (pasv_active n t) \<and> steady ch (port_active n t)"
    by (induction n) (auto intro!: steady_intros)
  then show "steady ch (pasv_active n t)" "steady ch (port_active n t)" by simp_all
qed

lemma steady_checks [steady_intros]: "steady ch (data_transfer_checks_ok t)" "steady ch (get_remote_transfer_fd t msg)"
  unfolding data_transfer_checks_ok_def get_remote_transfer_fd_def by (intro steady_intros)+

lemma steady_small [steady_intros]:
  "steady ch no_permission" "steady ch (vsf_sysutil_parse_time s)" "steady ch (vsf_sysutil_setmodtime s v b)"
  "steady ch (vsf_sysutil_statbuf_get_numeric_date b)" "steady ch (open_listed_dir named f)" "steady ch (dir_readable t d)"
  "steady ch (transfer_listing n t c d name opts f details allow)" "steady ch (close_listed_dir d)"
  unfolding no_permission_def vsf_sysutil_parse_time_def vsf_sysutil_setmodtime_def vsf_sysutil_statbuf_get_numeric_date_def
    open_listed_dir_def dir_readable_def transfer_listing_def close_listed_dir_def split_beta Let_def
  by (intro steady_intros)+

lemma steady_prepare [steady_intros]: "steady ch (upload_prepare t fd app trunc off)"
  unfolding upload_prepare_def by (intro steady_intros) simp

lemma steady_unique [steady_intros]: "steady ch (get_unique_filename n base)"
proof -
  have "steady ch (unique_loop n base k)" for k
    by (induction n arbitrary: k) (auto simp: Let_def intro!: steady_intros)
  then show ?thesis unfolding get_unique_filename_def by (intro steady_intros)
qed

lemma steady_mode_handlers [steady_intros]:
  "steady ch (port_accept t f port bad good)" "steady ch (handle_pasv_reply t ip6 p)" "steady ch (handle_pasv t e)"
  "steady ch (handle_port t)" "steady ch (handle_eprt t)"
  unfolding port_accept_def handle_pasv_reply_def handle_pasv_def handle_port_def handle_eprt_def split_beta Let_def
  by (intro steady_intros)+

lemma steady_file_handlers [steady_intros]:
  "steady ch handle_pwd" "steady ch (handle_cwd t)" "steady ch (handle_cdup t)" "steady ch (handle_mkd t)" "steady ch (handle_rmd t)"
  "steady ch (handle_dele t)" "steady ch handle_rest" "steady ch (handle_rnfr t)" "steady ch (handle_rnto t)" "steady ch (handle_size t)"
  "steady ch (handle_site_chmod t x)" "steady ch (handle_site_umask x)" "steady ch (handle_site t)" "steady ch (handle_mdtm t)"
  unfolding handle_pwd_def handle_cdup_def handle_cwd_def handle_mkd_def handle_rmd_def handle_dele_def handle_rest_def
    handle_rnfr_def handle_rnto_def handle_size_def handle_site_chmod_def handle_site_umask_def handle_site_def
    handle_mdtm_def split_beta Let_def
  by (intro steady_intros)+

lemma steady_transfers [steady_intros]:
  "steady ch (retr_send t p fd k)" "steady ch (handle_retr t)" "steady ch (send_listing n t details st opts named f)"
  "steady ch (handle_dir_common n t details st)" "steady ch (upload_receive t fd msg)" "steady ch (handle_upload_common n t app uniq)"
  unfolding retr_send_def handle_retr_def send_listing_def handle_dir_common_def upload_receive_def
    handle_upload_common_def split_beta Let_def
  by (intro steady_intros)+

lemma steady_other_handlers [steady_intros]:
  "steady ch handle_type" "steady ch handle_help" "steady ch (handle_stat t)" "steady ch handle_logged_in_user"
  "steady ch handle_logged_in_pass" "steady ch handle_stru" "steady ch handle_mode" "steady ch (handle_feat t)" "steady ch handle_opts"
  unfolding handle_type_def handle_help_def handle_stat_def handle_logged_in_user_def handle_logged_in_pass_def
    handle_stru_def handle_mode_def handle_feat_def handle_opts_def Let_def
  by (intro steady_intros)+

lemma steady_dispatch [steady_intros]: "steady ch (dispatch_cmd n t)" "steady ch log_pending_entry"
  unfolding dispatch_cmd_def log_pending_entry_def Let_def by (intro steady_intros)+

section \<open>Answers\<close>

text \<open>An action that has sent something whenever it returns a value in \<open>F\<close>, from a state with an idle socket pair.\<close>

definition answers_if :: "('a \<Rightarrow> bool) \<Rightarrow> 'a act \<Rightarrow> bool" where
  "answers_if F m \<longleftrightarrow> (\<forall>w x w1. idle w \<longrightarrow> m w = (Inr x, w1) \<longrightarrow> F x \<longrightarrow> length (sent w) < length (sent w1))"

abbreviation answers :: "'a act \<Rightarrow> bool" where
  "answers \<equiv> answers_if (\<lambda>_. True)"

named_theorems answers_intros \<open>actions that answer\<close>

lemma steady_le: "steady ch m \<Longrightarrow> m w = (r, w1) \<Longrightarrow> length (sent w) \<le> length (sent w1)"
  unfolding steady_def by (metis prefix_length_le)

lemma steady_idle: "steady True m \<Longrightarrow> m w = (Inr x, w1) \<Longrightarrow> idle w \<Longrightarrow> idle w1"
  unfolding steady_def by metis

text \<open>Either the first action answers for a value, or the second one does.\<close>

lemma answers_split:
  assumes "steady True m" and "answers_if F m" and "\<And>x. \<not> F x \<Longrightarrow> answers_if G (f x)" and "\<And>x. steady True (f x)"
  shows "answers_if G (abind m f)"
  unfolding answers_if_def
proof (intro allI impI)
  fix w y w2 assume w: "idle w" and y: "abind m f w = (Inr y, w2)" "G y"
  then obtain x v where x: "m w = (Inr x, v)" "f x v = (Inr y, w2)" by (auto simp: abind_def split: prod.splits sum.splits)
  have le: "length (sent w) \<le> length (sent v)" "length (sent v) \<le> length (sent w2)" and v: "idle v"
    using steady_le [OF assms(1) x(1)] steady_le [OF assms(4) x(2)] steady_idle [OF assms(1) x(1) w] .
  show "length (sent w) < length (sent w2)"
  proof (cases "F x")
    case True
    then have "length (sent w) < length (sent v)" using assms(2) x(1) w unfolding answers_if_def by blast
    then show ?thesis using le(2) by simp
  next
    case False
    then have "length (sent v) < length (sent w2)" using assms(3) [of x] x(2) y(2) v unfolding answers_if_def by blast
    then show ?thesis using le(1) by simp
  qed
qed

lemma answers_first: "answers m \<Longrightarrow> steady True m \<Longrightarrow> (\<And>x. steady True (f x)) \<Longrightarrow> answers_if G (abind m f)"
  by (rule answers_split [where F = "\<lambda>_. True"]) auto

lemma answers_value:
  assumes "\<And>w x w1. idle w \<Longrightarrow> m w = (Inr x, w1) \<Longrightarrow> answers_if G (f x)" and "steady True m"
  shows "answers_if G (abind m f)"
  unfolding answers_if_def
proof (intro allI impI)
  fix w y w2 assume w: "idle w" and y: "abind m f w = (Inr y, w2)" "G y"
  then obtain x v where x: "m w = (Inr x, v)" "f x v = (Inr y, w2)" by (auto simp: abind_def split: prod.splits sum.splits)
  have "length (sent v) < length (sent w2)"
    using assms(1) [OF w x(1)] x(2) y(2) steady_idle [OF assms(2) x(1) w] unfolding answers_if_def by blast
  then show "length (sent w) < length (sent w2)" using steady_le [OF assms(2) x(1)] by simp
qed

lemma answers_last: "steady True m \<Longrightarrow> (\<And>x. answers_if G (f x)) \<Longrightarrow> answers_if G (abind m f)"
  by (rule answers_value)

lemma answers_seq:
  "steady True m \<Longrightarrow> answers_if G n \<Longrightarrow> answers_if G (aseq m n)"
  "answers m \<Longrightarrow> steady True m \<Longrightarrow> steady True n \<Longrightarrow> answers_if G (aseq m n)"
  unfolding aseq_def by (rule answers_last answers_first; assumption)+

lemma answers_flow [answers_intros]:
  "answers_if G (astop e)"
  "(\<And>w. answers_if G (h w)) \<Longrightarrow> answers_if G (awith h)"
  "(c \<Longrightarrow> answers_if G m) \<Longrightarrow> (\<not> c \<Longrightarrow> answers_if G n) \<Longrightarrow> answers_if G (if c then m else n)"
  "answers_if G m \<Longrightarrow> (\<And>a. answers_if G (k a)) \<Longrightarrow> answers_if G (case y of None \<Rightarrow> m | Some a \<Rightarrow> k a)"
  by (cases y; simp add: answers_if_def astop_def awith_def)+

lemma answers_none: "\<not> G x \<Longrightarrow> answers_if G (aret x)"
  by (simp add: answers_if_def aret_def)

lemma written_whole:
  assumes "str_netfd_write ks s = Inr (0, b, ks1)" and "s \<noteq> []"
  shows "b \<noteq> []"
proof -
  obtain r where "vsf_sysutil_write_loop ks s = Inr (r, b, ks1)" "length s \<le> INT_MAX" "r = int (length s)"
    using assms by (auto simp: str_netfd_write_def rbind_eq_Inr vsf_sysutil_write_loop_def split: if_splits)
  then show ?thesis using assms(2) sent_whole by blast
qed

lemma answers_write [answers_intros]: "answers (cmdio_write st x)" "answers (cmdio_write_hyphen st x)"
proof -
  have "b \<noteq> []" if "ftp_write_str_common st sep x False ks = Inr (b, ks1)" for sep ks b ks1
    using that by (auto simp: ftp_write_str_common_def rbind_eq_Inr reply_text_def dest: written_whole split: if_splits)
  then show "answers (cmdio_write st x)" "answers (cmdio_write_hyphen st x)"
    by (auto simp: answers_if_def cmdio_write_def cmdio_write_hyphen_def emit_def vsf_cmdio_write_def
        vsf_cmdio_write_hyphen_def split: sum.splits prod.splits)
qed

lemma answers_exit [answers_intros]: "answers_if G (cmdio_write_exit st x)"
  unfolding cmdio_write_exit_def by (intro answers_seq steady_intros answers_intros)

text \<open>Commands whose last action is the reply.\<close>

lemmas answers_tail = answers_last answers_seq(1)

lemma answers_no_permission [answers_intros]: "answers no_permission"
  unfolding no_permission_def by (rule answers_intros)

lemma answers_port_accept [answers_intros]: "answers (port_accept t f port bad good)"
  unfolding port_accept_def
  by (intro answers_last answers_intros answers_seq(1) steady_intros answers_seq(2) [where n = port_cleanup])

lemma answers_pasv [answers_intros]: "answers (handle_pasv_reply t ip6 p)" "answers (handle_pasv t e)"
  unfolding handle_pasv_reply_def handle_pasv_def Let_def by (intro answers_tail answers_intros steady_intros)+

lemma answers_port [answers_intros]: "answers (handle_port t)"
  unfolding handle_port_def by (intro answers_tail answers_intros steady_intros)

lemma answers_eprt [answers_intros]: "answers (handle_eprt t)"
  unfolding handle_eprt_def split_beta Let_def by (intro answers_tail answers_intros steady_intros)

lemma answers_directories [answers_intros]:
  "answers handle_pwd" "answers (handle_cwd t)" "answers (handle_mkd t)" "answers (handle_rmd t)" "answers (handle_dele t)"
  "answers handle_rest" "answers (handle_rnfr t)" "answers (handle_rnto t)" "answers (handle_size t)"
  unfolding handle_pwd_def handle_cwd_def handle_mkd_def handle_rmd_def handle_dele_def handle_rest_def handle_rnfr_def
    handle_rnto_def handle_size_def Let_def
  by (intro answers_tail answers_intros steady_intros)+

lemma answers_cdup [answers_intros]: "answers (handle_cdup t)"
  unfolding handle_cdup_def by (intro answers_tail answers_intros steady_intros)

lemma answers_site [answers_intros]: "answers (handle_site t)"
  unfolding handle_site_def handle_site_chmod_def handle_site_umask_def split_beta Let_def
  by (intro answers_tail answers_intros steady_intros)

lemma answers_mdtm [answers_intros]: "answers (handle_mdtm t)"
  unfolding handle_mdtm_def split_beta Let_def by (intro answers_tail answers_intros steady_intros)

lemma answers_others [answers_intros]:
  "answers handle_type" "answers handle_help" "answers (handle_stat t)" "answers handle_logged_in_user"
  "answers handle_logged_in_pass" "answers handle_stru" "answers handle_mode" "answers (handle_feat t)" "answers handle_opts"
  unfolding handle_type_def handle_help_def handle_stat_def handle_logged_in_user_def handle_logged_in_pass_def
    handle_stru_def handle_mode_def handle_feat_def handle_opts_def Let_def
  by (intro answers_tail answers_intros steady_intros)+

text \<open>Transfers: a refusal is answered by the checks, and a data connection is announced or its failure reported.\<close>

lemma answers_checks: "answers_if Not (data_transfer_checks_ok t)"
  unfolding data_transfer_checks_ok_def
  by (intro answers_last steady_intros answers_intros answers_seq(2) answers_none) simp_all

lemma pasv_fd_values: "idle w \<Longrightarrow> get_pasv_fd t w = (Inr fd, w1) \<Longrightarrow> fd = -1 \<or> fd = -2 \<or> 0 \<le> fd"
proof -
  assume w: "idle w" "get_pasv_fd t w = (Inr fd, w1)"
  have "gives (\<lambda>_. True) (\<lambda>_ _. True) (vsf_privop_accept_pasv t (server t)) (\<lambda>fd. fd = -1 \<or> fd = -2 \<or> 0 \<le> fd)"
    using accept_values [of t "server t"] by (auto simp: gives_def avalid_def returns_def split: prod.splits sum.splits)
  then have "gives (\<lambda>w. True \<and> idle w) (\<lambda>_ _. True) (get_pasv_fd t) (\<lambda>fd. fd = -1 \<or> fd = -2 \<or> 0 \<le> fd)"
    by (intro accept_svc.keeps_inv) simp_all
  then show ?thesis using w unfolding gives_def avalid_def by fastforce
qed

lemma answers_written: "steady True m \<Longrightarrow> answers_if G (aseq (cmdio_write st x) m)"
  by (intro answers_seq(2) answers_write steady_intros)

lemma answers_opened: "0 \<le> fd \<Longrightarrow> answers_if (\<lambda>fd. fd < 0) (aseq (init_data_sock_params fd) (aret fd))"
  by (intro answers_seq(1) steady_intros answers_none) simp

lemma answers_pasv_fd: "answers_if (\<lambda>fd. fd < 0) (vsf_ftpdataio_get_pasv_fd t)"
  unfolding vsf_ftpdataio_get_pasv_fd_def
proof (rule answers_value)
  fix w fd w1 assume "idle w" "get_pasv_fd t w = (Inr fd, w1)"
  then have "fd = -1 \<or> fd = -2 \<or> 0 \<le> fd" by (rule pasv_fd_values)
  then show "answers_if (\<lambda>fd. fd < 0) (if fd = -1
       then aseq (cmdio_write FTP_BADSENDCONN ''Failed to establish connection.'') (aret fd)
       else if fd = -2
       then aseq (cmdio_write FTP_BADSENDCONN ''Security: Bad IP connecting.'')
            (aseq (vsf_sysutil_close fd) (aret (-1)))
       else aseq (init_data_sock_params fd) (aret fd))"
    by (auto intro!: answers_written answers_opened steady_intros)
qed (intro steady_intros)

lemma answers_port_fd: "answers_if (\<lambda>fd. fd < 0) (vsf_ftpdataio_get_port_fd t)"
  unfolding vsf_ftpdataio_get_port_fd_def
proof (rule answers_value)
  fix w fd w1 assume "get_port_fd t w = (Inr fd, w1)"
  show "answers_if (\<lambda>fd. fd < 0) (if fd < 0
       then aseq (cmdio_write FTP_BADSENDCONN ''Failed to establish connection.'') (aret (-1))
       else aseq (init_data_sock_params fd) (aret fd))"
    by (auto intro!: answers_written answers_opened steady_intros)
qed (intro steady_intros)

lemmas answers_get_fd = answers_pasv_fd answers_port_fd

lemma answers_remote_fd: "answers (get_remote_transfer_fd t msg)"
proof -
  let ?F = "\<lambda>fd :: int. fd < 0"
  have conn: "answers (abind (if p then vsf_ftpdataio_get_pasv_fd t else vsf_ftpdataio_get_port_fd t) (\<lambda>fd.
      if fd < 0 then aret fd else aseq (cmdio_write FTP_DATACONN msg) (abind (vsf_ftpdataio_post_mark_connect t) (\<lambda>ret.
        if ret \<noteq> 1 then abind vsf_ftpdataio_dispose_transfer_fd (\<lambda>_. aret (-1)) else aret fd))))" for p
    by (rule answers_split [where F = ?F])
      (auto intro!: steady_intros answers_get_fd answers_intros answers_seq(2))
  have check: "steady True (if p then aret True else port_active 2 t)" for p by (intro steady_intros)
  show ?thesis unfolding get_remote_transfer_fd_def
    by (rule answers_last [OF steady_modes(1)], rule answers_last [OF check], rule answers_flow(3), rule answers_flow(1),
        rule answers_seq(1), rule steady_intros, rule answers_last [OF steady_modes(1)], rule conn)
qed

lemma answers_checked:
  "answers m \<Longrightarrow> steady True m \<Longrightarrow> answers (abind (data_transfer_checks_ok t) (\<lambda>b. if \<not> b then aret () else m))"
  by (rule answers_split [OF _ answers_checks]) (auto intro!: steady_intros)

lemma answers_retr [answers_intros]: "answers (handle_retr t)"
proof -
  have send: "answers (retr_send t p fd k)" for p fd k
    unfolding retr_send_def Let_def by (intro answers_intros answers_first answers_remote_fd steady_intros)
  show ?thesis unfolding handle_retr_def Let_def
    by (intro answers_flow(2) answers_seq(1) answers_checked steady_intros answers_last answers_intros answers_seq(2) send)
qed

lemma answers_dir [answers_intros]: "answers (handle_dir_common n t details st)"
proof -
  have send: "answers (send_listing n t details st opts named f)" for opts named f
    unfolding send_listing_def split_beta
    by (rule answers_last, (rule steady_intros), rule answers_flow(3))
      (intro answers_seq(2) answers_first answers_write answers_remote_fd steady_intros)+
  have m: "answers (abind get_arg (\<lambda>a. let (option_str, filter_str) = list_args a in
           if filter_str = [] then send_listing n t details st option_str False []
           else
             abind (resolve_tilde t filter_str) (\<lambda>p.
             abind (access_check_file t p) (\<lambda>ok.
               if \<not> ok then no_permission else send_listing n t details st option_str True p))))"
    unfolding split_beta Let_def by (intro answers_last answers_intros send steady_intros)
  show ?thesis
  proof (cases st)
    case True
    show ?thesis using m unfolding handle_dir_common_def eqTrueI [OF True] by (simp add: abind_aret)
  next
    case False
    show ?thesis using answers_checked [OF m] unfolding handle_dir_common_def Eq_FalseI [OF False]
      by (simp add: Let_def split_beta steady_intros)
  qed
qed

lemma answers_upload [answers_intros]: "answers (handle_upload_common n t app uniq)"
proof -
  have recv: "answers (upload_receive t fd msg)" for fd msg
    unfolding upload_receive_def Let_def by (intro answers_first answers_remote_fd steady_intros)
  have fin: "answers (abind (upload_receive t fd msg) (\<lambda>success. aseq (data_cleanup t)
      (aseq (if tbool t ''delete_failed_uploads'' \<and> \<not> success then abind (str_unlink f) (\<lambda>_. aret ()) else aret ())
      (vsf_sysutil_close fd))))" for fd msg f
    by (intro answers_first recv steady_intros)
  have create: "steady True (if c then str_create f else str_create_append t f)" for c f by (intro steady_intros)
  have name: "steady True (if uniq then get_unique_filename n p else aret p)" for p by (intro steady_intros)
  show ?thesis unfolding handle_upload_common_def Let_def
    by (intro answers_flow(2,3) answers_seq(1) answers_checked fin answers_last [OF create] answers_last [OF name]
        answers_last [OF steady_paths(1)] answers_last [OF steady_parts(2)] answers_intros steady_intros)
qed

section \<open>The command loop\<close>

lemma answers_with_on:
  assumes "awith f w = (Inr x, w1)" and "idle w" and "P w" and "\<And>w. P w \<Longrightarrow> answers (f w)"
  shows "length (sent w) < length (sent w1)"
  using assms(1,2) assms(4) [OF assms(3)] unfolding awith_def answers_if_def by blast

lemma dispatch_answers:
  assumes "idle w" and "dispatch_cmd n t w = (Inr (), w1)" and "\<not> tbool t ''ssl_enable''"
    and "ftp_cmd_str (child w) \<noteq> [] \<or> ftp_arg_str (child w) \<noteq> []"
  shows "length (sent w) < length (sent w1)"
  using assms(2) unfolding dispatch_cmd_def Let_def
proof (rule answers_with_on [where P = "\<lambda>w. ftp_cmd_str (child w) \<noteq> [] \<or> ftp_arg_str (child w) \<noteq> []", OF _ assms(1,4)], goal_cases)
  case (1 w)
  show ?case by (intro answers_flow(3) answers_intros) (use 1 assms(3) in auto)
qed

lemma round_shrinks:
  assumes "post_login_round n t w = (Inr (), w1)"
  shows "length (input (ctl_in w1)) < length (input (ctl_in w))"
proof -
  obtain v where v: "get_cmd_and_arg t w = (Inr (), v)" "aseq (dispatch_cmd n t) log_pending_entry v = (Inr (), w1)"
    using assms by (auto simp: post_login_round_def aseq_def abind_def split: prod.splits sum.splits)
  have "length (input (ctl_in v)) < length (input (ctl_in w))"
    using v(1) by (auto simp: get_cmd_and_arg_def dest: get_cmd_progress split: sum.splits prod.splits)
  moreover have "steady False (aseq (dispatch_cmd n t) log_pending_entry)" by (intro steady_intros)
  then have "length (input (ctl_in w1)) \<le> length (input (ctl_in v))"
    using v(2) unfolding steady_def by blast
  ultimately show ?thesis by simp
qed

lemma loop_fuel:
  "length (input (ctl_in w)) < k \<Longrightarrow> post_login_loop (k + j) n t w = post_login_loop k n t w"
proof (induction k arbitrary: w)
  case (Suc k)
  obtain r v where r: "post_login_round n t w = (r, v)" by fastforce
  show ?case
  proof (cases r)
    case (Inr u)
    then have "length (input (ctl_in v)) < k" using round_shrinks [of n t w v] r Suc.prems by simp
    then show ?thesis using Suc.IH [of v] r Inr by (simp add: aseq_def abind_def)
  qed (simp add: aseq_def abind_def r)
qed simp

section \<open>Properties\<close>

text \<open>A reply on a connection without errors.\<close>

lemma reply_sent:
  assumes "no_errors (ctl_out w)" and "length tx \<le> INT_MAX div 4" and "st < 4294967296"
  shows "\<exists>ks. cmdio_write st tx w = (Inr (), w\<lparr>sent := sent w @ reply_text st CHR '' '' tx, ctl_out := ks\<rparr>)"
proof -
  let ?t = "reply_text st CHR '' '' tx"
  obtain ks where "vsf_sysutil_write_loop (ctl_out w) ?t = Inr (int (length ?t), ?t, ks)"
    using write_loop_ok [OF assms(1) reply_text_length [OF assms(3,2)]] by blast
  moreover have "?t \<noteq> []" by (simp add: reply_text_def)
  ultimately show ?thesis
    by (intro exI [of _ ks])
      (simp add: cmdio_write_def emit_def vsf_cmdio_write_def ftp_write_str_common_def str_netfd_write_def)
qed





end
