(* ===== verification/Commands.thy ===== *)
theory Commands
  imports Session_Progress
begin

text \<open>
  What single commands after the login do, seen from the client and from the administrator: the lists of allowed and
  denied commands, the replies that carry a path or an address, the search for an unused name, the lines of the
  log, and two faults of passive mode.
\<close>

section \<open>Lists of commands\<close>

lemma cmd_listed_join:
  assumes "\<forall>f \<in> set fs. f \<noteq> [] \<and> CHR '','' \<notin> set f"
  shows "cmd_listed cmd (join CHR '','' fs) \<longleftrightarrow> cmd \<in> set fs"
  using assms
proof (induction fs)
  case Nil
  show ?case by (simp add: cmd_listed.simps [of cmd "[]"] t_split_char_eq)
next
  case (Cons f fs)
  show ?case
  proof (cases "fs = []")
    case True
    have "takeWhile (\<lambda>x. x \<noteq> CHR '','') f = f" using Cons.prems by (auto simp: takeWhile_eq_all_conv)
    then have "t_split_char f CHR '','' = (f, [])" using Cons.prems by (auto simp: t_split_char_eq)
    moreover have "\<not> cmd_listed cmd []" by (simp add: cmd_listed.simps [of cmd "[]"] t_split_char_eq)
    ultimately show ?thesis using Cons.prems True by (auto simp: cmd_listed.simps [of cmd f])
  next
    case False
    then have "t_split_char (join CHR '','' (f # fs)) CHR '','' = (f, join CHR '','' fs)"
      using Cons.prems by (simp add: join_Cons)
    then show ?thesis using Cons by (auto simp: cmd_listed.simps [of cmd "join CHR '','' (f # fs)"])
  qed
qed

text \<open>
  The lists \<open>cmds_allowed\<close> and \<open>cmds_denied\<close> are exact. For lists of non-empty names separated by commas, a
  command after the login is admitted exactly if its name is in the first list and not in the second; a command
  that is not admitted does nothing but send the reply 550.
\<close>

theorem command_lists_exact:
  assumes "tstr t ''cmds_allowed'' = Some (join CHR '','' as)" and "tstr t ''cmds_denied'' = Some (join CHR '','' ds)"
    and "\<forall>f \<in> set as \<union> set ds. f \<noteq> [] \<and> CHR '','' \<notin> set f"
  shows "(cmd_ok t cmd \<longleftrightarrow> cmd \<in> set as \<and> cmd \<notin> set ds) \<and>
     (ftp_cmd_str (child w) \<notin> set as \<or> ftp_cmd_str (child w) \<in> set ds \<longrightarrow>
      dispatch_cmd n t w = cmdio_write 550 ''Permission denied.'' w)"
proof -
  have "cmd_ok t c \<longleftrightarrow> c \<in> set as \<and> c \<notin> set ds" for c
    using assms by (simp add: cmd_ok_def cmd_listed_join)
  then show ?thesis by (auto simp: dispatch_cmd_def awith_def Let_def no_permission_def)
qed

theorem command_lists_exact_witness:
  "\<not> cmd_ok \<lparr>tbool = (\<lambda>_. True), tuint = (\<lambda>_. 0), tstr = [''cmds_allowed'' \<mapsto> ''QUIT,RETR'', ''cmds_denied'' \<mapsto> ''RETR'']\<rparr> ''RETR'' \<and>
   cmd_ok \<lparr>tbool = (\<lambda>_. True), tuint = (\<lambda>_. 0), tstr = [''cmds_allowed'' \<mapsto> ''QUIT,RETR'', ''cmds_denied'' \<mapsto> ''RETR'']\<rparr> ''QUIT''"
  using command_lists_exact [of "\<lparr>tbool = (\<lambda>_. True), tuint = (\<lambda>_. 0),
      tstr = [''cmds_allowed'' \<mapsto> ''QUIT,RETR'', ''cmds_denied'' \<mapsto> ''RETR'']\<rparr>" "[''QUIT'', ''RETR'']" "[''RETR'']"]
  by simp

section \<open>Replies\<close>

text \<open>How a client reads a path between quotation marks, in which a doubled mark stands for one.\<close>

fun read_quoted :: "string \<Rightarrow> string \<times> string" where
  "read_quoted [] = ([], [])"
| "read_quoted (c # s) =
     (if c = CHR 0x22
      then (case s of d # r \<Rightarrow> if d = CHR 0x22 then (let (a, b) = read_quoted r in (CHR 0x22 # a, b)) else ([], s)
                    | [] \<Rightarrow> ([], []))
      else let (a, b) = read_quoted s in (c # a, b))"

lemma read_quoted_double:
  "rest = [] \<or> hd rest \<noteq> CHR 0x22 \<Longrightarrow>
   read_quoted (t_replace_text [CHR 0x22] [CHR 0x22, CHR 0x22] d @ CHR 0x22 # rest) = (d, rest)"
  unfolding t_replace_text_char
  by (induction d) (auto split: list.splits)

text \<open>
  The reply to \<open>PWD\<close> can be read back. Without errors on the control connection, the client gets one line with
  the code 257 and the current directory between quotation marks, and reading up to the first mark that is not
  doubled gives exactly the directory, also if its name contains quotation marks.
\<close>

theorem pwd_roundtrip:
  assumes "no_errors (ctl_out w)" and "str_getcwd w = (Inr d, v)" and "length d \<le> 4096"
  shows "\<exists>q w1. handle_pwd w = (Inr (), w1) \<and> sent w1 = sent w @ reply_text 257 CHR '' '' (CHR 0x22 # q) \<and> read_quoted q = (d, [])"
proof -
  let ?q = "t_replace_text [CHR 0x22] [CHR 0x22, CHR 0x22] d @ [CHR 0x22]"
  have v: "ctl_out v = ctl_out w" "sent v = sent w"
    using assms(2) by (auto simp: str_getcwd_def abind_def sys_def aret_def)
  have "length ?q \<le> 2 * length d + 1" unfolding t_replace_text_char by (induction d) auto
  then have "length (CHR 0x22 # ?q) \<le> INT_MAX div 4" using assms(3) by (simp add: INT_MAX_def)
  then obtain ks where "cmdio_write 257 (CHR 0x22 # ?q) v =
      (Inr (), v\<lparr>sent := sent v @ reply_text 257 CHR '' '' (CHR 0x22 # ?q), ctl_out := ks\<rparr>)"
    using reply_sent [of v "CHR 0x22 # ?q" 257] assms(1) v by auto
  then have "handle_pwd w = (Inr (), v\<lparr>sent := sent w @ reply_text 257 CHR '' '' (CHR 0x22 # ?q), ctl_out := ks\<rparr>)"
    using assms(2) v by (simp add: handle_pwd_def abind_def)
  moreover have "read_quoted ?q = (d, [])" by (rule read_quoted_double) simp
  ultimately show ?thesis by (intro exI [of _ ?q]) simp
qed

theorem pwd_roundtrip_witness:
  "\<exists>q w1. handle_pwd ((demo_world [])\<lparr>os := demo_os\<lparr>answer_of := (\<lambda>h c. demo_reply\<lparr>r_text := Some (''/a'' @ [CHR 0x22])\<rparr>)\<rparr>\<rparr>) =
      (Inr (), w1) \<and> sent w1 = [] @ reply_text 257 CHR '' '' (CHR 0x22 # q) \<and> read_quoted q = (''/a'' @ [CHR 0x22], [])"
proof -
  let ?w = "(demo_world [])\<lparr>os := demo_os\<lparr>answer_of := (\<lambda>h c. demo_reply\<lparr>r_text := Some (''/a'' @ [CHR 0x22])\<rparr>)\<rparr>\<rparr>"
  have "str_getcwd ?w = (Inr (''/a'' @ [CHR 0x22]), ?w\<lparr>trace := [Getcwd]\<rparr>)"
    by (simp add: str_getcwd_def abind_def sys_def aret_def demo_world_def cstr_def)
  from pwd_roundtrip [OF _ this] show ?thesis by (simp add: demo_world_def no_errors_def)
qed

text \<open>The address in the reply to \<open>PASV\<close>.\<close>

lemma decimal_plain: "\<not> vsf_sysutil_isdigit c \<Longrightarrow> c \<notin> set (vsf_sysutil_ulong_to_str n)"
  using all_digits_base_str [of 10 n] by (auto simp: list_all_iff vsf_sysutil_ulong_to_str_def)

lemma replace_char_plain: "c \<notin> set x \<Longrightarrow> t_replace_char x c e = x"
  by (auto simp: t_replace_char_def intro: map_idI)

lemma ntoa_commas: "t_replace_char (inet_ntoa a) CHR ''.'' CHR '','' = join CHR '','' (map vsf_sysutil_ulong_to_str (map ord a))"
proof -
  have d: "t_replace_char (vsf_sysutil_ulong_to_str n) CHR ''.'' CHR '','' = vsf_sysutil_ulong_to_str n" for n
    by (rule replace_char_plain, rule decimal_plain) (simp add: vsf_sysutil_isdigit_def)
  have app: "t_replace_char (x @ y) c e = t_replace_char x c e @ t_replace_char y c e" for x y c e
    by (simp add: t_replace_char_def)
  have "t_replace_char (join CHR ''.'' (map vsf_sysutil_ulong_to_str ns)) CHR ''.'' CHR '','' =
      join CHR '','' (map vsf_sysutil_ulong_to_str ns)" for ns
  proof (induction ns)
    case (Cons n ns)
    show ?case
    proof (cases ns)
      case (Cons m ms)
      have "t_replace_char (CHR ''.'' # x) CHR ''.'' CHR '','' = CHR '','' # t_replace_char x CHR ''.'' CHR '',''" for x
        by (simp add: t_replace_char_def)
      then show ?thesis using Cons.IH Cons by (simp add: app d)
    qed (simp add: d)
  qed (simp add: t_replace_char_def)
  from this [of "map ord a"] show ?thesis by (simp add: inet_ntoa_def comp_def)
qed

lemma ord_byte: "ord c \<le> 255"
proof -
  have "ord c mod 256 < 256" by (rule mod_less_divisor) simp
  then show ?thesis unfolding of_char_mod_256 by linarith
qed

lemma join_length: "\<forall>f \<in> set fs. length f \<le> k \<Longrightarrow> length (join sep fs) \<le> (k + 1) * length fs"
  by (induction sep fs rule: join.induct) auto

lemma join_snoc: "fs \<noteq> [] \<Longrightarrow> join sep (fs @ [f]) = join sep fs @ sep # f"
  by (induction sep fs rule: join.induct) (auto simp: join_Cons)

text \<open>
  C7: a client that reads the reply to \<open>PASV\<close> the way the server reads the argument of \<open>PORT\<close> gets the address
  and the port on which the server listens.
\<close>

theorem pasv_reply_roundtrip:
  assumes "no_errors (ctl_out w)" and "tstr t ''pasv_address'' = None" and "p_local_addr (child w) = AF_INET a p"
    and "length a = 4" and "port < 65536"
  shows "\<exists>x w1. handle_pasv_reply t False port w = (Inr (), w1) \<and>
     sent w1 = sent w @ reply_text 227 CHR '' '' (''Entering Passive Mode ('' @ x @ '').'') \<and>
     vsf_sysutil_parse_uchar_string_sep x CHR '','' 6 = Some (map ord a @ [port div 256, port mod 256])"
proof -
  let ?vs = "map ord a @ [port div 256, port mod 256]"
  let ?x = "join CHR '','' (map vsf_sysutil_ulong_to_str ?vs)" and ?s = "vsf_sysutil_ulong_to_str"
  have len: "length ?vs = 6" using assms(4) by simp
  have "list_all (\<lambda>v. v \<le> 255) ?vs"
    using assms(5) ord_byte by (auto simp: list_all_iff less_mult_imp_div_less le_simps)
  then have parse: "vsf_sysutil_parse_uchar_string_sep ?x CHR '','' 6 = Some ?vs"
    using uchar_list_roundtrip [of ?vs "CHR '',''"] unfolding len by (simp add: vsf_sysutil_isdigit_def)
  have ne: "map ?s (map ord a) \<noteq> []" using assms(4) by auto
  have x: "?x = join CHR '','' (map ?s (map ord a)) @ '','' @ ?s (port div 256) @ '','' @ ?s (port mod 256)"
    using join_snoc [of "map ?s (map ord a) @ [?s (port div 256)]" "CHR '',''" "?s (port mod 256)"]
      join_snoc [OF ne, of "CHR '',''" "?s (port div 256)"] by simp
  let ?t = "''Entering Passive Mode ('' @ ?x @ '').''"
  let ?u = "t_replace_char (''Entering Passive Mode ('' @ inet_ntoa a) CHR ''.'' CHR '','' @ '','' @ ?s (port div 256) @ '','' @
      ?s (port mod 256) @ '').''"
  have eq: "?u = ?t" using ntoa_commas [of a] unfolding x by (simp add: t_replace_char_def)
  have "length ?x \<le> 11 * length ?vs"
    using join_length [of "map ?s ?vs" 10 "CHR '',''"] ulong_to_str_length \<open>list_all (\<lambda>v. v \<le> 255) ?vs\<close>
    by (force simp: list_all_iff)
  then have "length ?u \<le> INT_MAX div 4" using assms(4) unfolding eq by (simp add: INT_MAX_def)
  then obtain ks where "cmdio_write 227 ?u (w\<lparr>s_pasv_sockaddr := Some (AF_INET a 0)\<rparr>) =
      (Inr (), w\<lparr>s_pasv_sockaddr := Some (AF_INET a 0), sent := sent w @ reply_text 227 CHR '' '' ?u, ctl_out := ks\<rparr>)"
    using reply_sent [of "w\<lparr>s_pasv_sockaddr := Some (AF_INET a 0)\<rparr>" ?u 227] assms(1) by auto
  then have "handle_pasv_reply t False port w =
      (Inr (), w\<lparr>s_pasv_sockaddr := Some (AF_INET a 0), sent := sent w @ reply_text 227 CHR '' '' ?u, ctl_out := ks\<rparr>)"
    using assms(2,3)
    by (simp add: handle_pasv_reply_def awith_def vsf_sysutil_sockaddr_clone_def aseq_def abind_def aret_def alift_def)
  then have "handle_pasv_reply t False port w =
      (Inr (), w\<lparr>s_pasv_sockaddr := Some (AF_INET a 0), sent := sent w @ reply_text 227 CHR '' '' ?t, ctl_out := ks\<rparr>)"
    unfolding eq .
  then show ?thesis using parse by (intro exI [of _ ?x]) simp
qed

theorem pasv_reply_roundtrip_witness:
  "\<exists>x w1. handle_pasv_reply \<lparr>tbool = (\<lambda>_. False), tuint = (\<lambda>_. 0), tstr = (\<lambda>_. None)\<rparr> False 40001 ((demo_world [])\<lparr>child := demo_session\<rparr>) =
       (Inr (), w1) \<and> sent w1 = [] @ reply_text 227 CHR '' '' (''Entering Passive Mode ('' @ x @ '').'') \<and>
     vsf_sysutil_parse_uchar_string_sep x CHR '','' 6 = Some [10, 0, 0, 1, 156, 65]"
  using pasv_reply_roundtrip [of "(demo_world [])\<lparr>child := demo_session\<rparr>"
      "\<lparr>tbool = (\<lambda>_. False), tuint = (\<lambda>_. 0), tstr = (\<lambda>_. None)\<rparr>" "[CHR 0x0A, NUL, NUL, CHR 0x01]" 21 40001]
  by (simp add: demo_world_def demo_session_def no_errors_def)

section \<open>Unused names\<close>

text \<open>The names that \<open>STOU\<close> tries: the base, then with a dot and a number.\<close>

definition candidate :: "string \<Rightarrow> nat \<Rightarrow> string" where
  "candidate base i = (if i = 0 then base else base @ ''.'' @ vsf_sysutil_ulong_to_str i)"

abbreviation asks :: "string \<Rightarrow> nat \<Rightarrow> nat \<Rightarrow> call list" where
  "asks base i j \<equiv> map (\<lambda>k. Stat (cstr (candidate base k))) [i..<j]"

text \<open>Whether the name with number \<open>i\<close> is free, asked after the names from \<open>a\<close> on.\<close>

definition free_at :: "world \<Rightarrow> string \<Rightarrow> nat \<Rightarrow> nat \<Rightarrow> bool" where
  "free_at w base a i \<longleftrightarrow> r_ret (answer_of (os w) (trace w @ asks base a i) (Stat (cstr (candidate base i)))) < 0"

lemma unique_loop_search:
  assumes "\<And>h. r_ret (answer_of (os w) h (Stat (cstr (candidate base k)))) < 0"
    and "0 < i" and "i \<le> k" and "k < i + m" and "i + m < 4294967296"
  shows "\<exists>j w1. i \<le> j \<and> j \<le> k \<and> unique_loop m base i w = (Inr (candidate base j), w1) \<and>
     trace w1 = trace w @ asks base i (Suc j) \<and> free_at w base i j \<and> (\<forall>l. i \<le> l \<and> l < j \<longrightarrow> \<not> free_at w base i l)"
  using assms
proof (induction m arbitrary: i w)
  case (Suc m)
  let ?c = "Stat (cstr (candidate base i))" and ?w = "w\<lparr>trace := trace w @ [Stat (cstr (candidate base i))]\<rparr>"
  have step: "unique_loop (Suc m) base i w =
      (if r_ret (answer_of (os w) (trace w) ?c) < 0 then (Inr (candidate base i), ?w) else unique_loop m base (Suc i) ?w)"
    using Suc.prems(2,5) by (simp add: Let_def str_stat_def abind_def sys_def aret_def candidate_def u32_small)
  show ?case
  proof (cases "r_ret (answer_of (os w) (trace w) ?c) < 0")
    case True
    then show ?thesis using step Suc.prems by (intro exI [of _ i]) (auto simp: free_at_def)
  next
    case False
    then have "i < k" using Suc.prems(1,3) by (metis le_neq_implies_less)
    then obtain j w1 where j: "Suc i \<le> j" "j \<le> k" "unique_loop m base (Suc i) ?w = (Inr (candidate base j), w1)"
      "trace w1 = trace ?w @ asks base (Suc i) (Suc j)" "free_at ?w base (Suc i) j"
      "\<forall>l. Suc i \<le> l \<and> l < j \<longrightarrow> \<not> free_at ?w base (Suc i) l"
      using Suc.IH [of ?w "Suc i"] Suc.prems by auto
    have shift: "free_at ?w base (Suc i) l = free_at w base i l" if "Suc i \<le> l" for l
      using that by (simp add: free_at_def upt_conv_Cons)
    have "\<not> free_at w base i i" using False by (simp add: free_at_def)
    then have "\<forall>l. i \<le> l \<and> l < j \<longrightarrow> \<not> free_at w base i l"
      using j(6) shift by (metis le_antisym not_less_eq_eq)
    then show ?thesis using j shift [OF j(1)] step False
      by (intro exI [of _ j] exI [of _ w1]) (auto simp: upt_conv_Cons)
  qed
qed simp

text \<open>
  \<open>STOU\<close> finds the first unused name. If one of the names \<open>base\<close>, \<open>base.1\<close>, ..., \<open>base.n\<close> cannot be found whenever the
  file system is asked, the search ends, and with the first name that the file system did not find when asked for
  it, having asked once for every name before, in order, and nothing else.
\<close>

theorem unique_name_found:
  assumes "\<And>h. r_ret (answer_of (os w) h (Stat (cstr (candidate base k)))) < 0" and "k \<le> n" and "n < 4294967295"
  shows "\<exists>j w1. j \<le> k \<and> get_unique_filename n base w = (Inr (candidate base j), w1) \<and>
     trace w1 = trace w @ asks base 0 (Suc j) \<and> free_at w base 0 j \<and> (\<forall>l < j. \<not> free_at w base 0 l)"
proof -
  let ?w = "w\<lparr>trace := trace w @ [Stat (cstr base)]\<rparr>"
  have step: "get_unique_filename n base w =
      (if r_ret (answer_of (os w) (trace w) (Stat (cstr base))) < 0 then (Inr base, ?w) else unique_loop n base 1 ?w)"
    by (simp add: get_unique_filename_def str_stat_def abind_def sys_def aret_def)
  show ?thesis
  proof (cases "r_ret (answer_of (os w) (trace w) (Stat (cstr base))) < 0")
    case True
    then show ?thesis using step by (intro exI [of _ 0]) (simp add: candidate_def free_at_def)
  next
    case False
    then have "1 \<le> k" using assms(1) [of "trace w"] by (cases k) (auto simp: candidate_def)
    then obtain j w1 where j: "1 \<le> j" "j \<le> k" "unique_loop n base 1 ?w = (Inr (candidate base j), w1)"
      "trace w1 = trace ?w @ asks base 1 (Suc j)" "free_at ?w base 1 j" "\<forall>l. 1 \<le> l \<and> l < j \<longrightarrow> \<not> free_at ?w base 1 l"
      using unique_loop_search [of ?w base k 1 n] assms by auto
    have shift: "free_at ?w base 1 l = free_at w base 0 l" if "1 \<le> l" for l
      using that by (simp add: free_at_def upt_conv_Cons candidate_def)
    have "\<not> free_at w base 0 0" using False by (simp add: free_at_def candidate_def)
    then have "\<forall>l < j. \<not> free_at w base 0 l" using j(6) shift by (metis One_nat_def Suc_leI neq0_conv)
    then show ?thesis using j shift [OF j(1)] step False
      by (intro exI [of _ j] exI [of _ w1]) (auto simp: upt_conv_Cons candidate_def)
  qed
qed

theorem unique_name_found_witness:
  "\<exists>j w1. j \<le> 2 \<and> get_unique_filename 5 ''f'' ((demo_world [])\<lparr>os := demo_os\<lparr>answer_of :=
        (\<lambda>h c. demo_reply\<lparr>r_ret := if c = Stat ''f.2'' then -1 else 0\<rparr>)\<rparr>\<rparr>) = (Inr (candidate ''f'' j), w1)"
proof -
  let ?w = "(demo_world [])\<lparr>os := demo_os\<lparr>answer_of := (\<lambda>h c. demo_reply\<lparr>r_ret := if c = Stat ''f.2'' then -1 else 0\<rparr>)\<rparr>\<rparr>"
  have c: "cstr (candidate ''f'' 2) = ''f.2''"
    by code_simp
  show ?thesis using unique_name_found [of ?w "''f''" 2 5] unfolding c by (auto simp: demo_world_def)
qed

section \<open>Log files\<close>

text \<open>
  An entry is one line of the log. Whatever file names, user names and passwords a client has chosen, what one
  entry adds to the transfer log and to the log of the server are printable ASCII characters and one final line
  feed, so no client can forge another entry.
\<close>

theorem log_single_line:
  assumes "log_lines t xferlog vsftpdlog s k ok what p = Inr (x, v)" and "x = Some l \<or> v = Some l"
  shows "\<exists>body. l = body @ [LF] \<and> list_all (\<lambda>c. 32 \<le> ord c \<and> ord c \<le> 126) body"
proof -
  have "\<exists>e. l = vsf_log_do_log_to_file e"
    using assms by (auto simp: log_lines_def rbind_eq_Inr split: if_splits)
  then obtain e where "l = map (\<lambda>c. if vsf_sysutil_isprint c then c else CHR ''?'') e @ [LF]"
    by (auto simp: vsf_log_do_log_to_file_def)
  then show ?thesis by (auto simp: list_all_iff vsf_sysutil_isprint_def split: if_splits)
qed

theorem log_single_line_witness:
  "\<exists>l body. log_lines \<lparr>tbool = (\<lambda>_. True), tuint = (\<lambda>_. 0), tstr = (\<lambda>_. None)\<rparr> False True demo_session
      \<lparr>current_date = [], log_pid = 1, delta_sec = 0, kbyte_rate = []\<rparr> False kVSFLogEntryDelete (''a'' @ [LF] @ ''b'') =
      Inr (None, Some l) \<and> l = body @ [LF] \<and> list_all (\<lambda>c. 32 \<le> ord c \<and> ord c \<le> 126) body"
proof -
  let ?t = "\<lparr>tbool = (\<lambda>_. True), tuint = (\<lambda>_. 0), tstr = (\<lambda>_. None)\<rparr>"
  let ?k = "\<lparr>current_date = [], log_pid = 1, delta_sec = 0, kbyte_rate = []\<rparr>"
  obtain l where l: "log_lines ?t False True demo_session ?k False kVSFLogEntryDelete (''a'' @ [LF] @ ''b'') = Inr (None, Some l)"
    by (simp add: log_lines_def vsf_log_do_log_vsftpd_format_def)
  from log_single_line [OF this] l show ?thesis by auto
qed

section \<open>Faults of passive mode\<close>

text \<open>Until \<open>handle_pasv_reply\<close>, nothing touches the static pointer.\<close>

abbreviation null_static :: "world \<Rightarrow> bool" where
  "null_static w \<equiv> s_pasv_sockaddr w = None"

abbreviation leaves_null :: "'a act \<Rightarrow> bool" where
  "leaves_null m \<equiv> keeps null_static (\<lambda>_. null_static) m"

lemma null_bind: "leaves_null m \<Longrightarrow> (\<And>x. leaves_null (f x)) \<Longrightarrow> leaves_null (abind m f)"
  by (rule gives_bind)

lemma null_basic:
  "leaves_null (sys c)" "leaves_null (astop e)" "leaves_null (aret x)" "leaves_null (alift r)" "leaves_null (upd_sess sd f)"
  by (cases sd; auto simp: gives_def avalid_def sys_def astop_def aret_def alift_def upd_child_def split: sum.splits)+

lemma null_die_if: "leaves_null (die_if s bad c)"
  unfolding die_if_def by (intro null_bind null_basic gives_if)

lemma null_bind_loop: "leaves_null (pasv_bind_loop n t sd)"
proof (induction n)
  case (Suc n)
  show ?case
    unfolding pasv_bind_loop.simps vsf_sysutil_get_random_byte_def vsf_sysutil_bind_def vsf_sysutil_listen_def Let_def
    by (intro null_bind gives_with gives_if null_basic null_die_if Suc)
qed (simp add: null_basic)

lemma null_stable [simp]: "chan_stable null_static" "close_stable null_static" "endable null_static (\<lambda>_. null_static)"
  by (simp_all add: chan_stable_def close_stable_def endable_def)

lemma null_services:
  "keeps (\<lambda>w. null_static w \<and> idle w) (\<lambda>_. null_static) (pasv_cleanup t)"
  "keeps (\<lambda>w. null_static w \<and> idle w) (\<lambda>_. null_static) (pasv_listen t)"
proof -
  have "leaves_null (vsf_privop_pasv_cleanup (server t))"
    unfolding vsf_privop_pasv_cleanup_def vsf_sysutil_close_def
    by (intro gives_with gives_if gives_seq null_bind null_basic null_die_if)
  then show "keeps (\<lambda>w. null_static w \<and> idle w) (\<lambda>_. null_static) (pasv_cleanup t)"
    by (intro cleanup_svc.keeps_inv null_stable)
  have "leaves_null (vsf_privop_pasv_listen t (server t))"
    unfolding vsf_privop_pasv_listen_def
    by (intro gives_with gives_seq null_bind null_basic null_die_if null_bind_loop)
  then show "keeps (\<lambda>w. null_static w \<and> idle w) (\<lambda>_. null_static) (pasv_listen t)"
    by (intro listen_svc.keeps_inv null_stable)
qed

text \<open>
  With \<open>pasv_address\<close> configured, no \<open>PASV\<close> succeeds. The address is to be stored through a pointer that
  is null, because only the other branch allocates it: the handler never returns, and the process ends by the fault or, before
  it, by a failed call.
\<close>

theorem pasv_address_faults:
  assumes "tstr t ''pasv_address'' = Some x" and "s_pasv_sockaddr w = None" and "idle w"
  shows "\<exists>e w1. handle_pasv t False w = (Inl e, w1) \<and> s_pasv_sockaddr w1 = None"
proof -
  let ?I = "\<lambda>w. null_static w \<and> idle w"
  have clear: "keeps ?I (\<lambda>_. null_static) port_cleanup"
    unfolding port_cleanup_def by (rule gives_upd) (simp add: chan_def)
  have stop: "gives ?I (\<lambda>_. null_static) (handle_pasv_reply t b port) (\<lambda>_. False)" for b port
    unfolding handle_pasv_reply_def gives_def avalid_def using assms(1)
    by (simp add: awith_def abind_def astop_def)
  have "gives ?I (\<lambda>_. null_static) (handle_pasv t False) (\<lambda>_. False)"
    unfolding handle_pasv_def Let_def
    by (simp, intro gives_with gives_seq gives_bind [OF null_services(2)] null_services clear stop)
  moreover obtain r w1 where "handle_pasv t False w = (r, w1)" by fastforce
  ultimately show ?thesis
    using assms(2,3) avalidD [of ?I "handle_pasv t False" "\<lambda>x w. ?I w \<and> False" "\<lambda>_. null_static" w r w1]
    by (cases r) (auto simp: gives_def)
qed

theorem pasv_address_faults_witness:
  "\<exists>e w1. handle_pasv \<lparr>tbool = (\<lambda>_. True), tuint = (\<lambda>_. 0), tstr = [''pasv_address'' \<mapsto> ''10.0.0.1'']\<rparr> False
      ((demo_world [])\<lparr>child := demo_session\<rparr>) = (Inl e, w1) \<and> s_pasv_sockaddr w1 = None"
  by (rule pasv_address_faults [where x = "''10.0.0.1''"]) (simp_all add: demo_world_def chan_def)



end
