(* ===== verification/Lp_Buffer.thy ===== *)
theory Lp_Buffer
  imports Prelude
begin

text \<open>
  The circular buffer of the printer daemon, \<open>Buffer_t\<close> of \<^verbatim>\<open>apps/p910nd-0.93/p910nd.c\<close>, with the calls that
  fill and empty it, and the queue of bytes it implements.

  The operating system is a script. For every descriptor a channel holds what the next calls of \<open>read()\<close>
  return (the bytes that have arrived, or an error) and how many bytes the next calls of \<open>write()\<close> accept
  (a negative number is an error; after the end of the script a write accepts everything), and it records what
  has been read and written. A kernel that fills or reads memory outside \<open>buffer\<close> is \<open>Overrun\<close>.
  Of the log the kind of message and its numbers are kept.
\<close>

section \<open>Descriptors\<close>

record lp_chan =
  c_rds :: "string option list"
  c_got :: string
  c_wrs :: "int list"
  c_put :: string

datatype lp_msg =
    WriteFailed
  | FinishedJob int
  | FinishedBidir int int
  | CopyFailed
  | OpenFailed
  | OpenLater
  | LockFailed
  | AcceptFailed
  | ConnectionFrom

record pworld =
  files :: "int \<Rightarrow> lp_chan"
  syslogs :: "lp_msg list"

definition log_msg :: "lp_msg \<Rightarrow> pworld \<Rightarrow> pworld" where
  "log_msg m w = w\<lparr>syslogs := syslogs w @ [m]\<rparr>"

definition set_chan :: "int \<Rightarrow> lp_chan \<Rightarrow> pworld \<Rightarrow> pworld" where
  "set_chan fd c w = w\<lparr>files := (files w)(fd := c)\<rparr>"

text \<open>\<open>read(fd, p, n)\<close>: the result and the bytes stored at \<open>p\<close>.\<close>

definition sys_read :: "int \<Rightarrow> nat \<Rightarrow> pworld \<Rightarrow> int \<times> string \<times> pworld" where
  "sys_read fd n w = (let c = files w fd in
     case c_rds c of
       [] \<Rightarrow> (0, [], w)
     | None # r \<Rightarrow> (-1, [], set_chan fd (c\<lparr>c_rds := r\<rparr>) w)
     | Some d # r \<Rightarrow>
         (int (length (take n d)), take n d,
          set_chan fd (c\<lparr>c_rds := (if drop n d = [] then r else Some (drop n d) # r), c_got := c_got c @ take n d\<rparr>) w))"

text \<open>\<open>write(fd, p, n)\<close> with the bytes at \<open>p\<close>.\<close>

definition sys_write :: "int \<Rightarrow> string \<Rightarrow> pworld \<Rightarrow> int \<times> pworld" where
  "sys_write fd d w = (let c = files w fd in
     case c_wrs c of
       [] \<Rightarrow> (int (length d), set_chan fd (c\<lparr>c_put := c_put c @ d\<rparr>) w)
     | k # r \<Rightarrow>
         if k < 0 then (-1, set_chan fd (c\<lparr>c_wrs := r\<rparr>) w)
         else (int (length (take (nat k) d)), set_chan fd (c\<lparr>c_wrs := r, c_put := c_put c @ take (nat k) d\<rparr>) w))"

section \<open>The circular buffer\<close>

definition BUFFER_SIZE :: nat where
  "BUFFER_SIZE = 8192"

record Buffer =
  detectEof :: bool
  infd :: int
  outfd :: int
  startidx :: nat
  endidx :: nat
  bytes :: int
  totalin :: int
  totalout :: int
  eof :: bool
  err :: bool
  buffer :: string

text \<open>The array is on the stack and holds arbitrary bytes at first.\<close>

definition initBuffer :: "Buffer \<Rightarrow> int \<Rightarrow> int \<Rightarrow> bool \<Rightarrow> Buffer" where
  "initBuffer b ifd ofd det = b\<lparr>detectEof := det, infd := ifd, outfd := ofd, startidx := 0, endidx := 0, bytes := 0,
     totalin := 0, totalout := 0, eof := False, err := False\<rparr>"

text \<open>In the second test \<open>bytes\<close> is converted to the unsigned type of \<open>sizeof\<close>.\<close>

definition prepBuffer :: "Buffer \<Rightarrow> int set \<Rightarrow> int set \<Rightarrow> int set \<times> int set" where
  "prepBuffer b readfds writefds =
     (if \<not> eof b \<and> bytes b mod 4294967296 < int BUFFER_SIZE then insert (infd b) readfds else readfds,
      if \<not> err b \<and> bytes b \<noteq> 0 then insert (outfd b) writefds else writefds)"

text \<open>The space that \<open>readBuffer\<close> may fill, and the buffer after its reset.\<close>

definition read_avail :: "Buffer \<Rightarrow> int \<times> Buffer" where
  "read_avail b =
     (if bytes b = 0 \<or> err b then (int BUFFER_SIZE, b\<lparr>startidx := 0, endidx := 0\<rparr>)
      else if bytes b = int BUFFER_SIZE then (0, b)
      else if endidx b > startidx b then (int BUFFER_SIZE - int (endidx b), b)
      else (int (startidx b) - int (endidx b), b))"

text \<open>The bookkeeping after \<open>read()\<close> has stored the bytes \<open>d\<close> at \<open>endidx\<close>.\<close>

definition read_done :: "string \<Rightarrow> Buffer \<Rightarrow> Buffer" where
  "read_done d b =
     (let e = endidx b + length d in
      b\<lparr>buffer := take (endidx b) (buffer b) @ d @ drop e (buffer b),
        endidx := (if e = BUFFER_SIZE then 0 else e),
        totalin := sint32 (totalin b + int (length d)), bytes := sint32 (bytes b + int (length d))\<rparr>)"

definition readBuffer :: "Buffer \<Rightarrow> pworld \<Rightarrow> (int \<times> Buffer \<times> pworld) res" where
  "readBuffer b0 w =
     (case read_avail b0 of (avail, b) \<Rightarrow>
        if avail = 0 then Inr (1, b, w)
        else if avail < 0 \<or> int (endidx b) + avail > int BUFFER_SIZE then Inl Overrun
        else case sys_read (infd b) (nat avail) w of (result, d, w1) \<Rightarrow>
          if result > 0 then Inr (result, read_done d b, w1)
          else if result < 0 \<or> detectEof b then Inr (result, b\<lparr>eof := True\<rparr>, w1)
          else Inr (result, b, w1))"

definition write_avail :: "Buffer \<Rightarrow> int" where
  "write_avail b =
     (if bytes b = 0 \<or> err b then 0
      else if endidx b > startidx b then int (endidx b) - int (startidx b)
      else int BUFFER_SIZE - int (startidx b))"

definition write_done :: "nat \<Rightarrow> Buffer \<Rightarrow> Buffer" where
  "write_done n b =
     (let s = startidx b + n in
      b\<lparr>startidx := (if s = BUFFER_SIZE then 0 else s),
        totalout := sint32 (totalout b + int n), bytes := sint32 (bytes b - int n)\<rparr>)"

definition writeBuffer :: "Buffer \<Rightarrow> pworld \<Rightarrow> (int \<times> Buffer \<times> pworld) res" where
  "writeBuffer b w =
     (let avail = write_avail b in
      if avail = 0 then Inr (1, b, w)
      else if avail < 0 \<or> int (startidx b) + avail > int BUFFER_SIZE then Inl Overrun
      else case sys_write (outfd b) (take (nat avail) (drop (startidx b) (buffer b))) w of (result, w1) \<Rightarrow>
        if result < 0 then Inr (result, b\<lparr>err := True\<rparr>, log_msg WriteFailed w1)
        else Inr (result, write_done (nat result) b, w1))"

section \<open>What the buffer holds\<close>

text \<open>The position of the byte number \<open>i\<close> of the valid data that starts at \<open>s\<close>.\<close>

definition wrap_idx :: "nat \<Rightarrow> nat \<Rightarrow> nat" where
  "wrap_idx s i = (if s + i < BUFFER_SIZE then s + i else s + i - BUFFER_SIZE)"

definition contents :: "Buffer \<Rightarrow> string" where
  "contents b = map (\<lambda>i. buffer b ! wrap_idx (startidx b) i) [0..<nat (bytes b)]"

text \<open>The indices stay inside the array; while the output works they delimit exactly the counted bytes.\<close>

definition indices_ok :: "Buffer \<Rightarrow> bool" where
  "indices_ok b \<longleftrightarrow> length (buffer b) = BUFFER_SIZE \<and> startidx b < BUFFER_SIZE \<and> endidx b < BUFFER_SIZE"

definition buffer_ok :: "Buffer \<Rightarrow> bool" where
  "buffer_ok b \<longleftrightarrow> indices_ok b \<and>
     (\<not> err b \<longrightarrow> 0 \<le> bytes b \<and> bytes b \<le> int BUFFER_SIZE \<and> endidx b = wrap_idx (startidx b) (nat (bytes b)))"

lemma BUFFER_SIZE_pos [simp]: "0 < BUFFER_SIZE" "BUFFER_SIZE \<noteq> 0"
  by (simp_all add: BUFFER_SIZE_def)

lemma BUFFER_SIZE_small: "int BUFFER_SIZE < 2147483648" "BUFFER_SIZE \<le> 8192" "int BUFFER_SIZE \<le> 8192"
  by (simp_all add: BUFFER_SIZE_def)

lemma wrap_idx_shift:
  "i < BUFFER_SIZE \<Longrightarrow> s + n = BUFFER_SIZE \<Longrightarrow> wrap_idx 0 i = wrap_idx s (n + i)"
  "wrap_idx (s + n) i = wrap_idx s (n + i)"
  by (auto simp: wrap_idx_def)

lemma length_contents [simp]: "length (contents b) = nat (bytes b)"
  by (simp add: contents_def)

lemma contents_flags [simp]: "contents (b\<lparr>eof := x\<rparr>) = contents b"
  by (simp add: contents_def)

lemma buffer_ok_init: "length (buffer b) = BUFFER_SIZE \<Longrightarrow> buffer_ok (initBuffer b i j d)"
  by (simp add: buffer_ok_def indices_ok_def initBuffer_def wrap_idx_def)

lemma contents_init [simp]: "contents (initBuffer b i j d) = []"
  by (simp add: contents_def initBuffer_def)

text \<open>The free space a read gets is contiguous and lies outside the valid data.\<close>

lemma read_avail_ok:
  assumes "buffer_ok b" "read_avail b = (avail, b1)"
  shows "buffer_ok b1" "\<not> err b \<Longrightarrow> contents b1 = contents b" "0 \<le> avail" "int (endidx b1) + avail \<le> int BUFFER_SIZE"
    "err b1 = err b" "\<not> err b \<Longrightarrow> bytes b + avail \<le> int BUFFER_SIZE" "bytes b1 = bytes b" "infd b1 = infd b"
    "outfd b1 = outfd b" "detectEof b1 = detectEof b" "eof b1 = eof b" "totalin b1 = totalin b" "totalout b1 = totalout b"
    "avail = 0 \<longleftrightarrow> \<not> err b \<and> bytes b = int BUFFER_SIZE"
proof -
  note defs = buffer_ok_def indices_ok_def read_avail_def wrap_idx_def
  show "buffer_ok b1" "0 \<le> avail" "int (endidx b1) + avail \<le> int BUFFER_SIZE" "err b1 = err b"
    "bytes b1 = bytes b" "infd b1 = infd b" "outfd b1 = outfd b" "detectEof b1 = detectEof b" "eof b1 = eof b"
    "totalin b1 = totalin b" "totalout b1 = totalout b" "avail = 0 \<longleftrightarrow> \<not> err b \<and> bytes b = int BUFFER_SIZE"
    using assms by (auto simp: defs split: if_splits)
  show "\<not> err b \<Longrightarrow> contents b1 = contents b"
    using assms by (auto simp: read_avail_def contents_def split: if_splits)
  show "\<not> err b \<Longrightarrow> bytes b + avail \<le> int BUFFER_SIZE"
    using assms by (auto simp: defs split: if_splits)
qed

text \<open>\<open>fits n b\<close>: reading \<open>n\<close> bytes at \<open>endidx\<close> neither leaves the array nor touches valid data.\<close>

definition fits :: "nat \<Rightarrow> Buffer \<Rightarrow> bool" where
  "fits n b \<longleftrightarrow> endidx b + n \<le> BUFFER_SIZE \<and> (\<not> err b \<longrightarrow> bytes b + int n \<le> int BUFFER_SIZE)"

lemma read_done_ok:
  assumes ok: "buffer_ok b" and d: "fits (length d) b"
  shows "buffer_ok (read_done d b)" "\<not> err b \<Longrightarrow> contents (read_done d b) = contents b @ d"
proof -
  note defs = buffer_ok_def indices_ok_def fits_def
  have len: "length (take (endidx b) (buffer b) @ d @ drop (endidx b + length d) (buffer b)) = BUFFER_SIZE"
    using ok d by (auto simp: defs)
  have bytes: "sint32 (bytes b + int (length d)) = bytes b + int (length d)" if "\<not> err b"
    using ok d that BUFFER_SIZE_small by (intro sint32_small) (auto simp: defs)
  show "buffer_ok (read_done d b)"
    using ok d len bytes by (auto simp: defs read_done_def Let_def wrap_idx_def nat_add_distrib add.assoc split: if_splits)
  assume ne: "\<not> err b"
  have b: "0 \<le> bytes b" "endidx b = wrap_idx (startidx b) (nat (bytes b))" "startidx b < BUFFER_SIZE"
    "length (buffer b) = BUFFER_SIZE" "nat (bytes b) + length d \<le> BUFFER_SIZE" "endidx b + length d \<le> BUFFER_SIZE"
    using ok d ne by (auto simp: defs)
  show "contents (read_done d b) = contents b @ d"
  proof (rule nth_equalityI)
    show "length (contents (read_done d b)) = length (contents b @ d)"
      using ne b bytes by (simp add: read_done_def Let_def nat_add_distrib)
    fix i
    assume "i < length (contents (read_done d b))"
    then have i: "i < nat (bytes b) + length d"
      using ne b bytes by (simp add: read_done_def Let_def nat_add_distrib)
    show "contents (read_done d b) ! i = (contents b @ d) ! i"
    proof (cases "i < nat (bytes b)")
      case True
      then have "wrap_idx (startidx b) i < endidx b \<or> endidx b + length d \<le> wrap_idx (startidx b) i"
        using b by (auto simp: wrap_idx_def split: if_splits; arith)
      moreover have "wrap_idx (startidx b) i < BUFFER_SIZE"
        using b True by (auto simp: wrap_idx_def)
      ultimately show ?thesis
        using True i ne b bytes
        by (auto simp: contents_def read_done_def Let_def nth_append nat_add_distrib)
    next
      case False
      then obtain j where j: "i = nat (bytes b) + j" "j < length d" using i by (metis add_less_cancel_left le_iff_add not_less)
      then have "wrap_idx (startidx b) i = endidx b + j"
        using b by (auto simp: wrap_idx_def add.assoc split: if_splits)
      then show ?thesis
        using j ne b bytes by (simp add: contents_def read_done_def Let_def nth_append nat_add_distrib)
    qed
  qed
qed

text \<open>The bytes offered to \<open>write()\<close> are the first ones of the valid data.\<close>

lemma write_avail_ok:
  assumes ok: "buffer_ok b"
  shows "0 \<le> write_avail b" "int (startidx b) + write_avail b \<le> int BUFFER_SIZE"
    "\<not> err b \<Longrightarrow> write_avail b \<le> bytes b" "write_avail b = 0 \<longleftrightarrow> err b \<or> bytes b = 0"
    "\<not> err b \<Longrightarrow> take (nat (write_avail b)) (drop (startidx b) (buffer b)) = take (nat (write_avail b)) (contents b)"
proof -
  note defs = buffer_ok_def indices_ok_def write_avail_def wrap_idx_def
  show r: "0 \<le> write_avail b" "int (startidx b) + write_avail b \<le> int BUFFER_SIZE"
    "\<not> err b \<Longrightarrow> write_avail b \<le> bytes b" "write_avail b = 0 \<longleftrightarrow> err b \<or> bytes b = 0"
    using ok by (auto simp: defs split: if_splits)
  assume ne: "\<not> err b"
  show "take (nat (write_avail b)) (drop (startidx b) (buffer b)) = take (nat (write_avail b)) (contents b)"
    using ok r ne by (intro nth_equalityI) (auto simp: contents_def buffer_ok_def indices_ok_def wrap_idx_def)
qed

lemma write_done_ok:
  assumes ok: "buffer_ok b" and ne: "\<not> err b" and n: "int n \<le> write_avail b"
  shows "buffer_ok (write_done n b)" "contents (write_done n b) = drop n (contents b)"
proof -
  note defs = buffer_ok_def indices_ok_def
  note wa = write_avail_ok [OF ok]
  have le: "int n \<le> bytes b" "startidx b + n \<le> BUFFER_SIZE" using wa ne n by auto
  have bytes: "sint32 (bytes b - int n) = bytes b - int n"
    using ok ne le BUFFER_SIZE_small by (intro sint32_small) (auto simp: defs)
  have sub: "nat (bytes b - int n) = nat (bytes b) - n" by simp
  show "buffer_ok (write_done n b)"
    using ok ne le bytes by (auto simp: defs write_done_def Let_def wrap_idx_def nat_diff_distrib split: if_splits; arith)
  show "contents (write_done n b) = drop n (contents b)"
    using ok ne le bytes
    by (intro nth_equalityI) (auto simp: contents_def write_done_def Let_def defs wrap_idx_shift)
qed

section \<open>A queue of bytes\<close>

text \<open>
  The interface of a bounded queue: what is appended while there is room comes out in the same order. A client
  is any sequence of operations within the announced bounds.
\<close>

datatype queue_op = Put string | Get nat

fun queue_legal :: "('q \<Rightarrow> nat) \<Rightarrow> ('q \<Rightarrow> nat) \<Rightarrow> (string \<Rightarrow> 'q \<Rightarrow> 'q) \<Rightarrow> (nat \<Rightarrow> 'q \<Rightarrow> 'q) \<Rightarrow> queue_op list \<Rightarrow> 'q \<Rightarrow> bool" where
  "queue_legal room front enq deq [] q \<longleftrightarrow> True"
| "queue_legal room front enq deq (Put d # ops) q \<longleftrightarrow> length d \<le> room q \<and> queue_legal room front enq deq ops (enq d q)"
| "queue_legal room front enq deq (Get n # ops) q \<longleftrightarrow> n \<le> front q \<and> queue_legal room front enq deq ops (deq n q)"

fun queue_run :: "(string \<Rightarrow> 'q \<Rightarrow> 'q) \<Rightarrow> (nat \<Rightarrow> 'q \<Rightarrow> 'q) \<Rightarrow> queue_op list \<Rightarrow> 'q \<Rightarrow> 'q" where
  "queue_run enq deq [] q = q"
| "queue_run enq deq (Put d # ops) q = queue_run enq deq ops (enq d q)"
| "queue_run enq deq (Get n # ops) q = queue_run enq deq ops (deq n q)"

fun queue_in :: "queue_op list \<Rightarrow> string" where
  "queue_in [] = []"
| "queue_in (Put d # ops) = d @ queue_in ops"
| "queue_in (Get n # ops) = queue_in ops"

fun queue_out :: "queue_op list \<Rightarrow> nat" where
  "queue_out [] = 0"
| "queue_out (Put d # ops) = queue_out ops"
| "queue_out (Get n # ops) = n + queue_out ops"

locale byte_queue =
  fixes ok :: "'q \<Rightarrow> bool" and content :: "'q \<Rightarrow> string" and room :: "'q \<Rightarrow> nat" and front :: "'q \<Rightarrow> nat"
    and enq :: "string \<Rightarrow> 'q \<Rightarrow> 'q" and deq :: "nat \<Rightarrow> 'q \<Rightarrow> 'q"
  assumes enq_ok: "ok q \<Longrightarrow> length d \<le> room q \<Longrightarrow> ok (enq d q) \<and> content (enq d q) = content q @ d"
    and deq_ok: "ok q \<Longrightarrow> n \<le> front q \<Longrightarrow> ok (deq n q) \<and> content (deq n q) = drop n (content q)"
    and front_le: "ok q \<Longrightarrow> front q \<le> length (content q)"
begin

lemma run_fifo:
  "ok q \<Longrightarrow> queue_legal room front enq deq ops q \<Longrightarrow>
   ok (queue_run enq deq ops q) \<and> queue_out ops \<le> length (content q @ queue_in ops) \<and>
   content (queue_run enq deq ops q) = drop (queue_out ops) (content q @ queue_in ops)"
proof (induction ops arbitrary: q)
  case (Cons x ops)
  show ?case
  proof (cases x)
    case (Put d)
    then show ?thesis using Cons enq_ok [of q d] by force
  next
    case (Get n)
    then have n: "n \<le> front q" "n \<le> length (content q)" using Cons.prems front_le [of q] by auto
    then show ?thesis using Cons Get deq_ok [OF Cons.prems(1) n(1)] by (force simp: add.commute)
  qed
qed simp

end

definition lp_ok :: "Buffer \<Rightarrow> bool" where
  "lp_ok b \<longleftrightarrow> buffer_ok b \<and> \<not> err b"

definition lp_room :: "Buffer \<Rightarrow> nat" where
  "lp_room b = nat (fst (read_avail b))"

definition lp_front :: "Buffer \<Rightarrow> nat" where
  "lp_front b = nat (write_avail b)"

definition lp_enq :: "string \<Rightarrow> Buffer \<Rightarrow> Buffer" where
  "lp_enq d b = read_done d (snd (read_avail b))"

interpretation lp_queue: byte_queue lp_ok contents lp_room lp_front lp_enq write_done
proof
  fix b n and d :: string
  assume ok: "lp_ok b"
  obtain a b1 where r: "read_avail b = (a, b1)" by fastforce
  note ra = read_avail_ok [OF _ r]
  show "lp_front b \<le> length (contents b)"
    using ok write_avail_ok [of b] by (auto simp: lp_ok_def lp_front_def)
  { assume "length d \<le> lp_room b"
    then have "fits (length d) b1" using ok ra by (auto simp: lp_ok_def lp_room_def fits_def r)
    then show "lp_ok (lp_enq d b) \<and> contents (lp_enq d b) = contents b @ d"
      using ok ra read_done_ok [of b1 d] by (auto simp: lp_ok_def lp_enq_def r read_done_def Let_def) }
  { assume "n \<le> lp_front b"
    then have "int n \<le> write_avail b" using ok write_avail_ok [of b] by (auto simp: lp_ok_def lp_front_def)
    then show "lp_ok (write_done n b) \<and> contents (write_done n b) = drop n (contents b)"
      using ok write_done_ok [of b n] by (auto simp: lp_ok_def write_done_def Let_def) }
qed

text \<open>A buffer before its initialisation, for the examples.\<close>

definition blank :: Buffer where
  "blank = \<lparr>detectEof = False, infd = 0, outfd = 0, startidx = 0, endidx = 0, bytes = 0, totalin = 0, totalout = 0,
     eof = False, err = False, buffer = replicate BUFFER_SIZE NUL\<rparr>"

text \<open>
  C21: The circular buffer is a queue: after any sequence of fillings and emptyings within the space and the data it
  offers it holds exactly the bytes put in and not yet taken out, in their order, through every wrap.
\<close>

theorem circular_buffer_fifo:
  assumes "length (buffer b) = BUFFER_SIZE"
    and "queue_legal lp_room lp_front lp_enq write_done ops (initBuffer b i j det)"
  shows "contents (queue_run lp_enq write_done ops (initBuffer b i j det)) = drop (queue_out ops) (queue_in ops) \<and>
    buffer_ok (queue_run lp_enq write_done ops (initBuffer b i j det)) \<and> queue_out ops \<le> length (queue_in ops)"
proof -
  have "lp_ok (initBuffer b i j det)" using buffer_ok_init [OF assms(1)] by (simp add: lp_ok_def initBuffer_def)
  from lp_queue.run_fifo [OF this assms(2)] show ?thesis by (simp add: lp_ok_def)
qed

lemma queue_legal_demo:
  assumes "length (buffer b) = BUFFER_SIZE"
  shows "queue_legal lp_room lp_front lp_enq write_done [Put ''abc'', Get 2] (initBuffer b i j det)"
proof -
  let ?b = "initBuffer b i j det"
  have "lp_ok ?b" using buffer_ok_init [OF assms(1)] by (simp add: lp_ok_def initBuffer_def)
  moreover have room: "length ''abc'' \<le> lp_room ?b" by (simp add: lp_room_def read_avail_def initBuffer_def BUFFER_SIZE_def)
  ultimately have "lp_ok (lp_enq ''abc'' ?b)" by (simp add: lp_queue.enq_ok)
  moreover have "startidx (lp_enq ''abc'' ?b) = 0" "endidx (lp_enq ''abc'' ?b) = 3" "bytes (lp_enq ''abc'' ?b) = 3"
    by (simp_all add: lp_enq_def read_avail_def read_done_def Let_def initBuffer_def BUFFER_SIZE_def)
  ultimately have "2 \<le> lp_front (lp_enq ''abc'' ?b)" by (simp add: lp_front_def write_avail_def lp_ok_def)
  with room show ?thesis by simp
qed

theorem circular_buffer_fifo_witness:
  "contents (queue_run lp_enq write_done [Put ''abc'', Get 2]
     (initBuffer blank 4 5 True)) = ''c''"
  using circular_buffer_fifo [OF _ queue_legal_demo, of blank 4 5 True]
  by (simp add: blank_def numeral_2_eq_2)

section \<open>What one call does\<close>

definition feed :: "lp_chan \<Rightarrow> nat" where
  "feed c = sum_list (map (\<lambda>x. case x of None \<Rightarrow> 0 | Some d \<Rightarrow> length d) (c_rds c))"

text \<open>The output of a buffer is its input less what it still holds; after an output error it is a prefix of it.\<close>

definition relays :: "Buffer \<Rightarrow> pworld \<Rightarrow> bool" where
  "relays b w \<longleftrightarrow> buffer_ok b \<and>
     (if err b then prefix (c_put (files w (outfd b))) (c_got (files w (infd b)))
      else c_put (files w (outfd b)) @ contents b = c_got (files w (infd b)))"

text \<open>A read changes only the input side of its descriptor, a write only the output side of its own.\<close>

definition only_reads :: "int \<Rightarrow> pworld \<Rightarrow> pworld \<Rightarrow> bool" where
  "only_reads fd w w1 \<longleftrightarrow>
     (\<forall>x. c_put (files w1 x) = c_put (files w x) \<and> c_wrs (files w1 x) = c_wrs (files w x) \<and>
          (x \<noteq> fd \<longrightarrow> files w1 x = files w x))"

definition only_writes :: "int \<Rightarrow> pworld \<Rightarrow> pworld \<Rightarrow> bool" where
  "only_writes fd w w1 \<longleftrightarrow>
     (\<forall>x. c_got (files w1 x) = c_got (files w x) \<and> c_rds (files w1 x) = c_rds (files w x) \<and>
          (x \<noteq> fd \<longrightarrow> files w1 x = files w x))"

lemma only_refl [simp]: "only_reads fd w w" "only_writes fd w w"
  by (simp_all add: only_reads_def only_writes_def)

lemma files_log_msg [simp]: "files (log_msg m w) = files w"
  by (simp add: log_msg_def)

lemma only_writes_log [simp]: "only_writes fd w (log_msg m w1) = only_writes fd w w1"
  by (simp add: only_writes_def)

lemma feed_only_writes: "only_writes fd w w1 \<Longrightarrow> feed (files w1 x) = feed (files w x)"
  by (simp add: only_writes_def feed_def)

lemma sys_read_effect:
  assumes "sys_read fd n w = (r, d, w1)"
  shows "length d \<le> n" "r > 0 \<Longrightarrow> r = int (length d)" "r \<le> 0 \<Longrightarrow> d = []" "only_reads fd w w1"
    "c_got (files w1 fd) = c_got (files w fd) @ d" "feed (files w1 fd) + length d = feed (files w fd)"
  using assms
  by (auto simp: sys_read_def Let_def set_chan_def only_reads_def feed_def
      split: list.splits option.splits if_splits)

lemma sys_write_effect:
  assumes "sys_write fd d w = (r, w1)"
  shows "r \<le> int (length d)" "only_writes fd w w1"
    "c_put (files w1 fd) = c_put (files w fd) @ take (nat r) d"
    "r < 0 \<Longrightarrow> r = -1" "c_wrs (files w fd) = [] \<Longrightarrow> r = int (length d) \<and> c_wrs (files w1 fd) = []"
    "c_wrs (files w fd) \<noteq> [] \<Longrightarrow> length (c_wrs (files w1 fd)) < length (c_wrs (files w fd))"
    "r < 0 \<Longrightarrow> \<exists>k \<in> set (c_wrs (files w fd)). k < 0" "set (c_wrs (files w1 fd)) \<subseteq> set (c_wrs (files w fd))"
  using assms
  by (auto simp: sys_write_def Let_def set_chan_def only_writes_def min_def nat_le_iff
      split: list.splits if_splits)

lemmas ends_defs = read_done_def write_done_def Let_def

text \<open>Every outcome of \<open>readBuffer\<close>: the buffer is full; bytes arrived; nothing arrived.\<close>

lemma readBuffer_cases [consumes 1]:
  assumes ok: "buffer_ok b"
  obtains (Full) "readBuffer b w = Inr (1, b, w)" "\<not> err b" "bytes b = int BUFFER_SIZE"
  | (Data) d b1 w1 where "readBuffer b w = Inr (int (length d), b1, w1)" "d \<noteq> []" "buffer_ok b1"
      "\<not> err b \<Longrightarrow> contents b1 = contents b @ d" "\<not> err b \<Longrightarrow> bytes b + int (length d) \<le> int BUFFER_SIZE"
      "bytes b1 = sint32 (bytes b + int (length d))" "eof b1 = eof b" "err b1 = err b" "infd b1 = infd b"
      "outfd b1 = outfd b" "detectEof b1 = detectEof b" "totalout b1 = totalout b" "only_reads (infd b) w w1"
      "c_got (files w1 (infd b)) = c_got (files w (infd b)) @ d" "length d \<le> BUFFER_SIZE"
      "feed (files w1 (infd b)) + length d = feed (files w (infd b))"
  | (Nothing) r b1 w1 where "readBuffer b w = Inr (r, b1, w1)" "r \<le> 0" "buffer_ok b1"
      "\<not> err b \<Longrightarrow> contents b1 = contents b" "bytes b1 = bytes b" "eof b1 = (eof b \<or> r < 0 \<or> detectEof b)"
      "err b1 = err b" "infd b1 = infd b" "outfd b1 = outfd b" "detectEof b1 = detectEof b"
      "totalout b1 = totalout b" "only_reads (infd b) w w1" "c_got (files w1 (infd b)) = c_got (files w (infd b))"
      "feed (files w1 (infd b)) = feed (files w (infd b))"
proof -
  obtain avail b1 where r: "read_avail b = (avail, b1)" by fastforce
  note ra = read_avail_ok [OF ok r]
  obtain res d w1 where s: "sys_read (infd b1) (nat avail) w = (res, d, w1)" by (metis prod_cases3)
  note se = sys_read_effect [OF s]
  have g: "\<not> (avail < 0 \<or> int (endidx b1) + avail > int BUFFER_SIZE)" using ra by auto
  show ?thesis
  proof (cases "avail = 0")
    case True
    then have "\<not> err b" "bytes b = int BUFFER_SIZE" using ra by auto
    moreover from this have "b1 = b" using r by (auto simp: read_avail_def split: if_splits)
    ultimately show ?thesis using True r by (intro Full) (simp_all add: readBuffer_def)
  next
    case nz: False
    show ?thesis
    proof (cases "res > 0")
      case True
      have "fits (length d) b1" using se(1) ra nz by (auto simp: fits_def)
      note rd = read_done_ok [OF ra(1) this]
      show ?thesis
      proof (rule Data [of d "read_done d b1" w1])
        show "readBuffer b w = Inr (int (length d), read_done d b1, w1)"
          using r s nz g True se(2) by (simp add: readBuffer_def)
        show "length d \<le> BUFFER_SIZE" using se(1) g by linarith
        show "\<not> err b \<Longrightarrow> bytes b + int (length d) \<le> int BUFFER_SIZE" using se(1) ra by linarith
      qed (use rd ra se True in \<open>auto simp: ends_defs\<close>)
    next
      case False
      show ?thesis
      proof (cases "res < 0 \<or> detectEof b1")
        case True
        show ?thesis
          by (rule Nothing [of res "b1\<lparr>eof := True\<rparr>" w1])
            (use r s nz g False True ra se in \<open>auto simp: readBuffer_def buffer_ok_def indices_ok_def contents_def\<close>)
      next
        case no: False
        show ?thesis
          by (rule Nothing [of res b1 w1]) (use r s nz g False no ra se in \<open>auto simp: readBuffer_def\<close>)
      qed
    qed
  qed
qed

text \<open>Every outcome of \<open>writeBuffer\<close>: nothing to write; an error; some bytes accepted.\<close>

lemma writeBuffer_cases [consumes 1]:
  assumes ok: "buffer_ok b"
  obtains (Idle) "writeBuffer b w = Inr (1, b, w)" "err b \<or> bytes b = 0"
  | (Error) w1 where "writeBuffer b w = Inr (-1, b\<lparr>err := True\<rparr>, log_msg WriteFailed w1)" "\<not> err b" "bytes b \<noteq> 0"
      "only_writes (outfd b) w w1" "c_put (files w1 (outfd b)) = c_put (files w (outfd b))"
      "length (c_wrs (files w1 (outfd b))) < length (c_wrs (files w (outfd b)))"
      "\<exists>k \<in> set (c_wrs (files w (outfd b))). k < 0"
  | (Some) n w1 where "writeBuffer b w = Inr (int n, write_done n b, w1)" "\<not> err b" "bytes b \<noteq> 0"
      "n \<le> nat (bytes b)" "buffer_ok (write_done n b)" "contents (write_done n b) = drop n (contents b)"
      "only_writes (outfd b) w w1" "c_put (files w1 (outfd b)) = c_put (files w (outfd b)) @ take n (contents b)"
      "n = nat (write_avail b) \<and> 0 < n \<and> c_wrs (files w1 (outfd b)) = [] \<or>
       length (c_wrs (files w1 (outfd b))) < length (c_wrs (files w (outfd b)))"
      "set (c_wrs (files w1 (outfd b))) \<subseteq> set (c_wrs (files w (outfd b)))"
      "bytes (write_done n b) = bytes b - int n"
proof -
  note wa = write_avail_ok [OF ok]
  let ?d = "take (nat (write_avail b)) (drop (startidx b) (buffer b))"
  obtain r w1 where s: "sys_write (outfd b) ?d w = (r, w1)" by fastforce
  note se = sys_write_effect [OF s]
  have g: "\<not> (write_avail b < 0 \<or> int (startidx b) + write_avail b > int BUFFER_SIZE)" using wa by auto
  show ?thesis
  proof (cases "write_avail b = 0")
    case True
    then show ?thesis using wa by (intro Idle) (simp_all add: writeBuffer_def Let_def)
  next
    case nz: False
    then have ne: "\<not> err b" "bytes b \<noteq> 0" using wa by auto
    have len: "length ?d = nat (write_avail b)" using wa ne by (simp add: wa(5))
    show ?thesis
    proof (cases "r < 0")
      case True
      then have "c_wrs (files w (outfd b)) \<noteq> []" "r = -1" using se(4,7) by auto
      then show ?thesis
        using s nz g True ne se by (intro Error [of w1]) (auto simp: writeBuffer_def Let_def)
    next
      case False
      then have n: "int (nat r) \<le> write_avail b" using se(1) len nz wa by auto
      note wd = write_done_ok [OF ok ne(1) n]
      have le: "nat r \<le> nat (bytes b)" using n wa(3) [OF ne(1)] by linarith
      have "nat (bytes (write_done (nat r) b)) = nat (bytes b) - nat r"
        using wd(2) by (metis length_contents length_drop)
      moreover have "0 \<le> bytes b" "0 \<le> bytes (write_done (nat r) b)" using ok wd(1) ne by (auto simp: buffer_ok_def write_done_def Let_def)
      ultimately have cnt: "bytes (write_done (nat r) b) = bytes b - int (nat r)" using le by linarith
      have tk: "take (nat r) ?d = take (nat r) (contents b)" using n False wa(5) [OF ne(1)] by (simp add: min_absorb1 nat_mono)
      show ?thesis
      proof (rule Some [of "nat r" w1])
        show "writeBuffer b w = Inr (int (nat r), write_done (nat r) b, w1)"
          using s nz g False by (simp add: writeBuffer_def Let_def)
        show "c_put (files w1 (outfd b)) = c_put (files w (outfd b)) @ take (nat r) (contents b)"
          using se(3) tk by simp
        show "nat r = nat (write_avail b) \<and> 0 < nat r \<and> c_wrs (files w1 (outfd b)) = [] \<or>
          length (c_wrs (files w1 (outfd b))) < length (c_wrs (files w (outfd b)))"
          using se(5,6) len nz wa(1) by (cases "c_wrs (files w (outfd b)) = []") auto
      qed (rule ne le wd se(2) se(8) cnt)+
    qed
  qed
qed

text \<open>Both operations keep the buffer in bounds and lose, repeat or reorder nothing.\<close>

lemma relays_cong:
  "relays b w \<Longrightarrow> c_put (files w1 (outfd b)) = c_put (files w (outfd b)) \<Longrightarrow>
   c_got (files w1 (infd b)) = c_got (files w (infd b)) \<Longrightarrow> relays b w1"
  by (simp add: relays_def)

text \<open>
  C37: Both buffer operations are total on well-formed buffers and give well-formed buffers: whatever the system
  returns, no access lies outside the array, the indices stay below its size and delimit the counted bytes.
\<close>

theorem buffer_operations_safe:
  assumes "buffer_ok b"
  shows "(\<exists>r b1 w1. readBuffer b w = Inr (r, b1, w1) \<and> buffer_ok b1 \<and> -1 \<le> r \<and> r \<le> int BUFFER_SIZE) \<and>
    (\<exists>r b1 w1. writeBuffer b w = Inr (r, b1, w1) \<and> buffer_ok b1 \<and> -1 \<le> r \<and> r \<le> int BUFFER_SIZE)"
proof
  show "\<exists>r b1 w1. readBuffer b w = Inr (r, b1, w1) \<and> buffer_ok b1 \<and> -1 \<le> r \<and> r \<le> int BUFFER_SIZE"
    using assms
  proof (cases rule: readBuffer_cases [where w = w])
    case Full
    then show ?thesis using assms by (auto simp: BUFFER_SIZE_def)
  next
    case (Data d b1 w1)
    then show ?thesis by auto
  next
    case (Nothing r b1 w1)
    moreover have "-1 \<le> r"
      using Nothing(1) by (auto simp: readBuffer_def sys_read_def Let_def split: if_splits prod.splits list.splits option.splits)
    ultimately show ?thesis by (auto simp: BUFFER_SIZE_def)
  qed
  show "\<exists>r b1 w1. writeBuffer b w = Inr (r, b1, w1) \<and> buffer_ok b1 \<and> -1 \<le> r \<and> r \<le> int BUFFER_SIZE"
    using assms
  proof (cases rule: writeBuffer_cases [where w = w])
    case Idle
    then show ?thesis using assms by (auto simp: BUFFER_SIZE_def)
  next
    case (Error w1)
    then show ?thesis using assms by (auto simp: buffer_ok_def indices_ok_def)
  next
    case (Some n w1)
    moreover have "bytes b \<le> int BUFFER_SIZE" using assms Some(2) by (simp add: buffer_ok_def)
    ultimately show ?thesis by auto
  qed
qed

theorem buffer_operations_safe_witness:
  "\<exists>r b1 w1. readBuffer (initBuffer blank 4 5 True)
     \<lparr>files = (\<lambda>_. \<lparr>c_rds = [None], c_got = [], c_wrs = [], c_put = []\<rparr>), syslogs = []\<rparr> = Inr (r, b1, w1) \<and> buffer_ok b1"
  using buffer_operations_safe [OF buffer_ok_init, of blank 4 5 True
     "\<lparr>files = (\<lambda>_. \<lparr>c_rds = [None], c_got = [], c_wrs = [], c_put = []\<rparr>), syslogs = []\<rparr>"] by (auto simp: blank_def)

lemma relays_log [simp]: "relays b (log_msg m w) = relays b w"
  by (simp add: relays_def)

lemma relays_ok: "relays b w \<Longrightarrow> buffer_ok b"
  by (simp add: relays_def)

lemma readBuffer_relays:
  assumes "relays b w" "readBuffer b w = Inr (r, b1, w1)"
  shows "relays b1 w1" "only_reads (infd b) w w1" "infd b1 = infd b" "outfd b1 = outfd b" "err b1 = err b"
    "detectEof b1 = detectEof b"
proof -
  have "relays b1 w1 \<and> only_reads (infd b) w w1 \<and> infd b1 = infd b \<and> outfd b1 = outfd b \<and> err b1 = err b \<and>
    detectEof b1 = detectEof b"
    using relays_ok [OF assms(1)]
  proof (cases rule: readBuffer_cases [where w = w])
    case Full
    then show ?thesis using assms by auto
  next
    case (Data d b2 w2)
    moreover have "c_put (files w2 (outfd b)) = c_put (files w (outfd b))" using Data by (simp add: only_reads_def)
    ultimately show ?thesis using assms by (auto simp: relays_def simp flip: append_assoc split: if_splits)
  next
    case (Nothing r2 b2 w2)
    moreover have "c_put (files w2 (outfd b)) = c_put (files w (outfd b))" using Nothing by (simp add: only_reads_def)
    ultimately show ?thesis using assms by (auto simp: relays_def split: if_splits)
  qed
  then show "relays b1 w1" "only_reads (infd b) w w1" "infd b1 = infd b" "outfd b1 = outfd b" "err b1 = err b"
    "detectEof b1 = detectEof b" by auto
qed

lemma writeBuffer_relays:
  assumes "relays b w" "writeBuffer b w = Inr (r, b1, w1)"
  shows "relays b1 w1" "only_writes (outfd b) w w1" "infd b1 = infd b" "outfd b1 = outfd b" "eof b1 = eof b"
    "detectEof b1 = detectEof b" "set (c_wrs (files w1 (outfd b))) \<subseteq> set (c_wrs (files w (outfd b))) \<or> err b1"
proof -
  have "relays b1 w1 \<and> only_writes (outfd b) w w1 \<and> infd b1 = infd b \<and> outfd b1 = outfd b \<and> eof b1 = eof b \<and>
    detectEof b1 = detectEof b \<and> (set (c_wrs (files w1 (outfd b))) \<subseteq> set (c_wrs (files w (outfd b))) \<or> err b1)"
    using relays_ok [OF assms(1)]
  proof (cases rule: writeBuffer_cases [where w = w])
    case Idle
    then show ?thesis using assms by auto
  next
    case (Error w2)
    moreover have "c_got (files w2 (infd b)) = c_got (files w (infd b))" using Error by (simp add: only_writes_def)
    ultimately show ?thesis
      using assms by (auto simp: relays_def buffer_ok_def indices_ok_def prefix_def intro: sym)
  next
    case (Some n w2)
    moreover have "c_got (files w2 (infd b)) = c_got (files w (infd b))" using Some by (simp add: only_writes_def)
    ultimately show ?thesis using assms by (auto simp: relays_def ends_defs)
  qed
  then show "relays b1 w1" "only_writes (outfd b) w w1" "infd b1 = infd b" "outfd b1 = outfd b" "eof b1 = eof b"
    "detectEof b1 = detectEof b" "set (c_wrs (files w1 (outfd b))) \<subseteq> set (c_wrs (files w (outfd b))) \<or> err b1" by auto
qed

end
