(* ===== verification/Lp_Copy.thy ===== *)
theory Lp_Copy
  imports Lp_Buffer
begin

text \<open>
  How the printer daemon copies a job, \<open>copy_stream\<close> of \<^verbatim>\<open>apps/p910nd-0.93/p910nd.c\<close>: the plain loop from the
  network to the printer, and the loop around \<open>select()\<close> that serves both directions and pauses between reads
  from the printer. The theorems say what arrives at the other end, that the loops end, and how long the pause is.
\<close>

section \<open>Copying a job\<close>

text \<open>Unidirectional: one read, one write, until a read returns nothing.\<close>

fun copy_uni :: "nat \<Rightarrow> Buffer \<Rightarrow> pworld \<Rightarrow> (int \<times> Buffer \<times> pworld) res" where
  "copy_uni 0 b w = Inl Hang"
| "copy_uni (Suc n) b w = rbind (readBuffer b w) (\<lambda>(result, b1, w1).
     if result > 0 then rbind (writeBuffer b1 w1) (\<lambda>(_, b2, w2). copy_uni n b2 w2)
     else Inr (result, b1, log_msg (FinishedJob (totalout b1)) w1))"

text \<open>
  Both directions. A \<open>tick\<close> is what the system answers in one round: the two readings of the clock (seconds and
  microseconds), the result of \<open>select()\<close> and the descriptors it leaves in the two sets. The calls of
  \<open>select()\<close> are recorded with their timeout.
\<close>

record tick =
  t_now :: "int \<times> int"
  t_result :: int
  t_readable :: "int set"
  t_writable :: "int set"
  t_read_at :: "int \<times> int"

record cstate =
  n2p :: Buffer
  p2n :: Buffer
  readfds :: "int set"
  writefds :: "int set"
  timer :: bool
  then_at :: "int \<times> int"
  selects :: "(int set \<times> int set \<times> (int \<times> int) option) list"
  cworld :: pworld

definition later :: "int \<times> int \<Rightarrow> int \<times> int \<Rightarrow> bool" where
  "later now thn \<longleftrightarrow> fst now > fst thn \<or> fst now = fst thn \<and> snd now > snd thn"

definition pause_until :: "int \<times> int \<Rightarrow> int \<times> int" where
  "pause_until t = (let u = snd t + 100000 in if u > 1000000 then (fst t + 1, u - 1000000) else (fst t, u))"

definition check_timer :: "int \<Rightarrow> tick \<Rightarrow> cstate \<Rightarrow> cstate" where
  "check_timer lp t s =
     (if timer s
      then if later (t_now t) (then_at s) then s\<lparr>timer := False\<rparr> else s\<lparr>readfds := readfds s - {lp}\<rparr>
      else s)"

definition do_select :: "tick \<Rightarrow> cstate \<Rightarrow> cstate" where
  "do_select t s = s\<lparr>selects := selects s @ [(readfds s, writefds s, if timer s then Some (then_at s) else None)],
     readfds := readfds s \<inter> t_readable t, writefds := writefds s \<inter> t_writable t\<rparr>"

definition net_read :: "int \<Rightarrow> cstate \<Rightarrow> cstate res" where
  "net_read fd s =
     (if fd \<in> readfds s
      then rbind (readBuffer (n2p s) (cworld s)) (\<lambda>(_, b, w). Inr (s\<lparr>n2p := b, cworld := w\<rparr>))
      else Inr s)"

definition lp_read :: "int \<Rightarrow> tick \<Rightarrow> cstate \<Rightarrow> cstate res" where
  "lp_read lp t s =
     (if lp \<in> readfds s
      then rbind (readBuffer (p2n s) (cworld s)) (\<lambda>(result, b, w).
             let s1 = s\<lparr>p2n := b, cworld := w\<rparr>
             in Inr (if result \<ge> 0 then s1\<lparr>then_at := pause_until (t_read_at t), timer := True\<rparr> else s1))
      else Inr s)"

definition lp_write :: "int \<Rightarrow> cstate \<Rightarrow> cstate res" where
  "lp_write lp s =
     (if lp \<in> writefds s
      then rbind (writeBuffer (n2p s) (cworld s)) (\<lambda>(_, b, w). Inr (s\<lparr>n2p := b, cworld := w\<rparr>))
      else Inr s)"

definition net_write :: "int \<Rightarrow> cstate \<Rightarrow> cstate res" where
  "net_write fd s =
     (if fd \<in> writefds s
      then rbind (writeBuffer (p2n s) (cworld s)) (\<lambda>(result, b, w).
             let s1 = s\<lparr>p2n := b, cworld := w\<rparr>
             in Inr (if result < 0 then s1\<lparr>n2p := (n2p s1)\<lparr>eof := True\<rparr>\<rparr> else s1))
      else Inr s)"

definition prepare :: "cstate \<Rightarrow> cstate" where
  "prepare s =
     (case prepBuffer (n2p s) {} {} of (r, w) \<Rightarrow>
      case prepBuffer (p2n s) r w of (r, w) \<Rightarrow> s\<lparr>readfds := r, writefds := w\<rparr>)"

definition copy_round :: "int \<Rightarrow> int \<Rightarrow> tick \<Rightarrow> cstate \<Rightarrow> (int option \<times> cstate) res" where
  "copy_round fd lp t s0 =
     (let s = do_select t (check_timer lp t s0) in
      if t_result t < 0 then Inr (Some (t_result t), s)
      else rbind (net_read fd s) (\<lambda>s.
           rbind (lp_read lp t s) (\<lambda>s.
           rbind (lp_write lp s) (\<lambda>s.
           rbind (net_write fd s) (\<lambda>s. Inr (None, prepare s))))))"

text \<open>The loop; without a further tick the process is still waiting in \<open>select()\<close>.\<close>

fun copy_bidir :: "int \<Rightarrow> int \<Rightarrow> tick list \<Rightarrow> cstate \<Rightarrow> (int option \<times> cstate) res" where
  "copy_bidir fd lp ts s =
     (if fd \<in> readfds s \<or> lp \<in> writefds s
      then case ts of
             [] \<Rightarrow> Inr (None, s)
           | t # ts \<Rightarrow> rbind (copy_round fd lp t s) (\<lambda>(r, s1).
               case r of Some n \<Rightarrow> Inr (Some n, s1) | None \<Rightarrow> copy_bidir fd lp ts s1)
      else Inr (Some 0, s\<lparr>cworld := log_msg (FinishedBidir (totalout (n2p s)) (totalout (p2n s))) (cworld s)\<rparr>))"

definition bidir_start :: "Buffer \<Rightarrow> Buffer \<Rightarrow> int \<Rightarrow> int \<Rightarrow> pworld \<Rightarrow> cstate" where
  "bidir_start b1 b2 fd lp w = \<lparr>n2p = initBuffer b1 fd lp True, p2n = initBuffer b2 lp fd False,
     readfds = {fd, lp}, writefds = {}, timer = False, then_at = (0, 0), selects = [], cworld = w\<rparr>"

text \<open>\<open>copy_stream\<close>: the result, or \<open>None\<close> while the process waits, and the world.\<close>

definition copy_stream :: "nat \<Rightarrow> bool \<Rightarrow> Buffer \<Rightarrow> Buffer \<Rightarrow> tick list \<Rightarrow> int \<Rightarrow> int \<Rightarrow> pworld \<Rightarrow> (int option \<times> pworld) res" where
  "copy_stream n bidir b1 b2 ts fd lp w =
     (if bidir then rbind (copy_bidir fd lp ts (bidir_start b1 b2 fd lp w)) (\<lambda>(r, s). Inr (r, cworld s))
      else rbind (copy_uni n (initBuffer b1 fd lp True) w) (\<lambda>(r, _, w). Inr (Some r, w)))"

declare copy_bidir.simps [simp del]

section \<open>A job in one direction\<close>

text \<open>
  The bytes that are still to arrive on a channel; \<open>undisturbed\<close>: no read fails and none returns without
  data before they have all arrived.
\<close>

definition pending :: "lp_chan \<Rightarrow> string" where
  "pending c = concat (map (\<lambda>x. case x of None \<Rightarrow> [] | Some d \<Rightarrow> d) (c_rds c))"

definition undisturbed :: "lp_chan \<Rightarrow> bool" where
  "undisturbed c \<longleftrightarrow> None \<notin> set (c_rds c) \<and> Some [] \<notin> set (c_rds c)"

lemma sys_read_undisturbed:
  assumes "sys_read fd n w = (r, d, w1)" "undisturbed (files w fd)" "0 < n"
  shows "undisturbed (files w1 fd)" "c_got (files w1 fd) @ pending (files w1 fd) = c_got (files w fd) @ pending (files w fd)"
    "r \<le> 0 \<Longrightarrow> r = 0 \<and> pending (files w1 fd) = []"
  using assms
  by (auto simp: sys_read_def Let_def set_chan_def undisturbed_def pending_def
      split: list.splits option.splits if_splits)

lemma readBuffer_undisturbed:
  assumes "readBuffer b w = Inr (r, b1, w1)" "buffer_ok b" "undisturbed (files w (infd b))"
  shows "undisturbed (files w1 (infd b))"
    "c_got (files w1 (infd b)) @ pending (files w1 (infd b)) = c_got (files w (infd b)) @ pending (files w (infd b))"
    "r \<le> 0 \<Longrightarrow> r = 0 \<and> pending (files w1 (infd b)) = []"
proof -
  obtain a b2 where r: "read_avail b = (a, b2)" by fastforce
  obtain res d w2 where s: "sys_read (infd b2) (nat a) w = (res, d, w2)" by (metis prod_cases3)
  note ra = read_avail_ok [OF assms(2) r]
  show "undisturbed (files w1 (infd b))"
    "c_got (files w1 (infd b)) @ pending (files w1 (infd b)) = c_got (files w (infd b)) @ pending (files w (infd b))"
    "r \<le> 0 \<Longrightarrow> r = 0 \<and> pending (files w1 (infd b)) = []"
    using assms r s ra(3,8) sys_read_undisturbed [OF s]
    by (auto simp: readBuffer_def split: if_splits)
qed

text \<open>The number of rounds a job can take.\<close>

definition uni_rounds :: "Buffer \<Rightarrow> pworld \<Rightarrow> nat" where
  "uni_rounds b w = 2 * feed (files w (infd b)) + 2 * length (c_wrs (files w (outfd b))) +
     (if \<not> err b \<and> bytes b = int BUFFER_SIZE then 1 else 0)"

lemma writeBuffer_rounds:
  assumes "buffer_ok b" "writeBuffer b w = Inr (r, b1, w1)"
  shows "uni_rounds b1 w1 \<le> uni_rounds b w \<and>
    (\<not> err b \<and> bytes b = int BUFFER_SIZE \<longrightarrow> uni_rounds b1 w1 < uni_rounds b w)"
  using assms(1)
proof (cases rule: writeBuffer_cases [where w = w])
  case Idle
  then show ?thesis using assms by auto
next
  case (Error w2)
  then show ?thesis using assms feed_only_writes [OF Error(4)] by (auto simp: uni_rounds_def)
next
  case (Some n w2)
  moreover have "bytes b \<le> int BUFFER_SIZE" using assms(1) Some(2) by (simp add: buffer_ok_def)
  ultimately show ?thesis using assms feed_only_writes [OF Some(7)] by (auto simp: uni_rounds_def ends_defs)
qed

lemma readBuffer_rounds:
  assumes "buffer_ok b" "readBuffer b w = Inr (r, b1, w1)" "r > 0"
  shows "uni_rounds b1 w1 < uni_rounds b w \<or> b1 = b \<and> w1 = w \<and> \<not> err b \<and> bytes b = int BUFFER_SIZE"
  using assms(1)
proof (cases rule: readBuffer_cases [where w = w])
  case Full
  then show ?thesis using assms by auto
next
  case (Data d b2 w2)
  moreover have "c_wrs (files w2 x) = c_wrs (files w x)" for x using Data by (simp add: only_reads_def)
  ultimately show ?thesis using assms by (cases d) (auto simp: uni_rounds_def)
qed (use assms in auto)

lemma copy_uni_relays:
  assumes "relays b w" "uni_rounds b w < n"
  shows "\<exists>r b1 w1. copy_uni n b w = Inr (r, b1, w1) \<and> r \<le> 0 \<and> relays b1 w1 \<and> infd b1 = infd b \<and> outfd b1 = outfd b \<and>
    (undisturbed (files w (infd b)) \<longrightarrow>
       r = 0 \<and> c_got (files w1 (infd b)) = c_got (files w (infd b)) @ pending (files w (infd b)))"
  using assms
proof (induction n arbitrary: b w)
  case (Suc n)
  note ok = relays_ok [OF Suc.prems(1)]
  obtain r b1 w1 where r: "readBuffer b w = Inr (r, b1, w1)"
    using ok by (cases rule: readBuffer_cases [where w = w]) auto
  note rr = readBuffer_relays [OF Suc.prems(1) r] and ru = readBuffer_undisturbed [OF r ok]
  show ?case
  proof (cases "r > 0")
    case True
    note ok1 = relays_ok [OF rr(1)]
    obtain r2 b2 w2 where wr: "writeBuffer b1 w1 = Inr (r2, b2, w2)"
      using ok1 by (cases rule: writeBuffer_cases [where w = w1]) auto
    note ww = writeBuffer_relays [OF rr(1) wr]
    have "uni_rounds b2 w2 < n"
      using readBuffer_rounds [OF ok r True] writeBuffer_rounds [OF ok1 wr] Suc.prems(2) by auto
    note ih = Suc.IH [OF ww(1) this]
    have same: "files w2 (infd b) = (files w1 (infd b))\<lparr>c_wrs := c_wrs (files w2 (infd b)), c_put := c_put (files w2 (infd b))\<rparr>"
      using ww(2) by (simp add: only_writes_def)
    have "undisturbed (files w2 (infd b)) = undisturbed (files w1 (infd b))"
      "pending (files w2 (infd b)) = pending (files w1 (infd b))" "c_got (files w2 (infd b)) = c_got (files w1 (infd b))"
      by (subst same, simp add: undisturbed_def pending_def)+
    with ih show ?thesis using ru(1,2) r wr True rr ww by auto
  next
    case False
    then show ?thesis using r rr ru by auto
  qed
qed simp

text \<open>A device that takes all it is offered leaves the buffer empty after every round.\<close>

lemma readBuffer_from_empty:
  "readBuffer b w = Inr (r, b1, w1) \<Longrightarrow> bytes b = 0 \<Longrightarrow> startidx b1 = 0"
  by (auto simp: readBuffer_def read_avail_def ends_defs split: if_splits prod.splits)

lemma write_avail_unwrapped: "buffer_ok b \<Longrightarrow> \<not> err b \<Longrightarrow> startidx b = 0 \<Longrightarrow> write_avail b = bytes b"
  by (auto simp: buffer_ok_def indices_ok_def write_avail_def wrap_idx_def split: if_splits)

lemma copy_uni_empties:
  assumes "relays b w" "bytes b = 0" "\<not> err b" "c_wrs (files w (outfd b)) = []" "copy_uni n b w = Inr (r, b1, w1)"
  shows "bytes b1 = 0 \<and> \<not> err b1"
  using assms
proof (induction n arbitrary: b w)
  case (Suc n)
  note ok = relays_ok [OF Suc.prems(1)]
  obtain r2 b2 w2 where r: "readBuffer b w = Inr (r2, b2, w2)"
    using ok by (cases rule: readBuffer_cases [where w = w]) auto
  note rr = readBuffer_relays [OF Suc.prems(1) r] and s0 = readBuffer_from_empty [OF r Suc.prems(2)]
  have ne: "\<not> err b2" "c_wrs (files w2 (outfd b2)) = []" using rr Suc.prems by (auto simp: only_reads_def)
  show ?case
  proof (cases "r2 > 0")
    case False
    have "bytes b2 = 0" using ok False r Suc.prems(2) by (cases rule: readBuffer_cases [where w = w]) auto
    with False show ?thesis using r ne Suc.prems by auto
  next
    case True
    note ok2 = relays_ok [OF rr(1)]
    have wa: "write_avail b2 = bytes b2" using ok2 ne(1) s0 by (rule write_avail_unwrapped)
    obtain r3 b3 w3 where wr: "writeBuffer b2 w2 = Inr (r3, b3, w3)"
      using ok2 by (cases rule: writeBuffer_cases [where w = w2]) auto
    have "bytes b3 = 0 \<and> \<not> err b3 \<and> c_wrs (files w3 (outfd b2)) = []"
      using ok2
    proof (cases rule: writeBuffer_cases [where w = w2])
      case Idle
      then show ?thesis using wr ne by auto
    next
      case (Error w4)
      then show ?thesis using ne by auto
    next
      case (Some k w4)
      moreover have "0 \<le> bytes b2" using ok2 ne by (simp add: buffer_ok_def)
      ultimately show ?thesis using wr ne wa by (auto simp: ends_defs)
    qed
    moreover note ww = writeBuffer_relays [OF rr(1) wr]
    ultimately show ?thesis using Suc.IH [OF ww(1)] Suc.prems(5) r wr True by auto
  qed
qed simp

lemma copy_uni_start:
  assumes "length (buffer b) = BUFFER_SIZE" "undisturbed (files w fd)"
    and "c_got (files w fd) = []" "c_put (files w lp) = []"
    and "2 * feed (files w fd) + 2 * length (c_wrs (files w lp)) < n"
  shows "\<exists>b1 w1. copy_uni n (initBuffer b fd lp True) w = Inr (0, b1, w1) \<and>
    c_got (files w1 fd) = pending (files w fd) \<and> prefix (c_put (files w1 lp)) (pending (files w fd)) \<and>
    (c_wrs (files w lp) = [] \<longrightarrow> c_put (files w1 lp) = pending (files w fd))"
proof -
  let ?b = "initBuffer b fd lp True"
  have b: "infd ?b = fd" "outfd ?b = lp" "bytes ?b = 0" "\<not> err ?b" by (simp_all add: initBuffer_def)
  have rel: "relays ?b w" using assms b buffer_ok_init [OF assms(1)] by (simp add: relays_def)
  have "uni_rounds ?b w < n" using assms(5) b by (simp add: uni_rounds_def)
  from copy_uni_relays [OF rel this] obtain r b1 w1 where
    c: "copy_uni n ?b w = Inr (r, b1, w1)" "relays b1 w1" "infd b1 = fd" "outfd b1 = lp" "r = 0"
      "c_got (files w1 fd) = pending (files w fd)"
    using assms(2,3) b by auto
  have p: "prefix (c_put (files w1 lp)) (pending (files w fd))"
    using c by (auto simp: relays_def prefix_def split: if_splits) metis
  have "c_put (files w1 lp) = pending (files w fd)" if "c_wrs (files w lp) = []"
  proof -
    have "bytes b1 = 0 \<and> \<not> err b1" using copy_uni_empties [OF rel b(3,4) _ c(1)] that b by simp
    then show ?thesis using c by (auto simp: relays_def contents_def)
  qed
  with c p show ?thesis by auto
qed

text \<open>A job of five bytes in two pieces, for the examples.\<close>

definition demo_net :: lp_chan where
  "demo_net = \<lparr>c_rds = [Some ''abc'', Some ''de''], c_got = [], c_wrs = [], c_put = []\<rparr>"

definition demo_lp :: "int list \<Rightarrow> lp_chan" where
  "demo_lp ks = \<lparr>c_rds = [Some ''ready''], c_got = [], c_wrs = ks, c_put = []\<rparr>"

definition lp_world :: "int list \<Rightarrow> pworld" where
  "lp_world ks = \<lparr>files = (\<lambda>_. demo_lp ks)(4 := demo_net), syslogs = []\<rparr>"

lemmas demo_defs = lp_world_def demo_net_def demo_lp_def blank_def undisturbed_def pending_def feed_def

text \<open>
  C22: A print job in one direction ends after a bounded number of rounds and never leaves the buffer. If no read is
  disturbed, the whole job is read; what the printer gets is always a beginning of it, in order and without
  repetition, and it is all of it if the device accepts the bytes it is offered.
\<close>

theorem unidirectional_job:
  assumes "length (buffer b) = BUFFER_SIZE" "undisturbed (files w fd)"
    and "c_got (files w fd) = []" "c_put (files w lp) = []"
    and "2 * feed (files w fd) + 2 * length (c_wrs (files w lp)) < n"
  shows "\<exists>w1. copy_stream n False b b2 ts fd lp w = Inr (Some 0, w1) \<and>
    c_got (files w1 fd) = pending (files w fd) \<and> prefix (c_put (files w1 lp)) (pending (files w fd)) \<and>
    (c_wrs (files w lp) = [] \<longrightarrow> c_put (files w1 lp) = pending (files w fd))"
  using copy_uni_start [OF assms] by (auto simp: copy_stream_def)

theorem unidirectional_job_witness:
  "\<exists>w1. copy_stream 11 False blank blank [] 4 5 (lp_world []) = Inr (Some 0, w1) \<and> c_put (files w1 5) = ''abcde''"
  using unidirectional_job [of blank "lp_world []" 4 5 11 blank "[]"] by (auto simp: demo_defs)

text \<open>
  C40: The end of a job is lost if the device accepts only a part of the last bytes: the loop ends with the last
  read and does not write what is left in the buffer.
\<close>

theorem short_last_write_lost:
  assumes "length (buffer b) = BUFFER_SIZE" "fd \<noteq> lp" "length d < BUFFER_SIZE" "k < length d"
    and "files w fd = \<lparr>c_rds = [Some d], c_got = [], c_wrs = [], c_put = []\<rparr>"
    and "files w lp = \<lparr>c_rds = [], c_got = [], c_wrs = [int k], c_put = []\<rparr>"
  shows "\<exists>w1. copy_stream (Suc (Suc n)) False b b2 ts fd lp w = Inr (Some 0, w1) \<and>
    c_got (files w1 fd) = d \<and> c_put (files w1 lp) = take k d \<and> c_put (files w1 lp) \<noteq> d"
proof -
  let ?b = "initBuffer b fd lp True"
  have b: "infd ?b = fd" "outfd ?b = lp" "bytes ?b = 0" "\<not> err ?b"
    by (simp_all add: initBuffer_def)
  have ok: "buffer_ok ?b" using assms(1) by (rule buffer_ok_init)
  have r1: "\<exists>b1. readBuffer ?b w = Inr (int (length d), b1, set_chan fd ((files w fd)\<lparr>c_rds := [], c_got := d\<rparr>) w)"
    using assms b by (simp add: readBuffer_def read_avail_def sys_read_def Let_def)
  then obtain b1 w1 where r1: "readBuffer ?b w = Inr (int (length d), b1, w1)"
    and w1: "w1 = set_chan fd ((files w fd)\<lparr>c_rds := [], c_got := d\<rparr>) w" by blast
  have b1: "buffer_ok b1 \<and> contents b1 = d \<and> \<not> err b1 \<and> infd b1 = fd \<and> outfd b1 = lp \<and> bytes b1 = int (length d)"
    using ok
  proof (cases rule: readBuffer_cases [where w = w])
    case (Data d1 b3 w3)
    then have "length d1 = length d" using r1 by simp
    moreover have "w3 = w1" using Data(1) r1 by simp
    then have "d1 = d" using Data(14) w1 b assms(5) by (simp add: set_chan_def)
    ultimately show ?thesis using Data r1 b assms(3) BUFFER_SIZE_small(1) by auto
  qed (use r1 assms b in auto)
  then have wa: "write_avail b1 = int (length d)"
    using write_avail_unwrapped [of b1] readBuffer_from_empty [OF r1] b by simp
  have "writeBuffer b1 w1 = Inr (int k, write_done k b1, set_chan lp ((files w lp)\<lparr>c_wrs := [], c_put := take k d\<rparr>) w1)"
    using assms b1 wa write_avail_ok [of b1] w1 by (auto simp: writeBuffer_def sys_write_def set_chan_def Let_def)
  then obtain w2 where r2: "writeBuffer b1 w1 = Inr (int k, write_done k b1, w2)"
    and w2: "w2 = set_chan lp ((files w lp)\<lparr>c_wrs := [], c_put := take k d\<rparr>) w1" by blast
  let ?b2 = "write_done k b1"
  have b2: "buffer_ok ?b2" "bytes ?b2 = int (length d - k)" "\<not> err ?b2" "infd ?b2 = fd" "outfd ?b2 = lp"
    using write_done_ok [of b1 k] b1 wa assms(3,4) BUFFER_SIZE_small(1) by (auto simp: ends_defs)
  have f2: "c_rds (files w2 fd) = []" "c_got (files w2 fd) = d" "c_put (files w2 lp) = take k d"
    using w1 w2 assms by (simp_all add: set_chan_def)
  have u: "undisturbed (files w2 fd)" using f2 by (simp add: undisturbed_def)
  have r3: "\<exists>b3 w3. readBuffer ?b2 w2 = Inr (0, b3, w3) \<and> c_got (files w3 fd) = d \<and> c_put (files w3 lp) = take k d"
    using b2(1)
  proof (cases rule: readBuffer_cases [where w = w2])
    case Full
    then show ?thesis using b2 assms by auto
  next
    case (Data d3 b3 w3)
    then show ?thesis using b2 f2 by (auto simp: feed_def)
  next
    case (Nothing r b3 w3)
    moreover have "r = 0" using readBuffer_undisturbed(3) [OF Nothing(1) b2(1)] u Nothing(2) b2 by simp
    ultimately show ?thesis using b2 f2 by (auto simp: only_reads_def)
  qed
  have "take k d \<noteq> d" using assms(4) by (metis length_take min.absorb4 order.irrefl)
  then show ?thesis using r1 r2 r3 assms(4) by (auto simp: copy_stream_def)
qed

theorem short_last_write_lost_witness:
  "\<exists>w1. copy_stream 2 False blank blank [] 4 5
     \<lparr>files = (\<lambda>_. \<lparr>c_rds = [], c_got = [], c_wrs = [int 1], c_put = []\<rparr>)
       (4 := \<lparr>c_rds = [Some ''abc''], c_got = [], c_wrs = [], c_put = []\<rparr>), syslogs = []\<rparr> = Inr (Some 0, w1) \<and>
   c_got (files w1 4) = ''abc'' \<and> c_put (files w1 5) = ''a''"
  using short_last_write_lost [of blank 4 5 "''abc''" 1 "\<lparr>files = (\<lambda>_. \<lparr>c_rds = [], c_got = [], c_wrs = [int 1], c_put = []\<rparr>)
       (4 := \<lparr>c_rds = [Some ''abc''], c_got = [], c_wrs = [], c_put = []\<rparr>), syslogs = []\<rparr>" 0 blank "[]"]
  by (auto simp: blank_def BUFFER_SIZE_def numeral_2_eq_2)

section \<open>A job in both directions\<close>

text \<open>
  The invariant of the loop, and what holds in addition at its head: the two sets ask for exactly what the
  buffers can use.
\<close>

definition cinv :: "int \<Rightarrow> int \<Rightarrow> cstate \<Rightarrow> bool" where
  "cinv fd lp s \<longleftrightarrow> fd \<noteq> lp \<and> relays (n2p s) (cworld s) \<and> relays (p2n s) (cworld s) \<and>
     infd (n2p s) = fd \<and> outfd (n2p s) = lp \<and> infd (p2n s) = lp \<and> outfd (p2n s) = fd \<and> detectEof (n2p s) \<and>
     0 \<le> bytes (n2p s) \<and> bytes (n2p s) < 2 * int BUFFER_SIZE"

definition lp_asks :: "int \<Rightarrow> int \<Rightarrow> cstate \<Rightarrow> bool" where
  "lp_asks fd lp s \<longleftrightarrow> (fd \<in> readfds s \<longrightarrow> \<not> eof (n2p s) \<and> bytes (n2p s) < int BUFFER_SIZE)"

definition head :: "int \<Rightarrow> int \<Rightarrow> cstate \<Rightarrow> bool" where
  "head fd lp s \<longleftrightarrow> cinv fd lp s \<and>
     (fd \<in> readfds s \<longleftrightarrow> \<not> eof (n2p s) \<and> bytes (n2p s) < int BUFFER_SIZE) \<and>
     (lp \<in> writefds s \<longleftrightarrow> \<not> err (n2p s) \<and> bytes (n2p s) \<noteq> 0)"

text \<open>The printer has not reported an error, and will not.\<close>

definition printer_fine :: "int \<Rightarrow> cstate \<Rightarrow> bool" where
  "printer_fine lp s \<longleftrightarrow> \<not> err (n2p s) \<and> (\<forall>k \<in> set (c_wrs (files (cworld s) lp)). 0 \<le> k)"

text \<open>The number of rounds the job can still take, when every round does a part of it.\<close>

definition job_left :: "int \<Rightarrow> int \<Rightarrow> cstate \<Rightarrow> nat" where
  "job_left fd lp s = 2 * feed (files (cworld s) fd) + nat (bytes (n2p s)) + length (c_wrs (files (cworld s) lp)) +
     (if eof (n2p s) then 0 else 1)"

lemmas cdefs = cinv_def lp_asks_def printer_fine_def job_left_def

lemma select_keeps:
  assumes "cinv fd lp s" "lp_asks fd lp s" "s1 = do_select t (check_timer lp t s)"
  shows "cinv fd lp s1" "lp_asks fd lp s1" "printer_fine lp s1 = printer_fine lp s" "job_left fd lp s1 = job_left fd lp s"
    "fd \<in> readfds s1 \<longleftrightarrow> fd \<in> readfds s \<and> fd \<in> t_readable t" "lp \<in> writefds s1 \<longleftrightarrow> lp \<in> writefds s \<and> lp \<in> t_writable t"
    "n2p s1 = n2p s" "p2n s1 = p2n s" "cworld s1 = cworld s"
  using assms by (auto simp: do_select_def check_timer_def cdefs)

lemma net_read_keeps:
  assumes s: "cinv fd lp s" "lp_asks fd lp s"
  shows "\<exists>s1. net_read fd s = Inr s1 \<and> cinv fd lp s1 \<and> readfds s1 = readfds s \<and> writefds s1 = writefds s \<and>
    (printer_fine lp s \<longrightarrow> printer_fine lp s1) \<and> err (n2p s1) = err (n2p s) \<and> bytes (n2p s) \<le> bytes (n2p s1) \<and>
    (if fd \<in> readfds s then job_left fd lp s1 < job_left fd lp s else job_left fd lp s1 = job_left fd lp s)"
proof (cases "fd \<in> readfds s")
  case True
  let ?b = "n2p s" and ?w = "cworld s"
  have rel: "relays ?b ?w" and ok: "buffer_ok ?b" using s relays_ok by (auto simp: cinv_def)
  obtain r b1 w1 where r: "readBuffer ?b ?w = Inr (r, b1, w1)"
    using ok by (cases rule: readBuffer_cases [where w = ?w]) auto
  note rr = readBuffer_relays [OF rel r]
  have fr: "c_put (files w1 x) = c_put (files ?w x)" "c_wrs (files w1 x) = c_wrs (files ?w x)"
    "x \<noteq> fd \<Longrightarrow> files w1 x = files ?w x" for x using rr(2) s by (auto simp: only_reads_def cinv_def)
  then have p: "relays (p2n s) w1" using s by (auto simp: cinv_def elim!: relays_cong)
  have b: "bytes b1 \<ge> bytes ?b \<and> bytes b1 < 2 * int BUFFER_SIZE \<and>
    2 * feed (files w1 fd) + nat (bytes b1) + (if eof b1 then 0 else 1) < 2 * feed (files ?w fd) + nat (bytes ?b) + 1"
    using ok
  proof (cases rule: readBuffer_cases [where w = ?w])
    case Full
    then show ?thesis using s True by (auto simp: cdefs)
  next
    case (Data d b2 w2)
    moreover have "sint32 (bytes ?b + int (length d)) = bytes ?b + int (length d)"
      using s True Data(15) BUFFER_SIZE_small by (intro sint32_small) (auto simp: cdefs)
    moreover obtain m where "length d = Suc m" using Data(2) by (cases d) auto
    ultimately show ?thesis using r s True by (auto simp: cdefs nat_add_distrib)
  next
    case (Nothing r2 b2 w2)
    then show ?thesis using r s True by (auto simp: cdefs)
  qed
  then show ?thesis using r rr p s True fr by (auto simp: net_read_def cdefs)
qed (use assms in \<open>auto simp: net_read_def\<close>)

lemma lp_read_keeps:
  assumes s: "cinv fd lp s"
  shows "\<exists>s1. lp_read lp t s = Inr s1 \<and> cinv fd lp s1 \<and> readfds s1 = readfds s \<and> writefds s1 = writefds s \<and>
    n2p s1 = n2p s \<and> (printer_fine lp s \<longrightarrow> printer_fine lp s1) \<and> job_left fd lp s1 = job_left fd lp s"
proof (cases "lp \<in> readfds s")
  case True
  let ?b = "p2n s" and ?w = "cworld s"
  have rel: "relays ?b ?w" and ok: "buffer_ok ?b" using s relays_ok by (auto simp: cinv_def)
  obtain r b1 w1 where r: "readBuffer ?b ?w = Inr (r, b1, w1)"
    using ok by (cases rule: readBuffer_cases [where w = ?w]) auto
  note rr = readBuffer_relays [OF rel r]
  have fr: "c_put (files w1 x) = c_put (files ?w x)" "c_wrs (files w1 x) = c_wrs (files ?w x)"
    "x \<noteq> lp \<Longrightarrow> files w1 x = files ?w x" for x using rr(2) s by (auto simp: only_reads_def cinv_def)
  then have p: "relays (n2p s) w1" using s by (auto simp: cinv_def elim!: relays_cong)
  then show ?thesis using r rr s True fr by (auto simp: lp_read_def cdefs Let_def)
qed (use assms in \<open>auto simp: lp_read_def\<close>)

lemma lp_write_keeps:
  assumes s: "cinv fd lp s"
  shows "\<exists>s1. lp_write lp s = Inr s1 \<and> cinv fd lp s1 \<and> (printer_fine lp s \<longrightarrow> printer_fine lp s1) \<and>
    readfds s1 = readfds s \<and> writefds s1 = writefds s \<and>
    job_left fd lp s1 \<le> job_left fd lp s \<and>
    (lp \<in> writefds s \<and> \<not> err (n2p s) \<and> bytes (n2p s) \<noteq> 0 \<longrightarrow> job_left fd lp s1 < job_left fd lp s)"
proof (cases "lp \<in> writefds s")
  case True
  let ?b = "n2p s" and ?w = "cworld s"
  have rel: "relays ?b ?w" and ok: "buffer_ok ?b" using s relays_ok by (auto simp: cinv_def)
  obtain r b1 w1 where r: "writeBuffer ?b ?w = Inr (r, b1, w1)"
    using ok by (cases rule: writeBuffer_cases [where w = ?w]) auto
  note ww = writeBuffer_relays [OF rel r]
  have fr: "c_got (files w1 x) = c_got (files ?w x)" "feed (files w1 x) = feed (files ?w x)"
    "x \<noteq> lp \<Longrightarrow> files w1 x = files ?w x" for x
    using ww(2) s feed_only_writes [OF ww(2)] by (auto simp: only_writes_def cinv_def)
  then have p: "relays (p2n s) w1" using s by (auto simp: cinv_def elim!: relays_cong)
  have b: "0 \<le> bytes b1 \<and> bytes b1 \<le> bytes ?b \<and> (printer_fine lp s \<longrightarrow> \<not> err b1) \<and>
    nat (bytes b1) + length (c_wrs (files w1 lp)) \<le> nat (bytes ?b) + length (c_wrs (files ?w lp)) \<and>
    (\<not> err ?b \<and> bytes ?b \<noteq> 0 \<longrightarrow>
      nat (bytes b1) + length (c_wrs (files w1 lp)) < nat (bytes ?b) + length (c_wrs (files ?w lp)))"
    using ok
  proof (cases rule: writeBuffer_cases [where w = ?w])
    case Idle
    then show ?thesis using r s by (auto simp: cdefs)
  next
    case (Error w2)
    then have "\<not> printer_fine lp s" using s by (auto simp: cdefs not_le)
    then show ?thesis using Error r s by (auto simp: cinv_def)
  next
    case (Some n w2)
    moreover have "err (write_done n ?b) = err ?b" by (simp add: ends_defs)
    moreover have "0 \<le> bytes ?b" using s by (simp add: cinv_def)
    ultimately show ?thesis using r s by (auto simp: cinv_def)
  qed
  have "printer_fine lp s \<longrightarrow> printer_fine lp (s\<lparr>n2p := b1, cworld := w1\<rparr>)"
    using b ww(7) s by (auto simp: cdefs)
  then show ?thesis using b r ww p s True fr by (auto simp: lp_write_def cinv_def job_left_def)
qed (use assms in \<open>auto simp: lp_write_def\<close>)

lemma net_write_keeps:
  assumes s: "cinv fd lp s"
  shows "\<exists>s1. net_write fd s = Inr s1 \<and> cinv fd lp s1 \<and> readfds s1 = readfds s \<and> writefds s1 = writefds s \<and>
    (printer_fine lp s \<longrightarrow> printer_fine lp s1) \<and> job_left fd lp s1 \<le> job_left fd lp s"
proof (cases "fd \<in> writefds s")
  case True
  let ?b = "p2n s" and ?w = "cworld s"
  have rel: "relays ?b ?w" and ok: "buffer_ok ?b" using s relays_ok by (auto simp: cinv_def)
  obtain r b1 w1 where r: "writeBuffer ?b ?w = Inr (r, b1, w1)"
    using ok by (cases rule: writeBuffer_cases [where w = ?w]) auto
  note ww = writeBuffer_relays [OF rel r]
  have fr: "c_got (files w1 x) = c_got (files ?w x)" "feed (files w1 x) = feed (files ?w x)"
    "x \<noteq> fd \<Longrightarrow> files w1 x = files ?w x" for x
    using ww(2) s feed_only_writes [OF ww(2)] by (auto simp: only_writes_def cinv_def)
  then have p: "relays (n2p s) w1" using s by (auto simp: cinv_def elim!: relays_cong)
  then have "relays ((n2p s)\<lparr>eof := True\<rparr>) w1"
    by (simp add: relays_def buffer_ok_def indices_ok_def)
  then show ?thesis using r ww p s True fr by (auto simp: net_write_def cdefs Let_def)
qed (use assms in \<open>auto simp: net_write_def\<close>)

lemma prepare_head: "cinv fd lp s \<Longrightarrow> head fd lp (prepare s)"
  using BUFFER_SIZE_small by (auto simp: head_def cinv_def prepare_def prepBuffer_def split: if_splits)

lemma prepare_keeps [simp]:
  "printer_fine lp (prepare s) = printer_fine lp s" "job_left fd lp (prepare s) = job_left fd lp s"
  by (auto simp: prepare_def prepBuffer_def printer_fine_def job_left_def)

lemma head_asks: "head fd lp s \<Longrightarrow> cinv fd lp s \<and> lp_asks fd lp s"
  by (simp add: head_def lp_asks_def)

text \<open>A round keeps the invariant; one that serves a descriptor of the job shortens it.\<close>

lemma copy_round_keeps:
  assumes h: "head fd lp s"
  shows "\<exists>r s1. copy_round fd lp t s = Inr (r, s1) \<and> cinv fd lp s1 \<and> (printer_fine lp s \<longrightarrow> printer_fine lp s1) \<and>
    (case r of Some n \<Rightarrow> n < 0 | None \<Rightarrow> head fd lp s1 \<and> job_left fd lp s1 \<le> job_left fd lp s \<and>
      (fd \<in> readfds s \<and> fd \<in> t_readable t \<or> lp \<in> writefds s \<and> lp \<in> t_writable t \<longrightarrow>
       job_left fd lp s1 < job_left fd lp s))"
proof -
  note ha = head_asks [OF h]
  define s1 where "s1 = do_select t (check_timer lp t s)"
  note sk = select_keeps [OF conjunct1 [OF ha] conjunct2 [OF ha] s1_def]
  show ?thesis
  proof (cases "t_result t < 0")
    case True
    then show ?thesis using sk by (simp add: copy_round_def flip: s1_def)
  next
    case False
    obtain s2 where s2: "net_read fd s1 = Inr s2" "cinv fd lp s2" "readfds s2 = readfds s1" "writefds s2 = writefds s1"
      "printer_fine lp s1 \<longrightarrow> printer_fine lp s2" "err (n2p s2) = err (n2p s1)" "bytes (n2p s1) \<le> bytes (n2p s2)"
      "if fd \<in> readfds s1 then job_left fd lp s2 < job_left fd lp s1 else job_left fd lp s2 = job_left fd lp s1"
      using net_read_keeps [OF sk(1,2)] by blast
    obtain s3 where s3: "lp_read lp t s2 = Inr s3" "cinv fd lp s3" "readfds s3 = readfds s2" "writefds s3 = writefds s2"
      "n2p s3 = n2p s2" "printer_fine lp s2 \<longrightarrow> printer_fine lp s3" "job_left fd lp s3 = job_left fd lp s2"
      using lp_read_keeps [OF s2(2)] by blast
    obtain s4 where s4: "lp_write lp s3 = Inr s4" "cinv fd lp s4" "printer_fine lp s3 \<longrightarrow> printer_fine lp s4"
      "job_left fd lp s4 \<le> job_left fd lp s3"
      "lp \<in> writefds s3 \<and> \<not> err (n2p s3) \<and> bytes (n2p s3) \<noteq> 0 \<longrightarrow> job_left fd lp s4 < job_left fd lp s3"
      using lp_write_keeps [OF s3(2)] by blast
    obtain s5 where s5: "net_write fd s4 = Inr s5" "cinv fd lp s5" "printer_fine lp s4 \<longrightarrow> printer_fine lp s5"
      "job_left fd lp s5 \<le> job_left fd lp s4"
      using net_write_keeps [OF s4(2)] by blast
    have r: "copy_round fd lp t s = Inr (None, prepare s5)"
      using False s2(1) s3(1) s4(1) s5(1) by (simp add: copy_round_def flip: s1_def)
    have le: "job_left fd lp s5 \<le> job_left fd lp s" using s2(8) s3(7) s4(4) s5(4) sk(4) by (auto split: if_splits)
    have "job_left fd lp s5 < job_left fd lp s" if "fd \<in> readfds s" "fd \<in> t_readable t"
      using that s2(8) s3(7) s4(4) s5(4) sk(4,5) by auto
    moreover have "job_left fd lp s5 < job_left fd lp s" if "lp \<in> writefds s" "lp \<in> t_writable t"
    proof -
      have "\<not> err (n2p s)" "0 < bytes (n2p s)" using h that by (auto simp: head_def cinv_def)
      then have "job_left fd lp s4 < job_left fd lp s3" using s4(5) s3 s2 sk that by auto
      then show ?thesis using s2(8) s3(7) s5(4) sk(4) by (auto split: if_splits)
    qed
    moreover have "cinv fd lp (prepare s5)" "head fd lp (prepare s5)" using prepare_head [OF s5(2)] by (auto simp: head_def)
    ultimately show ?thesis using r le s2(5) s3(6) s4(3) s5(3) sk(3) by auto
  qed
qed

text \<open>At the end of the loop nothing is left for the printer, unless it has reported an error.\<close>

definition job_done :: "int \<Rightarrow> int \<Rightarrow> cstate \<Rightarrow> bool" where
  "job_done fd lp s \<longleftrightarrow> cinv fd lp s \<and> (\<not> err (n2p s) \<longrightarrow> eof (n2p s) \<and> c_put (files (cworld s) lp) = c_got (files (cworld s) fd))"

lemma copy_bidir_keeps:
  assumes "head fd lp s"
  shows "\<exists>r s1. copy_bidir fd lp ts s = Inr (r, s1) \<and> cinv fd lp s1 \<and> (printer_fine lp s \<longrightarrow> printer_fine lp s1) \<and>
    (case r of None \<Rightarrow> True | Some n \<Rightarrow> n < 0 \<or> n = 0 \<and> job_done fd lp s1)"
  using assms
proof (induction ts arbitrary: s)
  case Nil
  then show ?case
  proof (cases "fd \<in> readfds s \<or> lp \<in> writefds s")
    case False
    with Nil have "job_done fd lp s" by (auto simp: job_done_def head_def cinv_def relays_def contents_def)
    with False show ?thesis by (auto simp: copy_bidir.simps job_done_def cinv_def printer_fine_def)
  qed (auto simp: copy_bidir.simps head_def)
next
  case (Cons t ts)
  then show ?case
  proof (cases "fd \<in> readfds s \<or> lp \<in> writefds s")
    case True
    from copy_round_keeps [OF Cons.prems, of t] obtain r s1 where
      r: "copy_round fd lp t s = Inr (r, s1)" "cinv fd lp s1" "printer_fine lp s \<longrightarrow> printer_fine lp s1"
        "case r of Some n \<Rightarrow> n < 0 | None \<Rightarrow> head fd lp s1"
      by (fastforce split: option.splits)
    show ?thesis
    proof (cases r)
      case None
      then show ?thesis using Cons.IH [of s1] r True by (subst copy_bidir.simps) auto
    next
      case (Some n)
      then show ?thesis using r True by (subst copy_bidir.simps) auto
    qed
  next
    case False
    with Cons have "job_done fd lp s" by (auto simp: job_done_def head_def cinv_def relays_def contents_def)
    with False show ?thesis by (auto simp: copy_bidir.simps job_done_def cinv_def printer_fine_def)
  qed
qed

lemma bidir_start_head:
  assumes "length (buffer b1) = BUFFER_SIZE" "length (buffer b2) = BUFFER_SIZE" "fd \<noteq> lp"
    "c_got (files w fd) = []" "c_put (files w lp) = []" "c_got (files w lp) = []" "c_put (files w fd) = []"
  shows "head fd lp (bidir_start b1 b2 fd lp w)"
  using assms buffer_ok_init [OF assms(1)] buffer_ok_init [OF assms(2)]
  by (simp add: head_def cinv_def bidir_start_def relays_def) (simp add: initBuffer_def)

text \<open>
  C23: With both directions a job never leaves its two buffers, whatever \<open>select()\<close>, the network and the printer do.
  Both sides get at every moment a beginning of what the other has sent, in order. When the job is reported as
  finished and the printer has not failed, the printer has got everything that was read from the network.
\<close>

theorem bidirectional_job:
  assumes "length (buffer b1) = BUFFER_SIZE" "length (buffer b2) = BUFFER_SIZE" "fd \<noteq> lp"
    and "c_got (files w fd) = []" "c_put (files w lp) = []" "c_got (files w lp) = []" "c_put (files w fd) = []"
  shows "\<exists>r w1. copy_stream n True b1 b2 ts fd lp w = Inr (r, w1) \<and>
    prefix (c_put (files w1 lp)) (c_got (files w1 fd)) \<and> prefix (c_put (files w1 fd)) (c_got (files w1 lp)) \<and>
    (r = Some 0 \<and> (\<forall>k \<in> set (c_wrs (files w lp)). 0 \<le> k) \<longrightarrow> c_put (files w1 lp) = c_got (files w1 fd))"
proof -
  let ?s = "bidir_start b1 b2 fd lp w"
  from copy_bidir_keeps [OF bidir_start_head [OF assms]] obtain r s1 where
    c: "copy_bidir fd lp ts ?s = Inr (r, s1)" "cinv fd lp s1" "printer_fine lp ?s \<longrightarrow> printer_fine lp s1"
      "case r of None \<Rightarrow> True | Some n \<Rightarrow> n < 0 \<or> n = 0 \<and> job_done fd lp s1" by blast
  have p: "prefix (c_put (files (cworld s1) (outfd b))) (c_got (files (cworld s1) (infd b)))" if "relays b (cworld s1)" for b
    using that by (auto simp: relays_def prefix_def split: if_splits) metis
  have "prefix (c_put (files (cworld s1) lp)) (c_got (files (cworld s1) fd))"
    "prefix (c_put (files (cworld s1) fd)) (c_got (files (cworld s1) lp))"
    using c(2) p [of "n2p s1"] p [of "p2n s1"] by (simp_all add: cinv_def)
  moreover have "printer_fine lp ?s" if "\<forall>k \<in> set (c_wrs (files w lp)). 0 \<le> k"
    using that by (simp add: printer_fine_def bidir_start_def initBuffer_def)
  then have "c_put (files (cworld s1) lp) = c_got (files (cworld s1) fd)"
    if "r = Some 0" "\<forall>k \<in> set (c_wrs (files w lp)). 0 \<le> k"
    using that c(3,4) by (simp add: job_done_def printer_fine_def)
  ultimately show ?thesis using c(1) by (simp add: copy_stream_def)
qed

theorem bidirectional_job_witness:
  "\<exists>r w1. copy_stream 0 True blank blank [] 4 5 (lp_world [2]) = Inr (r, w1) \<and>
     prefix (c_put (files w1 5)) (c_got (files w1 4))"
  using bidirectional_job [of blank blank 4 5 "lp_world [2]" 0 "[]"] by (auto simp: demo_defs)

lemma copy_bidir_ends:
  assumes "head fd lp s" "job_left fd lp s \<le> length ts"
    and "\<forall>t \<in> set ts. fd \<in> t_readable t \<and> lp \<in> t_writable t"
  shows "\<exists>r s1. copy_bidir fd lp ts s = Inr (Some r, s1)"
  using assms
proof (induction ts arbitrary: s)
  case Nil
  then have "\<not> (fd \<in> readfds s \<or> lp \<in> writefds s)" by (auto simp: head_def cinv_def job_left_def split: if_splits)
  then show ?case by (simp add: copy_bidir.simps)
next
  case (Cons t ts)
  show ?case
  proof (cases "fd \<in> readfds s \<or> lp \<in> writefds s")
    case True
    from copy_round_keeps [OF Cons.prems(1), of t] obtain r s1 where
      r: "copy_round fd lp t s = Inr (r, s1)"
        "case r of Some n \<Rightarrow> True | None \<Rightarrow> head fd lp s1 \<and> job_left fd lp s1 < job_left fd lp s"
      using True Cons.prems(3) by (fastforce split: option.splits)
    then show ?thesis using Cons.IH [of s1] Cons.prems True by (subst copy_bidir.simps) (auto split: option.splits)
  qed (simp add: copy_bidir.simps)
qed

text \<open>
  C24: A job in both directions comes to its end: if \<open>select()\<close> reports the network as readable and the printer as
  writable whenever it is asked, two rounds per byte of the job, one per announced write and one for the end of the
  input are enough, whatever the other direction does.
\<close>

theorem bidirectional_job_ends:
  assumes "length (buffer b1) = BUFFER_SIZE" "length (buffer b2) = BUFFER_SIZE" "fd \<noteq> lp"
    and "c_got (files w fd) = []" "c_put (files w lp) = []" "c_got (files w lp) = []" "c_put (files w fd) = []"
    and "2 * feed (files w fd) + length (c_wrs (files w lp)) + 1 \<le> length ts"
    and "\<forall>t \<in> set ts. fd \<in> t_readable t \<and> lp \<in> t_writable t"
  shows "\<exists>r w1. copy_stream n True b1 b2 ts fd lp w = Inr (Some r, w1)"
proof -
  have "job_left fd lp (bidir_start b1 b2 fd lp w) \<le> length ts"
    using assms(8) by (simp add: job_left_def bidir_start_def initBuffer_def)
  from copy_bidir_ends [OF bidir_start_head [OF assms(1-7)] this assms(9)]
  show ?thesis by (auto simp: copy_stream_def)
qed

theorem bidirectional_job_ends_witness:
  "\<exists>r w1. copy_stream 0 True blank blank
     (replicate 12 \<lparr>t_now = (0, 0), t_result = 1, t_readable = {4, 5}, t_writable = {4, 5}, t_read_at = (0, 0)\<rparr>) 4 5
     (lp_world [2]) = Inr (Some r, w1)"
  using bidirectional_job_ends [of blank blank 4 5 "lp_world [2]"
    "replicate 12 \<lparr>t_now = (0, 0), t_result = 1, t_readable = {4, 5}, t_writable = {4, 5}, t_read_at = (0, 0)\<rparr>" 0]
  by (auto simp: demo_defs)

section \<open>The pause between reads from the printer\<close>

definition usecs :: "int \<times> int \<Rightarrow> int" where
  "usecs t = fst t * 1000000 + snd t"

lemma usecs_pause: "usecs (pause_until t) = usecs t + 100000"
  by (auto simp: usecs_def pause_until_def Let_def)

lemma not_later: "usecs now < usecs thn \<Longrightarrow> 0 \<le> snd now \<Longrightarrow> snd thn \<le> 1000000 \<Longrightarrow> \<not> later now thn"
  by (auto simp: usecs_def later_def)

text \<open>What a step leaves alone when it does not read from the printer.\<close>

definition lp_unread :: "int \<Rightarrow> cstate \<Rightarrow> cstate \<Rightarrow> bool" where
  "lp_unread lp s s1 \<longleftrightarrow> c_rds (files (cworld s1) lp) = c_rds (files (cworld s) lp) \<and>
     c_got (files (cworld s1) lp) = c_got (files (cworld s) lp) \<and> timer s1 = timer s \<and> then_at s1 = then_at s"

lemma quiet_trans: "lp_unread lp s s1 \<Longrightarrow> lp_unread lp s1 s2 \<Longrightarrow> lp_unread lp s s2"
  by (simp add: lp_unread_def)

lemma net_read_quiet:
  assumes "cinv fd lp s" "net_read fd s = Inr s1"
  shows "lp_unread lp s s1"
proof (cases "fd \<in> readfds s")
  case True
  then obtain r b w where r: "readBuffer (n2p s) (cworld s) = Inr (r, b, w)" "s1 = s\<lparr>n2p := b, cworld := w\<rparr>"
    using assms(2) by (auto simp: net_read_def rbind_eq_Inr)
  have "relays (n2p s) (cworld s)" using assms(1) by (simp add: cinv_def)
  from readBuffer_relays(2) [OF this r(1)] show ?thesis
    using assms(1) r(2) by (auto simp: lp_unread_def only_reads_def cinv_def)
qed (use assms in \<open>simp add: net_read_def lp_unread_def\<close>)

lemma lp_write_quiet:
  assumes "cinv fd lp s" "lp_write lp s = Inr s1"
  shows "lp_unread lp s s1"
proof (cases "lp \<in> writefds s")
  case True
  then obtain r b w where r: "writeBuffer (n2p s) (cworld s) = Inr (r, b, w)" "s1 = s\<lparr>n2p := b, cworld := w\<rparr>"
    using assms(2) by (auto simp: lp_write_def rbind_eq_Inr)
  have "relays (n2p s) (cworld s)" using assms(1) by (simp add: cinv_def)
  from writeBuffer_relays(2) [OF this r(1)] show ?thesis
    using assms(1) r(2) by (auto simp: lp_unread_def only_writes_def cinv_def)
qed (use assms in \<open>simp add: lp_write_def lp_unread_def\<close>)

lemma net_write_quiet:
  assumes "cinv fd lp s" "net_write fd s = Inr s1"
  shows "lp_unread lp s s1"
proof (cases "fd \<in> writefds s")
  case True
  then obtain r b w where r: "writeBuffer (p2n s) (cworld s) = Inr (r, b, w)"
    "s1 = (let s1 = s\<lparr>p2n := b, cworld := w\<rparr> in if r < 0 then s1\<lparr>n2p := (n2p s1)\<lparr>eof := True\<rparr>\<rparr> else s1)"
    using assms(2) by (auto simp: net_write_def rbind_eq_Inr Let_def)
  have "relays (p2n s) (cworld s)" using assms(1) by (simp add: cinv_def)
  from writeBuffer_relays(2) [OF this r(1)] show ?thesis
    using assms(1) r(2) by (auto simp: lp_unread_def only_writes_def cinv_def Let_def)
qed (use assms in \<open>simp add: net_write_def lp_unread_def\<close>)

lemma copy_round_quiet:
  assumes h: "head fd lp s" and nolp: "lp \<notin> readfds (do_select t (check_timer lp t s))"
    and r: "copy_round fd lp t s = Inr (r, s1)"
  shows "lp_unread lp (do_select t (check_timer lp t s)) s1"
proof -
  define s0 where "s0 = do_select t (check_timer lp t s)"
  note sk = select_keeps [OF conjunct1 [OF head_asks [OF h]] conjunct2 [OF head_asks [OF h]] s0_def]
  show ?thesis
  proof (cases "t_result t < 0")
    case True
    then show ?thesis using r by (simp add: copy_round_def lp_unread_def flip: s0_def)
  next
    case False
    then obtain s2 s3 s4 s5 where s: "net_read fd s0 = Inr s2" "lp_read lp t s2 = Inr s3" "lp_write lp s3 = Inr s4"
      "net_write fd s4 = Inr s5" "s1 = prepare s5"
      using r by (auto simp: copy_round_def rbind_eq_Inr simp flip: s0_def)
    have c2: "cinv fd lp s2" "readfds s2 = readfds s0" using net_read_keeps [OF sk(1,2)] s(1) by auto
    then have s3: "s3 = s2" using s(2) nolp by (simp add: lp_read_def flip: s0_def)
    have c4: "cinv fd lp s4" using lp_write_keeps [OF c2(1)] s(3) s3 by auto
    have "lp_unread lp s0 s5"
      using net_read_quiet [OF sk(1) s(1)] lp_write_quiet [OF c2(1)] net_write_quiet [OF c4 s(4)] s(3) s3
      by (auto intro: quiet_trans)
    then show ?thesis using s(5) by (auto simp: lp_unread_def prepare_def prepBuffer_def simp flip: s0_def)
  qed
qed

lemma pause_running:
  assumes "timer s" "\<not> later (t_now t) (then_at s)"
  shows "lp \<notin> readfds (do_select t (check_timer lp t s))"
    "lp_unread lp s (do_select t (check_timer lp t s))" "timer (do_select t (check_timer lp t s))"
    "selects (do_select t (check_timer lp t s)) = selects s @ [(readfds s - {lp}, writefds s, Some (then_at s))]"
  using assms by (auto simp: do_select_def check_timer_def lp_unread_def)

text \<open>
  Between two reads from the printer at least a tenth of a second passes, so that the return stream cannot
  dominate: a round that begins earlier than that after the last successful read leaves the printer's input alone.
\<close>

theorem printer_reads_paced:
  assumes "head fd lp s" "timer s" "then_at s = pause_until rt" "0 \<le> snd rt" "snd rt < 1000000"
    and "0 \<le> snd (t_now t)" "usecs (t_now t) < usecs rt + 100000" "copy_round fd lp t s = Inr (r, s1)"
  shows "c_rds (files (cworld s1) lp) = c_rds (files (cworld s) lp) \<and>
    c_got (files (cworld s1) lp) = c_got (files (cworld s) lp) \<and> timer s1 \<and> then_at s1 = pause_until rt"
proof -
  have nl: "\<not> later (t_now t) (then_at s)"
    using assms usecs_pause [of rt] by (intro not_later) (auto simp: pause_until_def Let_def)
  note pr = pause_running [OF assms(2) nl]
  have "lp_unread lp s s1" using pr(2) copy_round_quiet [OF assms(1) pr(1) assms(8)] by (rule quiet_trans)
  then show ?thesis using assms(2,3) by (simp add: lp_unread_def)
qed

theorem printer_reads_paced_witness:
  "\<exists>r s1. copy_round 4 5 \<lparr>t_now = (7, 50000), t_result = 1, t_readable = {4, 5}, t_writable = {}, t_read_at = (0, 0)\<rparr>
      ((bidir_start blank blank 4 5 (lp_world []))\<lparr>timer := True, then_at := pause_until (7, 0)\<rparr>) = Inr (r, s1) \<and>
    c_rds (files (cworld s1) 5) = [Some ''ready'']"
proof -
  let ?s = "(bidir_start blank blank 4 5 (lp_world []))\<lparr>timer := True, then_at := pause_until (7, 0)\<rparr>"
  let ?t = "\<lparr>t_now = (7, 50000), t_result = 1, t_readable = {4, 5 :: int}, t_writable = {}, t_read_at = (0, 0)\<rparr>"
  have "head 4 5 (bidir_start blank blank 4 5 (lp_world []))" by (rule bidir_start_head) (simp_all add: demo_defs)
  then have h: "head 4 5 ?s" by (simp add: head_def cinv_def)
  from copy_round_keeps [OF h, of ?t] obtain r s1 where r: "copy_round 4 5 ?t ?s = Inr (r, s1)" by blast
  have "c_rds (files (cworld ?s) 5) = [Some ''ready'']" by (simp add: bidir_start_def demo_defs)
  with printer_reads_paced [OF h _ _ _ _ _ _ r, of "(7, 0)"] r show ?thesis by (simp add: usecs_def)
qed

text \<open>
  The pause is not limited to a tenth of a second. While it runs, \<open>select()\<close> is given the date of its end as
  its timeout, instead of the time that is left, and does not watch the printer; the timeout is never shorter than
  the time since the epoch. The status of a printer is thus read again only when the network or the printer's
  output wakes the process up.
\<close>

theorem printer_pause_absolute:
  assumes "timer s" "then_at s = pause_until rt" "\<not> later (t_now t) (then_at s)"
    and "0 \<le> snd rt" "snd (t_now t) < 1000000"
  shows "\<exists>rfds wfds tmo. selects (do_select t (check_timer lp t s)) = selects s @ [(rfds, wfds, Some tmo)] \<and>
    lp \<notin> rfds \<and> usecs (t_now t) \<le> usecs tmo"
proof -
  have "usecs (t_now t) \<le> usecs (then_at s)"
    using assms(2-5) by (auto simp: later_def usecs_def pause_until_def Let_def split: if_splits)
  then show ?thesis using pause_running(4) [OF assms(1,3)] by auto
qed

theorem printer_pause_absolute_witness:
  "\<exists>rfds wfds tmo. selects (do_select \<lparr>t_now = (1300000000, 50000), t_result = 1, t_readable = {}, t_writable = {}, t_read_at = (0, 0)\<rparr>
      (check_timer 5 \<lparr>t_now = (1300000000, 50000), t_result = 1, t_readable = {}, t_writable = {}, t_read_at = (0, 0)\<rparr>
        ((bidir_start blank blank 4 5 (lp_world []))\<lparr>timer := True, then_at := pause_until (1300000000, 0)\<rparr>))) =
      [(rfds, wfds, Some tmo)] \<and> 1300000000 * 1000000 \<le> usecs tmo"
  using printer_pause_absolute [of "(bidir_start blank blank 4 5 (lp_world []))\<lparr>timer := True, then_at := pause_until (1300000000, 0)\<rparr>"
      "(1300000000, 0)" "\<lparr>t_now = (1300000000, 50000), t_result = 1, t_readable = {}, t_writable = {}, t_read_at = (0, 0)\<rparr>" 5]
  by (auto simp: later_def pause_until_def usecs_def bidir_start_def)

end
