(* ===== verification/P910nd.thy ===== *)
theory P910nd
  imports Lp_Copy
begin

text \<open>
  The printer daemon around its copying loop, \<^verbatim>\<open>apps/p910nd-0.93/p910nd.c\<close>: opening the device, the lock, and the
  two ways a job is started, from inetd (\<open>one_job\<close>) and by the own accept loop (\<open>server\<close>).
\<close>

section \<open>The daemon\<close>

text \<open>
  \<open>device\<close> is a pointer. When it is not set by an option, \<open>open_printer\<close> lets it point to its own
  array \<open>lpname\<close>, which is gone when the function has returned; a later use of that pointer is \<open>Overrun\<close>.
  The system answers every \<open>open()\<close> of the device with a descriptor and its channel, or with an error and
  whether it is \<open>EBUSY\<close>; every \<open>accept()\<close> with a descriptor, the channel of the client and the ticks of
  the job. What a device has got when it is closed is recorded.
\<close>

datatype devptr = NoDevice | DevArg string | DeadFrame

datatype dcall = OpenDev string bool | CloseFd int | SleepSecs nat | OpenLock string | WaitLock int

datatype openres = Opened int lp_chan | NotOpened bool

record daemon =
  device :: devptr
  bidir :: bool
  lockfd :: int
  opens :: "openres list"
  dcalls :: "dcall list"
  printed :: "string list"
  dworld :: pworld

record client =
  cl_fd :: int
  cl_chan :: lp_chan
  cl_ticks :: "tick list"

definition do_call :: "dcall \<Rightarrow> daemon \<Rightarrow> daemon" where
  "do_call c d = d\<lparr>dcalls := dcalls d @ [c]\<rparr>"

definition dlog :: "lp_msg \<Rightarrow> daemon \<Rightarrow> daemon" where
  "dlog m d = d\<lparr>dworld := log_msg m (dworld d)\<rparr>"

definition device_name :: "char \<Rightarrow> devptr \<Rightarrow> string res" where
  "device_name lpnumber p = (case p of
     NoDevice \<Rightarrow> Inr (''/dev/lp'' @ [lpnumber]) | DevArg s \<Rightarrow> Inr s | DeadFrame \<Rightarrow> Inl Overrun)"

text \<open>\<open>open_printer\<close>; without an answer of the system it is still waiting.\<close>

definition open_printer :: "char \<Rightarrow> daemon \<Rightarrow> (int option \<times> daemon) res" where
  "open_printer lpnumber d = rbind (device_name lpnumber (device d)) (\<lambda>name.
     let d1 = do_call (OpenDev name (bidir d)) (d\<lparr>device := (if device d = NoDevice then DeadFrame else device d)\<rparr>) in
     case opens d of
       [] \<Rightarrow> Inr (None, d1)
     | Opened lp c # r \<Rightarrow> Inr (Some lp, d1\<lparr>opens := r, dworld := set_chan lp c (dworld d1)\<rparr>)
     | NotOpened busy # r \<Rightarrow>
         Inr (Some (-1), dlog OpenLater ((if busy then id else dlog OpenFailed) (d1\<lparr>opens := r\<rparr>))))"

text \<open>The loop around it, run for at most \<open>n\<close> attempts.\<close>

fun open_retry :: "nat \<Rightarrow> char \<Rightarrow> daemon \<Rightarrow> (int option \<times> daemon) res" where
  "open_retry 0 lpnumber d = Inr (None, d)"
| "open_retry (Suc n) lpnumber d = rbind (open_printer lpnumber d) (\<lambda>(r, d1).
     if r = Some (-1) then open_retry n lpnumber (do_call (SleepSecs 10) d1) else Inr (r, d1))"

definition get_lock :: "char \<Rightarrow> int \<Rightarrow> int \<Rightarrow> daemon \<Rightarrow> bool \<times> daemon" where
  "get_lock lpnumber opened locked d =
     (let d1 = do_call (OpenLock (''/var/lock-p910'' @ [lpnumber] @ ''d'')) (d\<lparr>lockfd := opened\<rparr>) in
      if opened < 0 then (False, dlog LockFailed d1)
      else let d2 = do_call (WaitLock opened) d1
           in if locked < 0 then (False, dlog LockFailed d2) else (True, d2))"

definition free_lock :: "daemon \<Rightarrow> daemon" where
  "free_lock d = (if lockfd d \<ge> 0 then do_call (CloseFd (lockfd d)) d else d)"

text \<open>What one_job and the accept loop have in common: open the device, copy, report a failure.\<close>

definition print_job :: "nat \<Rightarrow> nat \<Rightarrow> char \<Rightarrow> Buffer \<Rightarrow> Buffer \<Rightarrow> client \<Rightarrow> daemon \<Rightarrow> (int option \<times> daemon) res" where
  "print_job n k lpnumber b1 b2 c d0 = rbind (open_retry k lpnumber d0) (\<lambda>(r, d).
     case r of
       None \<Rightarrow> Inr (None, d)
     | Some lp \<Rightarrow> rbind (copy_stream n (bidir d) b1 b2 (cl_ticks c) (cl_fd c) lp (dworld d)) (\<lambda>(res, w).
         case res of
           None \<Rightarrow> Inr (None, d\<lparr>dworld := w\<rparr>)
         | Some v \<Rightarrow> Inr (Some lp, (if v < 0 then dlog CopyFailed else id) (d\<lparr>dworld := w\<rparr>))))"

definition close_printer :: "int \<Rightarrow> daemon \<Rightarrow> daemon" where
  "close_printer lp d = do_call (CloseFd lp) (d\<lparr>printed := printed d @ [c_put (files (dworld d) lp)]\<rparr>)"

text \<open>Under inetd: the client is descriptor 0. The result says whether the job was carried to its end.\<close>

definition one_job :: "nat \<Rightarrow> nat \<Rightarrow> char \<Rightarrow> Buffer \<Rightarrow> Buffer \<Rightarrow> bool \<Rightarrow> int \<Rightarrow> int \<Rightarrow> client \<Rightarrow> daemon \<Rightarrow> (bool \<times> daemon) res" where
  "one_job n k lpnumber b1 b2 known opened locked c d =
     (case get_lock lpnumber opened locked ((if known then dlog ConnectionFrom else id) d) of (ok, d1) \<Rightarrow>
      if \<not> ok then Inr (False, d1)
      else rbind (print_job n k lpnumber b1 b2 (c\<lparr>cl_fd := 0\<rparr>) (d1\<lparr>dworld := set_chan 0 (cl_chan c) (dworld d1)\<rparr>)) (\<lambda>(r, d2).
        case r of None \<Rightarrow> Inr (False, d2) | Some lp \<Rightarrow> Inr (True, free_lock (close_printer lp d2))))"

text \<open>The loop of \<open>server\<close>: one client after the other, until \<open>accept()\<close> fails.\<close>

fun serve :: "nat \<Rightarrow> nat \<Rightarrow> char \<Rightarrow> Buffer \<Rightarrow> Buffer \<Rightarrow> client list \<Rightarrow> daemon \<Rightarrow> (bool \<times> daemon) res" where
  "serve n k lpnumber b1 b2 [] d = Inr (True, free_lock (dlog AcceptFailed d))"
| "serve n k lpnumber b1 b2 (c # cs) d =
     rbind (print_job n k lpnumber b1 b2 c (dlog ConnectionFrom (d\<lparr>dworld := set_chan (cl_fd c) (cl_chan c) (dworld d)\<rparr>))) (\<lambda>(r, d1).
       case r of
         None \<Rightarrow> Inr (False, d1)
       | Some lp \<Rightarrow> serve n k lpnumber b1 b2 cs (close_printer lp (do_call (CloseFd (cl_fd c)) d1)))"

text \<open>
  Without the option that names the device, a second attempt to open the printer follows a pointer to the
  stack frame of the first one: the retry after ten seconds as well as the next job.
\<close>

theorem second_open_dangles:
  "(device d = NoDevice \<and> opens d = NotOpened busy # r \<longrightarrow> open_retry (Suc (Suc k)) lpnumber d = Inl Overrun) \<and>
   (open_printer lpnumber d = Inr (x, d1) \<and> device d = NoDevice \<longrightarrow> open_printer lpnumber d1 = Inl Overrun)"
  by (auto simp: open_printer_def device_name_def do_call_def dlog_def Let_def split: list.splits openres.splits if_splits)

theorem second_open_dangles_witness:
  "open_retry 2 CHR ''0'' \<lparr>device = NoDevice, bidir = False, lockfd = -1, opens = [NotOpened True], dcalls = [], printed = [],
     dworld = lp_world []\<rparr> = Inl Overrun"
  using second_open_dangles [of "\<lparr>device = NoDevice, bidir = False, lockfd = -1, opens = [NotOpened True], dcalls = [],
     printed = [], dworld = lp_world []\<rparr>" True "[]" 0 "CHR ''0''"] by (simp add: numeral_2_eq_2)

text \<open>The answers of the system to the attempts of one job: failures, and then a device.\<close>

definition attempts :: "bool list \<times> int \<times> lp_chan \<Rightarrow> openres list" where
  "attempts = (\<lambda>(bs, lp, c). map NotOpened bs @ [Opened lp c])"

definition same_daemon :: "daemon \<Rightarrow> daemon \<Rightarrow> bool" where
  "same_daemon d d1 \<longleftrightarrow> device d1 = device d \<and> bidir d1 = bidir d \<and> printed d1 = printed d"

lemma dcall_keeps [simp]:
  "device (do_call x d) = device d" "bidir (do_call x d) = bidir d" "opens (do_call x d) = opens d"
  "printed (do_call x d) = printed d" "dworld (do_call x d) = dworld d"
  by (simp_all add: do_call_def)

lemma open_retry_opens:
  assumes "device d = DevArg s" "opens d = attempts (bs, lp, c) @ r" "length bs < k" "lp \<noteq> -1"
  shows "\<exists>d1. open_retry k lpnumber d = Inr (Some lp, d1) \<and> opens d1 = r \<and> same_daemon d d1 \<and>
    (\<forall>x. files (dworld d1) x = (if x = lp then c else files (dworld d) x))"
  using assms
proof (induction bs arbitrary: k d)
  case Nil
  then obtain k1 where "k = Suc k1" by (cases k) auto
  then show ?case using Nil
    by (auto simp: attempts_def open_printer_def device_name_def do_call_def Let_def same_daemon_def set_chan_def)
next
  case (Cons b bs)
  then obtain k1 where k: "k = Suc k1" "length bs < k1" by (cases k) auto
  obtain d1 where d1: "open_printer lpnumber d = Inr (Some (-1), d1)" "device d1 = DevArg s"
    "opens d1 = attempts (bs, lp, c) @ r" "same_daemon d d1" "files (dworld d1) = files (dworld d)"
    using Cons.prems
    by (cases b) (auto simp: attempts_def open_printer_def device_name_def do_call_def dlog_def Let_def same_daemon_def)
  then have "\<exists>d2. open_retry k1 lpnumber (do_call (SleepSecs 10) d1) = Inr (Some lp, d2) \<and> opens d2 = r \<and>
    same_daemon (do_call (SleepSecs 10) d1) d2 \<and> (\<forall>x. files (dworld d2) x = (if x = lp then c else files (dworld d1) x))"
    using Cons.IH [of "do_call (SleepSecs 10) d1" k1] Cons.prems(4) k(2) by (simp cong: if_cong)
  then show ?case using k d1 by (auto simp: same_daemon_def)
qed

text \<open>A device that has just been opened and accepts everything; a client that is not disturbed.\<close>

definition fresh_device :: "lp_chan \<Rightarrow> bool" where
  "fresh_device c \<longleftrightarrow> c_wrs c = [] \<and> c_put c = []"

definition good_client :: "nat \<Rightarrow> client \<Rightarrow> bool" where
  "good_client n c \<longleftrightarrow> undisturbed (cl_chan c) \<and> c_got (cl_chan c) = [] \<and> 2 * feed (cl_chan c) < n"

lemma print_job_prints:
  assumes "device d = DevArg s" "\<not> bidir d" "opens d = attempts (bs, lp, c) @ r" "length bs < k" "lp \<noteq> -1"
    and "fresh_device c" "good_client n cl" "cl_fd cl \<noteq> lp" "files (dworld d) (cl_fd cl) = cl_chan cl"
    and "length (buffer b1) = BUFFER_SIZE"
  shows "\<exists>d1. print_job n k lpnumber b1 b2 cl d = Inr (Some lp, d1) \<and> opens d1 = r \<and> same_daemon d d1 \<and>
    c_put (files (dworld d1) lp) = pending (cl_chan cl)"
proof -
  from open_retry_opens [OF assms(1,3,4,5)] obtain d1 where
    d1: "open_retry k lpnumber d = Inr (Some lp, d1)" "opens d1 = r" "same_daemon d d1"
      "\<forall>x. files (dworld d1) x = (if x = lp then c else files (dworld d) x)" by blast
  have f: "files (dworld d1) (cl_fd cl) = cl_chan cl" "files (dworld d1) lp = c" using d1(4) assms(8,9) by auto
  have "\<exists>b3 w1. copy_uni n (initBuffer b1 (cl_fd cl) lp True) (dworld d1) = Inr (0, b3, w1) \<and>
    c_put (files w1 lp) = pending (cl_chan cl)"
    using copy_uni_start [of b1 "dworld d1" "cl_fd cl" lp n] f assms(6,7,10)
    by (auto simp: fresh_device_def good_client_def)
  then have "\<exists>w1. copy_stream n False b1 b2 (cl_ticks cl) (cl_fd cl) lp (dworld d1) = Inr (Some 0, w1) \<and>
    c_put (files w1 lp) = pending (cl_chan cl)" by (auto simp: copy_stream_def)
  then show ?thesis using d1 assms(2) by (auto simp: print_job_def same_daemon_def)
qed



end
