(* ===== verification/Ctype.thy ===== *)
theory Ctype
  imports Prelude
begin

text \<open>
  The character classes of the C library in the C locale, for characters as unsigned bytes, and decimal numbers as
  \<open>printf\<close> writes and \<open>strtoul\<close> reads them.
\<close>

section \<open>Character classes\<close>

definition isspace :: "char \<Rightarrow> bool" where
  "isspace c \<longleftrightarrow> c \<in> set [CHR '' '', CHR 0x09, LF, CHR 0x0B, CHR 0x0C, CR]"

definition isdigit :: "char \<Rightarrow> bool" where
  "isdigit c \<longleftrightarrow> 48 \<le> ord c \<and> ord c \<le> 57"

definition isalpha :: "char \<Rightarrow> bool" where
  "isalpha c \<longleftrightarrow> 65 \<le> ord c \<and> ord c \<le> 90 \<or> 97 \<le> ord c \<and> ord c \<le> 122"

definition digits_value :: "string \<Rightarrow> nat" where
  "digits_value ds = foldl (\<lambda>v c. 10 * v + (ord c - 48)) 0 ds"

text \<open>A number in decimal digits.\<close>

fun dec :: "nat \<Rightarrow> string" where
  "dec n = (if n < 10 then [char_of (48 + n)] else dec (n div 10) @ [char_of (48 + n mod 10)])"

declare dec.simps [simp del]

section \<open>Digits\<close>

lemma ord_of_digit: "d < 10 \<Longrightarrow> ord (char_of (48 + d) :: char) = 48 + d"
  by (simp add: take_bit_nat_eq_self)

lemma isdigit_digit: "(d :: nat) < 10 \<Longrightarrow> isdigit (char_of (48 + d))"
  by (simp only: isdigit_def ord_of_digit) simp

lemma dec_digits: "list_all isdigit (dec n) \<and> dec n \<noteq> []"
  by (induction n rule: dec.induct) (subst (1 2) dec.simps, auto simp: isdigit_digit)

lemma digits_value_snoc: "digits_value (ds @ [c]) = 10 * digits_value ds + (ord c - 48)"
  by (simp add: digits_value_def)

lemma digits_value_dec: "digits_value (dec n) = n"
proof (induction n rule: dec.induct)
  case (1 n)
  show ?case
  proof (cases "n < 10")
    case True
    then show ?thesis by (subst dec.simps) (simp add: digits_value_def ord_of_digit)
  next
    case False
    then show ?thesis using 1 by (subst dec.simps) (simp add: digits_value_snoc ord_of_digit)
  qed
qed

lemma not_digit_space: "isdigit c \<Longrightarrow> \<not> isspace c \<and> c \<noteq> CHR ''-'' \<and> c \<noteq> CHR ''+'' \<and> c \<noteq> NUL"
  by (auto simp: isdigit_def isspace_def)

lemma space_no_digit [simp]: "\<not> isdigit (CHR '' '')" "\<not> isdigit LF"
  by (simp_all add: isdigit_def)

lemma no_NUL_dec [simp]: "NUL \<notin> set (dec v)"
  using dec_digits [of v] not_digit_space by (auto simp: list_all_iff)

end
