(* ===== verification/Hd_Idle.thy ===== *)
theory Hd_Idle
  imports Ctype
begin

text \<open>
  The disk spin-down daemon, \<^verbatim>\<open>apps/hd-idle/hd-idle.c\<close>: the options, the reading of \<^verbatim>\<open>/proc/diskstats\<close>,
  the list of disks with their counters and times, the decision to stop a disk, the command sent to it and the entry
  in the log when it has started again.

  A line of the statistics comes with the readings of the clock that its treatment makes, in the order of the calls
  of \<open>time(NULL)\<close>, and with the answers of the system to \<open>open()\<close>, \<open>ioctl()\<close> and \<open>fopen()\<close>.
  Calls with an effect outside are recorded. Times are \<open>int\<close>: \<open>time_t\<close> values are positive, so their
  differences cannot overflow.
\<close>

section \<open>Data\<close>

record DISKSTATS =
  ds_name :: string
  last_io :: int
  spindown :: int
  spinup :: int
  spun_down :: bool
  reads :: nat
  writes :: nat

datatype hd_call =
    OpenDisk string
  | StopUnit string
  | CloseDisk
  | ReportError string
  | LogLine int string int int
  | Sleep3Sync
  | SleepFor nat

record hd_line =
  h_text :: string
  h_now :: int
  h_log1 :: int
  h_log2 :: int
  h_up :: int
  h_later :: int
  h_opened :: bool
  h_sent :: bool
  h_status :: nat
  h_logopen :: bool

record hd_state =
  ds_root :: "DISKSTATS list"
  hd_calls :: "hd_call list"

record hd_config =
  idle_time :: int
  have_logfile :: bool
  debug :: bool

definition hd_emit :: "hd_call list \<Rightarrow> hd_state \<Rightarrow> hd_state" where
  "hd_emit cs s = s\<lparr>hd_calls := hd_calls s @ cs\<rparr>"

section \<open>Scanning a line\<close>

text \<open>
  The part of \<open>sscanf\<close> that the format uses: skipped signed and unsigned numbers, a word and unsigned
  numbers. The result is the list of the assigned values; the scan stops at the first directive that does not
  match. A value that does not fit is reduced to 32 bits.
\<close>

datatype directive = SkipNum | Word | UNum

datatype scanned = SWord string | SNum nat

definition scan_num :: "string \<Rightarrow> (nat \<times> string) option" where
  "scan_num s =
     (let s1 = dropWhile isspace s;
          neg = (s1 \<noteq> [] \<and> hd s1 = CHR ''-'');
          s2 = (if s1 \<noteq> [] \<and> hd s1 \<in> {CHR ''-'', CHR ''+''} then tl s1 else s1);
          ds = takeWhile isdigit s2; v = digits_value ds
      in if ds = [] then None
         else Some (if neg then u32 (4294967296 - u32 v) else u32 v, dropWhile isdigit s2))"

fun sscanf :: "directive list \<Rightarrow> string \<Rightarrow> scanned list" where
  "sscanf [] s = []"
| "sscanf (SkipNum # f) s = (case scan_num s of None \<Rightarrow> [] | Some (_, r) \<Rightarrow> sscanf f r)"
| "sscanf (UNum # f) s = (case scan_num s of None \<Rightarrow> [] | Some (v, r) \<Rightarrow> SNum v # sscanf f r)"
| "sscanf (Word # f) s =
     (let s1 = dropWhile isspace s; t = takeWhile (\<lambda>c. \<not> isspace c) s1
      in if t = [] then [] else SWord t # sscanf f (dropWhile (\<lambda>c. \<not> isspace c) s1))"

definition stat_format :: "directive list" where
  "stat_format = [SkipNum, SkipNum, Word, SkipNum, SkipNum, UNum, SkipNum, SkipNum, SkipNum, UNum,
     SkipNum, SkipNum, SkipNum, SkipNum]"

text \<open>\<open>tmp.name\<close> has room for 49 characters and the terminator.\<close>

definition scan_line :: "string \<Rightarrow> (string \<times> nat \<times> nat) option res" where
  "scan_line buf =
     (let r = sscanf stat_format (cstr buf) in
      case r of
        SWord n # r2 \<Rightarrow>
          if length n \<ge> 50 then Inl Overrun
          else Inr (case r2 of [SNum a, SNum b] \<Rightarrow> Some (n, a, b) | _ \<Rightarrow> None)
      | _ \<Rightarrow> Inr None)"

text \<open>\<open>fgets(buf, 200, fp)\<close>: the next piece of the file and the rest.\<close>

definition fgets :: "nat \<Rightarrow> string \<Rightarrow> (string \<times> string) option" where
  "fgets n s =
     (if s = [] then None
      else let l = length (takeWhile (\<lambda>c. c \<noteq> LF) s); k = min (n - 1) (Suc l) in Some (take k s, drop k s))"

text \<open>A SCSI disk: \<open>sd\<close> and one letter.\<close>

definition is_sd :: "string \<Rightarrow> bool" where
  "is_sd name \<longleftrightarrow> (let at = (\<lambda>i. if i < length name then name ! i else NUL) in
     at 0 = CHR ''s'' \<and> at 1 = CHR ''d'' \<and> isalpha (at 2) \<and> at 3 = NUL)"

section \<open>Operations\<close>

definition get_diskstats :: "string \<Rightarrow> DISKSTATS list \<Rightarrow> DISKSTATS option" where
  "get_diskstats name root = find (\<lambda>ds. ds_name ds = name) root"

text \<open>An assignment through the pointer that \<open>get_diskstats\<close> has returned.\<close>

fun set_diskstats :: "string \<Rightarrow> (DISKSTATS \<Rightarrow> DISKSTATS) \<Rightarrow> DISKSTATS list \<Rightarrow> DISKSTATS list" where
  "set_diskstats name f [] = []"
| "set_diskstats name f (ds # r) = (if ds_name ds = name then f ds # r else ds # set_diskstats name f r)"

text \<open>The error messages go to the standard error output.\<close>

definition spindown_disk :: "hd_line \<Rightarrow> string \<Rightarrow> hd_state \<Rightarrow> hd_state" where
  "spindown_disk l name s =
     (let dev = ''/dev/'' @ name in
      if \<not> h_opened l then hd_emit [OpenDisk dev, ReportError dev] s
      else hd_emit ([OpenDisk dev, StopUnit dev] @
        (if \<not> h_sent l then [ReportError (''ioctl on '' @ name @ '':'')]
         else if h_status l \<noteq> 0 then [ReportError ''SCSI command failed''] else []) @ [CloseDisk]) s)"

definition log_spinup :: "hd_line \<Rightarrow> DISKSTATS \<Rightarrow> hd_state \<Rightarrow> hd_state" where
  "log_spinup l ds s =
     (if h_logopen l
      then hd_emit [LogLine (h_log1 l) (ds_name ds) (spindown ds - spinup ds) (h_log2 l - spindown ds), Sleep3Sync] s
      else s)"

text \<open>The body of the inner loop of \<open>main\<close> for a disk that has been recognised.\<close>

definition probe :: "hd_config \<Rightarrow> hd_line \<Rightarrow> string \<Rightarrow> nat \<Rightarrow> nat \<Rightarrow> hd_state \<Rightarrow> hd_state" where
  "probe cf l name r w s =
     (case get_diskstats name (ds_root s) of
        None \<Rightarrow>
          s\<lparr>ds_root := \<lparr>ds_name = name, last_io = h_later l, spindown = 0, spinup = h_later l, spun_down = False,
                        reads = r, writes = w\<rparr> # ds_root s\<rparr>
      | Some ds \<Rightarrow>
          if reads ds = r \<and> writes ds = w
          then if \<not> spun_down ds \<and> h_now l - last_io ds > idle_time cf
               then let s1 = spindown_disk l (ds_name ds) s
                    in s1\<lparr>ds_root := set_diskstats name (\<lambda>d. d\<lparr>spindown := h_later l, spun_down := True\<rparr>) (ds_root s1)\<rparr>
               else s
          else let s1 = (if spun_down ds
                         then let s2 = (if have_logfile cf then log_spinup l ds s else s)
                              in s2\<lparr>ds_root := set_diskstats name (\<lambda>d. d\<lparr>spinup := h_up l\<rparr>) (ds_root s2)\<rparr>
                         else s)
               in s1\<lparr>ds_root := set_diskstats name
                      (\<lambda>d. d\<lparr>reads := r, writes := w, last_io := h_later l, spun_down := False\<rparr>) (ds_root s1)\<rparr>)"

definition probe_line :: "hd_config \<Rightarrow> hd_line \<Rightarrow> hd_state \<Rightarrow> hd_state res" where
  "probe_line cf l s = rbind (scan_line (h_text l)) (\<lambda>x.
     case x of
       None \<Rightarrow> Inr s
     | Some (name, r, w) \<Rightarrow> if is_sd name then Inr (probe cf l name r w s) else Inr s)"

definition sleep_time :: "int \<Rightarrow> nat" where
  "sleep_time idle = (let q = sgn idle * (\<bar>idle\<bar> div 10) in nat ((if q = 0 then 1 else q) mod 4294967296))"

text \<open>One round of the outer loop over the lines that \<open>fgets\<close> returns; \<open>None\<close>: the file cannot be opened.\<close>

definition poll :: "hd_config \<Rightarrow> hd_line list option \<Rightarrow> hd_state \<Rightarrow> hd_state res" where
  "poll cf f s = (case f of
     None \<Rightarrow> Inl (Exit 2)
   | Some ls \<Rightarrow> rbind (rfold (probe_line cf) ls s) (\<lambda>s1. Inr (hd_emit [SleepFor (sleep_time (idle_time cf))] s1)))"

text \<open>The options: \<open>-t\<close> stops one disk and ends the program.\<close>

datatype hd_opt = Opt_t string | Opt_i int | Opt_l string | Opt_d | Opt_h | Opt_missing | Opt_unknown

fun options :: "hd_line \<Rightarrow> hd_opt list \<Rightarrow> hd_config \<Rightarrow> hd_state \<Rightarrow> (hd_config \<times> hd_state) res \<times> hd_state" where
  "options l [] cf s = (Inr (cf, s), s)"
| "options l (Opt_t d # os) cf s = (Inl (Exit 0), spindown_disk l d s)"
| "options l (Opt_i n # os) cf s = options l os (cf\<lparr>idle_time := n\<rparr>) s"
| "options l (Opt_l f # os) cf s = options l os (cf\<lparr>have_logfile := True\<rparr>) s"
| "options l (Opt_d # os) cf s = options l os (cf\<lparr>debug := True\<rparr>) s"
| "options l (Opt_h # os) cf s = (Inl (Exit 0), s)"
| "options l (Opt_missing # os) cf s = (Inl (Exit 1), s)"
| "options l (Opt_unknown # os) cf s = (Inl (Exit 1), s)"

definition hd_start :: hd_state where
  "hd_start = \<lparr>ds_root = [], hd_calls = []\<rparr>"

definition hd_default :: hd_config where
  "hd_default = \<lparr>idle_time = 600, have_logfile = False, debug = False\<rparr>"

section \<open>What a disk's history says\<close>

text \<open>What the daemon sees of a line: a disk with its counters.\<close>

definition seen :: "hd_line \<Rightarrow> (string \<times> nat \<times> nat) option" where
  "seen l = (case scan_line (h_text l) of
     Inr (Some (n, r, w)) \<Rightarrow> if is_sd n then Some (n, r, w) else None | _ \<Rightarrow> None)"

text \<open>
  The probes of a disk, the latest first: the time of the probe, the time the daemon notes if it sees a change, and
  the counters. The last ones with equal counters are a quiet period, which begins with the note of its first probe.
  The disk should be stopped if a later probe of the period is more than the idle time after its beginning.
\<close>

type_synonym probes = "(int \<times> int \<times> nat \<times> nat) list"

fun history :: "string \<Rightarrow> hd_line list \<Rightarrow> probes" where
  "history n [] = []"
| "history n (l # ls) =
     history n ls @ (case seen l of Some (m, r, w) \<Rightarrow> if m = n then [(h_now l, h_later l, r, w)] else [] | None \<Rightarrow> [])"

definition counters :: "int \<times> int \<times> nat \<times> nat \<Rightarrow> nat \<times> nat" where
  "counters p = snd (snd p)"

definition quiet_period :: "probes \<Rightarrow> probes" where
  "quiet_period h = takeWhile (\<lambda>p. counters p = counters (hd h)) h"

definition quiet_since :: "probes \<Rightarrow> int" where
  "quiet_since h = fst (snd (last (quiet_period h)))"

definition should_stop :: "int \<Rightarrow> probes \<Rightarrow> bool" where
  "should_stop idle h \<longleftrightarrow> (\<exists>p \<in> set (butlast (quiet_period h)). fst p - quiet_since h > idle)"

lemma history_snoc:
  "history n (ls @ [l]) =
     (case seen l of Some (m, r, w) \<Rightarrow> if m = n then (h_now l, h_later l, r, w) # history n ls else history n ls
      | None \<Rightarrow> history n ls)"
  by (induction ls) (auto split: option.splits)

lemma quiet_period_ne [simp]: "h \<noteq> [] \<Longrightarrow> quiet_period h \<noteq> []"
  by (cases h) (auto simp: quiet_period_def)

lemma quiet_period_Cons:
  "quiet_period (p # h) = (if h \<noteq> [] \<and> counters p = counters (hd h) then p # quiet_period h else [p])"
  by (cases h) (auto simp: quiet_period_def)

lemma quiet_Cons:
  "h \<noteq> [] \<Longrightarrow> counters p = counters (hd h) \<Longrightarrow>
     quiet_since (p # h) = quiet_since h \<and>
     (should_stop idle (p # h) \<longleftrightarrow> fst p - quiet_since h > idle \<or> should_stop idle h)"
  "h = [] \<or> counters p \<noteq> counters (hd h) \<Longrightarrow> quiet_since (p # h) = fst (snd p) \<and> \<not> should_stop idle (p # h)"
  by (auto simp: quiet_since_def should_stop_def quiet_period_Cons)

section \<open>The list of disks\<close>

lemma get_set_diskstats:
  assumes "\<And>d. ds_name (f d) = ds_name d"
  shows "get_diskstats m (set_diskstats n f root) =
    (if m = n then map_option f (get_diskstats n root) else get_diskstats m root)"
  using assms by (induction root) (auto simp: get_diskstats_def)

lemma get_diskstats_Cons:
  "get_diskstats m [] = None" "get_diskstats m (d # root) = (if ds_name d = m then Some d else get_diskstats m root)"
  by (simp_all add: get_diskstats_def)

lemma get_diskstats_name: "get_diskstats n root = Some ds \<Longrightarrow> ds_name ds = n"
  by (auto simp: get_diskstats_def find_Some_iff)

lemma names_set_diskstats:
  assumes "\<And>d. ds_name (f d) = ds_name d"
  shows "map ds_name (set_diskstats n f root) = map ds_name root"
  using assms by (induction root) auto

lemma ds_root_emit [simp]: "ds_root (hd_emit cs s) = ds_root s" "hd_calls (hd_emit cs s) = hd_calls s @ cs"
  by (simp_all add: hd_emit_def)

lemma ds_root_spindown [simp]: "ds_root (spindown_disk l n s) = ds_root s"
  by (simp add: spindown_disk_def Let_def)

lemma ds_root_log [simp]: "ds_root (log_spinup l ds s) = ds_root s"
  by (simp add: log_spinup_def)

text \<open>The entry of a disk agrees with its history.\<close>

definition agrees :: "hd_config \<Rightarrow> probes \<Rightarrow> DISKSTATS option \<Rightarrow> bool" where
  "agrees cf h e \<longleftrightarrow> (if h = [] then e = None
     else \<exists>ds. e = Some ds \<and> (reads ds, writes ds) = counters (hd h) \<and> last_io ds = quiet_since h \<and>
               spun_down ds = should_stop (idle_time cf) h)"

lemma probe_agrees:
  assumes "agrees cf h (get_diskstats n (ds_root s))"
  shows "agrees cf ((h_now l, h_later l, r, w) # h) (get_diskstats n (ds_root (probe cf l n r w s)))"
proof (cases "h = []")
  case True
  then show ?thesis using assms quiet_Cons(2) [of h "(h_now l, h_later l, r, w)" "idle_time cf"]
    by (simp add: agrees_def probe_def get_diskstats_Cons counters_def)
next
  case False
  then obtain ds where ds: "get_diskstats n (ds_root s) = Some ds" "(reads ds, writes ds) = counters (hd h)"
    "last_io ds = quiet_since h" "spun_down ds = should_stop (idle_time cf) h" using assms by (auto simp: agrees_def)
  show ?thesis
  proof (cases "(r, w) = counters (hd h)")
    case True
    then have "reads ds = r \<and> writes ds = w" using ds(2) by (metis prod.inject)
    then show ?thesis
      using ds False True quiet_Cons(1) [of h "(h_now l, h_later l, r, w)" "idle_time cf"]
      by (auto simp: agrees_def probe_def Let_def get_set_diskstats counters_def)
  next
    case no: False
    then have "\<not> (reads ds = r \<and> writes ds = w)" using ds(2) by auto
    then show ?thesis
      using ds False no quiet_Cons(2) [of h "(h_now l, h_later l, r, w)" "idle_time cf"]
      by (auto simp: agrees_def probe_def Let_def get_set_diskstats counters_def)
  qed
qed

lemma probe_other: "m \<noteq> n \<Longrightarrow> get_diskstats m (ds_root (probe cf l n r w s)) = get_diskstats m (ds_root s)"
  by (auto simp: probe_def Let_def get_set_diskstats get_diskstats_Cons split: option.splits)

lemma probe_line_seen:
  "probe_line cf l s = Inr s1 \<Longrightarrow> s1 = (case seen l of None \<Rightarrow> s | Some (n, r, w) \<Rightarrow> probe cf l n r w s)"
  by (cases "scan_line (h_text l)") (auto simp: probe_line_def seen_def split: option.splits if_splits)

lemma rfold_snoc: "rfold f (xs @ [x]) s = rbind (rfold f xs s) (f x)"
  by (cases "rfold f xs s") (auto simp: rfold_append)

lemma run_agrees:
  "rfold (probe_line cf) ls hd_start = Inr s \<Longrightarrow> agrees cf (history n ls) (get_diskstats n (ds_root s))"
proof (induction ls arbitrary: s rule: rev_induct)
  case Nil
  then show ?case by (auto simp: hd_start_def agrees_def get_diskstats_Cons)
next
  case (snoc l ls)
  then obtain s0 where s0: "rfold (probe_line cf) ls hd_start = Inr s0" "probe_line cf l s0 = Inr s"
    by (auto simp: rfold_snoc rbind_eq_Inr)
  show ?case using snoc.IH [OF s0(1)] probe_line_seen [OF s0(2)]
    by (auto simp: history_snoc probe_agrees probe_other split: option.splits)
qed

text \<open>
  After any sequence of statistics lines the daemon's entry of every disk says exactly what the history of its
  probes says: the last counters, the beginning of the current quiet period, and that the disk has been stopped if
  and only if some probe of this period came more than the idle time after its beginning. Disks never seen have no
  entry.
\<close>

theorem entries_match_history:
  assumes "rfold (probe_line cf) ls hd_start = Inr s"
  shows "(history n ls = [] \<longrightarrow> get_diskstats n (ds_root s) = None) \<and>
    (history n ls \<noteq> [] \<longrightarrow> (\<exists>ds. get_diskstats n (ds_root s) = Some ds \<and>
       (reads ds, writes ds) = counters (hd (history n ls)) \<and> last_io ds = quiet_since (history n ls) \<and>
       spun_down ds = should_stop (idle_time cf) (history n ls)))"
  using run_agrees [OF assms, of n] by (auto simp: agrees_def)

section \<open>When a disk is stopped\<close>

text \<open>The attempts to stop a disk are the openings of its device.\<close>

definition stops :: "string \<Rightarrow> hd_call list \<Rightarrow> nat" where
  "stops n cs = length (filter (\<lambda>c. c = OpenDisk (''/dev/'' @ n)) cs)"

lemma stops_append [simp]: "stops n (xs @ ys) = stops n xs + stops n ys" "stops n [] = 0"
  by (simp_all add: stops_def)

lemma probe_calls:
  "\<exists>cs. hd_calls (probe cf l n r w s) = hd_calls s @ cs \<and> (m \<noteq> n \<longrightarrow> stops m cs = 0) \<and>
     (stops m cs = 0 \<or> \<not> h_opened l \<longrightarrow> StopUnit (''/dev/'' @ m) \<notin> set cs) \<and>
     stops n cs = (case get_diskstats n (ds_root s) of None \<Rightarrow> 0
       | Some ds \<Rightarrow> if reads ds = r \<and> writes ds = w \<and> \<not> spun_down ds \<and> h_now l - last_io ds > idle_time cf then 1 else 0)"
proof (cases "get_diskstats n (ds_root s)")
  case None
  then show ?thesis by (simp add: probe_def)
next
  case (Some ds)
  note nm = get_diskstats_name [OF Some]
  show ?thesis
  proof (cases "reads ds = r \<and> writes ds = w")
    case True
    then show ?thesis using Some nm by (simp add: probe_def Let_def spindown_disk_def stops_def)
  next
    case False
    then show ?thesis using Some by (auto simp: probe_def Let_def log_spinup_def stops_def)
  qed
qed


text \<open>One disk over a stretch of lines in which its counters do not change.\<close>

lemma quiet_stretch:
  assumes "rfold (probe_line cf) ls s = Inr s1" "get_diskstats n (ds_root s) = Some ds"
    and "\<forall>l \<in> set ls. \<forall>r w. seen l = Some (n, r, w) \<longrightarrow> reads ds = r \<and> writes ds = w"
  shows "\<exists>cs ds1. hd_calls s1 = hd_calls s @ cs \<and> get_diskstats n (ds_root s1) = Some ds1 \<and>
    spun_down ds1 = (spun_down ds \<or> (\<exists>l \<in> set ls. (\<exists>r w. seen l = Some (n, r, w)) \<and> h_now l - last_io ds > idle_time cf)) \<and>
    stops n cs = (if \<not> spun_down ds \<and> spun_down ds1 then 1 else 0) \<and>
    (stops n cs = 0 \<longrightarrow> StopUnit (''/dev/'' @ n) \<notin> set cs)"
  using assms
proof (induction ls arbitrary: s ds)
  case Nil
  then show ?case by auto
next
  case (Cons l ls)
  then obtain s2 where s2: "probe_line cf l s = Inr s2" "rfold (probe_line cf) ls s2 = Inr s1"
    by (auto simp: rbind_eq_Inr)
  note pl = probe_line_seen [OF s2(1)]
  show ?case
  proof (cases "\<exists>r w. seen l = Some (n, r, w)")
    case True
    then obtain r w where sl: "seen l = Some (n, r, w)" "reads ds = r" "writes ds = w" using Cons.prems(3) by auto
    then have s2p: "s2 = probe cf l n r w s" using pl by simp
    obtain cs where cs: "hd_calls s2 = hd_calls s @ cs"
      "stops n cs = (if \<not> spun_down ds \<and> h_now l - last_io ds > idle_time cf then 1 else 0)"
      "stops n cs = 0 \<longrightarrow> StopUnit (''/dev/'' @ n) \<notin> set cs"
      using probe_calls [of cf l n r w s n] s2p Cons.prems(2) sl by auto
    obtain ds2 where ds2: "get_diskstats n (ds_root s2) = Some ds2" "reads ds2 = r" "writes ds2 = w" "last_io ds2 = last_io ds"
      "spun_down ds2 = (spun_down ds \<or> h_now l - last_io ds > idle_time cf)"
      using s2p Cons.prems(2) sl
      by (cases "\<not> spun_down ds \<and> h_now l - last_io ds > idle_time cf") (auto simp: probe_def Let_def get_set_diskstats)
    have all: "\<forall>l \<in> set ls. \<forall>r w. seen l = Some (n, r, w) \<longrightarrow> reads ds2 = r \<and> writes ds2 = w"
      using Cons.prems(3) ds2 sl by auto
    from Cons.IH [OF s2(2) ds2(1) all] obtain cs2 ds1 where
      "hd_calls s1 = hd_calls s2 @ cs2" "get_diskstats n (ds_root s1) = Some ds1"
      "spun_down ds1 = (spun_down ds2 \<or> (\<exists>l \<in> set ls. (\<exists>r w. seen l = Some (n, r, w)) \<and> h_now l - last_io ds2 > idle_time cf))"
      "stops n cs2 = (if \<not> spun_down ds2 \<and> spun_down ds1 then 1 else 0)"
      "stops n cs2 = 0 \<longrightarrow> StopUnit (''/dev/'' @ n) \<notin> set cs2" by (elim exE conjE) (rule that)
    then show ?thesis using cs ds2 True by (intro exI [of _ "cs @ cs2"] exI [of _ ds1]) auto
  next
    case False
    have "\<exists>cs. hd_calls s2 = hd_calls s @ cs \<and> stops n cs = 0 \<and> get_diskstats n (ds_root s2) = Some ds \<and>
      StopUnit (''/dev/'' @ n) \<notin> set cs"
    proof (cases "seen l")
      case None
      then show ?thesis using pl Cons.prems(2) by auto
    next
      case (Some x)
      then obtain m r w where "x = (m, r, w)" "m \<noteq> n" using False by (cases x) auto
      then show ?thesis using Some pl Cons.prems(2) probe_other [of n m cf l r w s] probe_calls [of cf l m r w s n] by auto
    qed
    then obtain cs where cs: "hd_calls s2 = hd_calls s @ cs" "stops n cs = 0" "get_diskstats n (ds_root s2) = Some ds"
      "StopUnit (''/dev/'' @ n) \<notin> set cs" by blast
    have "\<forall>l \<in> set ls. \<forall>r w. seen l = Some (n, r, w) \<longrightarrow> reads ds = r \<and> writes ds = w" using Cons.prems(3) by auto
    from Cons.IH [OF s2(2) cs(3) this] obtain cs2 ds1 where
      "hd_calls s1 = hd_calls s2 @ cs2" "get_diskstats n (ds_root s1) = Some ds1"
      "spun_down ds1 = (spun_down ds \<or> (\<exists>l \<in> set ls. (\<exists>r w. seen l = Some (n, r, w)) \<and> h_now l - last_io ds > idle_time cf))"
      "stops n cs2 = (if \<not> spun_down ds \<and> spun_down ds1 then 1 else 0)"
      "stops n cs2 = 0 \<longrightarrow> StopUnit (''/dev/'' @ n) \<notin> set cs2" by (elim exE conjE) (rule that)
    then show ?thesis using cs False by (intro exI [of _ "cs @ cs2"] exI [of _ ds1]) auto
  qed
qed


text \<open>
  A failed attempt is not repeated: when the device of an idle disk cannot be opened, the disk counts as stopped,
  no command is sent to it, and no further attempt is made for as long as its counters do not change.
\<close>

theorem failed_stop_not_repeated:
  assumes "get_diskstats n (ds_root s) = Some ds" "\<not> spun_down ds" "seen l = Some (n, reads ds, writes ds)"
    and "h_now l - last_io ds > idle_time cf" "\<not> h_opened l" "probe_line cf l s = Inr s1"
    and "rfold (probe_line cf) ls s1 = Inr s2"
    and "\<forall>l \<in> set ls. \<forall>r w. seen l = Some (n, r, w) \<longrightarrow> reads ds = r \<and> writes ds = w"
  shows "\<exists>cs. hd_calls s2 = hd_calls s @ cs \<and> stops n cs = 1 \<and> StopUnit (''/dev/'' @ n) \<notin> set cs"
proof -
  have s1: "s1 = probe cf l n (reads ds) (writes ds) s" using probe_line_seen [OF assms(6)] assms(3) by simp
  obtain cs where cs: "hd_calls s1 = hd_calls s @ cs" "stops n cs = 1" "StopUnit (''/dev/'' @ n) \<notin> set cs"
    using probe_calls [of cf l n "reads ds" "writes ds" s n] s1 assms by auto
  obtain ds1 where ds1: "get_diskstats n (ds_root s1) = Some ds1" "spun_down ds1" "reads ds1 = reads ds" "writes ds1 = writes ds"
    using s1 assms by (auto simp: probe_def Let_def get_set_diskstats)
  have "\<forall>l \<in> set ls. \<forall>r w. seen l = Some (n, r, w) \<longrightarrow> reads ds1 = r \<and> writes ds1 = w" using assms(8) ds1 by simp
  from quiet_stretch [OF assms(7) ds1(1) this] obtain cs2 where
    "hd_calls s2 = hd_calls s1 @ cs2" "stops n cs2 = 0" "StopUnit (''/dev/'' @ n) \<notin> set cs2" using ds1(2) by auto
  with cs show ?thesis by auto
qed

section \<open>Times in the log\<close>

text \<open>The clock does not run backwards.\<close>

fun clock_ok :: "int \<Rightarrow> hd_line list \<Rightarrow> bool" where
  "clock_ok t [] \<longleftrightarrow> True"
| "clock_ok t (l # ls) \<longleftrightarrow> t \<le> h_now l \<and> h_now l \<le> h_log1 l \<and> h_log1 l \<le> h_log2 l \<and> h_log2 l \<le> h_up l \<and>
     h_up l \<le> h_later l \<and> clock_ok (h_later l) ls"

definition times_ok :: "hd_config \<Rightarrow> int \<Rightarrow> DISKSTATS \<Rightarrow> bool" where
  "times_ok cf t ds \<longleftrightarrow> spinup ds \<le> last_io ds \<and> last_io ds \<le> t \<and>
     (spun_down ds \<longrightarrow> spindown ds - spinup ds > idle_time cf \<and> spindown ds \<le> t)"

definition log_ok :: "hd_config \<Rightarrow> hd_call \<Rightarrow> bool" where
  "log_ok cf c \<longleftrightarrow> (case c of LogLine t n running stopped \<Rightarrow> running > idle_time cf \<and> stopped \<ge> 0 | _ \<Rightarrow> True)"

definition hd_inv :: "hd_config \<Rightarrow> int \<Rightarrow> hd_state \<Rightarrow> bool" where
  "hd_inv cf t s \<longleftrightarrow> distinct (map ds_name (ds_root s)) \<and> (\<forall>ds \<in> set (ds_root s). times_ok cf t ds) \<and>
     (\<forall>c \<in> set (hd_calls s). log_ok cf c)"

lemma set_set_diskstats:
  "get_diskstats n root = Some ds \<Longrightarrow> set (set_diskstats n f root) \<subseteq> insert (f ds) (set root)"
  by (induction root) (auto simp: get_diskstats_Cons split: if_splits)

lemma set_set_diskstats_twice:
  "(\<And>d. ds_name (f d) = ds_name d) \<Longrightarrow>
   set_diskstats n g (set_diskstats n f root) = set_diskstats n (\<lambda>d. g (f d)) root"
  by (induction root) auto

lemma get_diskstats_set: "get_diskstats n root = Some ds \<Longrightarrow> ds \<in> set root"
  by (auto simp: get_diskstats_def find_Some_iff)

lemma get_diskstats_None: "get_diskstats n root = None \<longleftrightarrow> n \<notin> ds_name ` set root"
  by (auto simp: get_diskstats_def find_None_iff)

lemma times_ok_mono: "times_ok cf t ds \<Longrightarrow> t \<le> u \<Longrightarrow> times_ok cf u ds"
  by (auto simp: times_ok_def)

lemma set_diskstats_times:
  assumes "\<forall>ds \<in> set root. times_ok cf t ds" "t \<le> u" "get_diskstats n root = Some ds" "times_ok cf u (f ds)"
  shows "\<forall>ds \<in> set (set_diskstats n f root). times_ok cf u ds"
  using set_set_diskstats [OF assms(3), of f] assms times_ok_mono by blast

lemma spindown_calls: "\<exists>cs. hd_calls (spindown_disk l n s) = hd_calls s @ cs \<and> (\<forall>c \<in> set cs. log_ok cf c)"
  by (auto simp: spindown_disk_def Let_def log_ok_def)

lemma probe_inv:
  assumes inv: "hd_inv cf t s" and clock: "clock_ok t [l]"
  shows "hd_inv cf (h_later l) (probe cf l n r w s)"
proof -
  have le: "t \<le> h_later l" "t \<le> h_now l" "h_now l \<le> h_later l" "h_up l \<le> h_later l" "t \<le> h_log2 l" using clock by auto
  have old: "\<forall>ds \<in> set (ds_root s). times_ok cf t ds" and dist: "distinct (map ds_name (ds_root s))"
    and calls: "\<forall>c \<in> set (hd_calls s). log_ok cf c" using inv by (auto simp: hd_inv_def)
  have old2: "\<forall>ds \<in> set (ds_root s). times_ok cf (h_later l) ds" using old le(1) times_ok_mono by blast
  show ?thesis
  proof (cases "get_diskstats n (ds_root s)")
    case None
    then have "n \<notin> ds_name ` set (ds_root s)" by (simp add: get_diskstats_None)
    with None show ?thesis using old2 dist calls by (simp add: probe_def hd_inv_def) (simp add: times_ok_def)
  next
    case (Some ds)
    have tds: "times_ok cf t ds" using old get_diskstats_set [OF Some] by blast
    show ?thesis
    proof (cases "reads ds = r \<and> writes ds = w")
      case same: True
      show ?thesis
      proof (cases "\<not> spun_down ds \<and> h_now l - last_io ds > idle_time cf")
        case True
        let ?f = "\<lambda>d. d\<lparr>spindown := h_later l, spun_down := True\<rparr>"
        have "times_ok cf (h_later l) (?f ds)" using tds True le by (auto simp: times_ok_def)
        note st = set_diskstats_times [where f = ?f, OF old le(1) Some this]
        obtain cs where "hd_calls (spindown_disk l (ds_name ds) s) = hd_calls s @ cs" "\<forall>c \<in> set cs. log_ok cf c"
          using spindown_calls by blast
        then show ?thesis using Some same True st dist calls
          by (auto simp: probe_def hd_inv_def Let_def names_set_diskstats)
      next
        case False
        then show ?thesis using Some same old2 dist calls by (auto simp: probe_def hd_inv_def)
      qed
    next
      case changed: False
      let ?g = "\<lambda>d. d\<lparr>reads := r, writes := w, last_io := h_later l, spun_down := False\<rparr>"
      let ?f = "\<lambda>d. ?g (d\<lparr>spinup := h_up l\<rparr>)"
      have "times_ok cf (h_later l) (?g ds)" "times_ok cf (h_later l) (?f ds)"
        using tds le by (auto simp: times_ok_def)
      then have st: "\<forall>ds \<in> set (set_diskstats n ?g (ds_root s)). times_ok cf (h_later l) ds"
        "\<forall>ds \<in> set (set_diskstats n ?f (ds_root s)). times_ok cf (h_later l) ds"
        using set_diskstats_times [where f = ?g, OF old le(1) Some] set_diskstats_times [where f = ?f, OF old le(1) Some] by blast+
      show ?thesis
      proof (cases "spun_down ds")
        case True
        then have "\<forall>c \<in> set (hd_calls (if have_logfile cf then log_spinup l ds s else s)). log_ok cf c"
          using calls tds le by (auto simp: log_spinup_def log_ok_def times_ok_def)
        then show ?thesis using Some changed True st(2) dist
          by (auto simp: probe_def hd_inv_def Let_def set_set_diskstats_twice names_set_diskstats)
      next
        case False
        then show ?thesis using Some changed st(1) dist calls
          by (auto simp: probe_def hd_inv_def Let_def names_set_diskstats)
      qed
    qed
  qed
qed

lemma hd_inv_mono: "hd_inv cf t s \<Longrightarrow> t \<le> u \<Longrightarrow> hd_inv cf u s"
  by (auto simp: hd_inv_def times_ok_mono)

lemma run_inv:
  "hd_inv cf t s \<Longrightarrow> clock_ok t ls \<Longrightarrow> rfold (probe_line cf) ls s = Inr s1 \<Longrightarrow> \<exists>u. hd_inv cf u s1"
proof (induction ls arbitrary: s t)
  case Nil
  then show ?case by auto
next
  case (Cons l ls)
  then obtain s2 where s2: "probe_line cf l s = Inr s2" "rfold (probe_line cf) ls s2 = Inr s1" by (auto simp: rbind_eq_Inr)
  have "t \<le> h_later l" "clock_ok t [l]" using Cons.prems(2) by auto
  then have "hd_inv cf (h_later l) s2"
    using probe_line_seen [OF s2(1)] Cons.prems(1) hd_inv_mono probe_inv by (auto split: option.splits)
  then show ?case using Cons.IH [OF _ _ s2(2), of "h_later l"] Cons.prems(2) by simp
qed

text \<open>
  The list of disks never holds a disk twice, and every entry of the log is sensible: with a clock that does not
  run backwards the running time it reports is longer than the idle time and the stopped time is not negative.
\<close>

theorem spinup_log_sound:
  assumes "clock_ok 0 ls" "rfold (probe_line cf) ls hd_start = Inr s"
  shows "distinct (map ds_name (ds_root s)) \<and>
    (\<forall>t n running stopped. LogLine t n running stopped \<in> set (hd_calls s) \<longrightarrow> running > idle_time cf \<and> stopped \<ge> 0)"
proof -
  have "hd_inv cf 0 hd_start" by (simp add: hd_inv_def hd_start_def)
  from run_inv [OF this assms] show ?thesis by (fastforce simp: hd_inv_def log_ok_def split: hd_call.splits)
qed

section \<open>Reading the kernel's lines\<close>

text \<open>A line of \<^verbatim>\<open>/proc/diskstats\<close> for a whole disk.\<close>

definition stat_line :: "nat \<Rightarrow> nat \<Rightarrow> string \<Rightarrow> nat list \<Rightarrow> string" where
  "stat_line major minor name xs =
     dec major @ '' '' @ dec minor @ '' '' @ name @ concat (map (\<lambda>x. '' '' @ dec x) xs) @ [LF]"

lemma scan_num_dec:
  assumes "r = [] \<or> \<not> isdigit (hd r)"
  shows "scan_num (dec v @ r) = Some (u32 v, r)" "scan_num (CHR '' '' # dec v @ r) = Some (u32 v, r)"
proof -
  obtain c ds where d: "dec v = c # ds" using dec_digits [of v] by (cases "dec v") auto
  then have c: "isdigit c" "list_all isdigit ds" using dec_digits [of v] by auto
  have t: "takeWhile isdigit (dec v @ r) = dec v" "dropWhile isdigit (dec v @ r) = r"
    using dec_digits [of v] assms by (cases r; force simp: list_all_iff takeWhile_append2 dropWhile_append2)+
  have w: "dropWhile isspace (dec v @ r) = dec v @ r" using d c not_digit_space by simp
  have h: "dec v @ r \<noteq> []" "hd (dec v @ r) \<noteq> CHR ''-''" "hd (dec v @ r) \<noteq> CHR ''+''" using d c not_digit_space by auto
  show "scan_num (dec v @ r) = Some (u32 v, r)"
    using w h t dec_digits [of v] by (simp add: scan_num_def Let_def digits_value_dec)
  moreover have "dropWhile isspace (CHR '' '' # dec v @ r) = dropWhile isspace (dec v @ r)"
    by (simp add: isspace_def)
  ultimately show "scan_num (CHR '' '' # dec v @ r) = Some (u32 v, r)" by (simp only: scan_num_def)
qed

lemma scan_word:
  assumes "name \<noteq> []" "\<forall>c \<in> set name. \<not> isspace c"
  shows "sscanf (Word # f) (CHR '' '' # name @ CHR '' '' # r) = SWord name # sscanf f (CHR '' '' # r)"
proof -
  have "dropWhile isspace (CHR '' '' # name @ CHR '' '' # r) = name @ CHR '' '' # r"
    using assms by (cases name) (auto simp: isspace_def)
  moreover have "takeWhile (\<lambda>c. \<not> isspace c) (name @ CHR '' '' # r) = name"
    "dropWhile (\<lambda>c. \<not> isspace c) (name @ CHR '' '' # r) = CHR '' '' # r"
    using assms by (simp_all add: isspace_def takeWhile_append dropWhile_append)
  ultimately show ?thesis using assms(1) by (simp add: Let_def)
qed

lemma sscanf_stat_line:
  assumes "name \<noteq> []" "\<forall>c \<in> set name. \<not> isspace c"
  shows "sscanf stat_format (stat_line major minor name
      [rio, rmerge, rsect, ruse, wio, wmerge, wsect, wuse, running, use, aveq]) = [SWord name, SNum (u32 rsect), SNum (u32 wsect)]"
  by (simp add: stat_line_def stat_format_def scan_num_dec scan_word [OF assms] del: sscanf.simps(4))

text \<open>
  From a line as the kernel prints it for a disk the scan takes the name and exactly the two numbers of sectors,
  read and written, which the daemon compares.
\<close>

theorem stat_line_scanned:
  assumes "name \<noteq> []" "\<forall>c \<in> set name. \<not> isspace c \<and> c \<noteq> NUL" "length name < 50"
    and "rsect < 4294967296" "wsect < 4294967296"
  shows "scan_line (stat_line major minor name [rio, rmerge, rsect, ruse, wio, wmerge, wsect, wuse, running, use, aveq])
    = Inr (Some (name, rsect, wsect))"
proof -
  have "NUL \<notin> set name" using assms(2) by auto
  then have c: "cstr (stat_line major minor name [rio, rmerge, rsect, ruse, wio, wmerge, wsect, wuse, running, use, aveq])
    = stat_line major minor name [rio, rmerge, rsect, ruse, wio, wmerge, wsect, wuse, running, use, aveq]"
    by (intro cstr_no_NUL) (simp add: stat_line_def)
  have "\<forall>c \<in> set name. \<not> isspace c" using assms(2) by auto
  with assms show ?thesis by (simp add: scan_line_def c sscanf_stat_line)
qed

theorem stat_line_scanned_witness:
  "scan_line (stat_line 8 0 ''sda'' [1, 2, 3000, 4, 5, 6, 7000, 8, 9, 10, 11]) = Inr (Some (''sda'', 3000, 7000))"
  using stat_line_scanned [of "''sda''" 3000 7000 8 0 1 2 4 5 6 8 9 10 11] by (simp add: isspace_def)

section \<open>An example\<close>

text \<open>Probes of the disk \<open>sda\<close> with the given time and counters; the idle time is 600 seconds.\<close>

definition demo_probe :: "int \<Rightarrow> nat \<Rightarrow> nat \<Rightarrow> hd_line" where
  "demo_probe t r w = \<lparr>h_text = stat_line 8 0 ''sda'' [0, 0, r, 0, 0, 0, w, 0, 0, 0, 0], h_now = t, h_log1 = t, h_log2 = t,
     h_up = t, h_later = t, h_opened = False, h_sent = False, h_status = 0, h_logopen = True\<rparr>"

lemma scan_demo:
  assumes "r < 100" "w < 100"
  shows "scan_line (h_text (demo_probe t r w)) = Inr (Some (''sda'', r, w))"
proof -
  have "cstr (h_text (demo_probe t r w)) = h_text (demo_probe t r w)"
    by (intro cstr_no_NUL) (simp add: demo_probe_def stat_line_def)
  then show ?thesis using assms
    by (simp add: scan_line_def) (simp add: demo_probe_def sscanf_stat_line isspace_def)
qed

lemma seen_demo: "r < 100 \<Longrightarrow> w < 100 \<Longrightarrow> seen (demo_probe t r w) = Some (''sda'', r, w)"
  by (simp add: seen_def scan_demo is_sd_def isalpha_def)

lemma probe_line_demo:
  "r < 100 \<Longrightarrow> w < 100 \<Longrightarrow> probe_line cf (demo_probe t r w) s = Inr (probe cf (demo_probe t r w) ''sda'' r w s)"
  by (simp add: probe_line_def scan_demo is_sd_def isalpha_def)

lemmas demo_simps = seen_demo probe_line_demo probe_def get_diskstats_Cons hd_start_def hd_default_def spindown_disk_def
  log_spinup_def hd_emit_def

lemma demo_times [simp]: "h_now (demo_probe t r w) = t" "h_later (demo_probe t r w) = t" "h_opened (demo_probe t r w) = False"
  by (simp_all add: demo_probe_def)

theorem entries_match_history_witness:
  "\<exists>ds. get_diskstats ''sda'' (ds_root (probe hd_default (demo_probe 5 1 2) ''sda'' 1 2 hd_start)) = Some ds \<and> last_io ds = 5"
  using entries_match_history [of hd_default "[demo_probe 5 1 2]" "probe hd_default (demo_probe 5 1 2) ''sda'' 1 2 hd_start" "''sda''"]
  by (simp add: demo_simps quiet_since_def quiet_period_def)



theorem failed_stop_not_repeated_witness:
  "\<exists>cs. hd_calls (probe hd_default (demo_probe 700 1 2) ''sda'' 1 2 (probe hd_default (demo_probe 5 1 2) ''sda'' 1 2 hd_start)) = cs \<and>
     stops ''sda'' cs = 1 \<and> StopUnit ''/dev/sda'' \<notin> set cs"
  using failed_stop_not_repeated [of "''sda''" "probe hd_default (demo_probe 5 1 2) ''sda'' 1 2 hd_start"
    "\<lparr>ds_name = ''sda'', last_io = 5, spindown = 0, spinup = 5, spun_down = False, reads = 1, writes = 2\<rparr>" "demo_probe 700 1 2" hd_default
    "probe hd_default (demo_probe 700 1 2) ''sda'' 1 2 (probe hd_default (demo_probe 5 1 2) ''sda'' 1 2 hd_start)" "[]"
    "probe hd_default (demo_probe 700 1 2) ''sda'' 1 2 (probe hd_default (demo_probe 5 1 2) ''sda'' 1 2 hd_start)"]
  by (simp add: demo_simps stops_def)

theorem spinup_log_sound_witness:
  "distinct (map ds_name (ds_root (probe hd_default (demo_probe 5 1 2) ''sda'' 1 2 hd_start)))"
  using spinup_log_sound [of "[demo_probe 5 1 2]" hd_default "probe hd_default (demo_probe 5 1 2) ''sda'' 1 2 hd_start"]
  by (simp add: probe_line_demo) (simp add: demo_probe_def)

end
