(* ===== verification/Opkg_Version.thy ===== *)
theory Opkg_Version
  imports Ctype
begin

text \<open>
  Versions of packages in opkg, from \<^verbatim>\<open>apps/opkg/libopkg/pkg.c\<close>, \<^verbatim>\<open>pkg_parse.c\<close> and \<^verbatim>\<open>pkg_depends.c\<close>: the
  comparison of version strings taken over from dpkg, the comparison of packages, the parsing and printing of
  versions and the test of a version constraint.

  A C string is the list of its characters before the terminator; reading the terminator gives \<open>NUL\<close>, and a
  pointer that moves past it is \<open>Overrun\<close>. The reference is an order on keys, lists of numbers that are compared
  lexicographically as if they went on with zeros.
\<close>

section \<open>Comparing version strings\<close>

text \<open>The character a pointer points to.\<close>

fun at :: "string \<Rightarrow> char" where
  "at [] = NUL"
| "at (c # s) = c"

definition order :: "char \<Rightarrow> int" where
  "order x = (if x = CHR ''~'' then -1 else if isdigit x then 0 else if x = NUL then 0
     else if isalpha x then int (ord x) else int (ord x) + 256)"

text \<open>The part without digits: the difference at the first place where the two disagree, or both rests.\<close>

fun nondigit_loop :: "string \<Rightarrow> string \<Rightarrow> (int + string \<times> string) res" where
  "nondigit_loop val ref =
     (if val \<noteq> [] \<and> \<not> isdigit (at val) \<or> ref \<noteq> [] \<and> \<not> isdigit (at ref)
      then if order (at val) \<noteq> order (at ref) then Inr (Inl (order (at val) - order (at ref)))
           else case (val, ref) of (_ # v, _ # r) \<Rightarrow> nondigit_loop v r | _ \<Rightarrow> Inl Overrun
      else Inr (Inr (val, ref)))"

fun digit_loop :: "int \<Rightarrow> string \<Rightarrow> string \<Rightarrow> int \<times> string \<times> string" where
  "digit_loop first_diff (v # val) (r # ref) =
     (if isdigit v \<and> isdigit r
      then digit_loop (if first_diff = 0 then int (ord v) - int (ord r) else first_diff) val ref
      else (first_diff, v # val, r # ref))"
| "digit_loop first_diff val ref = (first_diff, val, ref)"

text \<open>One round of the outer loop.\<close>

definition cmp_round :: "string \<Rightarrow> string \<Rightarrow> (int + string \<times> string) res" where
  "cmp_round val ref = rbind (nondigit_loop val ref) (\<lambda>x. case x of
     Inl r \<Rightarrow> Inr (Inl r)
   | Inr (v, f) \<Rightarrow>
       (case digit_loop 0 (dropWhile (\<lambda>c. c = CHR ''0'') v) (dropWhile (\<lambda>c. c = CHR ''0'') f) of (first_diff, v, f) \<Rightarrow>
          if isdigit (at v) then Inr (Inl 1)
          else if isdigit (at f) then Inr (Inl (-1))
          else if first_diff \<noteq> 0 then Inr (Inl first_diff)
          else Inr (Inr (v, f))))"

text \<open>The outer loop; a round that consumes nothing would repeat for ever.\<close>

function verrev_loop :: "string \<Rightarrow> string \<Rightarrow> int res" where
  "verrev_loop val ref =
     (if val = [] \<and> ref = [] then Inr 0
      else rbind (cmp_round val ref) (\<lambda>x. case x of
             Inl r \<Rightarrow> Inr r
           | Inr (v, f) \<Rightarrow> if length v + length f < length val + length ref then verrev_loop v f else Inl Hang))"
  by auto
termination by (relation "measure (\<lambda>(v, f). length v + length f)") auto

declare nondigit_loop.simps [simp del] verrev_loop.simps [simp del]

definition verrevcmp :: "string option \<Rightarrow> string option \<Rightarrow> int res" where
  "verrevcmp val ref = verrev_loop (case val of None \<Rightarrow> [] | Some s \<Rightarrow> s) (case ref of None \<Rightarrow> [] | Some s \<Rightarrow> s)"

section \<open>Versions of packages\<close>

record version =
  v_epoch :: nat
  v_version :: "string option"
  v_revision :: "string option"

definition pkg_compare_versions :: "version \<Rightarrow> version \<Rightarrow> int res" where
  "pkg_compare_versions pkg ref_pkg =
     (if v_epoch pkg > v_epoch ref_pkg then Inr 1
      else if v_epoch pkg < v_epoch ref_pkg then Inr (-1)
      else rbind (verrevcmp (v_version pkg) (v_version ref_pkg)) (\<lambda>r.
           if r \<noteq> 0 then Inr r
           else verrevcmp (v_revision pkg) (v_revision ref_pkg)))"

text \<open>The result, and whether an error is logged.\<close>

definition pkg_version_satisfied :: "version \<Rightarrow> version \<Rightarrow> string \<Rightarrow> (bool \<times> bool) res" where
  "pkg_version_satisfied it ref op = rbind (pkg_compare_versions it ref) (\<lambda>r. Inr (
     if op = ''<='' \<or> op = ''<'' then (r \<le> 0, False)
     else if op = ''>='' \<or> op = ''>'' then (r \<ge> 0, False)
     else if op = ''<<'' then (r < 0, False)
     else if op = ''>>'' then (r > 0, False)
     else if op = ''='' then (r = 0, False)
     else (False, True)))"

text \<open>
  \<open>parse_version\<close>. \<open>strtoul\<close> skips white space, takes an optional sign and digits; the value is
  reduced to 32 bits, and whether it did not fit is returned as well (the code then logs an error and goes on).
\<close>

definition strtoul10 :: "string \<Rightarrow> nat \<times> bool" where
  "strtoul10 s =
     (let s1 = dropWhile isspace s; neg = (at s1 = CHR ''-'');
          s2 = (if at s1 = CHR ''-'' \<or> at s1 = CHR ''+'' then drop 1 s1 else s1);
          v = digits_value (takeWhile isdigit s2)
      in if v > 4294967295 then (4294967295, True)
         else (if neg then u32 (4294967296 - v) else v, False))"

text \<open>The last occurrence of a character, as \<open>strrchr\<close> finds it: what is before it and after it.\<close>

definition split_last :: "char \<Rightarrow> string \<Rightarrow> string \<times> string option" where
  "split_last c s =
     (if c \<in> set s
      then (rev (drop 1 (dropWhile (\<lambda>x. x \<noteq> c) (rev s))), Some (rev (takeWhile (\<lambda>x. x \<noteq> c) (rev s))))
      else (s, None))"

definition parse_version :: "string \<Rightarrow> version \<times> bool" where
  "parse_version vstr0 =
     (let vstr1 = (if take 8 vstr0 = ''Version:'' then drop 8 vstr0 else vstr0);
          vstr = dropWhile isspace vstr1;
          colon = (CHR '':'' \<in> set vstr);
          (epoch, range_error) = (if colon then strtoul10 vstr else (0, False));
          rest = (if colon then drop 1 (dropWhile (\<lambda>c. c \<noteq> CHR '':'') vstr) else vstr);
          (ver, revis) = split_last CHR ''-'' rest
      in (\<lparr>v_epoch = epoch, v_version = Some ver, v_revision = revis\<rparr>, range_error))"

text \<open>\<open>%d\<close> prints the epoch as a signed number; it is one only below 2 ^ 31.\<close>

definition dec_signed :: "nat \<Rightarrow> string" where
  "dec_signed n = (if n < 2147483648 then dec n else CHR ''-'' # dec (4294967296 - n))"

text \<open>A missing version is printed as \<open>(null)\<close>; alone it gives the null pointer.\<close>

definition pkg_version_str_alloc :: "version \<Rightarrow> string option" where
  "pkg_version_str_alloc pkg =
     (let ver = (case v_version pkg of None \<Rightarrow> ''(null)'' | Some s \<Rightarrow> s) in
      if v_epoch pkg \<noteq> 0
      then Some (case v_revision pkg of
              Some r \<Rightarrow> dec_signed (v_epoch pkg) @ '':'' @ ver @ ''-'' @ r
            | None \<Rightarrow> dec_signed (v_epoch pkg) @ '':'' @ ver)
      else (case v_revision pkg of Some r \<Rightarrow> Some (ver @ ''-'' @ r) | None \<Rightarrow> v_version pkg))"

section \<open>Version constraints\<close>

datatype version_constraint = NONE | EARLIER | EARLIER_EQUAL | EQUAL | LATER_EQUAL | LATER

definition version_constraints_satisfied :: "version_constraint \<Rightarrow> string \<Rightarrow> version \<Rightarrow> bool res" where
  "version_constraints_satisfied constraint ver pkg =
     (if constraint = NONE then Inr True
      else rbind (pkg_compare_versions pkg (fst (parse_version ver))) (\<lambda>comparison. Inr (
        if constraint = EARLIER \<and> comparison < 0 then True
        else if constraint = LATER \<and> comparison > 0 then True
        else if comparison = 0 then True
        else if constraint = LATER_EQUAL \<and> comparison \<ge> 0 then True
        else if constraint = EARLIER_EQUAL \<and> comparison \<le> 0 then True
        else False)))"

section \<open>Three-way comparisons\<close>

text \<open>
  The interface of a comparison function: its sign turns round with its arguments and it is transitive. This is
  what sorting and the choice of a newest version rely on.
\<close>

locale three_way =
  fixes cmp :: "'a \<Rightarrow> 'a \<Rightarrow> int"
  assumes anti: "sgn (cmp y x) = - sgn (cmp x y)"
    and le_trans: "cmp x y \<le> 0 \<Longrightarrow> cmp y z \<le> 0 \<Longrightarrow> cmp x z \<le> 0"
begin

lemma refl: "cmp x x = 0"
  using anti [of x x] by (simp add: sgn_if split: if_splits)

lemma flip: "cmp y x \<le> 0 \<longleftrightarrow> cmp x y \<ge> 0" "cmp y x < 0 \<longleftrightarrow> cmp x y > 0" "cmp y x = 0 \<longleftrightarrow> cmp x y = 0"
  using anti [of x y] by (auto simp: sgn_if split: if_splits)

lemma strict_trans: "cmp x y < 0 \<Longrightarrow> cmp y z \<le> 0 \<Longrightarrow> cmp x z < 0"
proof -
  assume a: "cmp x y < 0" "cmp y z \<le> 0"
  then have "cmp x z \<le> 0" using le_trans [of x y z] by simp
  moreover have "cmp x z \<noteq> 0"
  proof
    assume "cmp x z = 0"
    then have "cmp z x \<le> 0" using flip(3) [of z x] by simp
    with a(2) have "cmp y x \<le> 0" by (rule le_trans)
    then show False using a(1) flip(2) [of x y] by simp
  qed
  ultimately show ?thesis by simp
qed

lemma strict_trans_right: "cmp x y \<le> 0 \<Longrightarrow> cmp y z < 0 \<Longrightarrow> cmp x z < 0"
proof -
  assume a: "cmp x y \<le> 0" "cmp y z < 0"
  then have "cmp x z \<le> 0" using le_trans [of x y z] by simp
  moreover have "cmp x z \<noteq> 0"
  proof
    assume "cmp x z = 0"
    then have "cmp z x \<le> 0" using flip(3) [of z x] by simp
    then have "cmp z y \<le> 0" using a(1) by (rule le_trans)
    then show False using a(2) flip(2) [of y z] by simp
  qed
  ultimately show ?thesis by simp
qed

lemma equal_cong: "cmp x y = 0 \<Longrightarrow> sgn (cmp x z) = sgn (cmp y z)"
proof -
  assume e: "cmp x y = 0"
  then have f: "cmp y x = 0" using flip(3) [of y x] by simp
  have "cmp x z \<le> 0 \<longleftrightarrow> cmp y z \<le> 0" using le_trans [of x y z] le_trans [of y x z] e f by auto
  moreover have "cmp z x \<le> 0 \<longleftrightarrow> cmp z y \<le> 0" using le_trans [of z x y] le_trans [of z y x] e f by auto
  ultimately show ?thesis using flip(1) [of z x] flip(1) [of z y] by (auto simp: sgn_if)
qed

end

lemma three_way_pullback: "three_way c \<Longrightarrow> three_way (\<lambda>x y. c (f x) (f y))"
  unfolding three_way_def by blast

text \<open>The comparison by a second function where a first one finds no difference.\<close>

locale lexicographic = first: three_way cmp1 + second: three_way cmp2 for cmp1 cmp2 :: "'a \<Rightarrow> 'a \<Rightarrow> int"

sublocale lexicographic \<subseteq> both: three_way "\<lambda>x y. if cmp1 x y \<noteq> 0 then cmp1 x y else cmp2 x y"
proof
  fix x y z
  show "sgn (if cmp1 y x \<noteq> 0 then cmp1 y x else cmp2 y x) = - sgn (if cmp1 x y \<noteq> 0 then cmp1 x y else cmp2 x y)"
    using first.anti [of y x] second.anti [of y x] first.flip(3) [of x y] by auto
  assume a: "(if cmp1 x y \<noteq> 0 then cmp1 x y else cmp2 x y) \<le> 0" "(if cmp1 y z \<noteq> 0 then cmp1 y z else cmp2 y z) \<le> 0"
  show "(if cmp1 x z \<noteq> 0 then cmp1 x z else cmp2 x z) \<le> 0"
  proof (cases "cmp1 x y = 0 \<and> cmp1 y z = 0")
    case True
    then have "cmp1 x z = 0" using first.equal_cong [of x y z] by (simp add: sgn_0_0)
    then show ?thesis using True a second.le_trans [of x y z] by simp
  next
    case False
    then have "cmp1 x y < 0 \<and> cmp1 y z \<le> 0 \<or> cmp1 x y = 0 \<and> cmp1 y z < 0"
      using a by (auto split: if_splits)
    then have "cmp1 x z < 0"
      using first.strict_trans [of x y z] first.equal_cong [of x y z] by (auto simp: sgn_if split: if_splits)
    then show ?thesis by simp
  qed
qed

section \<open>The order on keys\<close>

text \<open>
  The key of a version string: its characters that are no digits by their \<open>order\<close>, every number as a zero and
  its value.
\<close>

function key :: "string \<Rightarrow> int list" where
  "key [] = []"
| "\<not> isdigit c \<Longrightarrow> key (c # s) = order c # key s"
| "isdigit c \<Longrightarrow> key (c # s) = 0 # int (digits_value (takeWhile isdigit (c # s))) # key (dropWhile isdigit s)"
  by (auto, metis list.exhaust)
termination by (relation "measure length") (auto simp: le_imp_less_Suc length_dropWhile_le)

fun cmp0 :: "int list \<Rightarrow> int list \<Rightarrow> int" where
  "cmp0 [] [] = 0"
| "cmp0 (x # xs) [] = (if x \<noteq> 0 then sgn x else cmp0 xs [])"
| "cmp0 [] (y # ys) = (if y \<noteq> 0 then - sgn y else cmp0 [] ys)"
| "cmp0 (x # xs) (y # ys) = (if x \<noteq> y then sgn (x - y) else cmp0 xs ys)"

definition head0 :: "int list \<Rightarrow> int" where
  "head0 xs = (case xs of [] \<Rightarrow> 0 | x # _ \<Rightarrow> x)"

lemma cmp0_unfold: "cmp0 xs ys = (if head0 xs \<noteq> head0 ys then sgn (head0 xs - head0 ys) else cmp0 (tl xs) (tl ys))"
  by (cases xs; cases ys) (auto simp: head0_def sgn_if)

lemma cmp0_anti: "cmp0 ys xs = - cmp0 xs ys"
  by (induction xs ys rule: cmp0.induct) (auto simp: sgn_if)

lemma cmp0_sgn: "sgn (cmp0 xs ys) = cmp0 xs ys"
  by (induction xs ys rule: cmp0.induct) (auto simp: sgn_if)

lemma cmp0_trans_aux:
  "length xs \<le> n \<Longrightarrow> length ys \<le> n \<Longrightarrow> length zs \<le> n \<Longrightarrow> cmp0 xs ys \<le> 0 \<Longrightarrow> cmp0 ys zs \<le> 0 \<Longrightarrow> cmp0 xs zs \<le> 0"
proof (induction n arbitrary: xs ys zs)
  case (Suc n)
  have "length (tl xs) \<le> n" "length (tl ys) \<le> n" "length (tl zs) \<le> n" using Suc.prems(1-3) by auto
  note ih = Suc.IH [OF this]
  have "head0 xs \<le> head0 ys \<and> (head0 xs = head0 ys \<longrightarrow> cmp0 (tl xs) (tl ys) \<le> 0)"
    using Suc.prems(4) by (subst (asm) cmp0_unfold) (auto simp: sgn_if split: if_splits)
  moreover have "head0 ys \<le> head0 zs \<and> (head0 ys = head0 zs \<longrightarrow> cmp0 (tl ys) (tl zs) \<le> 0)"
    using Suc.prems(5) by (subst (asm) cmp0_unfold) (auto simp: sgn_if split: if_splits)
  ultimately show ?case using ih by (subst cmp0_unfold) (auto simp: sgn_if)
qed simp

interpretation keys: three_way cmp0
proof
  fix x y z :: "int list"
  show "sgn (cmp0 y x) = - sgn (cmp0 x y)" by (metis cmp0_sgn cmp0_anti)
  show "cmp0 x y \<le> 0 \<Longrightarrow> cmp0 y z \<le> 0 \<Longrightarrow> cmp0 x z \<le> 0"
    using cmp0_trans_aux [of x "max (length x) (max (length y) (length z))" y z] by simp
qed

section \<open>The comparison computes the order on keys\<close>

lemma order_nondigit: "\<not> isdigit c \<Longrightarrow> c \<noteq> NUL \<Longrightarrow> order c \<noteq> 0"
  by (auto simp: order_def isalpha_def)

lemma order_digit: "isdigit c \<Longrightarrow> order c = 0"
  by (auto simp: order_def isdigit_def)

lemma order_NUL [simp]: "order NUL = 0"
  by (simp add: order_def)

lemma isdigit_NUL [simp]: "\<not> isdigit NUL"
  by (simp add: isdigit_def)

text \<open>Strings without a terminator inside, and where a number or nothing follows.\<close>

abbreviation no_NUL :: "string \<Rightarrow> bool" where
  "no_NUL s \<equiv> NUL \<notin> set s"

abbreviation at_number :: "string \<Rightarrow> bool" where
  "at_number s \<equiv> s = [] \<or> isdigit (hd s)"

lemma nondigit_loop_spec:
  assumes "no_NUL val" "no_NUL ref"
  shows "(\<exists>r. nondigit_loop val ref = Inr (Inl r) \<and> sgn r = cmp0 (key val) (key ref) \<and> r \<noteq> 0) \<or>
    (\<exists>v f. nondigit_loop val ref = Inr (Inr (v, f)) \<and> cmp0 (key val) (key ref) = cmp0 (key v) (key f) \<and>
       at_number v \<and> at_number f \<and> suffix v val \<and> suffix f ref)"
  using assms
proof (induction val arbitrary: ref)
  case Nil
  then show ?case
  proof (cases ref)
    case (Cons c r)
    with Nil show ?thesis
      by (cases "isdigit c") (auto simp: nondigit_loop.simps order_nondigit sgn_if)
  qed (simp add: nondigit_loop.simps)
next
  case (Cons c val)
  note c0 = Cons.prems
  show ?case
  proof (cases ref)
    case Nil
    then show ?thesis using c0
      by (cases "isdigit c") (auto simp: nondigit_loop.simps order_nondigit sgn_if)
  next
    case r: (Cons d r)
    show ?thesis
    proof (cases "isdigit c \<and> isdigit d")
      case True
      then show ?thesis using r by (auto simp: nondigit_loop.simps)
    next
      case nd: False
      show ?thesis
      proof (cases "order c = order d")
        case False
        then have "sgn (order c - order d) = cmp0 (key (c # val)) (key ref)"
          using r nd order_digit by (cases "isdigit c"; cases "isdigit d") auto
        then show ?thesis using False nd r by (auto simp: nondigit_loop.simps)
      next
        case True
        then have "\<not> isdigit c" "\<not> isdigit d" using nd order_nondigit order_digit c0 r by auto
        then show ?thesis using True r c0 Cons.IH [of r]
          by (subst (1 2) nondigit_loop.simps) (auto intro: suffix_ConsI)
      qed
    qed
  qed
qed

lemma digits_value_Cons: "digits_value (d # ds) = (ord d - 48) * 10 ^ length ds + digits_value ds"
proof (induction ds rule: rev_induct)
  case Nil
  then show ?case by (simp add: digits_value_def)
next
  case (snoc c ds)
  then show ?case using digits_value_snoc [of "d # ds" c] by (simp add: digits_value_snoc)
qed

lemma digits_value_less: "list_all isdigit ds \<Longrightarrow> digits_value ds < 10 ^ length ds"
proof (induction ds)
  case (Cons d ds)
  then have "ord d - 48 \<le> 9" "digits_value ds < 10 ^ length ds" by (auto simp: isdigit_def)
  then have "(ord d - 48) * 10 ^ length ds + digits_value ds < 9 * 10 ^ length ds + 10 ^ length ds"
    by (intro add_le_less_mono mult_le_mono1)
  then show ?case by (simp add: digits_value_Cons)
qed (simp add: digits_value_def)

lemma digits_value_zeros: "digits_value (dropWhile (\<lambda>c. c = CHR ''0'') ds) = digits_value ds"
  by (induction ds) (auto simp: digits_value_Cons)

lemma digits_value_longer:
  assumes "list_all isdigit xs" "list_all isdigit ys" "length ys < length xs" "hd xs \<noteq> CHR ''0''"
  shows "digits_value ys < digits_value xs"
proof -
  obtain d ds where xs: "xs = d # ds" using assms(3) by (cases xs) auto
  have "1 \<le> ord d - 48"
  proof -
    have "48 \<le> ord d" using assms(1) xs by (simp add: isdigit_def)
    moreover have "ord d \<noteq> 48" using assms(4) xs of_char_eq_iff [of d "CHR ''0''", where ?'a = nat] by auto
    ultimately show ?thesis by linarith
  qed
  then have "10 ^ length ds \<le> digits_value xs" by (simp add: xs digits_value_Cons trans_le_add1)
  moreover have "digits_value ys < 10 ^ length ys" using assms(2) by (rule digits_value_less)
  moreover have "(10 :: nat) ^ length ys \<le> 10 ^ length ds" using assms(3) xs by (simp add: power_increasing)
  ultimately show ?thesis by linarith
qed

abbreviation past_number :: "string \<Rightarrow> bool" where
  "past_number s \<equiv> s = [] \<or> \<not> isdigit (hd s)"

lemma digit_loop_stop: "past_number r \<or> past_number q \<Longrightarrow> digit_loop d r q = (d, r, q)"
  by (cases r; cases q) auto

lemma digit_loop_spec:
  assumes "list_all isdigit xs" "list_all isdigit ys" "past_number r" "past_number q"
  shows "\<exists>d'. digit_loop d (xs @ r) (ys @ q) = (d', drop (length ys) xs @ r, drop (length xs) ys @ q) \<and>
    (length xs = length ys \<longrightarrow> (if d \<noteq> 0 then d' = d else sgn d' = sgn (int (digits_value xs) - int (digits_value ys))))"
  using assms(1,2)
proof (induction xs arbitrary: ys d)
  case Nil
  then show ?case using assms(3,4) digit_loop_stop [of r "ys @ q" d] by (auto simp: digits_value_def)
next
  case (Cons x xs)
  show ?case
  proof (cases ys)
    case Nil
    then show ?thesis using assms(4) digit_loop_stop [of "(x # xs) @ r" q d] by simp
  next
    case (Cons y ys')
    let ?d = "if d = 0 then int (ord x) - int (ord y) else d"
    have dig: "isdigit x" "isdigit y" using Cons.prems Cons by auto
    from Cons.IH [of ys' ?d] Cons.prems Cons obtain d' where
      d': "digit_loop ?d (xs @ r) (ys' @ q) = (d', drop (length ys') xs @ r, drop (length xs) ys' @ q)"
        "length xs = length ys' \<longrightarrow> (if ?d \<noteq> 0 then d' = ?d else sgn d' = sgn (int (digits_value xs) - int (digits_value ys')))"
      by auto
    have "sgn d' = sgn (int (digits_value (x # xs)) - int (digits_value (y # ys')))" if "length xs = length ys'" "d = 0"
    proof -
      have b: "digits_value xs < 10 ^ length xs" "digits_value ys' < 10 ^ length xs"
        using digits_value_less [of xs] digits_value_less [of ys'] Cons.prems Cons that by auto
      let ?k = "int (ord x) - int (ord y)" and ?p = "10 ^ length xs :: int"
      have "48 \<le> ord x" "48 \<le> ord y" using dig by (auto simp: isdigit_def)
      then have "int (digits_value (x # xs)) = (int (ord x) - 48) * ?p + int (digits_value xs)"
        "int (digits_value (y # ys')) = (int (ord y) - 48) * ?p + int (digits_value ys')"
        using that by (simp_all add: digits_value_Cons of_nat_diff)
      then have eq: "int (digits_value (x # xs)) - int (digits_value (y # ys')) = ?k * ?p + (int (digits_value xs) - int (digits_value ys'))"
        by (simp add: left_diff_distrib)
      have b: "int (digits_value xs) < ?p" "int (digits_value ys') < ?p" using b by (metis of_nat_less_iff of_nat_numeral of_nat_power)+
      consider "?k = 0" | "1 \<le> ?k" | "?k \<le> -1" by linarith
      then show ?thesis
      proof cases
        case 1
        then show ?thesis using d'(2) that eq by simp
      next
        case 2
        then have "?p \<le> ?k * ?p" using mult_right_mono [of 1 ?k ?p] by simp
        then have "0 < ?k * ?p + (int (digits_value xs) - int (digits_value ys'))" using b by linarith
        moreover have "d' = ?k" using d'(2) that 2 by (auto split: if_splits)
        ultimately show ?thesis using 2 eq by simp
      next
        case 3
        then have "?k * ?p \<le> - ?p" using mult_right_mono [of ?k "-1" ?p] by simp
        then have "?k * ?p + (int (digits_value xs) - int (digits_value ys')) < 0" using b by linarith
        moreover have "d' = ?k" using d'(2) that 3 by (auto split: if_splits)
        ultimately show ?thesis using 3 eq by simp
      qed
    qed
    with d' dig show ?thesis using Cons by auto
  qed
qed

text \<open>What follows a number, and the number without its leading zeros.\<close>

lemma number_split:
  assumes "at_number v"
  shows "v = takeWhile isdigit v @ dropWhile isdigit v" "past_number (dropWhile isdigit v)"
    "dropWhile (\<lambda>c. c = CHR ''0'') v = dropWhile (\<lambda>c. c = CHR ''0'') (takeWhile isdigit v) @ dropWhile isdigit v"
    "key v = (if v = [] then [] else 0 # int (digits_value (takeWhile isdigit v)) # key (dropWhile isdigit v))"
proof -
  show "v = takeWhile isdigit v @ dropWhile isdigit v" by simp
  show p: "past_number (dropWhile isdigit v)" by (metis hd_dropWhile)
  have zero: "isdigit (CHR ''0'')" by (simp add: isdigit_def)
  have "dropWhile (\<lambda>c. c = CHR ''0'') (x @ r) = dropWhile (\<lambda>c. c = CHR ''0'') x @ r" if "past_number r" for x r
    using that zero by (induction x) (cases r; auto)+
  from this [OF p, of "takeWhile isdigit v"]
  show "dropWhile (\<lambda>c. c = CHR ''0'') v = dropWhile (\<lambda>c. c = CHR ''0'') (takeWhile isdigit v) @ dropWhile isdigit v" by simp
  show "key v = (if v = [] then [] else 0 # int (digits_value (takeWhile isdigit v)) # key (dropWhile isdigit v))"
    using assms by (cases v) auto
qed

lemma cmp0_numbers:
  assumes "at_number v" "at_number f"
  shows "cmp0 (key v) (key f) =
    (let a = int (digits_value (takeWhile isdigit v)); b = int (digits_value (takeWhile isdigit f)) in
     if a \<noteq> b then sgn (a - b) else cmp0 (key (dropWhile isdigit v)) (key (dropWhile isdigit f)))"
  using number_split(4) [OF assms(1)] number_split(4) [OF assms(2)]
  by (cases v; cases f) (auto simp: Let_def digits_value_def)

lemma past_at: "past_number s \<Longrightarrow> \<not> isdigit (at s)"
  by (cases s) auto

lemma at_drop_digit: "list_all isdigit xs \<Longrightarrow> n < length xs \<Longrightarrow> isdigit (at (drop n xs @ r))"
  by (simp add: Cons_nth_drop_Suc [symmetric] list_all_length)

lemma cmp_round_spec:
  assumes "no_NUL val" "no_NUL ref" "val \<noteq> [] \<or> ref \<noteq> []"
  shows "(\<exists>r. cmp_round val ref = Inr (Inl r) \<and> sgn r = cmp0 (key val) (key ref) \<and> r \<noteq> 0) \<or>
    (\<exists>v f. cmp_round val ref = Inr (Inr (v, f)) \<and> cmp0 (key val) (key ref) = cmp0 (key v) (key f) \<and>
       no_NUL v \<and> no_NUL f \<and> length v + length f < length val + length ref)"
proof -
  from nondigit_loop_spec [OF assms(1,2)] consider
    (diff) r where "nondigit_loop val ref = Inr (Inl r)" "sgn r = cmp0 (key val) (key ref)" "r \<noteq> 0"
  | (rest) v f where "nondigit_loop val ref = Inr (Inr (v, f))" "cmp0 (key val) (key ref) = cmp0 (key v) (key f)"
      "at_number v" "at_number f" "suffix v val" "suffix f ref" by blast
  then show ?thesis
  proof cases
    case diff
    then show ?thesis by (simp add: cmp_round_def)
  next
    case rest
    let ?z = "dropWhile (\<lambda>c. c = CHR ''0'')"
    let ?x = "takeWhile isdigit v" and ?y = "takeWhile isdigit f" and ?r = "dropWhile isdigit v" and ?q = "dropWhile isdigit f"
    note nv = number_split [OF rest(3)] and nf = number_split [OF rest(4)]
    have dig: "list_all isdigit (?z ?x)" "list_all isdigit (?z ?y)"
      by (auto simp: list_all_iff dest!: set_dropWhileD set_takeWhileD)
    from digit_loop_spec [OF dig nv(2) nf(2), of 0] obtain d where
      d: "digit_loop 0 (?z v) (?z f) = (d, drop (length (?z ?y)) (?z ?x) @ ?r, drop (length (?z ?x)) (?z ?y) @ ?q)"
        "length (?z ?x) = length (?z ?y) \<longrightarrow> sgn d = sgn (int (digits_value ?x) - int (digits_value ?y))"
      using nv(3) nf(3) by (auto simp: digits_value_zeros)
    have z: "hd (?z s) \<noteq> CHR ''0''" if "?z s \<noteq> []" for s using hd_dropWhile [OF that] by simp
    consider (longer) "length (?z ?y) < length (?z ?x)" | (shorter) "length (?z ?x) < length (?z ?y)"
      | (same) "length (?z ?x) = length (?z ?y)" by linarith
    then show ?thesis
    proof cases
      case longer
      then have "digits_value ?y < digits_value ?x"
        using digits_value_longer [OF dig longer] z [of ?x] by (simp only: digits_value_zeros) fastforce
      moreover have "isdigit (at (drop (length (?z ?y)) (?z ?x) @ ?r))" by (rule at_drop_digit [OF dig(1) longer])
      ultimately show ?thesis using rest(1,2) d(1) cmp0_numbers [OF rest(3,4)] by (simp add: cmp_round_def Let_def)
    next
      case shorter
      then have "digits_value ?x < digits_value ?y"
        using digits_value_longer [OF dig(2,1) shorter] z [of ?y] by (simp only: digits_value_zeros) fastforce
      moreover have "isdigit (at (drop (length (?z ?x)) (?z ?y) @ ?q))" by (rule at_drop_digit [OF dig(2) shorter])
      moreover have "\<not> isdigit (at (drop (length (?z ?y)) (?z ?x) @ ?r))" using shorter past_at [OF nv(2)] by simp
      ultimately show ?thesis using rest(1,2) d(1) cmp0_numbers [OF rest(3,4)] by (simp add: cmp_round_def Let_def)
    next
      case same
      have nd: "\<not> isdigit (at ?r)" "\<not> isdigit (at ?q)" using past_at [OF nv(2)] past_at [OF nf(2)] by auto
      note cn = cmp0_numbers [OF rest(3,4)]
      show ?thesis
      proof (cases "d = 0")
        case True
        then have eq: "digits_value ?x = digits_value ?y" using d(2) same by (simp add: sgn_if split: if_splits)
        have "length (dropWhile isdigit s) < length s" if "at_number s" "s \<noteq> []" for s
          using that by (cases s) (auto simp: length_dropWhile_le le_imp_less_Suc)
        then have "length v = 0 \<or> length ?r < length v" "length f = 0 \<or> length ?q < length f" using rest(3,4) by auto
        moreover have "0 < length val + length ref" using assms(3) by (cases val) auto
        ultimately have len: "length ?r + length ?q < length val + length ref"
          using suffix_length_le [OF rest(5)] suffix_length_le [OF rest(6)]
            length_dropWhile_le [of isdigit v] length_dropWhile_le [of isdigit f]
          by arith
        have nn: "no_NUL ?r" "no_NUL ?q"
          using assms(1,2) rest(5,6) by (auto dest!: set_dropWhileD simp: suffix_def)
        have "cmp_round val ref = Inr (Inr (?r, ?q))" by (simp add: cmp_round_def rest(1) d(1) same nd True)
        then show ?thesis using rest(2) cn eq nn len by (simp add: Let_def)
      next
        case False
        then have ne: "digits_value ?x \<noteq> digits_value ?y" using d(2) same by (auto simp: sgn_if split: if_splits)
        have "cmp_round val ref = Inr (Inl d)" by (simp add: cmp_round_def rest(1) d(1) same nd False)
        then show ?thesis using rest(2) cn ne d(2) same False by (simp add: Let_def)
      qed
    qed
  qed
qed

lemma verrev_loop_spec:
  "no_NUL val \<Longrightarrow> no_NUL ref \<Longrightarrow> \<exists>r. verrev_loop val ref = Inr r \<and> sgn r = cmp0 (key val) (key ref)"
proof (induction val ref rule: verrev_loop.induct)
  case (1 val ref)
  show ?case
  proof (cases "val = [] \<and> ref = []")
    case True
    then show ?thesis by (simp add: verrev_loop.simps)
  next
    case False
    then have ne: "val \<noteq> [] \<or> ref \<noteq> []" by simp
    from cmp_round_spec [OF 1(2,3) ne] consider
      (diff) r where "cmp_round val ref = Inr (Inl r)" "sgn r = cmp0 (key val) (key ref)"
    | (rest) v f where "cmp_round val ref = Inr (Inr (v, f))" "cmp0 (key val) (key ref) = cmp0 (key v) (key f)"
        "no_NUL v" "no_NUL f" "length v + length f < length val + length ref" by blast
    then show ?thesis
    proof cases
      case diff
      then show ?thesis using False by (subst verrev_loop.simps) auto
    next
      case rest
      from 1(1) [OF False rest(5,3,4)] obtain r where "verrev_loop v f = Inr r" "sgn r = cmp0 (key v) (key f)"
        by blast
      then show ?thesis using rest False by (subst verrev_loop.simps) auto
    qed
  qed
qed

definition string_of :: "string option \<Rightarrow> string" where
  "string_of s = (case s of None \<Rightarrow> [] | Some t \<Rightarrow> t)"

text \<open>
  C32: The comparison of version strings never reads past a terminator and always ends, and the sign of its result is
  the order on keys: letters before other characters, a tilde before the end, numbers by their value; a missing
  string counts as an empty one.
\<close>

theorem version_strings_compared:
  assumes "NUL \<notin> set (string_of val)" "NUL \<notin> set (string_of ref)"
  shows "\<exists>r. verrevcmp val ref = Inr r \<and> sgn r = cmp0 (key (string_of val)) (key (string_of ref))"
  using verrev_loop_spec [OF assms] by (simp add: verrevcmp_def string_of_def)

theorem version_strings_compared_witness:
  "\<exists>r. verrevcmp (Some ''1.2~rc1'') (Some ''1.2'') = Inr r \<and> r < 0"
proof -
  have "cmp0 (key ''1.2~rc1'') (key ''1.2'') = -1"
    by (simp add: isdigit_def digits_value_def order_def)
  with version_strings_compared [of "Some ''1.2~rc1''" "Some ''1.2''"] show ?thesis
    by (auto simp: string_of_def sgn_if split: if_splits)
qed

section \<open>The order of packages\<close>

definition epoch_cmp :: "version \<Rightarrow> version \<Rightarrow> int" where
  "epoch_cmp p q = int (v_epoch p) - int (v_epoch q)"

definition version_cmp :: "version \<Rightarrow> version \<Rightarrow> int" where
  "version_cmp p q = cmp0 (key (string_of (v_version p))) (key (string_of (v_version q)))"

definition revision_cmp :: "version \<Rightarrow> version \<Rightarrow> int" where
  "revision_cmp p q = cmp0 (key (string_of (v_revision p))) (key (string_of (v_revision q)))"

definition version_tail_cmp :: "version \<Rightarrow> version \<Rightarrow> int" where
  "version_tail_cmp p q = (if version_cmp p q \<noteq> 0 then version_cmp p q else revision_cmp p q)"

definition pkg_cmp :: "version \<Rightarrow> version \<Rightarrow> int" where
  "pkg_cmp p q = (if epoch_cmp p q \<noteq> 0 then epoch_cmp p q else version_tail_cmp p q)"

interpretation epochs: three_way epoch_cmp
  by unfold_locales (auto simp: epoch_cmp_def sgn_if)

interpretation versions: three_way version_cmp
  using three_way_pullback [OF keys.three_way_axioms, of "\<lambda>p. key (string_of (v_version p))"]
  by (simp add: version_cmp_def [abs_def])

interpretation revisions: three_way revision_cmp
  using three_way_pullback [OF keys.three_way_axioms, of "\<lambda>p. key (string_of (v_revision p))"]
  by (simp add: revision_cmp_def [abs_def])

interpretation version_tails: lexicographic version_cmp revision_cmp ..

interpretation tails: three_way version_tail_cmp
  using version_tails.both.three_way_axioms by (simp add: version_tail_cmp_def [abs_def])

interpretation packages_lex: lexicographic epoch_cmp version_tail_cmp ..

interpretation packages: three_way pkg_cmp
  using packages_lex.both.three_way_axioms by (simp add: pkg_cmp_def [abs_def])

text \<open>The strings of a version are C strings.\<close>

definition proper :: "version \<Rightarrow> bool" where
  "proper p \<longleftrightarrow> NUL \<notin> set (string_of (v_version p)) \<and> NUL \<notin> set (string_of (v_revision p))"

lemma verrevcmp_cmp0:
  "NUL \<notin> set (string_of a) \<Longrightarrow> NUL \<notin> set (string_of b) \<Longrightarrow>
   \<exists>r. verrevcmp a b = Inr r \<and> sgn r = cmp0 (key (string_of a)) (key (string_of b))"
  using verrev_loop_spec [of "string_of a" "string_of b"] by (simp add: verrevcmp_def string_of_def)

lemma compare_pkg_cmp:
  assumes "proper p" "proper q"
  shows "\<exists>r. pkg_compare_versions p q = Inr r \<and> sgn r = sgn (pkg_cmp p q)"
proof -
  from assms obtain r1 r2 where r: "verrevcmp (v_version p) (v_version q) = Inr r1" "sgn r1 = version_cmp p q"
    "verrevcmp (v_revision p) (v_revision q) = Inr r2" "sgn r2 = revision_cmp p q"
    using verrevcmp_cmp0 [of "v_version p" "v_version q"] verrevcmp_cmp0 [of "v_revision p" "v_revision q"]
    by (auto simp: proper_def version_cmp_def revision_cmp_def)
  have "r1 = 0 \<longleftrightarrow> version_cmp p q = 0" using r(2) by (metis sgn_0_0)
  moreover have "sgn (version_cmp p q) = sgn r1" "sgn (revision_cmp p q) = sgn r2"
    using r(2,4) by (auto simp: version_cmp_def revision_cmp_def cmp0_sgn)
  ultimately show ?thesis using r(1,3)
    by (cases "v_epoch p" "v_epoch q" rule: linorder_cases)
      (auto simp: pkg_compare_versions_def pkg_cmp_def epoch_cmp_def version_tail_cmp_def)
qed

text \<open>
  C33: The comparison of packages by epoch, version and revision is total and an order: it always returns, exchanging
  the packages turns the sign round, and what is not newer than something that is not newer than a third is not newer
  than the third.
\<close>

theorem packages_ordered:
  assumes "proper p" "proper q" "proper u"
  shows "\<exists>a b c d. pkg_compare_versions p q = Inr a \<and> pkg_compare_versions q p = Inr b \<and>
    pkg_compare_versions q u = Inr c \<and> pkg_compare_versions p u = Inr d \<and>
    sgn b = - sgn a \<and> (a \<le> 0 \<and> c \<le> 0 \<longrightarrow> d \<le> 0) \<and> (a < 0 \<and> c \<le> 0 \<or> a \<le> 0 \<and> c < 0 \<longrightarrow> d < 0)"
proof -
  obtain a b c d where r: "pkg_compare_versions p q = Inr a" "sgn a = sgn (pkg_cmp p q)"
    "pkg_compare_versions q p = Inr b" "sgn b = sgn (pkg_cmp q p)"
    "pkg_compare_versions q u = Inr c" "sgn c = sgn (pkg_cmp q u)"
    "pkg_compare_versions p u = Inr d" "sgn d = sgn (pkg_cmp p u)"
    using compare_pkg_cmp [OF assms(1,2)] compare_pkg_cmp [OF assms(2,1)] compare_pkg_cmp [OF assms(2,3)]
      compare_pkg_cmp [OF assms(1,3)] by metis
  have s: "(x \<le> 0) = (y \<le> 0) \<and> (x < 0) = (y < 0)" if "sgn x = sgn y" for x y :: int
    using that by (auto simp: sgn_if split: if_splits)
  have "sgn b = - sgn a" using r packages.anti [of q p] by simp
  moreover have "a \<le> 0 \<and> c \<le> 0 \<longrightarrow> d \<le> 0"
    using s [OF r(2)] s [OF r(6)] s [OF r(8)] packages.le_trans [of p q u] by blast
  moreover have "a < 0 \<and> c \<le> 0 \<longrightarrow> d < 0"
    using s [OF r(2)] s [OF r(6)] s [OF r(8)] packages.strict_trans [of p q u] by blast
  moreover have "a \<le> 0 \<and> c < 0 \<longrightarrow> d < 0"
    using s [OF r(2)] s [OF r(6)] s [OF r(8)] packages.strict_trans_right [of p q u] by blast
  ultimately show ?thesis using r by blast
qed

theorem packages_ordered_witness:
  "\<exists>a. pkg_compare_versions \<lparr>v_epoch = 0, v_version = Some ''1'', v_revision = None\<rparr>
     \<lparr>v_epoch = 1, v_version = Some ''0'', v_revision = None\<rparr> = Inr a \<and> a \<le> 0"
  using packages_ordered [of "\<lparr>v_epoch = 0, v_version = Some ''1'', v_revision = None\<rparr>"
     "\<lparr>v_epoch = 1, v_version = Some ''0'', v_revision = None\<rparr>" "\<lparr>v_epoch = 1, v_version = Some ''0'', v_revision = None\<rparr>"]
  by (auto simp: proper_def string_of_def pkg_compare_versions_def)

section \<open>Constraints\<close>

lemma proper_parse: "NUL \<notin> set s \<Longrightarrow> proper (fst (parse_version s))"
proof -
  assume s: "NUL \<notin> set s"
  have split: "NUL \<notin> set t \<Longrightarrow> split_last c t = (a, b) \<Longrightarrow> NUL \<notin> set a \<and> NUL \<notin> set (string_of b)" for c t a b
    by (auto simp: split_last_def string_of_def dest!: in_set_dropD set_dropWhileD set_takeWhileD split: if_splits)
  have rest: "NUL \<notin> set (drop 8 s)" "NUL \<notin> set (dropWhile P t)" "NUL \<notin> set (drop n t)" if "NUL \<notin> set t" for P t n
    using s that by (auto dest: in_set_dropD set_dropWhileD)
  show ?thesis using s rest
    by (auto simp: parse_version_def Let_def proper_def string_of_def split: prod.splits dest!: split [rotated])
qed

text \<open>
  C38: What a version constraint of a dependency admits: everything without a constraint, and otherwise the versions on
  the stated side and the stated version itself. The last holds for the strict constraints too, so that \<open><<\<close> and
  \<open>>>\<close> are satisfied by an equal version, although the comparison of two packages with the same operators
  rejects it.
\<close>

theorem strict_constraint_admits_equal:
  assumes "proper p" "NUL \<notin> set ver"
  shows "\<exists>r. pkg_compare_versions p (fst (parse_version ver)) = Inr r \<and>
    version_constraints_satisfied c ver p =
      Inr (c = NONE \<or> r = 0 \<or> c \<in> {EARLIER, EARLIER_EQUAL} \<and> r < 0 \<or> c \<in> {LATER, LATER_EQUAL} \<and> r > 0) \<and>
    (r = 0 \<longrightarrow> version_constraints_satisfied EARLIER ver p = Inr True \<and> version_constraints_satisfied LATER ver p = Inr True \<and>
       pkg_version_satisfied p (fst (parse_version ver)) ''<<'' = Inr (False, False) \<and>
       pkg_version_satisfied p (fst (parse_version ver)) ''>>'' = Inr (False, False))"
proof -
  obtain r where "pkg_compare_versions p (fst (parse_version ver)) = Inr r"
    using compare_pkg_cmp [OF assms(1) proper_parse [OF assms(2)]] by blast
  then show ?thesis
    by (cases c) (auto simp: version_constraints_satisfied_def pkg_version_satisfied_def)
qed

theorem strict_constraint_admits_equal_witness:
  "\<exists>r. pkg_compare_versions \<lparr>v_epoch = 0, v_version = Some ''2'', v_revision = None\<rparr> (fst (parse_version ''2'')) = Inr r \<and>
     (r = 0 \<longrightarrow> version_constraints_satisfied EARLIER ''2'' \<lparr>v_epoch = 0, v_version = Some ''2'', v_revision = None\<rparr> = Inr True)"
  using strict_constraint_admits_equal [of "\<lparr>v_epoch = 0, v_version = Some ''2'', v_revision = None\<rparr>" "''2''" EARLIER]
  by (auto simp: proper_def string_of_def)

section \<open>Printing and parsing\<close>

lemma split_last_found: "c \<notin> set r \<Longrightarrow> split_last c (s @ c # r) = (s, Some r)"
  by (simp add: split_last_def takeWhile_append takeWhile_eq_all_conv dropWhile_append)

lemma split_last_none: "c \<notin> set s \<Longrightarrow> split_last c s = (s, None)"
  by (simp add: split_last_def)

lemma dec_head: "dec n = c # s \<Longrightarrow> isdigit c"
  using dec_digits [of n] by simp

lemma strtoul10_dec:
  assumes "n < 4294967296"
  shows "strtoul10 (dec n @ CHR '':'' # r) = (n, False)"
proof -
  obtain c s where d: "dec n = c # s" using dec_digits [of n] by (cases "dec n") auto
  note c = dec_head [OF d]
  have t: "takeWhile isdigit (dec n @ CHR '':'' # r) = dec n"
    using dec_digits [of n] by (simp add: takeWhile_append takeWhile_eq_all_conv list_all_iff isdigit_def)
  have "\<not> isspace c" "c \<noteq> CHR ''-''" "c \<noteq> CHR ''+''" using not_digit_space [OF c] by auto
  then have "dropWhile isspace (dec n @ CHR '':'' # r) = dec n @ CHR '':'' # r" "at (dec n @ CHR '':'' # r) = c"
    using d by auto
  then show ?thesis
    using t assms \<open>c \<noteq> CHR ''-''\<close> \<open>c \<noteq> CHR ''+''\<close> by (simp add: strtoul10_def Let_def digits_value_dec)
qed

lemma colon_dec: "CHR '':'' \<notin> set (dec n)"
  using dec_digits [of n] by (auto simp: list_all_iff isdigit_def)

text \<open>The versions that the textual form can express.\<close>

definition printable :: "version \<Rightarrow> bool" where
  "printable p \<longleftrightarrow> v_epoch p < 2147483648 \<and> (\<exists>s. v_version p = Some s \<and>
     (case v_revision p of None \<Rightarrow> CHR ''-'' \<notin> set s | Some r \<Rightarrow> CHR ''-'' \<notin> set r) \<and>
     (v_epoch p = 0 \<longrightarrow> CHR '':'' \<notin> set s \<and> CHR '':'' \<notin> set (string_of (v_revision p)) \<and> (s = [] \<or> \<not> isspace (hd s))))"

text \<open>
  A version that is printed and parsed again is the same version.
\<close>

theorem version_roundtrip:
  assumes "printable p"
  shows "map_option parse_version (pkg_version_str_alloc p) = Some (p, False)"
proof -
  obtain s where s: "v_version p = Some s" "v_epoch p < 2147483648"
    "case v_revision p of None \<Rightarrow> CHR ''-'' \<notin> set s | Some r \<Rightarrow> CHR ''-'' \<notin> set r"
    "v_epoch p = 0 \<longrightarrow> CHR '':'' \<notin> set s \<and> CHR '':'' \<notin> set (string_of (v_revision p)) \<and> (s = [] \<or> \<not> isspace (hd s))"
    using assms by (auto simp: printable_def)
  define body where "body = (case v_revision p of None \<Rightarrow> s | Some r \<Rightarrow> s @ CHR ''-'' # r)"
  have sp: "split_last CHR ''-'' body = (s, v_revision p)"
    using s(3) by (auto simp: body_def split_last_found split_last_none split: option.splits)
  show ?thesis
  proof (cases "v_epoch p = 0")
    case True
    then have str: "pkg_version_str_alloc p = Some body"
      using s(1) by (simp add: pkg_version_str_alloc_def body_def split: option.splits)
    have nc: "CHR '':'' \<notin> set body" using True s(4) by (auto simp: body_def string_of_def split: option.splits)
    then have "take 8 body \<noteq> ''Version:''" by (metis in_set_takeD list.set_intros(1) list.set_intros(2))
    moreover have "dropWhile isspace body = body"
      using True s(4) by (cases s) (auto simp: body_def isspace_def split: option.splits)
    ultimately show ?thesis using str nc sp True s(1) by (cases p) (simp add: parse_version_def Let_def)
  next
    case False
    then have str: "pkg_version_str_alloc p = Some (dec (v_epoch p) @ CHR '':'' # body)"
      using s(1,2) by (simp add: pkg_version_str_alloc_def body_def dec_signed_def split: option.splits)
    obtain c r where d: "dec (v_epoch p) = c # r" using dec_digits [of "v_epoch p"] by (cases "dec (v_epoch p)") auto
    note c = dec_head [OF d]
    have "take 8 (dec (v_epoch p) @ CHR '':'' # body) \<noteq> ''Version:''" using d c by (auto simp: isdigit_def)
    moreover have "dropWhile isspace (dec (v_epoch p) @ CHR '':'' # body) = dec (v_epoch p) @ CHR '':'' # body"
      using d not_digit_space [OF c] by simp
    moreover have "drop 1 (dropWhile (\<lambda>c. c \<noteq> CHR '':'') (dec (v_epoch p) @ CHR '':'' # body)) = body"
      using colon_dec [of "v_epoch p"] by (simp add: dropWhile_append)
    ultimately show ?thesis using str sp s(1,2) strtoul10_dec [of "v_epoch p" body]
      by (cases p) (simp add: parse_version_def Let_def)
  qed
qed

theorem version_roundtrip_witness:
  "map_option parse_version (pkg_version_str_alloc \<lparr>v_epoch = 2, v_version = Some ''1.0-rc'', v_revision = Some ''r3''\<rparr>) =
     Some (\<lparr>v_epoch = 2, v_version = Some ''1.0-rc'', v_revision = Some ''r3''\<rparr>, False)"
  using version_roundtrip [of "\<lparr>v_epoch = 2, v_version = Some ''1.0-rc'', v_revision = Some ''r3''\<rparr>"]
  by (simp add: printable_def)

end
