(* ===== verification/Opkg_Depends.thy ===== *)
theory Opkg_Depends
  imports Opkg_Version
begin

text \<open>
  Dependencies of packages in opkg, \<^verbatim>\<open>apps/opkg/libopkg/pkg_depends.c\<close>: their textual form, what it is parsed to, and
  how it is printed into the status file.

  An abstract package is identified by its name: \<open>ensure_abstract_pkg_by_name\<close> keeps exactly one for every name.
\<close>

section \<open>Data\<close>

datatype depend_type = PREDEPEND | DEPEND | CONFLICTS | GREEDY_DEPEND | RECOMMEND | SUGGEST

record depend =
  d_constraint :: version_constraint
  d_version :: "string option"
  d_pkg :: string

record compound_depend =
  cd_type :: depend_type
  possibilities :: "depend list"

section \<open>Parsing\<close>

text \<open>\<open>buffer\<close> has 2048 bytes, the terminator included.\<close>

definition into_buffer :: "string \<Rightarrow> string res" where
  "into_buffer s = (if length s \<ge> 2048 then Inl Overrun else Inr s)"

definition trim_xstrdup :: "string \<Rightarrow> string" where
  "trim_xstrdup s = rev (dropWhile isspace (rev (dropWhile isspace s)))"

definition name_char :: "char \<Rightarrow> bool" where
  "name_char c \<longleftrightarrow> \<not> isspace c \<and> c \<noteq> CHR ''('' \<and> c \<noteq> CHR ''*'' \<and> c \<noteq> CHR ''|''"

text \<open>The operator after the parenthesis, and the rest.\<close>

definition parse_constraint :: "string \<Rightarrow> version_constraint \<times> string" where
  "parse_constraint src =
     (if take 2 src = ''<<'' then (EARLIER, drop 2 src)
      else if take 2 src = ''<='' then (EARLIER_EQUAL, drop 2 src)
      else if take 2 src = ''>='' then (LATER_EQUAL, drop 2 src)
      else if take 2 src = ''>>'' then (LATER, drop 2 src)
      else if take 1 src = ''='' then (EQUAL, drop 1 src)
      else if take 1 src = ''<'' then (EARLIER_EQUAL, drop 1 src)
      else if take 1 src = ''>'' then (LATER_EQUAL, drop 1 src)
      else (NONE, src))"

text \<open>One round of the loop in \<open>parseDepends\<close>: the possibility, whether a star was seen, and the rest.\<close>

definition parse_possibility :: "string \<Rightarrow> (depend \<times> bool \<times> string) res" where
  "parse_possibility src =
     rbind (into_buffer (takeWhile name_char src)) (\<lambda>buf.
       let pkg_name = trim_xstrdup buf;
           src2 = dropWhile isspace (dropWhile name_char src)
       in rbind (if at src2 = CHR ''(''
                 then case parse_constraint (drop 1 src2) of (c, src3) \<Rightarrow>
                        let src4 = dropWhile isspace src3 in
                        rbind (into_buffer (takeWhile (\<lambda>c. c \<noteq> CHR '')'') src4)) (\<lambda>v.
                          Inr (\<lparr>d_constraint = c, d_version = Some (trim_xstrdup v), d_pkg = pkg_name\<rparr>,
                               dropWhile (\<lambda>c. c \<noteq> CHR '')'') src4))
                 else Inr (\<lparr>d_constraint = NONE, d_version = None, d_pkg = pkg_name\<rparr>, src2)) (\<lambda>(d, src5).
          let src6 = dropWhile (\<lambda>c. isspace c \<or> c = CHR '')'' \<or> c = CHR ''|'') src5
          in if at src6 = CHR ''*'' then Inr (d, True, drop 1 src6) else Inr (d, False, src6)))"

fun parse_loop :: "nat \<Rightarrow> depend_type \<Rightarrow> string \<Rightarrow> compound_depend res" where
  "parse_loop 0 t src = Inr \<lparr>cd_type = t, possibilities = []\<rparr>"
| "parse_loop (Suc n) t src = rbind (parse_possibility src) (\<lambda>(d, star, rest).
     rbind (parse_loop n (if star then GREEDY_DEPEND else t) rest) (\<lambda>cd.
       Inr (cd\<lparr>possibilities := d # possibilities cd\<rparr>)))"

definition parseDepends :: "string \<Rightarrow> compound_depend res" where
  "parseDepends depend_str = parse_loop (length (filter (\<lambda>c. c = CHR ''|'') depend_str) + 1) DEPEND depend_str"

section \<open>Printing\<close>

fun constraint_to_str :: "version_constraint \<Rightarrow> string" where
  "constraint_to_str NONE = ''''"
| "constraint_to_str EARLIER = ''< ''"
| "constraint_to_str EARLIER_EQUAL = ''<= ''"
| "constraint_to_str EQUAL = ''= ''"
| "constraint_to_str LATER_EQUAL = ''>= ''"
| "constraint_to_str LATER = ''> ''"

definition depend_len :: "depend \<Rightarrow> nat" where
  "depend_len dep = length (d_pkg dep) + (case d_version dep of None \<Rightarrow> 0 | Some v \<Rightarrow> 2 + 3 + length v + 1)"

definition depend_text :: "depend \<Rightarrow> string" where
  "depend_text dep = d_pkg dep @ (case d_version dep of
     None \<Rightarrow> [] | Some v \<Rightarrow> '' ('' @ constraint_to_str (d_constraint dep) @ v @ '')'')"

text \<open>The two loops of \<open>pkg_depend_str\<close>: the size of the allocated string, and the text put into it.\<close>

fun poss_len :: "depend list \<Rightarrow> nat" where
  "poss_len [] = 0"
| "poss_len [d] = depend_len d"
| "poss_len (d # ds) = depend_len d + 3 + poss_len ds"

fun poss_text :: "depend list \<Rightarrow> string" where
  "poss_text [] = []"
| "poss_text [d] = depend_text d"
| "poss_text (d # ds) = depend_text d @ '' | '' @ poss_text ds"

definition pkg_depend_str :: "compound_depend \<Rightarrow> string res" where
  "pkg_depend_str cdep =
     (if length (poss_text (possibilities cdep)) > poss_len (possibilities cdep) then Inl Overrun
      else Inr (poss_text (possibilities cdep)))"

section \<open>What survives printing and parsing\<close>

text \<open>Dependencies as they are written in package lists.\<close>

definition dep_name_ok :: "string \<Rightarrow> bool" where
  "dep_name_ok n \<longleftrightarrow> n \<noteq> [] \<and> length n < 2048 \<and> (\<forall>c \<in> set n. name_char c \<and> c \<noteq> CHR '')'')"

definition version_ok :: "string \<Rightarrow> bool" where
  "version_ok v \<longleftrightarrow> v \<noteq> [] \<and> length v < 2048 \<and> (\<forall>c \<in> set v. \<not> isspace c \<and> c \<noteq> CHR '')'' \<and> c \<noteq> CHR ''|'')"

definition depend_ok :: "depend \<Rightarrow> bool" where
  "depend_ok d \<longleftrightarrow> dep_name_ok (d_pkg d) \<and>
     (case d_version d of None \<Rightarrow> d_constraint d = NONE | Some v \<Rightarrow> version_ok v \<and> d_constraint d \<noteq> NONE)"

text \<open>The strict constraints are printed with the operators that stand for the others.\<close>

definition weaken :: "depend \<Rightarrow> depend" where
  "weaken d = d\<lparr>d_constraint := (case d_constraint d of EARLIER \<Rightarrow> EARLIER_EQUAL | LATER \<Rightarrow> LATER_EQUAL | c \<Rightarrow> c)\<rparr>"

lemma length_constraint: "length (constraint_to_str c) \<le> 3"
  by (cases c) simp_all

lemma poss_text_fits: "length (poss_text ds) \<le> poss_len ds"
proof (induction ds rule: poss_text.induct)
  case (2 d)
  then show ?case using length_constraint [of "d_constraint d"]
    by (simp add: depend_text_def depend_len_def split: option.splits)
next
  case (3 d e ds)
  then show ?case using length_constraint [of "d_constraint d"]
    by (simp add: depend_text_def depend_len_def split: option.splits)
qed simp

lemma dropWhile_stop: "xs = [] \<or> \<not> P (hd xs) \<Longrightarrow> dropWhile P xs = xs"
  by (cases xs) auto

lemma trim_no_space: "\<forall>c \<in> set s. \<not> isspace c \<Longrightarrow> trim_xstrdup s = s"
proof -
  assume a: "\<forall>c \<in> set s. \<not> isspace c"
  have d: "dropWhile isspace t = t" if "\<forall>c \<in> set t. \<not> isspace c" for t
    using that by (intro dropWhile_stop) (cases t; auto)
  show ?thesis using a d [of s] d [of "rev s"] by (simp add: trim_xstrdup_def)
qed

lemma take_drop_while:
  assumes "\<forall>c \<in> set s. P c" "r = [] \<or> \<not> P (hd r)"
  shows "takeWhile P (s @ r) = s" "dropWhile P (s @ r) = r"
  using assms by (cases r; force simp: takeWhile_append dropWhile_append)+

lemma isspace_special [simp]:
  "isspace CHR '' ''" "\<not> isspace CHR ''(''" "\<not> isspace CHR '')''" "\<not> isspace CHR ''|''" "\<not> isspace CHR ''*''"
  by (simp_all add: isspace_def)

text \<open>What may follow a possibility: nothing, or a bar and the next one.\<close>

definition follows :: "string \<Rightarrow> string \<Rightarrow> bool" where
  "follows r n \<longleftrightarrow> r = [] \<and> n = [] \<or> r = '' | '' @ n \<and> n \<noteq> [] \<and> name_char (hd n) \<and> hd n \<noteq> CHR '')''"

lemma follows_rest:
  "follows r n \<Longrightarrow> dropWhile (\<lambda>c. isspace c \<or> c = CHR '')'' \<or> c = CHR ''|'') r = n \<and> at n \<noteq> CHR ''*''"
  by (cases n) (auto simp: follows_def name_char_def)

lemma follows_skip:
  "follows r n \<Longrightarrow> at (dropWhile isspace r) \<noteq> CHR ''('' \<and>
     dropWhile (\<lambda>c. isspace c \<or> c = CHR '')'' \<or> c = CHR ''|'') (dropWhile isspace r) = n"
  by (cases n) (auto simp: follows_def name_char_def)

lemma parse_constraint_printed:
  "c \<noteq> NONE \<Longrightarrow> parse_constraint (constraint_to_str c @ r) =
     (case c of EARLIER \<Rightarrow> EARLIER_EQUAL | LATER \<Rightarrow> LATER_EQUAL | c \<Rightarrow> c, '' '' @ r)"
  by (cases c) (simp_all add: parse_constraint_def)

lemma parse_possibility_printed:
  assumes "depend_ok d" "follows r n"
  shows "parse_possibility (depend_text d @ r) = Inr (weaken d, False, n)"
proof -
  have nm: "dep_name_ok (d_pkg d)" using assms(1) by (simp add: depend_ok_def)
  then have ns: "\<forall>c \<in> set (d_pkg d). name_char c" "\<forall>c \<in> set (d_pkg d). \<not> isspace c" "length (d_pkg d) < 2048"
    by (auto simp: dep_name_ok_def name_char_def)
  note fr = follows_rest [OF assms(2)]
  show ?thesis
  proof (cases "d_version d")
    case None
    have r: "r = [] \<or> \<not> name_char (hd r)" using assms(2) by (auto simp: follows_def name_char_def)
    note td = take_drop_while [OF ns(1) r]
    note sp = follows_skip [OF assms(2)]
    have "d_constraint d = NONE" using assms(1) None by (simp add: depend_ok_def)
    then show ?thesis using None td sp fr ns trim_no_space [OF ns(2)]
      by (cases d) (simp add: depend_text_def parse_possibility_def into_buffer_def weaken_def)
  next
    case (Some v)
    let ?t = "'' ('' @ constraint_to_str (d_constraint d) @ v @ '')'' @ r"
    have vo: "version_ok v" "d_constraint d \<noteq> NONE" using assms(1) Some by (auto simp: depend_ok_def)
    then have vs: "\<forall>c \<in> set v. \<not> isspace c" "\<forall>c \<in> set v. c \<noteq> CHR '')''" "length v < 2048" "v \<noteq> []" by (auto simp: version_ok_def)
    have "\<not> name_char (hd ?t)" by (simp add: name_char_def)
    note td = take_drop_while [OF ns(1), of ?t]
    have vd: "takeWhile (\<lambda>c. c \<noteq> CHR '')'') (v @ '')'' @ r) = v" "dropWhile (\<lambda>c. c \<noteq> CHR '')'') (v @ '')'' @ r) = '')'' @ r"
      using take_drop_while [OF vs(2), of "'')'' @ r"] by simp_all
    have v0: "dropWhile isspace (v @ '')'' @ r) = v @ '')'' @ r" using vs(1,4) by (cases v) auto
    have nc: "\<not> name_char CHR '' ''" by (simp add: name_char_def)
    show ?thesis using Some td vd v0 nc fr ns vs(3) trim_no_space [OF ns(2)] trim_no_space [OF vs(1)]
        parse_constraint_printed [OF vo(2), of "v @ '')'' @ r"]
      by (cases d) (simp add: depend_text_def parse_possibility_def into_buffer_def weaken_def Let_def)
  qed
qed

lemma poss_text_head:
  assumes "depend_ok d"
  shows "poss_text (d # ds) \<noteq> [] \<and> name_char (hd (poss_text (d # ds))) \<and> hd (poss_text (d # ds)) \<noteq> CHR '')''"
proof -
  obtain c n where "d_pkg d = c # n" "name_char c" "c \<noteq> CHR '')''"
    using assms by (cases "d_pkg d") (auto simp: depend_ok_def dep_name_ok_def)
  then show ?thesis by (cases ds) (simp_all add: depend_text_def)
qed

lemma parse_loop_printed:
  "ds \<noteq> [] \<Longrightarrow> \<forall>d \<in> set ds. depend_ok d \<Longrightarrow>
   parse_loop (length ds) t (poss_text ds) = Inr \<lparr>cd_type = t, possibilities = map weaken ds\<rparr>"
proof (induction ds rule: poss_text.induct)
  case (2 d)
  have "follows [] []" by (simp add: follows_def)
  from parse_possibility_printed [OF _ this, of d] 2 show ?case by simp
next
  case (3 d e ds)
  have "follows ('' | '' @ poss_text (e # ds)) (poss_text (e # ds))"
    using poss_text_head [of e ds] 3(3) by (simp add: follows_def)
  from parse_possibility_printed [OF _ this, of d] 3 show ?case by simp
qed simp

lemma no_bar: "depend_ok d \<Longrightarrow> filter (\<lambda>c. c = CHR ''|'') (depend_text d) = []"
  by (cases "d_constraint d")
    (auto simp: depend_ok_def dep_name_ok_def version_ok_def name_char_def depend_text_def filter_empty_conv split: option.splits)

lemma count_bars:
  "ds \<noteq> [] \<Longrightarrow> \<forall>d \<in> set ds. depend_ok d \<Longrightarrow> length (filter (\<lambda>c. c = CHR ''|'') (poss_text ds)) + 1 = length ds"
  by (induction ds rule: poss_text.induct) (auto simp: no_bar)

text \<open>
  A dependency that is printed, as it is into the status file, fits the allocated string, and parsed again it has
  the same packages, versions and order of alternatives; but the strict constraints \<open><<\<close> and \<open>>>\<close> come
  back as the constraints that admit the version itself.
\<close>

theorem depends_printed_weakened:
  assumes "possibilities cd \<noteq> []" "\<forall>d \<in> set (possibilities cd). depend_ok d"
  shows "\<exists>s. pkg_depend_str cd = Inr s \<and>
    parseDepends s = Inr \<lparr>cd_type = DEPEND, possibilities = map weaken (possibilities cd)\<rparr>"
proof -
  have "parseDepends (poss_text (possibilities cd)) = Inr \<lparr>cd_type = DEPEND, possibilities = map weaken (possibilities cd)\<rparr>"
    unfolding parseDepends_def count_bars [OF assms] by (rule parse_loop_printed [OF assms])
  then show ?thesis using poss_text_fits [of "possibilities cd"] by (simp add: pkg_depend_str_def)
qed

theorem depends_printed_weakened_witness:
  "\<exists>s. pkg_depend_str \<lparr>cd_type = DEPEND, possibilities = [\<lparr>d_constraint = EARLIER, d_version = Some ''2'', d_pkg = ''libc''\<rparr>,
       \<lparr>d_constraint = NONE, d_version = None, d_pkg = ''uclibc''\<rparr>]\<rparr> = Inr s \<and>
     parseDepends s = Inr \<lparr>cd_type = DEPEND, possibilities = [\<lparr>d_constraint = EARLIER_EQUAL, d_version = Some ''2'', d_pkg = ''libc''\<rparr>,
       \<lparr>d_constraint = NONE, d_version = None, d_pkg = ''uclibc''\<rparr>]\<rparr>"
  using depends_printed_weakened [of "\<lparr>cd_type = DEPEND, possibilities = [\<lparr>d_constraint = EARLIER, d_version = Some ''2'', d_pkg = ''libc''\<rparr>,
       \<lparr>d_constraint = NONE, d_version = None, d_pkg = ''uclibc''\<rparr>]\<rparr>"]
  by (simp add: depend_ok_def dep_name_ok_def version_ok_def name_char_def isspace_def weaken_def)

end
