(* ===== verification/Opkg_Resolve.thy ===== *)
theory Opkg_Resolve
  imports Opkg_Depends "HOL-Library.Multiset"
begin

text \<open>
  How opkg finds the packages that a package needs: the choice of a candidate in \<^verbatim>\<open>apps/opkg/libopkg/pkg_hash.c\<close> and
  the recursive search for unsatisfied dependencies and for conflicts in \<^verbatim>\<open>pkg_depends.c\<close>.

  The search reads the package database and changes only the marks \<open>dependencies_checked\<close> of abstract packages
  and the vector of packages to install, so the database is a constant of the model. A package is an address, an
  abstract package its name. Every package in a vector has a parent, as \<open>Opkg_Build\<close> shows for the databases that can be
  loaded, and the version strings are C strings; the comparison and the test of a constraint then always return (see
  \<open>packages_ordered\<close>), and their results are used directly. The C library's \<open>qsort\<close> is a parameter.
\<close>

section \<open>The database\<close>

datatype state_want = SW_UNKNOWN | SW_INSTALL | SW_DEINSTALL | SW_PURGE

datatype state_status = SS_NOT_INSTALLED | SS_UNPACKED | SS_HALF_CONFIGURED | SS_INSTALLED | SS_HALF_INSTALLED
  | SS_CONFIG_FILES | SS_POST_INST_FAILED | SS_REMOVAL_FAILED

record pkg =
  p_name :: string
  p_version :: version
  p_arch :: string
  p_want :: state_want
  p_status :: state_status
  p_flag :: nat
  p_depends :: "compound_depend list"
  p_conflicts :: "compound_depend list"
  p_replaces :: "string list"
  p_provides :: "string list"
  p_provides_count :: nat
  p_parent :: "string option"
  p_prio :: int
  p_by_hand :: bool
  p_auto :: bool
  p_src :: nat
  p_dest :: nat
  p_essential :: bool

record abstract_pkg =
  a_pkgs :: "nat list option"
  a_status :: state_status
  a_provided_by :: "string list"
  a_replaced_by :: "string list"
  a_depended_by :: "string list"

record pkg_db =
  pkg_at :: "nat \<Rightarrow> pkg"
  apkg_at :: "string \<Rightarrow> abstract_pkg"

definition compare_result :: "int res \<Rightarrow> int" where
  "compare_result r = (case r of Inr x \<Rightarrow> x | Inl _ \<Rightarrow> 0)"

definition satisfies :: "pkg_db \<Rightarrow> depend \<Rightarrow> nat \<Rightarrow> bool" where
  "satisfies db d q \<longleftrightarrow>
     version_constraints_satisfied (d_constraint d) (string_of (d_version d)) (p_version (pkg_at db q)) = Inr True"

definition is_installed :: "state_status \<Rightarrow> bool" where
  "is_installed st \<longleftrightarrow> st = SS_INSTALLED \<or> st = SS_UNPACKED"

definition pkg_installed_and_constraint_satisfied :: "pkg_db \<Rightarrow> depend \<Rightarrow> nat \<Rightarrow> bool" where
  "pkg_installed_and_constraint_satisfied db d q \<longleftrightarrow> is_installed (p_status (pkg_at db q)) \<and> satisfies db d q"

definition pkg_constraint_satisfied :: "pkg_db \<Rightarrow> depend \<Rightarrow> nat \<Rightarrow> bool" where
  "pkg_constraint_satisfied db d q \<longleftrightarrow> satisfies db d q"

section \<open>Comparing packages\<close>

fun strcmp :: "string \<Rightarrow> string \<Rightarrow> int" where
  "strcmp [] [] = 0"
| "strcmp [] (d # t) = - 1"
| "strcmp (c # s) [] = 1"
| "strcmp (c # s) (d # t) = (if c = d then strcmp s t else int (ord c) - int (ord d))"

definition pkg_name_version_and_architecture_compare :: "pkg_db \<Rightarrow> nat \<Rightarrow> nat \<Rightarrow> int" where
  "pkg_name_version_and_architecture_compare db a b =
     (let pa = pkg_at db a; pb = pkg_at db b;
          namecmp = strcmp (p_name pa) (p_name pb);
          vercmp = compare_result (pkg_compare_versions (p_version pa) (p_version pb))
      in if namecmp \<noteq> 0 then namecmp
         else if vercmp \<noteq> 0 then vercmp
         else if p_prio pa = 0 \<or> p_prio pb = 0 then 0
         else if p_prio pa > p_prio pb then 1
         else if p_prio pa < p_prio pb then -1
         else 0)"

text \<open>Both structures begin with their name.\<close>

definition abstract_pkg_name_compare :: "pkg_db \<Rightarrow> nat \<Rightarrow> nat \<Rightarrow> int" where
  "abstract_pkg_name_compare db a b = strcmp (p_name (pkg_at db a)) (p_name (pkg_at db b))"

definition is_pkg_in_pkg_vec :: "pkg_db \<Rightarrow> nat list \<Rightarrow> nat \<Rightarrow> bool" where
  "is_pkg_in_pkg_vec db vec q \<longleftrightarrow> (\<exists>u \<in> set vec. p_name (pkg_at db q) = p_name (pkg_at db u) \<and>
     pkg_compare_versions (p_version (pkg_at db q)) (p_version (pkg_at db u)) = Inr 0 \<and>
     p_arch (pkg_at db q) = p_arch (pkg_at db u))"

section \<open>The best candidate\<close>

text \<open>The abstract package whose packages stand for a provider: its first replacer, unless that is a provider itself.\<close>

definition stands_for :: "pkg_db \<Rightarrow> string list \<Rightarrow> string \<Rightarrow> string option" where
  "stands_for db providers a = (case a_replaced_by (apkg_at db a) of
     [] \<Rightarrow> Some a
   | r # _ \<Rightarrow> if r = a then Some a else if r \<in> set providers then None else Some r)"

definition provider_pkgs :: "pkg_db \<Rightarrow> string list \<Rightarrow> string \<Rightarrow> nat list" where
  "provider_pkgs db providers a = (case stands_for db providers a of
     None \<Rightarrow> []
   | Some b \<Rightarrow> (case a_pkgs (apkg_at db b) of None \<Rightarrow> [] | Some vec \<Rightarrow> vec))"

text \<open>Packages with a supported architecture, each once.\<close>

definition add_matching :: "pkg_db \<Rightarrow> nat \<Rightarrow> nat list \<Rightarrow> nat list" where
  "add_matching db q ms = (if p_prio (pkg_at db q) > 0 \<and> q \<notin> set ms then ms @ [q] else ms)"

definition matching_pkgs :: "pkg_db \<Rightarrow> string \<Rightarrow> nat list" where
  "matching_pkgs db apkg =
     (let providers = a_provided_by (apkg_at db apkg)
      in fold (add_matching db) (concat (map (provider_pkgs db providers) providers)) [])"

text \<open>The last package that meets the constraint, or the first of those provided by hand.\<close>

fun good_by_name :: "pkg_db \<Rightarrow> (nat \<Rightarrow> bool) \<Rightarrow> nat option \<Rightarrow> nat list \<Rightarrow> nat option" where
  "good_by_name db cf good [] = good"
| "good_by_name db cf good (q # qs) =
     (if cf q then if p_by_hand (pkg_at db q) then Some q else good_by_name db cf (Some q) qs
      else good_by_name db cf good qs)"

definition last_such :: "(nat \<Rightarrow> bool) \<Rightarrow> nat list \<Rightarrow> nat option" where
  "last_such P qs = (case filter P qs of [] \<Rightarrow> None | xs \<Rightarrow> Some (last xs))"

definition parent_installed :: "pkg_db \<Rightarrow> nat \<Rightarrow> bool" where
  "parent_installed db q \<longleftrightarrow>
     (case p_parent (pkg_at db q) of None \<Rightarrow> False | Some a \<Rightarrow> is_installed (a_status (apkg_at db a)))"

definition held :: "pkg_db \<Rightarrow> nat \<Rightarrow> bool" where
  "held db q \<longleftrightarrow> and (p_flag (pkg_at db q)) 18 \<noteq> 0"

fun priorized :: "pkg_db \<Rightarrow> int \<Rightarrow> nat option \<Rightarrow> nat list \<Rightarrow> nat option" where
  "priorized db prio best [] = best"
| "priorized db prio best (q # qs) =
     (if p_prio (pkg_at db q) > prio then priorized db (p_prio (pkg_at db q)) (Some q) qs else priorized db prio best qs)"

type_synonym qsort = "(nat \<Rightarrow> nat \<Rightarrow> int) \<Rightarrow> nat list \<Rightarrow> nat list"

text \<open>The second sort is meant for the abstract packages, but sorts the packages again.\<close>

definition pkg_hash_fetch_best_installation_candidate ::
  "qsort \<Rightarrow> pkg_db \<Rightarrow> string \<Rightarrow> (nat \<Rightarrow> bool) \<Rightarrow> bool \<Rightarrow> nat option" where
  "pkg_hash_fetch_best_installation_candidate qs db apkg cf quiet =
     (let m0 = matching_pkgs db apkg in
      if m0 = [] then None
      else
        let m1 = (if length m0 > 1 then qs (pkg_name_version_and_architecture_compare db) m0 else m0);
            m = (if length m0 > 1 then qs (abstract_pkg_name_compare db) m1 else m1);
            good = good_by_name db cf None m;
            hold = last_such (held db) m;
            latest_installed = last_such (parent_installed db) m;
            prio = (if good = None \<and> hold = None \<and> latest_installed = None \<and> length m0 > 1 \<and> \<not> quiet
                    then priorized db 0 None m else None)
        in if good \<noteq> None then good
           else if hold \<noteq> None then hold
           else if latest_installed \<noteq> None then latest_installed
           else if prio \<noteq> None then prio
           else if length m0 > 1 then None
           else Some (last m))"

section \<open>Unsatisfied dependencies\<close>

text \<open>
  The marks and the vector that the search changes; \<open>looked\<close> records, for the theorems only, the packages
  whose dependencies have been gone through.
\<close>

record search =
  marks :: "string set"
  unsatisfied :: "nat list"
  looked :: "nat list"

type_synonym fetcher = "nat \<Rightarrow> search \<Rightarrow> (nat \<times> string list \<times> search) option"

text \<open>A dependency that pulls in everything it can: every package of every provider that is not installed is tried.\<close>

definition greedy_scouts :: "pkg_db \<Rightarrow> compound_depend \<Rightarrow> nat list" where
  "greedy_scouts db cd = concat (map (\<lambda>d. concat (map
     (\<lambda>a. case a_pkgs (apkg_at db a) of None \<Rightarrow> [] | Some v \<Rightarrow> v) (a_provided_by (apkg_at db (d_pkg d))))) (possibilities cd))"

definition unmarked :: "pkg_db \<Rightarrow> search \<Rightarrow> nat \<Rightarrow> bool" where
  "unmarked db s q \<longleftrightarrow> (case p_parent (pkg_at db q) of None \<Rightarrow> False | Some a \<Rightarrow> a \<notin> marks s)"

fun greedy_loop :: "fetcher \<Rightarrow> pkg_db \<Rightarrow> nat list \<Rightarrow> search \<Rightarrow> search option" where
  "greedy_loop rec db [] s = Some s"
| "greedy_loop rec db (q # qs) s =
     (if p_want (pkg_at db q) \<noteq> SW_INSTALL \<and> unmarked db s q \<and> \<not> is_pkg_in_pkg_vec db (unsatisfied s) q
      then case rec q (s\<lparr>unsatisfied := []\<rparr>) of
             None \<Rightarrow> None
           | Some (rc, newstuff, t) \<Rightarrow>
               greedy_loop rec db qs (t\<lparr>unsatisfied :=
                 (if newstuff = [] \<and> (\<forall>p \<in> set (take rc (unsatisfied t)). p_want (pkg_at db p) = SW_INSTALL)
                  then unsatisfied s @ [q] else unsatisfied s)\<rparr>)
      else greedy_loop rec db qs s)"

definition dep_found :: "qsort \<Rightarrow> pkg_db \<Rightarrow> compound_depend \<Rightarrow> bool" where
  "dep_found qs db cd \<longleftrightarrow> (\<exists>d \<in> set (possibilities cd).
     case pkg_hash_fetch_best_installation_candidate qs db (d_pkg d) (pkg_installed_and_constraint_satisfied db d) True of
       None \<Rightarrow> False | Some q \<Rightarrow> pkg_installed_and_constraint_satisfied db d q)"

definition optional :: "depend_type \<Rightarrow> bool" where
  "optional t \<longleftrightarrow> t = RECOMMEND \<or> t = SUGGEST"

fun satisfier :: "qsort \<Rightarrow> pkg_db \<Rightarrow> depend_type \<Rightarrow> depend list \<Rightarrow> nat option" where
  "satisfier qs db t [] = None"
| "satisfier qs db t (d # ds) =
     (case pkg_hash_fetch_best_installation_candidate qs db (d_pkg d) (pkg_constraint_satisfied db d) True of
        None \<Rightarrow> satisfier qs db t ds
      | Some q \<Rightarrow>
          if \<not> pkg_constraint_satisfied db d q then satisfier qs db t ds
          else if optional t \<and> (p_want (pkg_at db q) = SW_DEINSTALL \<or> p_want (pkg_at db q) = SW_PURGE)
          then satisfier qs db t ds
          else Some q)"

text \<open>One dependency of the package \<open>p\<close>.\<close>

definition dep_step :: "fetcher \<Rightarrow> qsort \<Rightarrow> pkg_db \<Rightarrow> nat \<Rightarrow> compound_depend \<Rightarrow> string list \<times> search \<Rightarrow> (string list \<times> search) option" where
  "dep_step rec qs db p cd = (\<lambda>(the_lost, s).
     if cd_type cd = GREEDY_DEPEND
     then map_option (\<lambda>t. (the_lost, t)) (greedy_loop rec db (greedy_scouts db cd) s)
     else if dep_found qs db cd then Some (the_lost, s)
     else case satisfier qs db (cd_type cd) (possibilities cd) of
            None \<Rightarrow>
              Some (if optional (cd_type cd) then the_lost else the_lost @ [poss_text (possibilities cd)], s)
          | Some q \<Rightarrow>
              if cd_type cd = SUGGEST then Some (the_lost, s)
              else if q \<noteq> p \<and> \<not> is_pkg_in_pkg_vec db (unsatisfied s) q
              then case rec q (s\<lparr>unsatisfied := unsatisfied s @ [q]\<rparr>) of
                     None \<Rightarrow> None
                   | Some (_, newstuff, t) \<Rightarrow> Some (the_lost @ newstuff, t)
              else Some (the_lost, s))"

fun dep_loop :: "fetcher \<Rightarrow> qsort \<Rightarrow> pkg_db \<Rightarrow> nat \<Rightarrow> compound_depend list \<Rightarrow> string list \<times> search \<Rightarrow> (string list \<times> search) option" where
  "dep_loop rec qs db p [] x = Some x"
| "dep_loop rec qs db p (cd # cds) x =
     (case dep_step rec qs db p cd x of None \<Rightarrow> None | Some y \<Rightarrow> dep_loop rec qs db p cds y)"

text \<open>
  The search. The first argument bounds the depth of the recursion; \<open>None\<close> is its exhaustion. An empty list of
  unresolved dependencies is the null pointer.
\<close>

fun fetch_unsatisfied :: "nat \<Rightarrow> qsort \<Rightarrow> pkg_db \<Rightarrow> fetcher" where
  "fetch_unsatisfied 0 qs db p s = None"
| "fetch_unsatisfied (Suc n) qs db p s =
     (case p_parent (pkg_at db p) of
        None \<Rightarrow> Some (0, [], s)
      | Some a \<Rightarrow>
          if a \<in> marks s then Some (0, [], s)
          else
            let s1 = s\<lparr>marks := insert a (marks s), looked := looked s @ [p]\<rparr> in
            if p_depends (pkg_at db p) = [] then Some (0, [], s1)
            else case dep_loop (fetch_unsatisfied n qs db) qs db p (p_depends (pkg_at db p)) ([], s1) of
                   None \<Rightarrow> None
                 | Some (the_lost, s2) \<Rightarrow> Some (length (unsatisfied s2), the_lost, s2))"

section \<open>Conflicts\<close>

definition is_pkg_a_replaces :: "pkg_db \<Rightarrow> nat \<Rightarrow> nat \<Rightarrow> bool" where
  "is_pkg_a_replaces db scout p \<longleftrightarrow> p_name (pkg_at db scout) \<in> set (p_replaces (pkg_at db p))"

definition conflicting :: "pkg_db \<Rightarrow> nat \<Rightarrow> depend \<Rightarrow> nat \<Rightarrow> bool" where
  "conflicting db p d scout \<longleftrightarrow>
     (p_status (pkg_at db scout) = SS_INSTALLED \<or> p_want (pkg_at db scout) = SW_INSTALL) \<and>
     satisfies db d scout \<and> \<not> is_pkg_a_replaces db scout p"

definition add_conflict :: "pkg_db \<Rightarrow> nat \<Rightarrow> depend \<times> nat \<Rightarrow> nat list \<Rightarrow> nat list" where
  "add_conflict db p x vec = (case x of (d, scout) \<Rightarrow>
     if conflicting db p d scout \<and> \<not> is_pkg_in_pkg_vec db vec scout then vec @ [scout] else vec)"

text \<open>The pairs that the three loops go through.\<close>

definition conflict_pairs :: "pkg_db \<Rightarrow> nat \<Rightarrow> (depend \<times> nat) list" where
  "conflict_pairs db p = concat (map (\<lambda>cd. concat (map (\<lambda>d. map (Pair d)
     (case a_pkgs (apkg_at db (d_pkg d)) of None \<Rightarrow> [] | Some vec \<Rightarrow> vec)) (possibilities cd))) (p_conflicts (pkg_at db p)))"

definition pkg_hash_fetch_conflicts :: "pkg_db \<Rightarrow> nat \<Rightarrow> nat list option" where
  "pkg_hash_fetch_conflicts db p =
     (if p_parent (pkg_at db p) = None \<or> p_conflicts (pkg_at db p) = [] then None
      else case fold (add_conflict db p) (conflict_pairs db p) [] of [] \<Rightarrow> None | v # vec \<Rightarrow> Some (v # vec))"

section \<open>The candidate is one of the matching packages\<close>

text \<open>What \<open>qsort\<close> promises for the theorems about the search: it rearranges the array.\<close>

definition rearranges :: "qsort \<Rightarrow> bool" where
  "rearranges qs \<longleftrightarrow> (\<forall>cmp xs. mset (qs cmp xs) = mset xs)"

lemma rearranges_set: "rearranges qs \<Longrightarrow> set (qs cmp xs) = set xs"
  by (metis rearranges_def mset_eq_setD)

lemma good_by_name_in: "good_by_name db cf g qs = Some q \<Longrightarrow> g = Some q \<or> q \<in> set qs \<and> cf q"
  by (induction qs arbitrary: g) (auto split: if_splits)

lemma last_such_in: "last_such P qs = Some q \<Longrightarrow> q \<in> set qs"
proof -
  assume "last_such P qs = Some q"
  then have "filter P qs \<noteq> []" "q = last (filter P qs)" by (auto simp: last_such_def split: list.splits)
  then have "q \<in> set (filter P qs)" using last_in_set by blast
  then show ?thesis by simp
qed

lemma priorized_in: "priorized db k b qs = Some q \<Longrightarrow> b = Some q \<or> q \<in> set qs"
  by (induction qs arbitrary: k b) (auto split: if_splits)

lemma candidate_matches:
  assumes "rearranges qs" "pkg_hash_fetch_best_installation_candidate qs db a cf quiet = Some q"
  shows "q \<in> set (matching_pkgs db a)"
proof -
  let ?m0 = "matching_pkgs db a"
  define m1 where "m1 = (if length ?m0 > 1 then qs (pkg_name_version_and_architecture_compare db) ?m0 else ?m0)"
  define m where "m = (if length ?m0 > 1 then qs (abstract_pkg_name_compare db) m1 else m1)"
  have "set m = set ?m0" using rearranges_set [OF assms(1)] by (simp add: m_def m1_def)
  moreover have "m \<noteq> []" if "?m0 \<noteq> []" using that \<open>set m = set ?m0\<close> by (metis set_empty)
  ultimately show ?thesis
    using assms(2) good_by_name_in [of db cf None m q] last_such_in [of _ m q] priorized_in [of db 0 None m q]
    unfolding pkg_hash_fetch_best_installation_candidate_def Let_def m1_def [symmetric] m_def [symmetric]
    by (auto split: if_splits)
qed

section \<open>The search ends\<close>

text \<open>The recursive calls return while some abstract package of \<open>A\<close> is left, and never unmark one.\<close>

definition search_returns :: "string set \<Rightarrow> nat \<Rightarrow> fetcher \<Rightarrow> bool" where
  "search_returns A n rec \<longleftrightarrow> (\<forall>p s. card (A - marks s) < n \<longrightarrow> (\<exists>c l t. rec p s = Some (c, l, t) \<and> marks s \<subseteq> marks t))"

lemma card_marks: "finite A \<Longrightarrow> marks s \<subseteq> marks t \<Longrightarrow> card (A - marks t) \<le> card (A - marks s)"
  by (intro card_mono) auto

lemma greedy_loop_returns:
  assumes "finite A" "search_returns A n rec" "card (A - marks s) < n"
  shows "\<exists>t. greedy_loop rec db qs s = Some t \<and> marks s \<subseteq> marks t"
  using assms(3)
proof (induction qs arbitrary: s)
  case (Cons q qs)
  let ?c = "p_want (pkg_at db q) \<noteq> SW_INSTALL \<and> unmarked db s q \<and> \<not> is_pkg_in_pkg_vec db (unsatisfied s) q"
  show ?case
  proof (cases ?c)
    case True
    obtain c l t where t: "rec q (s\<lparr>unsatisfied := []\<rparr>) = Some (c, l, t)" "marks s \<subseteq> marks t"
      using assms(2) Cons.prems unfolding search_returns_def by (metis search.select_convs(1) search.surjective search.update_convs(2))
    let ?t = "t\<lparr>unsatisfied := (if l = [] \<and> (\<forall>p \<in> set (take c (unsatisfied t)). p_want (pkg_at db p) = SW_INSTALL)
                  then unsatisfied s @ [q] else unsatisfied s)\<rparr>"
    have "card (A - marks ?t) < n" using card_marks [OF assms(1) t(2)] Cons.prems by simp
    from Cons.IH [OF this] obtain u where u: "greedy_loop rec db qs ?t = Some u" "marks ?t \<subseteq> marks u" by blast
    have "greedy_loop rec db (q # qs) s = Some u" using True t(1) u(1) by (simp split del: if_split)
    then show ?thesis using t(2) u(2) by auto
  qed (use Cons in auto)
qed auto

lemma dep_step_returns:
  assumes "finite A" "search_returns A n rec" "card (A - marks s) < n"
  shows "\<exists>l1 t. dep_step rec qs db p cd (l, s) = Some (l1, t) \<and> marks s \<subseteq> marks t"
proof -
  have r: "\<exists>c l t. rec q (s\<lparr>unsatisfied := us\<rparr>) = Some (c, l, t) \<and> marks s \<subseteq> marks t" for q us
    using assms(2,3) unfolding search_returns_def by (metis search.select_convs(1) search.surjective search.update_convs(2))
  show ?thesis
    using greedy_loop_returns [OF assms, of db "greedy_scouts db cd"] r [of "the (satisfier qs db (cd_type cd) (possibilities cd))"
        "unsatisfied s @ [the (satisfier qs db (cd_type cd) (possibilities cd))]"]
    by (auto simp: dep_step_def split: option.splits)
qed

lemma dep_loop_returns:
  assumes "finite A" "search_returns A n rec" "card (A - marks s) < n"
  shows "\<exists>l1 t. dep_loop rec qs db p cds (l, s) = Some (l1, t) \<and> marks s \<subseteq> marks t"
  using assms(3)
proof (induction cds arbitrary: l s)
  case (Cons cd cds)
  from dep_step_returns [OF assms(1,2) Cons.prems] obtain l1 t where
    t: "dep_step rec qs db p cd (l, s) = Some (l1, t)" "marks s \<subseteq> marks t" by blast
  have "card (A - marks t) < n" using card_marks [OF assms(1) t(2)] Cons.prems by simp
  from Cons.IH [OF this, of l1] t show ?case by auto
qed auto

lemma fetch_returns:
  assumes "finite A" "\<forall>q a. p_parent (pkg_at db q) = Some a \<longrightarrow> a \<in> A"
  shows "search_returns A n (fetch_unsatisfied n qs db)"
proof (induction n)
  case (Suc n)
  show ?case unfolding search_returns_def
  proof (intro allI impI)
    fix p and s :: search
    assume c: "card (A - marks s) < Suc n"
    show "\<exists>c l t. fetch_unsatisfied (Suc n) qs db p s = Some (c, l, t) \<and> marks s \<subseteq> marks t"
    proof (cases "\<exists>a. p_parent (pkg_at db p) = Some a \<and> a \<notin> marks s")
      case True
      then obtain a where a: "p_parent (pkg_at db p) = Some a" "a \<notin> marks s" "a \<in> A" using assms(2) by blast
      let ?s = "s\<lparr>marks := insert a (marks s), looked := looked s @ [p]\<rparr>"
      have "card (A - marks ?s) < card (A - marks s)" using a assms(1) by (intro psubset_card_mono) auto
      with c have "card (A - marks ?s) < n" by simp
      from dep_loop_returns [OF assms(1) Suc.IH this, of qs db p "p_depends (pkg_at db p)" "[]"] show ?thesis
        using a by (auto simp: Let_def)
    qed (auto split: option.splits)
  qed
qed (simp add: search_returns_def)

section \<open>What the search finds\<close>

text \<open>A dependency that must be met, and when it is met by installed packages or by those to be installed.\<close>

definition mandatory :: "compound_depend \<Rightarrow> bool" where
  "mandatory cd \<longleftrightarrow> \<not> optional (cd_type cd) \<and> cd_type cd \<noteq> GREEDY_DEPEND"

definition meets :: "pkg_db \<Rightarrow> compound_depend \<Rightarrow> nat \<Rightarrow> bool" where
  "meets db cd q \<longleftrightarrow> (\<exists>d \<in> set (possibilities cd). q \<in> set (matching_pkgs db (d_pkg d)) \<and> satisfies db d q)"

definition covered :: "pkg_db \<Rightarrow> nat \<Rightarrow> nat list \<Rightarrow> compound_depend \<Rightarrow> bool" where
  "covered db p us cd \<longleftrightarrow> (\<exists>q. meets db cd q \<and>
     (is_installed (p_status (pkg_at db q)) \<or> q = p \<or> is_pkg_in_pkg_vec db us q))"

text \<open>A reason to install \<open>u\<close>: a dependency of \<open>x\<close> that nothing installed was found for.\<close>

definition needed_by :: "qsort \<Rightarrow> pkg_db \<Rightarrow> nat \<Rightarrow> nat \<Rightarrow> bool" where
  "needed_by qs db x u \<longleftrightarrow> (\<exists>cd \<in> set (p_depends (pkg_at db x)). cd_type cd \<noteq> SUGGEST \<and> \<not> dep_found qs db cd \<and> meets db cd u)"

lemma in_vec_append: "is_pkg_in_pkg_vec db us q \<Longrightarrow> is_pkg_in_pkg_vec db (us @ vs) q"
  by (auto simp: is_pkg_in_pkg_vec_def)

lemma covered_append: "covered db p us cd \<Longrightarrow> covered db p (us @ vs) cd"
  using in_vec_append by (auto simp: covered_def)

lemma found_meets:
  assumes "rearranges qs" "dep_found qs db cd"
  shows "\<exists>q. meets db cd q \<and> is_installed (p_status (pkg_at db q))"
  using assms(2) candidate_matches [OF assms(1)]
  by (fastforce simp: dep_found_def meets_def pkg_installed_and_constraint_satisfied_def split: option.splits)

lemma satisfier_meets:
  "rearranges qs \<Longrightarrow> satisfier qs db t ds = Some q \<Longrightarrow> \<exists>d \<in> set ds. q \<in> set (matching_pkgs db (d_pkg d)) \<and> satisfies db d q"
  by (induction ds)
    (auto simp: pkg_constraint_satisfied_def dest: candidate_matches split: option.splits if_splits)

text \<open>
  What a call contributes: it extends both lists; if nothing was lost, the mandatory dependencies of the packages it
  has looked at are covered; and every package it adds is needed.
\<close>

definition contributes :: "qsort \<Rightarrow> pkg_db \<Rightarrow> search \<Rightarrow> string list \<Rightarrow> search \<Rightarrow> bool" where
  "contributes qs db s l t \<longleftrightarrow> (\<exists>us ls. unsatisfied t = unsatisfied s @ us \<and> looked t = looked s @ ls \<and>
     (l = [] \<longrightarrow> (\<forall>x \<in> set ls. \<forall>cd \<in> set (p_depends (pkg_at db x)). mandatory cd \<longrightarrow> covered db x (unsatisfied t) cd)) \<and>
     (\<forall>u \<in> set us. \<exists>x \<in> set ls. needed_by qs db x u))"

definition sound_rec :: "qsort \<Rightarrow> pkg_db \<Rightarrow> fetcher \<Rightarrow> bool" where
  "sound_rec qs db rec \<longleftrightarrow> (\<forall>p s c l t. rec p s = Some (c, l, t) \<longrightarrow> contributes qs db s l t)"

text \<open>The same for the loop over the dependencies of \<open>p\<close>, which has its own share.\<close>

definition loop_contributes :: "qsort \<Rightarrow> pkg_db \<Rightarrow> nat \<Rightarrow> compound_depend set \<Rightarrow> search \<Rightarrow> string list \<Rightarrow> search \<Rightarrow> bool" where
  "loop_contributes qs db p cds s l t \<longleftrightarrow> (\<exists>us ls. unsatisfied t = unsatisfied s @ us \<and> looked t = looked s @ ls \<and>
     (l = [] \<longrightarrow> (\<forall>x \<in> set ls. \<forall>cd \<in> set (p_depends (pkg_at db x)). mandatory cd \<longrightarrow> covered db x (unsatisfied t) cd) \<and>
        (\<forall>cd \<in> cds. mandatory cd \<longrightarrow> covered db p (unsatisfied t) cd)) \<and>
     (\<forall>u \<in> set us. \<exists>x \<in> insert p (set ls). needed_by qs db x u))"

lemma loop_contributes_trans:
  assumes "loop_contributes qs db p A s l1 t" "loop_contributes qs db p B t l2 u"
  shows "loop_contributes qs db p (A \<union> B) s (l1 @ l2) u"
proof -
  from assms(1) obtain us ls where a: "unsatisfied t = unsatisfied s @ us" "looked t = looked s @ ls"
    "l1 = [] \<longrightarrow> (\<forall>x \<in> set ls. \<forall>cd \<in> set (p_depends (pkg_at db x)). mandatory cd \<longrightarrow> covered db x (unsatisfied t) cd) \<and>
      (\<forall>cd \<in> A. mandatory cd \<longrightarrow> covered db p (unsatisfied t) cd)"
    "\<forall>u \<in> set us. \<exists>x \<in> insert p (set ls). needed_by qs db x u" by (auto simp: loop_contributes_def)
  from assms(2) obtain vs ms where b: "unsatisfied u = unsatisfied t @ vs" "looked u = looked t @ ms"
    "l2 = [] \<longrightarrow> (\<forall>x \<in> set ms. \<forall>cd \<in> set (p_depends (pkg_at db x)). mandatory cd \<longrightarrow> covered db x (unsatisfied u) cd) \<and>
      (\<forall>cd \<in> B. mandatory cd \<longrightarrow> covered db p (unsatisfied u) cd)"
    "\<forall>u \<in> set vs. \<exists>x \<in> insert p (set ms). needed_by qs db x u" by (auto simp: loop_contributes_def)
  have up: "covered db x (unsatisfied t) cd \<Longrightarrow> covered db x (unsatisfied u) cd" for x cd
    unfolding b(1) by (rule covered_append)
  show ?thesis unfolding loop_contributes_def
  proof (intro exI conjI impI)
    show "unsatisfied u = unsatisfied s @ us @ vs" "looked u = looked s @ ls @ ms" using a(1,2) b(1,2) by simp_all
    assume l: "l1 @ l2 = []"
    show "\<forall>x \<in> set (ls @ ms). \<forall>cd \<in> set (p_depends (pkg_at db x)). mandatory cd \<longrightarrow> covered db x (unsatisfied u) cd"
      using l a(3) b(3) up by (auto simp: ball_Un)
    show "\<forall>cd \<in> A \<union> B. mandatory cd \<longrightarrow> covered db p (unsatisfied u) cd"
      using l a(3) b(3) up by (auto simp: ball_Un)
  next
    show "\<forall>u \<in> set (us @ vs). \<exists>x \<in> insert p (set (ls @ ms)). needed_by qs db x u"
      using a(4) b(4) by (simp add: ball_Un) blast
  qed
qed

lemma pkg_self_in_vec: "proper (p_version (pkg_at db q)) \<Longrightarrow> is_pkg_in_pkg_vec db (us @ [q] @ vs) q"
  using compare_pkg_cmp [of "p_version (pkg_at db q)" "p_version (pkg_at db q)"] packages.refl
  by (auto simp: is_pkg_in_pkg_vec_def sgn_0_0)

lemma dep_step_contributes:
  assumes "rearranges qs" "\<forall>q. proper (p_version (pkg_at db q))" "sound_rec qs db rec"
    and "cd \<in> set (p_depends (pkg_at db p))" "cd_type cd \<noteq> GREEDY_DEPEND"
    and step: "dep_step rec qs db p cd (l, s) = Some (l1, t)"
  shows "\<exists>ln. l1 = l @ ln \<and> loop_contributes qs db p {cd} s ln t"
proof (cases "dep_found qs db cd")
  case True
  then have "l1 = l" "t = s" using step assms(5) by (auto simp: dep_step_def)
  moreover have "covered db p us cd" for us using found_meets [OF assms(1) True] by (auto simp: covered_def)
  ultimately show ?thesis by (auto simp: loop_contributes_def)
next
  case nf: False
  show ?thesis
  proof (cases "satisfier qs db (cd_type cd) (possibilities cd)")
    case None
    then have "l1 = (if optional (cd_type cd) then l else l @ [poss_text (possibilities cd)])" "t = s"
      using step assms(5) nf by (auto simp: dep_step_def)
    then show ?thesis by (auto simp: loop_contributes_def mandatory_def)
  next
    case (Some q)
    have m: "meets db cd q" using satisfier_meets [OF assms(1) Some] by (auto simp: meets_def)
    show ?thesis
    proof (cases "cd_type cd \<noteq> SUGGEST \<and> q \<noteq> p \<and> \<not> is_pkg_in_pkg_vec db (unsatisfied s) q")
      case True
      then obtain c ln where r: "rec q (s\<lparr>unsatisfied := unsatisfied s @ [q]\<rparr>) = Some (c, ln, t)" "l1 = l @ ln"
        using step assms(5) nf Some by (auto simp: dep_step_def split: option.splits)
      from assms(3) r(1) have "contributes qs db (s\<lparr>unsatisfied := unsatisfied s @ [q]\<rparr>) ln t" by (auto simp: sound_rec_def)
      then obtain us ls where c: "unsatisfied t = unsatisfied s @ [q] @ us" "looked t = looked s @ ls"
        "ln = [] \<longrightarrow> (\<forall>x \<in> set ls. \<forall>cd \<in> set (p_depends (pkg_at db x)). mandatory cd \<longrightarrow> covered db x (unsatisfied t) cd)"
        "\<forall>u \<in> set us. \<exists>x \<in> set ls. needed_by qs db x u" by (auto simp: contributes_def)
      have "covered db p (unsatisfied t) cd"
        unfolding c(1) covered_def using m pkg_self_in_vec [of db q "unsatisfied s" us] assms(2) by blast
      moreover have "needed_by qs db p q" using assms(4) True nf m by (auto simp: needed_by_def)
      ultimately have "loop_contributes qs db p {cd} s ln t"
        unfolding loop_contributes_def using c by (intro exI [of _ "q # us"] exI [of _ ls]) auto
      then show ?thesis using r(2) by blast
    next
      case False
      then have e: "l1 = l" "t = s" using step assms(5) nf Some by (auto simp: dep_step_def split: if_splits)
      have "mandatory cd \<Longrightarrow> covered db p (unsatisfied s) cd"
        using False m by (auto simp: covered_def mandatory_def optional_def)
      then show ?thesis using e by (auto simp: loop_contributes_def)
    qed
  qed
qed

lemma dep_loop_contributes:
  assumes "rearranges qs" "\<forall>q. proper (p_version (pkg_at db q))" "sound_rec qs db rec"
    and "\<forall>cd \<in> set cds. cd \<in> set (p_depends (pkg_at db p)) \<and> cd_type cd \<noteq> GREEDY_DEPEND"
    and "dep_loop rec qs db p cds (l, s) = Some (l1, t)"
  shows "\<exists>ln. l1 = l @ ln \<and> loop_contributes qs db p (set cds) s ln t"
  using assms(4,5)
proof (induction cds arbitrary: l s)
  case Nil
  then show ?case by (auto simp: loop_contributes_def)
next
  case (Cons cd cds)
  then obtain l2 s2 where s2: "dep_step rec qs db p cd (l, s) = Some (l2, s2)" "dep_loop rec qs db p cds (l2, s2) = Some (l1, t)"
    by (auto split: option.splits)
  have "cd \<in> set (p_depends (pkg_at db p))" "cd_type cd \<noteq> GREEDY_DEPEND" using Cons.prems(1) by auto
  from dep_step_contributes [OF assms(1-3) this s2(1)] obtain la where
    a: "l2 = l @ la" "loop_contributes qs db p {cd} s la s2" by blast
  have "\<forall>cd \<in> set cds. cd \<in> set (p_depends (pkg_at db p)) \<and> cd_type cd \<noteq> GREEDY_DEPEND" using Cons.prems(1) by auto
  from Cons.IH [OF this s2(2)] obtain lb where b: "l1 = l2 @ lb" "loop_contributes qs db p (set cds) s2 lb t" by blast
  show ?case using loop_contributes_trans [OF a(2) b(2)] a(1) b(1) by auto
qed

lemma fetch_contributes:
  assumes "rearranges qs" "\<forall>q. proper (p_version (pkg_at db q))"
    and "\<forall>q. \<forall>cd \<in> set (p_depends (pkg_at db q)). cd_type cd \<noteq> GREEDY_DEPEND"
  shows "sound_rec qs db (fetch_unsatisfied n qs db)"
proof (induction n)
  case (Suc n)
  show ?case unfolding sound_rec_def
  proof (intro allI impI)
    fix p s c l t
    assume f: "fetch_unsatisfied (Suc n) qs db p s = Some (c, l, t)"
    show "contributes qs db s l t"
    proof (cases "\<exists>a. p_parent (pkg_at db p) = Some a \<and> a \<notin> marks s")
      case False
      then have "l = []" "t = s" using f by (auto split: option.splits if_splits)
      then show ?thesis by (simp add: contributes_def)
    next
      case True
      then obtain a where a: "p_parent (pkg_at db p) = Some a" "a \<notin> marks s" by blast
      define s1 where "s1 = s\<lparr>marks := insert a (marks s), looked := looked s @ [p]\<rparr>"
      have "\<exists>ln. l = ln \<and> loop_contributes qs db p (set (p_depends (pkg_at db p))) s1 ln t"
      proof (cases "p_depends (pkg_at db p) = []")
        case True
        then show ?thesis using f a by (auto simp: Let_def loop_contributes_def s1_def)
      next
        case False
        then have "dep_loop (fetch_unsatisfied n qs db) qs db p (p_depends (pkg_at db p)) ([], s1) = Some (l, t)"
          using f a by (auto simp: Let_def s1_def split: option.splits)
        from dep_loop_contributes [OF assms(1,2) Suc.IH _ this] assms(3) show ?thesis by auto
      qed
      then obtain us ls where "unsatisfied t = unsatisfied s @ us" "looked t = looked s @ p # ls"
        "l = [] \<longrightarrow> (\<forall>x \<in> set ls. \<forall>cd \<in> set (p_depends (pkg_at db x)). mandatory cd \<longrightarrow> covered db x (unsatisfied t) cd) \<and>
          (\<forall>cd \<in> set (p_depends (pkg_at db p)). mandatory cd \<longrightarrow> covered db p (unsatisfied t) cd)"
        "\<forall>u \<in> set us. \<exists>x \<in> insert p (set ls). needed_by qs db x u" by (auto simp: loop_contributes_def s1_def)
      then show ?thesis unfolding contributes_def by (intro exI [of _ us] exI [of _ "p # ls"]) auto
    qed
  qed
qed (simp add: sound_rec_def)

definition search_start :: search where
  "search_start = \<lparr>marks = {}, unsatisfied = [], looked = []\<rparr>"

text \<open>
  The search for unsatisfied dependencies ends, also with cyclic dependencies: its recursion is never deeper than
  the number of abstract packages plus one.
\<close>

theorem dependency_search_ends:
  assumes "finite A" "\<forall>q a. p_parent (pkg_at db q) = Some a \<longrightarrow> a \<in> A" "card A < n"
  shows "\<exists>cnt lost t. fetch_unsatisfied n qs db p search_start = Some (cnt, lost, t)"
  using fetch_returns [OF assms(1,2), of n qs] assms(3) unfolding search_returns_def
  by (metis Diff_empty search.select_convs(1) search_start_def)


section \<open>Conflicts are exactly the conflicting packages\<close>

lemma add_conflict_spec:
  assumes "\<forall>q. proper (p_version (pkg_at db q))"
  shows "\<exists>vs. fold (add_conflict db p) xs vec = vec @ vs \<and>
    (\<forall>u \<in> set vs. \<exists>d. (d, u) \<in> set xs \<and> conflicting db p d u) \<and>
    (\<forall>(d, u) \<in> set xs. conflicting db p d u \<longrightarrow> is_pkg_in_pkg_vec db (vec @ vs) u)"
proof (induction xs arbitrary: vec)
  case (Cons x xs)
  obtain d u where x: "x = (d, u)" by (cases x)
  show ?case
  proof (cases "conflicting db p d u \<and> \<not> is_pkg_in_pkg_vec db vec u")
    case True
    from Cons.IH [of "vec @ [u]"] obtain vs where v: "fold (add_conflict db p) xs (vec @ [u]) = (vec @ [u]) @ vs"
      "\<forall>w \<in> set vs. \<exists>d. (d, w) \<in> set xs \<and> conflicting db p d w"
      "\<forall>(d, w) \<in> set xs. conflicting db p d w \<longrightarrow> is_pkg_in_pkg_vec db ((vec @ [u]) @ vs) w" by blast
    have "is_pkg_in_pkg_vec db (vec @ [u] @ vs) u" using assms by (intro pkg_self_in_vec) simp
    moreover have "add_conflict db p x vec = vec @ [u]" using True x by (simp add: add_conflict_def)
    ultimately show ?thesis using v x True by (intro exI [of _ "u # vs"]) auto
  next
    case False
    from Cons.IH [of vec] obtain vs where v: "fold (add_conflict db p) xs vec = vec @ vs"
      "\<forall>w \<in> set vs. \<exists>d. (d, w) \<in> set xs \<and> conflicting db p d w"
      "\<forall>(d, w) \<in> set xs. conflicting db p d w \<longrightarrow> is_pkg_in_pkg_vec db (vec @ vs) w" by blast
    have "conflicting db p d u \<longrightarrow> is_pkg_in_pkg_vec db (vec @ vs) u" using False in_vec_append by blast
    moreover have "add_conflict db p x vec = vec" using False x by (simp add: add_conflict_def)
    ultimately show ?thesis using v x by (intro exI [of _ vs]) auto
  qed
qed simp

text \<open>
  The conflicts reported for a package are exactly the installed or wanted packages that one of its conflict entries
  names with a version it matches and that the package does not replace, every one once up to equal name, version and
  architecture; there is no report if there is none.
\<close>

theorem conflicts_exact:
  assumes "\<forall>q. proper (p_version (pkg_at db q))" "p_parent (pkg_at db p) \<noteq> None"
  shows "case pkg_hash_fetch_conflicts db p of
      None \<Rightarrow> \<forall>(d, u) \<in> set (conflict_pairs db p). \<not> conflicting db p d u
    | Some vec \<Rightarrow> (\<forall>u \<in> set vec. \<exists>d. (d, u) \<in> set (conflict_pairs db p) \<and> conflicting db p d u) \<and>
        (\<forall>(d, u) \<in> set (conflict_pairs db p). conflicting db p d u \<longrightarrow> is_pkg_in_pkg_vec db vec u)"
proof -
  obtain vs where v: "fold (add_conflict db p) (conflict_pairs db p) [] = vs"
    "\<forall>u \<in> set vs. \<exists>d. (d, u) \<in> set (conflict_pairs db p) \<and> conflicting db p d u"
    "\<forall>(d, u) \<in> set (conflict_pairs db p). conflicting db p d u \<longrightarrow> is_pkg_in_pkg_vec db vs u"
    using add_conflict_spec [OF assms(1), of p "conflict_pairs db p" "[]"] by auto
  show ?thesis
  proof (cases "p_conflicts (pkg_at db p) = []")
    case True
    then show ?thesis by (simp add: pkg_hash_fetch_conflicts_def conflict_pairs_def)
  next
    case False
    then show ?thesis using assms(2) v
      by (cases vs) (auto simp: pkg_hash_fetch_conflicts_def is_pkg_in_pkg_vec_def)
  qed
qed

section \<open>The second sort\<close>

text \<open>A correct sorting function that puts equal elements in the reverse order.\<close>

fun insert_before :: "(nat \<Rightarrow> nat \<Rightarrow> int) \<Rightarrow> nat \<Rightarrow> nat list \<Rightarrow> nat list" where
  "insert_before cmp x [] = [x]"
| "insert_before cmp x (y # ys) = (if cmp x y \<le> 0 then x # y # ys else y # insert_before cmp x ys)"

definition insertion_sort :: qsort where
  "insertion_sort cmp xs = fold (insert_before cmp) xs []"

lemma mset_insert_before: "mset (insert_before cmp x ys) = add_mset x (mset ys)"
  by (induction ys) auto

lemma sorted_insert_before:
  assumes "three_way cmp" "sorted_wrt (\<lambda>x y. cmp x y \<le> 0) ys"
  shows "sorted_wrt (\<lambda>x y. cmp x y \<le> 0) (insert_before cmp x ys)"
  using assms(2)
proof (induction ys)
  case (Cons y ys)
  have set: "set (insert_before cmp x ys) = insert x (set ys)" using mset_insert_before [of cmp x ys] by (metis set_mset_add_mset_insert set_mset_mset)
  show ?case
  proof (cases "cmp x y \<le> 0")
    case True
    then show ?thesis using Cons.prems three_way.le_trans [OF assms(1), of x y] by auto
  next
    case False
    then have "cmp y x \<le> 0" using three_way.flip(1) [OF assms(1), of y x] by simp
    then show ?thesis using False Cons set by auto
  qed
qed simp

lemma insertion_sort_correct:
  "mset (insertion_sort cmp xs) = mset xs"
  "three_way cmp \<Longrightarrow> sorted_wrt (\<lambda>x y. cmp x y \<le> 0) (insertion_sort cmp xs)"
proof -
  have "mset (fold (insert_before cmp) xs ys) = mset xs + mset ys" for ys
    by (induction xs arbitrary: ys) (auto simp: mset_insert_before)
  then show "mset (insertion_sort cmp xs) = mset xs" by (simp add: insertion_sort_def)
  assume "three_way cmp"
  then have "sorted_wrt (\<lambda>x y. cmp x y \<le> 0) ys \<Longrightarrow> sorted_wrt (\<lambda>x y. cmp x y \<le> 0) (fold (insert_before cmp) xs ys)" for ys
    by (induction xs arbitrary: ys) (auto simp: sorted_insert_before)
  then show "sorted_wrt (\<lambda>x y. cmp x y \<le> 0) (insertion_sort cmp xs)" by (simp add: insertion_sort_def)
qed

lemma strcmp_same [simp]: "strcmp s s = 0"
  by (induction s) auto

text \<open>
  C39: The candidate need not be the newest version. After the packages have been sorted by version they are sorted again
  by name only, and \<open>qsort\<close> may exchange packages of the same name; with a correct sorting function the older of
  two versions that both meet the constraint is chosen.
\<close>

theorem candidate_not_newest:
  assumes "matching_pkgs db apkg = [a, b]" "p_name (pkg_at db a) = p_name (pkg_at db b)"
    and "proper (p_version (pkg_at db a))" "proper (p_version (pkg_at db b))"
    and "pkg_compare_versions (p_version (pkg_at db a)) (p_version (pkg_at db b)) = Inr r" "r < 0"
    and "cf a" "cf b" "\<not> p_by_hand (pkg_at db a)" "\<not> p_by_hand (pkg_at db b)"
  shows "pkg_hash_fetch_best_installation_candidate insertion_sort db apkg cf True = Some a \<and>
    (\<forall>cmp xs. mset (insertion_sort cmp xs) = mset xs \<and>
       (three_way cmp \<longrightarrow> sorted_wrt (\<lambda>x y. cmp x y \<le> 0) (insertion_sort cmp xs)))"
proof -
  obtain r2 where r2: "pkg_compare_versions (p_version (pkg_at db b)) (p_version (pkg_at db a)) = Inr r2" "0 < r2"
  proof -
    obtain r2 where "pkg_compare_versions (p_version (pkg_at db b)) (p_version (pkg_at db a)) = Inr r2"
      "sgn r2 = sgn (pkg_cmp (p_version (pkg_at db b)) (p_version (pkg_at db a)))"
      using compare_pkg_cmp [OF assms(4,3)] by blast
    moreover have "sgn r = sgn (pkg_cmp (p_version (pkg_at db a)) (p_version (pkg_at db b)))"
      using compare_pkg_cmp [OF assms(3,4)] assms(5) by auto
    ultimately show thesis
      using that [of r2] assms(6) packages.anti [of "p_version (pkg_at db b)" "p_version (pkg_at db a)"]
      by (auto simp: sgn_if split: if_splits)
  qed
  have "insertion_sort (pkg_name_version_and_architecture_compare db) [a, b] = [a, b]"
    using r2 assms(2) by (simp add: insertion_sort_def pkg_name_version_and_architecture_compare_def Let_def compare_result_def)
  moreover have "insertion_sort (abstract_pkg_name_compare db) [a, b] = [b, a]"
    using assms(2) by (simp add: insertion_sort_def abstract_pkg_name_compare_def)
  ultimately have "pkg_hash_fetch_best_installation_candidate insertion_sort db apkg cf True = Some a"
    using assms(1,7-10) by (simp add: pkg_hash_fetch_best_installation_candidate_def Let_def)
  then show ?thesis using insertion_sort_correct by blast
qed

section \<open>An example\<close>

text \<open>An application that needs a library, which comes in two versions.\<close>

definition demo_pkg :: "string \<Rightarrow> string \<Rightarrow> compound_depend list \<Rightarrow> string option \<Rightarrow> pkg" where
  "demo_pkg name ver deps parent = \<lparr>p_name = name, p_version = \<lparr>v_epoch = 0, v_version = Some ver, v_revision = None\<rparr>,
     p_arch = ''arm'', p_want = SW_UNKNOWN, p_status = SS_NOT_INSTALLED, p_flag = 0, p_depends = deps, p_conflicts = [],
     p_replaces = [], p_provides = [name], p_provides_count = 1, p_parent = parent, p_prio = 1, p_by_hand = False,
     p_auto = False, p_src = 0, p_dest = 0, p_essential = False\<rparr>"

definition demo_apkg :: "string \<Rightarrow> nat list \<Rightarrow> abstract_pkg" where
  "demo_apkg name vec = \<lparr>a_pkgs = Some vec, a_status = SS_NOT_INSTALLED, a_provided_by = [name], a_replaced_by = [],
     a_depended_by = []\<rparr>"

definition demo_db :: pkg_db where
  "demo_db = \<lparr>pkg_at = (\<lambda>q. if q = 0
      then demo_pkg ''app'' ''1'' [\<lparr>cd_type = DEPEND, possibilities = [\<lparr>d_constraint = NONE, d_version = None, d_pkg = ''lib''\<rparr>]\<rparr>] (Some ''app'')
      else if q = 1 then demo_pkg ''lib'' ''1'' [] (Some ''lib'') else demo_pkg ''lib'' ''2'' [] (Some ''lib'')),
    apkg_at = (\<lambda>a. if a = ''app'' then demo_apkg ''app'' [0] else demo_apkg ''lib'' [1, 2])\<rparr>"

lemma demo_proper: "proper (p_version (pkg_at demo_db q))"
  by (simp add: demo_db_def demo_pkg_def proper_def string_of_def)

lemma demo_parents: "p_parent (pkg_at demo_db q) = Some a \<Longrightarrow> a \<in> {''app'', ''lib''}"
  by (auto simp: demo_db_def demo_pkg_def split: if_splits)

theorem dependency_search_ends_witness:
  "\<exists>cnt lost t. fetch_unsatisfied 3 insertion_sort demo_db 0 search_start = Some (cnt, lost, t)"
  by (rule dependency_search_ends [of "{''app'', ''lib''}"]) (use demo_parents in auto)


theorem conflicts_exact_witness:
  "case pkg_hash_fetch_conflicts demo_db 0 of None \<Rightarrow> True | Some vec \<Rightarrow> \<forall>u \<in> set vec. \<exists>d. (d, u) \<in> set (conflict_pairs demo_db 0)"
  using conflicts_exact [of demo_db 0] demo_proper by (auto simp: demo_db_def demo_pkg_def split: option.splits)

theorem candidate_not_newest_witness:
  "pkg_hash_fetch_best_installation_candidate insertion_sort demo_db ''lib'' (\<lambda>q. True) True = Some 1"
proof -
  have m: "matching_pkgs demo_db ''lib'' = [1, 2]"
    by (simp add: matching_pkgs_def demo_db_def demo_apkg_def demo_pkg_def provider_pkgs_def stands_for_def add_matching_def)
  have "isdigit CHR ''1''" "isdigit CHR ''2''" by (simp_all add: isdigit_def)
  then have "pkg_compare_versions (p_version (pkg_at demo_db 1)) (p_version (pkg_at demo_db 2)) = Inr (-1)"
    by (simp add: demo_db_def demo_pkg_def pkg_compare_versions_def verrevcmp_def verrev_loop.simps cmp_round_def nondigit_loop.simps)
  from candidate_not_newest [OF m _ demo_proper demo_proper this, of "\<lambda>q. True"] show ?thesis
    by (simp add: demo_db_def demo_pkg_def)
qed

end
