(* ===== verification/Opkg_Hash.thy ===== *)
theory Opkg_Hash
  imports Prelude
begin

text \<open>
  The hash table of opkg, \<^verbatim>\<open>apps/opkg/libopkg/hash_table.c\<close>, and the table of file owners that
  \<^verbatim>\<open>pkg_hash.c\<close> keeps in one.

  A bucket is the list of its entries: the first one is the element of the array \<open>entries\<close>, whose key is null
  while the bucket is empty, the others are linked behind it and belong to no other bucket. Data are addresses, 0 is
  the null pointer. A table without its array, and a null key compared by \<open>strcmp\<close>, are \<open>Overrun\<close>.
\<close>

section \<open>The table\<close>

record hash_entry =
  e_key :: "string option"
  e_data :: nat

record hash_table =
  entries :: "hash_entry list list option"
  n_buckets :: nat
  n_elements :: nat
  n_used_buckets :: nat
  n_collisions :: nat
  max_bucket_len :: nat
  n_hits :: nat
  n_misses :: nat

definition empty_entry :: hash_entry where
  "empty_entry = \<lparr>e_key = None, e_data = 0\<rparr>"

definition djb2_hash :: "string \<Rightarrow> nat" where
  "djb2_hash str = foldl (\<lambda>h c. u32 (u32 (u32 (h * 32) + h) + ord c)) 5381 str"

definition hash_index :: "nat \<Rightarrow> string \<Rightarrow> nat" where
  "hash_index n k = djb2_hash k mod n"

text \<open>The table before its first use is all zero; the flag tells whether the error was logged.\<close>

definition hash_table_init :: "nat \<Rightarrow> hash_table \<Rightarrow> bool \<times> hash_table" where
  "hash_table_init len h =
     (if entries h \<noteq> None then (True, h)
      else (False, \<lparr>entries = Some (replicate len [empty_entry]), n_buckets = len, n_elements = 0, n_used_buckets = 0,
                    n_collisions = 0, max_bucket_len = 0, n_hits = 0, n_misses = 0\<rparr>))"

definition hash_table_deinit :: "hash_table \<Rightarrow> hash_table" where
  "hash_table_deinit h = h\<lparr>entries := None, n_buckets := 0\<rparr>"

text \<open>The bucket of a key.\<close>

definition the_bucket :: "hash_table \<Rightarrow> string \<Rightarrow> hash_entry list res" where
  "the_bucket h k = (case entries h of
     None \<Rightarrow> Inl Overrun
   | Some es \<Rightarrow> if n_buckets h = 0 \<or> hash_index (n_buckets h) k \<ge> length es then Inl Overrun
               else Inr (es ! hash_index (n_buckets h) k))"

definition set_bucket :: "string \<Rightarrow> hash_entry list \<Rightarrow> hash_table \<Rightarrow> hash_table" where
  "set_bucket k b h = h\<lparr>entries := map_option (\<lambda>es. es[hash_index (n_buckets h) k := b]) (entries h)\<rparr>"

fun chain_get :: "string \<Rightarrow> hash_entry list \<Rightarrow> nat option" where
  "chain_get k [] = None"
| "chain_get k (e # es) = (if e_key e = Some k then Some (e_data e) else chain_get k es)"

definition hash_table_get :: "string \<Rightarrow> hash_table \<Rightarrow> (nat \<times> hash_table) res" where
  "hash_table_get k h = rbind (the_bucket h k) (\<lambda>b.
     case chain_get k b of
       Some d \<Rightarrow> Inr (d, h\<lparr>n_hits := u32 (n_hits h + 1)\<rparr>)
     | None \<Rightarrow> Inr (0, h\<lparr>n_misses := u32 (n_misses h + 1)\<rparr>))"

text \<open>
  The walk along the chain behind the first entry: the new chain, and for an added entry the length of the bucket.
\<close>

fun chain_insert :: "string \<Rightarrow> nat \<Rightarrow> nat \<Rightarrow> hash_entry list \<Rightarrow> (hash_entry list \<times> nat option) res" where
  "chain_insert k v bucket_len [] = Inr ([\<lparr>e_key = Some k, e_data = v\<rparr>], Some (bucket_len + 1))"
| "chain_insert k v bucket_len (e # es) =
     (case e_key e of
        None \<Rightarrow> Inl Overrun
      | Some q \<Rightarrow>
          if q = k then Inr (e\<lparr>e_data := v\<rparr> # es, None)
          else rbind (chain_insert k v (bucket_len + 1) es) (\<lambda>(es1, r). Inr (e # es1, r)))"

definition hash_table_insert :: "string \<Rightarrow> nat \<Rightarrow> hash_table \<Rightarrow> hash_table res" where
  "hash_table_insert k v h = rbind (the_bucket h k) (\<lambda>b.
     case b of
       [] \<Rightarrow> Inl Overrun
     | e # es \<Rightarrow>
         (case e_key e of
            None \<Rightarrow>
              Inr (set_bucket k (\<lparr>e_key = Some k, e_data = v\<rparr> # es)
                (h\<lparr>n_used_buckets := u32 (n_used_buckets h + 1), n_elements := u32 (n_elements h + 1)\<rparr>))
          | Some q \<Rightarrow>
              if q = k then Inr (set_bucket k (e\<lparr>e_data := v\<rparr> # es) h)
              else rbind (chain_insert k v 0 es) (\<lambda>(es1, r).
                case r of
                  None \<Rightarrow> Inr (set_bucket k (e # es1) h)
                | Some len \<Rightarrow>
                    Inr (set_bucket k (e # es1) (h\<lparr>n_collisions := u32 (n_collisions h + 1),
                      max_bucket_len := (if len > max_bucket_len h then len else max_bucket_len h),
                      n_elements := u32 (n_elements h + 1)\<rparr>)))))"

fun chain_remove :: "string \<Rightarrow> hash_entry list \<Rightarrow> hash_entry list option" where
  "chain_remove k [] = None"
| "chain_remove k (e # es) = (if e_key e = Some k then Some es else map_option ((#) e) (chain_remove k es))"

text \<open>The first entry is overwritten by the second one, or cleared.\<close>

definition hash_table_remove :: "string \<Rightarrow> hash_table \<Rightarrow> (bool \<times> hash_table) res" where
  "hash_table_remove k h = rbind (the_bucket h k) (\<lambda>b.
     case b of
       [] \<Rightarrow> Inl Overrun
     | e # es \<Rightarrow>
         if e_key e = Some k then Inr (True, set_bucket k (if es = [] then [empty_entry] else es) h)
         else (case chain_remove k es of
                 Some es1 \<Rightarrow> Inr (True, set_bucket k (e # es1) h)
               | None \<Rightarrow> Inr (False, h)))"

text \<open>The calls that \<open>hash_table_foreach\<close> makes, in their order.\<close>

definition hash_table_foreach :: "hash_table \<Rightarrow> (string \<times> nat) list" where
  "hash_table_foreach h = (case entries h of
     None \<Rightarrow> []
   | Some es \<Rightarrow> concat (map (\<lambda>b. concat (map (\<lambda>e. case e_key e of None \<Rightarrow> [] | Some k \<Rightarrow> [(k, e_data e)]) b)) es))"

section \<open>The owners of files\<close>

text \<open>\<open>offline_root\<close> is taken off the front of a name if it is configured and matches.\<close>

definition strip_offline_root :: "string option \<Rightarrow> string \<Rightarrow> string" where
  "strip_offline_root root name = (case root of
     None \<Rightarrow> name | Some r \<Rightarrow> if take (length r) name = r then drop (length r) name else name)"

definition file_hash_remove :: "string option \<Rightarrow> string \<Rightarrow> hash_table \<Rightarrow> hash_table res" where
  "file_hash_remove root name h = rbind (hash_table_remove (strip_offline_root root name) h) (\<lambda>(_, h1). Inr h1)"

definition file_hash_get_file_owner :: "string option \<Rightarrow> string \<Rightarrow> hash_table \<Rightarrow> (nat \<times> hash_table) res" where
  "file_hash_get_file_owner root name h = hash_table_get (strip_offline_root root name) h"

text \<open>
  The owner before, 0 for none, and the table. A name that ends with a slash is a directory and has no owner; for
  an empty name the code reads the character before the string. The lists of files of the two owners are updated
  by the caller's package data and not part of the table.
\<close>

definition file_hash_set_file_owner :: "string option \<Rightarrow> string \<Rightarrow> nat \<Rightarrow> hash_table \<Rightarrow> (nat \<times> hash_table) res" where
  "file_hash_set_file_owner root name owner h =
     (if name = [] then Inl Overrun
      else if last name = CHR ''/'' then Inr (0, h)
      else let name1 = strip_offline_root root name in
        rbind (hash_table_get name1 h) (\<lambda>(old, h1).
        rbind (hash_table_insert name1 owner h1) (\<lambda>h2. Inr (old, h2))))"

section \<open>Well-formed tables and what they hold\<close>

definition bucket_ok :: "nat \<Rightarrow> nat \<Rightarrow> hash_entry list \<Rightarrow> bool" where
  "bucket_ok n i b \<longleftrightarrow> b \<noteq> [] \<and> (e_key (hd b) = None \<longrightarrow> tl b = []) \<and> (\<forall>e \<in> set (tl b). e_key e \<noteq> None) \<and>
     distinct (map e_key b) \<and> (\<forall>e \<in> set b. \<forall>k. e_key e = Some k \<longrightarrow> hash_index n k = i)"

lemma bucket_ok_keys:
  "bucket_ok n i b \<longleftrightarrow> (let ks = map e_key b in ks \<noteq> [] \<and> (hd ks = None \<longrightarrow> tl ks = []) \<and> None \<notin> set (tl ks) \<and> distinct ks \<and>
     (\<forall>k. Some k \<in> set ks \<longrightarrow> hash_index n k = i))"
  by (cases b) (auto simp: bucket_ok_def Let_def image_iff eq_commute)

lemma bucket_ok_added:
  "bucket_ok n i (e # es) \<Longrightarrow> e_key e = Some q \<Longrightarrow> q \<noteq> k \<Longrightarrow> hash_index n k = i \<Longrightarrow>
   map e_key es1 = (if Some k \<in> e_key ` set es then map e_key es else map e_key es @ [Some k]) \<Longrightarrow> bucket_ok n i (e # es1)"
  by (auto simp: bucket_ok_keys split: if_splits)

lemma bucket_ok_first_removed: "bucket_ok n i (e # es) \<Longrightarrow> bucket_ok n i (if es = [] then [empty_entry] else es)"
  by (cases es) (auto simp: bucket_ok_def empty_entry_def)

lemma bucket_ok_removed:
  "bucket_ok n i (e # es) \<Longrightarrow> es \<noteq> [] \<Longrightarrow> set es1 \<subseteq> set es \<Longrightarrow> distinct (map e_key es1) \<Longrightarrow> bucket_ok n i (e # es1)"
  by (auto simp: bucket_ok_def)

definition table_ok :: "hash_table \<Rightarrow> bool" where
  "table_ok h \<longleftrightarrow> 0 < n_buckets h \<and> (\<exists>es. entries h = Some es \<and> length es = n_buckets h \<and>
     (\<forall>i < length es. bucket_ok (n_buckets h) i (es ! i)))"

definition content :: "hash_table \<Rightarrow> string \<Rightarrow> nat option" where
  "content h k = (case entries h of None \<Rightarrow> None | Some es \<Rightarrow> chain_get k (es ! hash_index (n_buckets h) k))"

lemma chain_get_None: "chain_get k b = None \<longleftrightarrow> Some k \<notin> e_key ` set b"
  by (induction b) auto

lemma bucket_at:
  assumes "table_ok h"
  shows "\<exists>b. the_bucket h k = Inr b \<and> bucket_ok (n_buckets h) (hash_index (n_buckets h) k) b \<and> content h k = chain_get k b"
proof -
  obtain es where es: "entries h = Some es" "length es = n_buckets h" "0 < n_buckets h"
    "\<forall>i < length es. bucket_ok (n_buckets h) i (es ! i)" using assms by (auto simp: table_ok_def)
  moreover have "hash_index (n_buckets h) k < n_buckets h" using es(3) by (simp add: hash_index_def)
  ultimately show ?thesis by (auto simp: the_bucket_def content_def)
qed

text \<open>Replacing the bucket of a key by one that differs from it only at this key.\<close>

lemma set_bucket_ok:
  assumes "table_ok h" "the_bucket h k = Inr b" "bucket_ok (n_buckets h) (hash_index (n_buckets h) k) b1"
    and "\<And>q. q \<noteq> k \<Longrightarrow> chain_get q b1 = chain_get q b" "n_buckets h1 = n_buckets h" "entries h1 = entries h"
  shows "table_ok (set_bucket k b1 h1)" "content (set_bucket k b1 h1) = (content h)(k := chain_get k b1)"
proof -
  let ?n = "n_buckets h" and ?i = "hash_index (n_buckets h) k"
  obtain es where es: "entries h = Some es" "length es = ?n" "0 < ?n" "\<forall>i < length es. bucket_ok ?n i (es ! i)"
    using assms(1) by (auto simp: table_ok_def)
  have i: "?i < ?n" "hash_index ?n q < ?n" for q using es(3) by (auto simp: hash_index_def)
  show "table_ok (set_bucket k b1 h1)"
    using es i(1) assms(3,5,6) by (auto simp: table_ok_def set_bucket_def nth_list_update)
  have b: "b = es ! ?i" using assms(2) es i by (simp add: the_bucket_def)
  show "content (set_bucket k b1 h1) = (content h)(k := chain_get k b1)"
  proof
    fix q
    show "content (set_bucket k b1 h1) q = ((content h)(k := chain_get k b1)) q"
      using es i(1) i(2) [of q] assms(4) [of q] b assms(5,6)
      by (cases "hash_index ?n q = ?i") (auto simp: content_def set_bucket_def nth_list_update)
  qed
qed

lemma chain_insert_ok:
  assumes "\<forall>e \<in> set es. e_key e \<noteq> None"
  shows "\<exists>es1 r. chain_insert k v n es = Inr (es1, r) \<and> (\<forall>q. chain_get q es1 = (if q = k then Some v else chain_get q es)) \<and>
    map e_key es1 = (if Some k \<in> e_key ` set es then map e_key es else map e_key es @ [Some k])"
  using assms
proof (induction es arbitrary: n)
  case (Cons e es)
  then obtain q where q: "e_key e = Some q" by auto
  show ?case
  proof (cases "q = k")
    case False
    then show ?thesis using Cons.IH [of "n + 1"] Cons.prems q by (auto split: if_splits)
  qed (use q in auto)
qed auto

lemma chain_remove_ok:
  assumes "distinct (map e_key es)"
  shows "(case chain_remove k es of
      None \<Rightarrow> Some k \<notin> e_key ` set es
    | Some es1 \<Rightarrow> Some k \<in> e_key ` set es \<and> (\<forall>q. chain_get q es1 = (if q = k then None else chain_get q es)) \<and>
        Some k \<notin> e_key ` set es1 \<and> set es1 \<subseteq> set es \<and> distinct (map e_key es1))"
  using assms
proof (induction es)
  case (Cons e es)
  then show ?case by (auto simp: chain_get_None split: option.splits)
qed simp

section \<open>The table is a map\<close>

text \<open>
  The interface: the contents of a well-formed table are a map from strings to addresses, which the operations
  read and change.
\<close>

locale string_map =
  fixes ok :: "'t \<Rightarrow> bool" and holds :: "'t \<Rightarrow> string \<Rightarrow> nat option"
    and get :: "string \<Rightarrow> 't \<Rightarrow> (nat \<times> 't) res" and ins :: "string \<Rightarrow> nat \<Rightarrow> 't \<Rightarrow> 't res"
    and rem :: "string \<Rightarrow> 't \<Rightarrow> (bool \<times> 't) res"
  assumes get_ok: "ok t \<Longrightarrow> \<exists>t1. get k t = Inr (case holds t k of None \<Rightarrow> 0 | Some v \<Rightarrow> v, t1) \<and> ok t1 \<and> holds t1 = holds t"
    and ins_ok: "ok t \<Longrightarrow> \<exists>t1. ins k v t = Inr t1 \<and> ok t1 \<and> holds t1 = (holds t)(k \<mapsto> v)"
    and rem_ok: "ok t \<Longrightarrow> \<exists>t1. rem k t = Inr (holds t k \<noteq> None, t1) \<and> ok t1 \<and> holds t1 = (holds t)(k := None)"
begin

text \<open>A lookup and an insertion one after the other, as a client does that wants the value before.\<close>

lemma get_then_ins:
  "ok t \<Longrightarrow> \<exists>t2. rbind (get k t) (\<lambda>(old, t1). rbind (ins k v t1) (\<lambda>t2. Inr (old, t2))) =
     Inr (case holds t k of None \<Rightarrow> 0 | Some v \<Rightarrow> v, t2) \<and> ok t2 \<and> holds t2 = (holds t)(k \<mapsto> v)"
proof -
  assume "ok t"
  from get_ok [OF this, of k] obtain t1 where g: "get k t = Inr (case holds t k of None \<Rightarrow> 0 | Some v \<Rightarrow> v, t1)" "ok t1"
    "holds t1 = holds t" by blast
  from ins_ok [OF g(2), of k v] g show ?thesis by auto
qed

end

lemma hash_get_ok:
  assumes "table_ok h"
  shows "\<exists>h1. hash_table_get k h = Inr (case content h k of None \<Rightarrow> 0 | Some v \<Rightarrow> v, h1) \<and> table_ok h1 \<and> content h1 = content h"
proof -
  have "table_ok (h\<lparr>n_hits := x\<rparr>) \<and> content (h\<lparr>n_hits := x\<rparr>) = content h"
    "table_ok (h\<lparr>n_misses := x\<rparr>) \<and> content (h\<lparr>n_misses := x\<rparr>) = content h" for x
    using assms by (auto simp: table_ok_def content_def fun_eq_iff)
  then show ?thesis using bucket_at [OF assms, of k] by (auto simp: hash_table_get_def split: option.splits)
qed

lemma hash_insert_ok:
  assumes "table_ok h"
  shows "\<exists>h1. hash_table_insert k v h = Inr h1 \<and> table_ok h1 \<and> content h1 = (content h)(k \<mapsto> v)"
proof -
  let ?i = "hash_index (n_buckets h) k"
  obtain b where b: "the_bucket h k = Inr b" "bucket_ok (n_buckets h) ?i b" using bucket_at [OF assms] by blast
  then obtain e es where es: "b = e # es" by (cases b) (auto simp: bucket_ok_def)
  note sb = set_bucket_ok [OF assms b(1)]
  show ?thesis
  proof (cases "e_key e")
    case None
    then have e0: "es = []" using b(2) es by (simp add: bucket_ok_def)
    let ?h = "h\<lparr>n_used_buckets := u32 (n_used_buckets h + 1), n_elements := u32 (n_elements h + 1)\<rparr>"
    have "bucket_ok (n_buckets h) ?i [\<lparr>e_key = Some k, e_data = v\<rparr>]" by (simp add: bucket_ok_def)
    from sb [OF this, of ?h] None e0 es b(1) show ?thesis by (simp add: hash_table_insert_def)
  next
    case (Some q)
    show ?thesis
    proof (cases "q = k")
      case True
      have "bucket_ok (n_buckets h) ?i (e\<lparr>e_data := v\<rparr> # es)" using b(2) es by (auto simp: bucket_ok_def)
      from sb [OF this, of h] True Some es b(1) show ?thesis by (simp add: hash_table_insert_def)
    next
      case False
      have "\<forall>e \<in> set es. e_key e \<noteq> None" using b(2) es by (simp add: bucket_ok_def)
      from chain_insert_ok [OF this, of k v 0] obtain es1 r where
        c: "chain_insert k v 0 es = Inr (es1, r)" "\<forall>q. chain_get q es1 = (if q = k then Some v else chain_get q es)"
          "map e_key es1 = (if Some k \<in> e_key ` set es then map e_key es else map e_key es @ [Some k])" by blast
      have bo: "bucket_ok (n_buckets h) ?i (e # es1)"
        using bucket_ok_added [OF _ Some False refl c(3)] b(2) es by blast
      have g: "chain_get q (e # es1) = chain_get q b" if "q \<noteq> k" for q using c(2) es that by simp
      have gk: "chain_get k (e # es1) = Some v" using c(2) False Some by simp
      show ?thesis
      proof (cases r)
        case None
        then show ?thesis using sb [OF bo g, of h] gk False Some es b(1) c(1) by (simp add: hash_table_insert_def)
      next
        case len: (Some n)
        let ?h = "h\<lparr>n_collisions := u32 (n_collisions h + 1),
          max_bucket_len := (if n > max_bucket_len h then n else max_bucket_len h), n_elements := u32 (n_elements h + 1)\<rparr>"
        show ?thesis using sb [OF bo g, of ?h] gk len False Some es b(1) c(1) by (simp add: hash_table_insert_def)
      qed
    qed
  qed
qed

lemma hash_remove_ok:
  assumes "table_ok h"
  shows "\<exists>h1. hash_table_remove k h = Inr (content h k \<noteq> None, h1) \<and> table_ok h1 \<and> content h1 = (content h)(k := None)"
proof -
  let ?i = "hash_index (n_buckets h) k"
  obtain b where b: "the_bucket h k = Inr b" "bucket_ok (n_buckets h) ?i b" "content h k = chain_get k b"
    using bucket_at [OF assms] by blast
  then obtain e es where es: "b = e # es" by (cases b) (auto simp: bucket_ok_def)
  note sb = set_bucket_ok [OF assms b(1), where ?h1.0 = h, OF _ _ refl refl]
  show ?thesis
  proof (cases "e_key e = Some k")
    case True
    let ?b = "if es = [] then [empty_entry] else es"
    have "bucket_ok (n_buckets h) ?i ?b" using bucket_ok_first_removed b(2) es by blast
    moreover have "chain_get q ?b = chain_get q b" if "q \<noteq> k" for q using es True that by (simp add: empty_entry_def)
    moreover have "chain_get k ?b = None" using b(2) es True by (auto simp: chain_get_None bucket_ok_def empty_entry_def)
    ultimately show ?thesis using sb [of ?b] b(1,3) es True by (auto simp: hash_table_remove_def)
  next
    case False
    have cr: "distinct (map e_key es)" using b(2) es by (simp add: bucket_ok_def)
    show ?thesis
    proof (cases "chain_remove k es")
      case None
      then have "content h k = None" using chain_remove_ok [OF cr, of k] b(3) es False by (auto simp: chain_get_None)
      then show ?thesis using None b(1) es False assms by (auto simp: hash_table_remove_def)
    next
      case (Some es1)
      then have c: "\<forall>q. chain_get q es1 = (if q = k then None else chain_get q es)" "set es1 \<subseteq> set es" "distinct (map e_key es1)"
        "Some k \<in> e_key ` set es" using chain_remove_ok [OF cr, of k] by auto
      have "es \<noteq> []" using c(4) by auto
      then have "bucket_ok (n_buckets h) ?i (e # es1)" using bucket_ok_removed [OF _ _ c(2,3)] b(2) es by blast
      moreover have "chain_get k b \<noteq> None" using c(4) es chain_get_None [of k b] by auto
      ultimately show ?thesis using sb [of "e # es1"] b(1,3) es c(1) False Some by (auto simp: hash_table_remove_def)
    qed
  qed
qed

interpretation opkg_map: string_map table_ok content hash_table_get hash_table_insert hash_table_remove
  by unfold_locales (rule hash_get_ok hash_insert_ok hash_remove_ok, assumption)+

lemma init_ok:
  assumes "0 < len" "entries h0 = None"
  shows "table_ok (snd (hash_table_init len h0))" "content (snd (hash_table_init len h0)) = Map.empty"
  using assms
  by (auto simp: hash_table_init_def table_ok_def bucket_ok_def content_def empty_entry_def hash_index_def)

section \<open>Sequences of operations\<close>

datatype map_op = Insert string nat | Remove string

fun table_run :: "map_op list \<Rightarrow> hash_table \<Rightarrow> hash_table res" where
  "table_run [] h = Inr h"
| "table_run (Insert k v # ops) h = rbind (hash_table_insert k v h) (table_run ops)"
| "table_run (Remove k # ops) h = rbind (hash_table_remove k h) (\<lambda>(_, h1). table_run ops h1)"

fun map_run :: "map_op list \<Rightarrow> (string \<Rightarrow> nat option) \<Rightarrow> (string \<Rightarrow> nat option)" where
  "map_run [] m = m"
| "map_run (Insert k v # ops) m = map_run ops (m(k \<mapsto> v))"
| "map_run (Remove k # ops) m = map_run ops (m(k := None))"

lemma table_run_ok: "table_ok h \<Longrightarrow> \<exists>h1. table_run ops h = Inr h1 \<and> table_ok h1 \<and> content h1 = map_run ops (content h)"
proof (induction ops arbitrary: h)
  case (Cons x ops)
  show ?case
  proof (cases x)
    case (Insert k v)
    then show ?thesis using opkg_map.ins_ok [OF Cons.prems, of k v] Cons.IH by fastforce
  next
    case (Remove k)
    then show ?thesis using opkg_map.rem_ok [OF Cons.prems, of k] Cons.IH by fastforce
  qed
qed simp

text \<open>
  C34: opkg's hash table is a finite map: after any sequence of insertions and removals on a new table, whatever keys
  collide, a lookup returns the address stored last under its key and not removed since, and the null pointer for
  every other key; no operation fails.
\<close>

theorem opkg_table_is_map:
  assumes "0 < len" "entries h0 = None"
  shows "\<exists>h h1. table_run ops (snd (hash_table_init len h0)) = Inr h \<and>
    hash_table_get k h = Inr (case map_run ops Map.empty k of None \<Rightarrow> 0 | Some v \<Rightarrow> v, h1)"
proof -
  from table_run_ok [OF init_ok(1) [OF assms], of ops] obtain h where
    h: "table_run ops (snd (hash_table_init len h0)) = Inr h" "table_ok h" "content h = map_run ops Map.empty"
    by (auto simp: init_ok(2) [OF assms])
  then show ?thesis using opkg_map.get_ok [OF h(2), of k] by auto
qed

definition raw_table :: hash_table where
  "raw_table = \<lparr>entries = None, n_buckets = 0, n_elements = 0, n_used_buckets = 0, n_collisions = 0, max_bucket_len = 0,
     n_hits = 0, n_misses = 0\<rparr>"

theorem opkg_table_is_map_witness:
  "\<exists>h h1. table_run [Insert ''a'' 1, Insert ''b'' 2, Remove ''a''] (snd (hash_table_init 1 raw_table)) = Inr h \<and>
     hash_table_get ''b'' h = Inr (2, h1)"
  using opkg_table_is_map [of 1 raw_table "[Insert ''a'' 1, Insert ''b'' 2, Remove ''a'']" "''b''"] by (simp add: raw_table_def)

text \<open>
  The table of file owners: setting the owner of a file returns the owner before, and afterwards this file, with or
  without the offline root in front of its name, has the new owner and every other file the one it had; directories
  get no owner.
\<close>

theorem file_owner_set:
  assumes "table_ok h" "name \<noteq> []"
  shows "\<exists>old h1. file_hash_set_file_owner root name owner h = Inr (old, h1) \<and> table_ok h1 \<and>
    (if last name = CHR ''/'' then content h1 = content h
     else content h1 = (content h)(strip_offline_root root name \<mapsto> owner) \<and>
       old = (case content h (strip_offline_root root name) of None \<Rightarrow> 0 | Some v \<Rightarrow> v) \<and>
       (\<forall>other. strip_offline_root root other = strip_offline_root root name \<longrightarrow>
          (\<exists>h2. file_hash_get_file_owner root other h1 = Inr (owner, h2))))"
proof (cases "last name = CHR ''/''")
  case True
  then show ?thesis using assms by (simp add: file_hash_set_file_owner_def)
next
  case False
  from opkg_map.get_then_ins [OF assms(1), of "strip_offline_root root name" owner] obtain h2 where
    h2: "file_hash_set_file_owner root name owner h =
      Inr (case content h (strip_offline_root root name) of None \<Rightarrow> 0 | Some v \<Rightarrow> v, h2)" "table_ok h2"
      "content h2 = (content h)(strip_offline_root root name \<mapsto> owner)"
    using False assms(2) by (auto simp: file_hash_set_file_owner_def Let_def)
  have "\<exists>h3. file_hash_get_file_owner root other h2 = Inr (owner, h3)"
    if "strip_offline_root root other = strip_offline_root root name" for other
    using opkg_map.get_ok [OF h2(2), of "strip_offline_root root other"] h2(3) that by (auto simp: file_hash_get_file_owner_def)
  then show ?thesis using h2 False by auto
qed

theorem file_owner_set_witness:
  "\<exists>old h1. file_hash_set_file_owner (Some ''/mnt'') ''/mnt/etc/x'' 7 (snd (hash_table_init 3 raw_table)) = Inr (old, h1) \<and>
     content h1 ''/etc/x'' = Some 7"
  using file_owner_set [OF init_ok(1) [of 3 raw_table], of "''/mnt/etc/x''" "Some ''/mnt''" 7]
  by (auto simp: raw_table_def strip_offline_root_def)

end
