(* ===== verification/Opkg_Build.thy ===== *)
theory Opkg_Build
  imports Opkg_Resolve Opkg_Hash
begin

text \<open>
  How opkg builds its database: \<open>hash_insert_pkg\<close> and the lookups of \<^verbatim>\<open>apps/opkg/libopkg/pkg_hash.c\<close>, the functions
  that build the relations between packages in \<^verbatim>\<open>pkg_depends.c\<close>, the vectors of \<^verbatim>\<open>pkg_vec.c\<close> and \<open>pkg_merge\<close> of
  \<^verbatim>\<open>pkg.c\<close>.

  The table of abstract packages is the list of the names in it: it is a hash table that behaves as a map
  (\<open>Opkg_Hash\<close>). A freed package keeps its address in \<open>freed\<close> until the allocator hands it out again. Descriptive
  texts, file lists and checksums of packages take no part and are left out.
\<close>

section \<open>State\<close>

record pkg_hash =
  names :: "string list"
  db :: pkg_db
  freed :: "nat list"

text \<open>What the parser of a control file leaves in a new package: its fields and the texts of its relations.\<close>

record control =
  ct_pkg :: pkg
  pre_depends_str :: "string list"
  depends_str :: "string list"
  recommends_str :: "string list"
  suggests_str :: "string list"
  conflicts_str :: "string list"
  replaces_str :: "string list"
  provides_str :: "string list"

definition abstract_pkg_new :: abstract_pkg where
  "abstract_pkg_new = \<lparr>a_pkgs = None, a_status = SS_NOT_INSTALLED, a_provided_by = [], a_replaced_by = [], a_depended_by = []\<rparr>"

definition pkg_hash_init :: "(nat \<Rightarrow> pkg) \<Rightarrow> pkg_hash" where
  "pkg_hash_init memory = \<lparr>names = [], db = \<lparr>pkg_at = (\<lambda>q. (memory q)\<lparr>p_parent := None\<rparr>), apkg_at = (\<lambda>_. abstract_pkg_new)\<rparr>, freed = []\<rparr>"

abbreviation the_pkg :: "pkg_hash \<Rightarrow> nat \<Rightarrow> pkg" where
  "the_pkg h \<equiv> pkg_at (db h)"

abbreviation the_apkg :: "pkg_hash \<Rightarrow> string \<Rightarrow> abstract_pkg" where
  "the_apkg h \<equiv> apkg_at (db h)"

definition set_pkg :: "nat \<Rightarrow> (pkg \<Rightarrow> pkg) \<Rightarrow> pkg_hash \<Rightarrow> pkg_hash" where
  "set_pkg p f h = h\<lparr>db := (db h)\<lparr>pkg_at := (the_pkg h)(p := f (the_pkg h p))\<rparr>\<rparr>"

definition set_apkg :: "string \<Rightarrow> (abstract_pkg \<Rightarrow> abstract_pkg) \<Rightarrow> pkg_hash \<Rightarrow> pkg_hash" where
  "set_apkg a f h = h\<lparr>db := (db h)\<lparr>apkg_at := (the_apkg h)(a := f (the_apkg h a))\<rparr>\<rparr>"

section \<open>Abstract packages\<close>

definition abstract_pkg_fetch_by_name :: "string \<Rightarrow> pkg_hash \<Rightarrow> string option" where
  "abstract_pkg_fetch_by_name n h = (if n \<in> set (names h) then Some n else None)"

definition add_new_abstract_pkg_by_name :: "string \<Rightarrow> pkg_hash \<Rightarrow> pkg_hash" where
  "add_new_abstract_pkg_by_name n h = set_apkg n (\<lambda>_. abstract_pkg_new) (h\<lparr>names := names h @ [n]\<rparr>)"

definition ensure_abstract_pkg_by_name :: "string \<Rightarrow> pkg_hash \<Rightarrow> pkg_hash" where
  "ensure_abstract_pkg_by_name n h =
     (if abstract_pkg_fetch_by_name n h = None then add_new_abstract_pkg_by_name n h else h)"

section \<open>Building the relations\<close>

text \<open>
  The loops of \<open>buildDepends\<close> and \<open>buildConflicts\<close>: every text is parsed, its names are entered, and the type
  is set if one is given.
\<close>

definition enter_names :: "compound_depend \<Rightarrow> pkg_hash \<Rightarrow> pkg_hash" where
  "enter_names cd h = fold (\<lambda>d. ensure_abstract_pkg_by_name (d_pkg d)) (possibilities cd) h"

fun build_list :: "depend_type option \<Rightarrow> string list \<Rightarrow> pkg_hash \<Rightarrow> (compound_depend list \<times> pkg_hash) res" where
  "build_list t [] h = Inr ([], h)"
| "build_list t (s # ss) h = rbind (parseDepends s) (\<lambda>cd.
     rbind (build_list t ss (enter_names cd h)) (\<lambda>(cds, h1).
       Inr ((case t of None \<Rightarrow> cd | Some u \<Rightarrow> cd\<lparr>cd_type := u\<rparr>) # cds, h1)))"

definition buildDepends :: "nat \<Rightarrow> control \<Rightarrow> pkg_hash \<Rightarrow> pkg_hash res" where
  "buildDepends p ct h =
     (if pre_depends_str ct = [] \<and> depends_str ct = [] \<and> recommends_str ct = [] \<and> suggests_str ct = [] then Inr h
      else rbind (build_list (Some PREDEPEND) (pre_depends_str ct) h) (\<lambda>(cds1, h).
           rbind (build_list None (depends_str ct) h) (\<lambda>(cds2, h).
           rbind (build_list (Some RECOMMEND) (recommends_str ct) h) (\<lambda>(cds3, h).
           rbind (build_list (Some SUGGEST) (suggests_str ct) h) (\<lambda>(cds4, h).
             Inr (set_pkg p (\<lambda>x. x\<lparr>p_depends := cds1 @ cds2 @ cds3 @ cds4\<rparr>) h))))))"

definition provide :: "string \<Rightarrow> string \<Rightarrow> pkg_hash \<Rightarrow> pkg_hash" where
  "provide a n h = set_apkg n (\<lambda>x. x\<lparr>a_provided_by := a_provided_by x @ [a]\<rparr>) (ensure_abstract_pkg_by_name n h)"

definition buildProvides :: "string \<Rightarrow> nat \<Rightarrow> string list \<Rightarrow> pkg_hash \<Rightarrow> pkg_hash" where
  "buildProvides a p strs h =
     (let h1 = set_apkg a (\<lambda>x. x\<lparr>a_provided_by := a_provided_by x @ [a]\<rparr>) h
      in set_pkg p (\<lambda>x. x\<lparr>p_provides := a # strs, p_provides_count := length strs + 1\<rparr>) (fold (provide a) strs h1))"

text \<open>The type that the code sets before the call is overwritten by \<open>parseDepends\<close>.\<close>

definition buildConflicts :: "nat \<Rightarrow> string list \<Rightarrow> pkg_hash \<Rightarrow> pkg_hash res" where
  "buildConflicts p strs h =
     (if strs = [] then Inr h
      else rbind (build_list None strs h) (\<lambda>(cds, h1). Inr (set_pkg p (\<lambda>x. x\<lparr>p_conflicts := cds\<rparr>) h1)))"

definition pkg_conflicts_abstract :: "pkg \<Rightarrow> string \<Rightarrow> bool" where
  "pkg_conflicts_abstract x conflictee \<longleftrightarrow>
     (\<exists>cd \<in> set (p_conflicts x). \<exists>d \<in> set (possibilities cd). d_pkg d = conflictee)"

definition replace :: "string \<Rightarrow> nat \<Rightarrow> string \<Rightarrow> pkg_hash \<Rightarrow> pkg_hash" where
  "replace a p n h =
     (let h1 = ensure_abstract_pkg_by_name n h in
      if pkg_conflicts_abstract (the_pkg h1 p) n
      then set_apkg n (\<lambda>x. x\<lparr>a_replaced_by := a_replaced_by x @ [a]\<rparr>) h1 else h1)"

definition buildReplaces :: "string \<Rightarrow> nat \<Rightarrow> string list \<Rightarrow> pkg_hash \<Rightarrow> pkg_hash" where
  "buildReplaces a p strs h =
     (if strs = [] then h else set_pkg p (\<lambda>x. x\<lparr>p_replaces := strs\<rparr>) (fold (replace a p) strs h))"

text \<open>The pairs of loops in \<open>buildDependedUponBy\<close>.\<close>

definition depended_names :: "pkg \<Rightarrow> string list" where
  "depended_names x = concat (map (\<lambda>cd. map d_pkg (possibilities cd))
     (filter (\<lambda>cd. cd_type cd = PREDEPEND \<or> cd_type cd = DEPEND \<or> cd_type cd = RECOMMEND) (p_depends x)))"

definition depended :: "string \<Rightarrow> string \<Rightarrow> pkg_hash \<Rightarrow> pkg_hash" where
  "depended a n h = set_apkg n (\<lambda>x. x\<lparr>a_depended_by := a_depended_by x @ [a]\<rparr>) h"

definition buildDependedUponBy :: "nat \<Rightarrow> string \<Rightarrow> pkg_hash \<Rightarrow> pkg_hash" where
  "buildDependedUponBy p a h = fold (depended a) (depended_names (the_pkg h p)) h"

section \<open>Inserting a package\<close>

text \<open>\<open>pkg_merge\<close>, called with the new package first.\<close>

definition pkg_merge :: "pkg \<Rightarrow> pkg \<Rightarrow> pkg" where
  "pkg_merge old new = old\<lparr>
     p_auto := p_auto old \<or> p_auto new,
     p_src := (if p_src old = 0 then p_src new else p_src old),
     p_dest := (if p_dest old = 0 then p_dest new else p_dest old),
     p_prio := (if p_prio old = 0 then p_prio new else p_prio old),
     p_depends := (if p_depends old = [] then p_depends new else p_depends old),
     p_provides_count := (if p_provides_count old \<le> 1 then p_provides_count new else p_provides_count old),
     p_provides := (if p_provides_count old \<le> 1 \<and> p_provides old = [] then p_provides new else p_provides old),
     p_conflicts := (if p_conflicts old = [] then p_conflicts new else p_conflicts old),
     p_replaces := (if p_replaces old = [] then p_replaces new else p_replaces old),
     p_essential := p_essential old \<or> p_essential new\<rparr>"

text \<open>The test for a duplicate; \<open>SF_HOLD\<close> is 2.\<close>

definition duplicate :: "pkg \<Rightarrow> pkg \<Rightarrow> bool" where
  "duplicate x y \<longleftrightarrow> p_name x = p_name y \<and>
     (p_want x = SW_DEINSTALL \<and> and (p_flag x) 2 \<noteq> 0 \<or>
      pkg_compare_versions (p_version x) (p_version y) = Inr 0 \<and> p_arch x = p_arch y)"

definition pkg_vec_insert_merge :: "nat list \<Rightarrow> nat \<Rightarrow> bool \<Rightarrow> pkg_hash \<Rightarrow> nat list \<times> pkg_hash" where
  "pkg_vec_insert_merge vec p set_status h =
     (let other = (\<lambda>q. \<not> duplicate (the_pkg h p) (the_pkg h q)) in
      case dropWhile other vec of
        [] \<Rightarrow> (vec @ [p], h)
      | q # r \<Rightarrow>
          let h1 = (if set_status \<and> p \<noteq> q then set_pkg p (\<lambda>x. pkg_merge x (the_pkg h q)) h else h)
          in (takeWhile other vec @ p # r, h1\<lparr>freed := q # freed h1\<rparr>))"

definition status_of :: "pkg \<Rightarrow> abstract_pkg \<Rightarrow> abstract_pkg" where
  "status_of x y = (if p_status x = SS_INSTALLED then y\<lparr>a_status := SS_INSTALLED\<rparr>
     else if p_status x = SS_UNPACKED then y\<lparr>a_status := SS_UNPACKED\<rparr> else y)"

definition vec_of :: "abstract_pkg \<Rightarrow> nat list" where
  "vec_of x = (case a_pkgs x of None \<Rightarrow> [] | Some v \<Rightarrow> v)"

text \<open>A new package has no relations yet.\<close>

definition parsed_pkg :: "control \<Rightarrow> pkg" where
  "parsed_pkg ct = (ct_pkg ct)\<lparr>p_depends := [], p_conflicts := [], p_replaces := [], p_provides := [], p_parent := None\<rparr>"

text \<open>The new package is at address \<open>p\<close>, which the allocator has handed out.\<close>

definition hash_insert_pkg :: "nat \<Rightarrow> control \<Rightarrow> bool \<Rightarrow> pkg_hash \<Rightarrow> pkg_hash res" where
  "hash_insert_pkg p ct set_status h0 =
     (let a = p_name (ct_pkg ct);
          h1 = ensure_abstract_pkg_by_name a (set_pkg p (\<lambda>_. parsed_pkg ct) (h0\<lparr>freed := removeAll p (freed h0)\<rparr>));
          h2 = set_apkg a (\<lambda>x. status_of (ct_pkg ct) (x\<lparr>a_pkgs := Some (vec_of x)\<rparr>)) h1
      in rbind (buildDepends p ct h2) (\<lambda>h3.
         rbind (buildConflicts p (conflicts_str ct) (buildProvides a p (provides_str ct) h3)) (\<lambda>h4.
           let h5 = buildDependedUponBy p a (buildReplaces a p (replaces_str ct) h4)
           in case pkg_vec_insert_merge (vec_of (the_apkg h5 a)) p set_status h5 of (vec, h6) \<Rightarrow>
                Inr (set_pkg p (\<lambda>x. x\<lparr>p_parent := Some a\<rparr>) (set_apkg a (\<lambda>x. x\<lparr>a_pkgs := Some vec\<rparr>) h6)))))"

section \<open>Lookups\<close>

definition pkg_vec_fetch_by_name :: "string \<Rightarrow> pkg_hash \<Rightarrow> nat list option" where
  "pkg_vec_fetch_by_name n h = (case abstract_pkg_fetch_by_name n h of
     None \<Rightarrow> None
   | Some a \<Rightarrow> (case a_pkgs (the_apkg h a) of
       Some v \<Rightarrow> Some v
     | None \<Rightarrow> (case a_provided_by (the_apkg h a) of [] \<Rightarrow> None | b # _ \<Rightarrow> a_pkgs (the_apkg h b))))"

text \<open>A package without a version string is a null pointer for \<open>strcmp\<close>.\<close>

fun find_version :: "string \<Rightarrow> nat list \<Rightarrow> pkg_hash \<Rightarrow> nat option res" where
  "find_version ver [] h = Inr None"
| "find_version ver (q # qs) h = (case pkg_version_str_alloc (p_version (the_pkg h q)) of
     None \<Rightarrow> Inl Overrun
   | Some s \<Rightarrow> if s = ver then Inr (Some q) else find_version ver qs h)"

definition pkg_hash_fetch_by_name_version :: "string \<Rightarrow> string \<Rightarrow> pkg_hash \<Rightarrow> nat option res" where
  "pkg_hash_fetch_by_name_version n ver h = (case pkg_vec_fetch_by_name n h of
     None \<Rightarrow> Inr None | Some vec \<Rightarrow> find_version ver vec h)"

definition pkg_hash_fetch_installed_by_name :: "string \<Rightarrow> pkg_hash \<Rightarrow> nat option" where
  "pkg_hash_fetch_installed_by_name n h = (case pkg_vec_fetch_by_name n h of
     None \<Rightarrow> None | Some vec \<Rightarrow> find (\<lambda>q. is_installed (p_status (the_pkg h q))) vec)"

definition pkg_hash_fetch_installed_by_name_dest :: "string \<Rightarrow> nat \<Rightarrow> pkg_hash \<Rightarrow> nat option" where
  "pkg_hash_fetch_installed_by_name_dest n dest h = (case pkg_vec_fetch_by_name n h of
     None \<Rightarrow> None | Some vec \<Rightarrow> find (\<lambda>q. is_installed (p_status (the_pkg h q)) \<and> p_dest (the_pkg h q) = dest) vec)"

definition pkg_hash_fetch_best_installation_candidate_by_name :: "qsort \<Rightarrow> string \<Rightarrow> pkg_hash \<Rightarrow> nat option" where
  "pkg_hash_fetch_best_installation_candidate_by_name qs n h = (case abstract_pkg_fetch_by_name n h of
     None \<Rightarrow> None
   | Some a \<Rightarrow> pkg_hash_fetch_best_installation_candidate qs (db h) a (\<lambda>q. p_name (the_pkg h q) = a) False)"

definition pkg_dependence_satisfiable :: "pkg_db \<Rightarrow> depend \<Rightarrow> bool" where
  "pkg_dependence_satisfiable d0 d \<longleftrightarrow>
     (\<exists>a \<in> set (a_provided_by (apkg_at d0 (d_pkg d))). \<exists>q \<in> set (vec_of (apkg_at d0 a)). satisfies d0 d q)"

definition pkg_dependence_satisfied :: "pkg_db \<Rightarrow> depend \<Rightarrow> bool" where
  "pkg_dependence_satisfied d0 d \<longleftrightarrow>
     (\<exists>a \<in> set (a_provided_by (apkg_at d0 (d_pkg d))). \<exists>q \<in> set (vec_of (apkg_at d0 a)).
        satisfies d0 d q \<and> is_installed (p_status (pkg_at d0 q)))"

text \<open>The loops over \<open>provides\<close> go up to \<open>provides_count\<close>.\<close>

fun provides_any :: "(string \<Rightarrow> bool) \<Rightarrow> nat \<Rightarrow> string list \<Rightarrow> bool res" where
  "provides_any P 0 ps = Inr False"
| "provides_any P (Suc n) [] = Inl Overrun"
| "provides_any P (Suc n) (x # ps) = (if P x then Inr True else provides_any P n ps)"

fun any_of :: "('a \<Rightarrow> bool res) \<Rightarrow> 'a list \<Rightarrow> bool res" where
  "any_of f [] = Inr False"
| "any_of f (x # xs) = rbind (f x) (\<lambda>b. if b then Inr True else any_of f xs)"

definition pkg_replaces :: "pkg \<Rightarrow> pkg \<Rightarrow> bool res" where
  "pkg_replaces x replacee =
     any_of (\<lambda>r. provides_any (\<lambda>n. n = r) (p_provides_count replacee) (p_provides replacee)) (p_replaces x)"

definition pkg_conflicts :: "pkg \<Rightarrow> pkg \<Rightarrow> bool res" where
  "pkg_conflicts x conflictee =
     any_of (\<lambda>d. provides_any (\<lambda>n. d_pkg d = n) (p_provides_count conflictee) (p_provides conflictee))
       (concat (map possibilities (p_conflicts x)))"

section \<open>What building the relations changes\<close>

definition blank_ok :: "pkg_hash \<Rightarrow> bool" where
  "blank_ok h \<longleftrightarrow> (\<forall>b. b \<notin> set (names h) \<longrightarrow> the_apkg h b = abstract_pkg_new)"

text \<open>The vector stays, and \<open>a\<close> may have been added to the lists.\<close>

definition extends :: "string \<Rightarrow> abstract_pkg \<Rightarrow> abstract_pkg \<Rightarrow> bool" where
  "extends a x y \<longleftrightarrow> a_pkgs y = a_pkgs x \<and>
     set (a_provided_by x) \<subseteq> set (a_provided_by y) \<and> set (a_provided_by y) \<subseteq> insert a (set (a_provided_by x)) \<and>
     set (a_replaced_by y) \<subseteq> insert a (set (a_replaced_by x)) \<and>
     set (a_depended_by x) \<subseteq> set (a_depended_by y) \<and> set (a_depended_by y) \<subseteq> insert a (set (a_depended_by x))"

definition grows :: "string \<Rightarrow> pkg_hash \<Rightarrow> pkg_hash \<Rightarrow> bool" where
  "grows a h h1 \<longleftrightarrow> set (names h) \<subseteq> set (names h1) \<and> freed h1 = freed h \<and> blank_ok h1 \<and>
     (\<forall>b. extends a (the_apkg h b) (the_apkg h1 b))"

lemma extends_refl: "extends a x x"
  by (auto simp: extends_def)

lemma extends_trans: "extends a x y \<Longrightarrow> extends a y z \<Longrightarrow> extends a x z"
  unfolding extends_def by (elim conjE) (intro conjI; (blast | simp))

lemma grows_refl: "blank_ok h \<Longrightarrow> grows a h h"
  by (simp add: grows_def extends_refl)

lemma grows_trans: "grows a h h1 \<Longrightarrow> grows a h1 h2 \<Longrightarrow> grows a h h2"
  unfolding grows_def using extends_trans by (metis subset_trans)

lemma grows_blank: "grows a h h1 \<Longrightarrow> blank_ok h1"
  by (simp add: grows_def)

lemma the_of_set [simp]:
  "the_pkg (set_apkg a f h) = the_pkg h" "names (set_apkg a f h) = names h" "freed (set_apkg a f h) = freed h"
  "the_apkg (set_apkg a f h) = (the_apkg h)(a := f (the_apkg h a))"
  "the_pkg (set_pkg p g h) = (the_pkg h)(p := g (the_pkg h p))" "names (set_pkg p g h) = names h"
  "freed (set_pkg p g h) = freed h" "the_apkg (set_pkg p g h) = the_apkg h"
  by (simp_all add: set_apkg_def set_pkg_def)

lemma grows_set_pkg: "blank_ok h \<Longrightarrow> grows a h (set_pkg p f h)"
  by (simp add: grows_def extends_refl blank_ok_def)

lemma ensure_names [simp]: "set (names (ensure_abstract_pkg_by_name n h)) = insert n (set (names h))"
  by (auto simp: ensure_abstract_pkg_by_name_def abstract_pkg_fetch_by_name_def add_new_abstract_pkg_by_name_def)

lemma ensure_keeps [simp]:
  "the_pkg (ensure_abstract_pkg_by_name n h) = the_pkg h" "freed (ensure_abstract_pkg_by_name n h) = freed h"
  by (simp_all add: ensure_abstract_pkg_by_name_def add_new_abstract_pkg_by_name_def)

lemma ensure_apkg: "blank_ok h \<Longrightarrow> the_apkg (ensure_abstract_pkg_by_name n h) = the_apkg h"
  by (auto simp: ensure_abstract_pkg_by_name_def abstract_pkg_fetch_by_name_def add_new_abstract_pkg_by_name_def blank_ok_def)

lemma ensure_grows: "blank_ok h \<Longrightarrow> grows a h (ensure_abstract_pkg_by_name n h)"
  by (auto simp: grows_def ensure_apkg extends_refl blank_ok_def)

lemma fold_grows:
  assumes "\<And>x h. x \<in> set xs \<Longrightarrow> blank_ok h \<Longrightarrow> grows a h (f x h)" "blank_ok h"
  shows "grows a h (fold f xs h)"
  using assms
proof (induction xs arbitrary: h)
  case (Cons x xs)
  have "grows a h (f x h)" using Cons.prems by simp
  with Cons.IH [of "f x h"] Cons.prems show ?case using grows_trans grows_blank by (metis fold_simps(2) list.set_intros(2))
qed (simp add: grows_refl)

lemma fold_the_pkg: "(\<And>x h. the_pkg (f x h) = the_pkg h) \<Longrightarrow> the_pkg (fold f xs h) = the_pkg h"
  by (induction xs arbitrary: h) auto

lemma enter_names_facts:
  assumes "blank_ok h"
  shows "grows a h (enter_names cd h)" "the_pkg (enter_names cd h) = the_pkg h"
    "d \<in> set (possibilities cd) \<Longrightarrow> d_pkg d \<in> set (names (enter_names cd h))"
proof -
  show "grows a h (enter_names cd h)" unfolding enter_names_def by (intro fold_grows ensure_grows assms)
  show "the_pkg (enter_names cd h) = the_pkg h" by (simp add: enter_names_def fold_the_pkg)
  have "set (names (fold (\<lambda>d. ensure_abstract_pkg_by_name (d_pkg d)) ds h)) = d_pkg ` set ds \<union> set (names h)" for ds :: "depend list"
    by (induction ds arbitrary: h) auto
  then show "d \<in> set (possibilities cd) \<Longrightarrow> d_pkg d \<in> set (names (enter_names cd h))" by (simp add: enter_names_def)
qed

text \<open>The names in a list of relations.\<close>

definition rel_names :: "compound_depend list \<Rightarrow> string set" where
  "rel_names cds = (\<Union>cd \<in> set cds. d_pkg ` set (possibilities cd))"

lemma build_list_facts:
  assumes "build_list t ss h = Inr (cds, h1)" "blank_ok h"
  shows "grows a h h1 \<and> the_pkg h1 = the_pkg h \<and> rel_names cds \<subseteq> set (names h1)"
  using assms
proof (induction ss arbitrary: cds h)
  case (Cons s ss)
  from Cons.prems obtain cd cds2 where c: "build_list t ss (enter_names cd h) = Inr (cds2, h1)"
    "cds = (case t of None \<Rightarrow> cd | Some u \<Rightarrow> cd\<lparr>cd_type := u\<rparr>) # cds2"
    by (auto simp: rbind_eq_Inr)
  note e = enter_names_facts [OF Cons.prems(2), where cd = cd]
  have ih: "grows a (enter_names cd h) h1" "the_pkg h1 = the_pkg (enter_names cd h)" "rel_names cds2 \<subseteq> set (names h1)"
    using Cons.IH [OF c(1)] e(1) grows_blank by blast+
  have "d_pkg ` set (possibilities cd) \<subseteq> set (names h1)" using e(3) ih(1) by (auto simp: grows_def)
  moreover have "grows a h h1" using e(1) ih(1) by (rule grows_trans)
  ultimately show ?case using c(2) ih e(2) by (auto simp: rel_names_def split: option.splits)
qed (auto simp: grows_refl rel_names_def)

lemma append_grows:
  assumes "blank_ok h" "n \<in> set (names h)" "extends a (the_apkg h n) (f (the_apkg h n))"
  shows "grows a h (set_apkg n f h)"
  using assms by (auto simp: grows_def blank_ok_def extends_refl)

lemma provide_facts:
  assumes "blank_ok h"
  shows "grows a h (provide a n h)" "the_pkg (provide a n h) = the_pkg h" "a \<in> set (a_provided_by (the_apkg (provide a n h) n))"
proof -
  have e: "grows a h (ensure_abstract_pkg_by_name n h)" using assms by (rule ensure_grows)
  have "grows a (ensure_abstract_pkg_by_name n h) (provide a n h)"
    unfolding provide_def by (rule append_grows [OF grows_blank [OF e]]) (auto simp: extends_def)
  with e show "grows a h (provide a n h)" by (rule grows_trans)
qed (simp_all add: provide_def)

lemma fold_provide:
  assumes "blank_ok h"
  shows "n \<in> set ns \<Longrightarrow> a \<in> set (a_provided_by (the_apkg (fold (provide a) ns h) n))"
  using assms
proof (induction ns arbitrary: h)
  case (Cons m ns)
  note p = provide_facts [OF Cons.prems(2), of a m]
  have g: "grows a (provide a m h) (fold (provide a) ns (provide a m h))"
    by (intro fold_grows provide_facts(1) grows_blank [OF p(1)])
  then have "set (a_provided_by (the_apkg (provide a m h) m)) \<subseteq> set (a_provided_by (the_apkg (fold (provide a) ns (provide a m h)) m))"
    by (simp add: grows_def extends_def)
  with p(3) Cons.IH [OF _ grows_blank [OF p(1)]] Cons.prems show ?case by auto
qed simp

lemma buildProvides_facts:
  assumes "blank_ok h" "a \<in> set (names h)"
  shows "grows a h (buildProvides a p strs h)"
    "the_pkg (buildProvides a p strs h) =
      (the_pkg h)(p := (the_pkg h p)\<lparr>p_provides := a # strs, p_provides_count := length strs + 1\<rparr>)"
    "n \<in> set (a # strs) \<Longrightarrow> a \<in> set (a_provided_by (the_apkg (buildProvides a p strs h) n))"
proof -
  let ?h1 = "set_apkg a (\<lambda>x. x\<lparr>a_provided_by := a_provided_by x @ [a]\<rparr>) h"
  have g1: "grows a h ?h1" using assms by (intro append_grows) (auto simp: extends_def)
  have g2: "grows a ?h1 (fold (provide a) strs ?h1)" by (intro fold_grows provide_facts(1) grows_blank [OF g1])
  show "grows a h (buildProvides a p strs h)"
    unfolding buildProvides_def Let_def
    by (rule grows_trans [OF g1 grows_trans [OF g2 grows_set_pkg [OF grows_blank [OF g2]]]])
  have "the_pkg (fold (provide a) strs ?h1) = the_pkg h" by (simp add: fold_the_pkg provide_def)
  then show "the_pkg (buildProvides a p strs h) =
      (the_pkg h)(p := (the_pkg h p)\<lparr>p_provides := a # strs, p_provides_count := length strs + 1\<rparr>)"
    by (simp add: buildProvides_def)
  have "set (a_provided_by (the_apkg ?h1 a)) \<subseteq> set (a_provided_by (the_apkg (fold (provide a) strs ?h1) a))"
    using g2 by (simp only: grows_def extends_def)
  then show "n \<in> set (a # strs) \<Longrightarrow> a \<in> set (a_provided_by (the_apkg (buildProvides a p strs h) n))"
    using fold_provide [OF grows_blank [OF g1], of n strs] by (auto simp: buildProvides_def)
qed

lemma replace_facts:
  assumes "blank_ok h"
  shows "grows a h (replace a p n h)" "the_pkg (replace a p n h) = the_pkg h"
proof -
  have e: "grows a h (ensure_abstract_pkg_by_name n h)" using assms by (rule ensure_grows)
  have "grows a (ensure_abstract_pkg_by_name n h) (replace a p n h)"
    unfolding replace_def Let_def using grows_refl [OF grows_blank [OF e]]
    by (auto intro!: append_grows [OF grows_blank [OF e]] simp: extends_def)
  with e show "grows a h (replace a p n h)" by (rule grows_trans)
qed (simp add: replace_def Let_def)

lemma buildReplaces_facts:
  assumes "blank_ok h" "p_replaces (the_pkg h p) = []"
  shows "grows a h (buildReplaces a p strs h)"
    "the_pkg (buildReplaces a p strs h) = (the_pkg h)(p := (the_pkg h p)\<lparr>p_replaces := strs\<rparr>)"
proof -
  have g: "grows a h (fold (replace a p) strs h)" by (intro fold_grows replace_facts(1) assms)
  then show "grows a h (buildReplaces a p strs h)"
    unfolding buildReplaces_def using assms(1) by (auto intro: grows_refl grows_trans grows_set_pkg grows_blank)
  have "the_pkg (fold (replace a p) strs h) = the_pkg h" by (rule fold_the_pkg) (simp add: replace_def Let_def)
  then show "the_pkg (buildReplaces a p strs h) = (the_pkg h)(p := (the_pkg h p)\<lparr>p_replaces := strs\<rparr>)"
    using assms(2) by (cases "the_pkg h p") (auto simp: buildReplaces_def)
qed

lemma buildConflicts_facts:
  assumes "buildConflicts p strs h = Inr h1" "blank_ok h" "p_conflicts (the_pkg h p) = []"
  shows "grows a h h1 \<and> (\<exists>cds. the_pkg h1 = (the_pkg h)(p := (the_pkg h p)\<lparr>p_conflicts := cds\<rparr>) \<and> rel_names cds \<subseteq> set (names h1))"
proof (cases "strs = []")
  case True
  then show ?thesis using assms
    by (intro conjI exI [of _ "[]"]; cases "the_pkg h p") (auto simp: buildConflicts_def grows_refl rel_names_def)
next
  case False
  with assms(1) obtain cds h2 where b: "build_list None strs h = Inr (cds, h2)"
    "h1 = set_pkg p (\<lambda>x. x\<lparr>p_conflicts := cds\<rparr>) h2" by (auto simp: buildConflicts_def rbind_eq_Inr)
  from build_list_facts [OF b(1) assms(2), of a] show ?thesis
    using b(2) grows_trans [OF _ grows_set_pkg] grows_blank by (intro conjI exI [of _ cds]) auto
qed

lemma buildDepends_facts:
  assumes "buildDepends p ct h = Inr h1" "blank_ok h" "p_depends (the_pkg h p) = []"
  shows "grows a h h1 \<and> (\<exists>cds. the_pkg h1 = (the_pkg h)(p := (the_pkg h p)\<lparr>p_depends := cds\<rparr>) \<and> rel_names cds \<subseteq> set (names h1))"
proof (cases "pre_depends_str ct = [] \<and> depends_str ct = [] \<and> recommends_str ct = [] \<and> suggests_str ct = []")
  case True
  then show ?thesis using assms
    by (intro conjI exI [of _ "[]"]; cases "the_pkg h p") (auto simp: buildDepends_def grows_refl rel_names_def)
next
  case False
  with assms(1) obtain c1 h2 c2 h3 c3 h4 c4 h5 where b: "build_list (Some PREDEPEND) (pre_depends_str ct) h = Inr (c1, h2)"
    "build_list None (depends_str ct) h2 = Inr (c2, h3)" "build_list (Some RECOMMEND) (recommends_str ct) h3 = Inr (c3, h4)"
    "build_list (Some SUGGEST) (suggests_str ct) h4 = Inr (c4, h5)"
    "h1 = set_pkg p (\<lambda>x. x\<lparr>p_depends := c1 @ c2 @ c3 @ c4\<rparr>) h5"
    by (auto simp: buildDepends_def rbind_eq_Inr)
  note f1 = build_list_facts [OF b(1) assms(2), of a]
  note f2 = build_list_facts [OF b(2), of a] and f3 = build_list_facts [OF b(3), of a] and f4 = build_list_facts [OF b(4), of a]
  have g: "grows a h h2" "grows a h2 h3" "grows a h3 h4" "grows a h4 h5" using f1 f2 f3 f4 grows_blank by blast+
  then have "set (names h2) \<subseteq> set (names h3)" "set (names h3) \<subseteq> set (names h4)" "set (names h4) \<subseteq> set (names h5)"
    by (simp_all add: grows_def)
  moreover have "rel_names (c1 @ c2 @ c3 @ c4) = rel_names c1 \<union> rel_names c2 \<union> rel_names c3 \<union> rel_names c4"
    by (auto simp: rel_names_def)
  ultimately have "rel_names (c1 @ c2 @ c3 @ c4) \<subseteq> set (names h5)"
    using f1 f2 f3 f4 g grows_blank by blast
  moreover have "the_pkg h5 = the_pkg h" using f1 f2 f3 f4 g grows_blank by metis
  moreover have "grows a h h5" using g grows_trans by blast
  ultimately show ?thesis using b(5) grows_trans [OF _ grows_set_pkg] grows_blank
    by (intro conjI exI [of _ "c1 @ c2 @ c3 @ c4"]) auto
qed

lemma buildDependedUponBy_facts:
  assumes "blank_ok h" "rel_names (p_depends (the_pkg h p)) \<subseteq> set (names h)"
  shows "grows a h (buildDependedUponBy p a h)" "the_pkg (buildDependedUponBy p a h) = the_pkg h"
    "n \<in> set (depended_names (the_pkg h p)) \<Longrightarrow> a \<in> set (a_depended_by (the_apkg (buildDependedUponBy p a h) n))"
proof -
  have f: "set ns \<subseteq> set (names h) \<Longrightarrow> blank_ok h \<Longrightarrow> grows a h (fold (depended a) ns h) \<and>
    (\<forall>n \<in> set ns. a \<in> set (a_depended_by (the_apkg (fold (depended a) ns h) n)))" for ns h
  proof (induction ns arbitrary: h)
    case (Cons m ns)
    have g: "grows a h (depended a m h)"
      unfolding depended_def using Cons.prems by (intro append_grows) (auto simp: extends_def)
    have "set ns \<subseteq> set (names (depended a m h))" using Cons.prems by (simp add: depended_def)
    note ih = Cons.IH [OF this grows_blank [OF g]]
    then have "set (a_depended_by (the_apkg (depended a m h) m)) \<subseteq> set (a_depended_by (the_apkg (fold (depended a) (m # ns) h) m))"
      by (simp add: grows_def extends_def)
    then have "a \<in> set (a_depended_by (the_apkg (fold (depended a) (m # ns) h) m))" by (auto simp: depended_def)
    with ih g show ?case using grows_trans by auto
  qed (simp add: grows_refl)
  have "set (depended_names (the_pkg h p)) \<subseteq> rel_names (p_depends (the_pkg h p))"
    by (auto simp: depended_names_def rel_names_def)
  then have "set (depended_names (the_pkg h p)) \<subseteq> set (names h)" using assms(2) by blast
  from f [OF this assms(1)] show "grows a h (buildDependedUponBy p a h)"
    "n \<in> set (depended_names (the_pkg h p)) \<Longrightarrow> a \<in> set (a_depended_by (the_apkg (buildDependedUponBy p a h) n))"
    by (simp_all add: buildDependedUponBy_def)
  show "the_pkg (buildDependedUponBy p a h) = the_pkg h"
    unfolding buildDependedUponBy_def by (rule fold_the_pkg) (simp add: depended_def)
qed

section \<open>The invariant of the database\<close>

text \<open>
  What the database knows about a package of the abstract package \<open>b\<close>: it is listed as a provider of all that the
  package provides, the names in its relations are known, and it is listed as a dependent of every name it needs.
\<close>

definition related :: "pkg_hash \<Rightarrow> string \<Rightarrow> pkg \<Rightarrow> bool" where
  "related h b x \<longleftrightarrow> p_name x = b \<and> (\<forall>n \<in> set (p_provides x). b \<in> set (a_provided_by (the_apkg h n))) \<and>
     rel_names (p_depends x) \<subseteq> set (names h) \<and> rel_names (p_conflicts x) \<subseteq> set (names h) \<and>
     (\<forall>n \<in> set (depended_names x). b \<in> set (a_depended_by (the_apkg h n)))"

definition member_ok :: "pkg_hash \<Rightarrow> string \<Rightarrow> nat \<Rightarrow> bool" where
  "member_ok h b q \<longleftrightarrow> q \<notin> set (freed h) \<and> p_parent (the_pkg h q) = Some b \<and> related h b (the_pkg h q)"

definition db_ok :: "pkg_hash \<Rightarrow> bool" where
  "db_ok h \<longleftrightarrow> blank_ok h \<and>
     (\<forall>q c. p_parent (the_pkg h q) = Some c \<longrightarrow> c \<in> set (names h)) \<and>
     (\<forall>b v. a_pkgs (the_apkg h b) = Some v \<longrightarrow>
        distinct v \<and> b \<in> set (a_provided_by (the_apkg h b)) \<and> (\<forall>q \<in> set v. member_ok h b q)) \<and>
     (\<forall>b c. c \<in> set (a_provided_by (the_apkg h b)) \<union> set (a_replaced_by (the_apkg h b)) \<union> set (a_depended_by (the_apkg h b)) \<longrightarrow>
        a_pkgs (the_apkg h c) \<noteq> None)"

definition unused :: "nat \<Rightarrow> pkg_hash \<Rightarrow> bool" where
  "unused p h \<longleftrightarrow> (\<forall>b. p \<notin> set (vec_of (the_apkg h b)))"

text \<open>The databases that arise from any sequence of insertions, with addresses that the allocator may hand out.\<close>

inductive loaded :: "pkg_hash \<Rightarrow> bool" where
  start: "loaded (pkg_hash_init memory)"
| insert: "loaded h \<Longrightarrow> unused p h \<Longrightarrow> hash_insert_pkg p ct set_status h = Inr h1 \<Longrightarrow> loaded h1"

lemma related_mono:
  assumes "related h b x" "set (names h) \<subseteq> set (names h1)"
    and "\<And>n. set (a_provided_by (the_apkg h n)) \<subseteq> set (a_provided_by (the_apkg h1 n))"
    and "\<And>n. set (a_depended_by (the_apkg h n)) \<subseteq> set (a_depended_by (the_apkg h1 n))"
  shows "related h1 b x"
  using assms unfolding related_def by blast

lemma related_merge: "related h b x \<Longrightarrow> related h b y \<Longrightarrow> related h b (pkg_merge x y)"
  by (auto simp: related_def pkg_merge_def depended_names_def)

lemma related_parent [simp]: "related h b (x\<lparr>p_parent := c\<rparr>) = related h b x"
  by (simp add: related_def depended_names_def)

text \<open>The state before the package is put into the vector.\<close>

lemma insert_relations:
  assumes "hash_insert_pkg p ct set_status h = Inr h1" "blank_ok h" "a = p_name (ct_pkg ct)"
  obtains h5 x vec h6 where "pkg_vec_insert_merge (vec_of (the_apkg h a)) p set_status h5 = (vec, h6)"
    "h1 = set_pkg p (\<lambda>x. x\<lparr>p_parent := Some a\<rparr>) (set_apkg a (\<lambda>x. x\<lparr>a_pkgs := Some vec\<rparr>) h6)"
    "the_pkg h5 = (the_pkg h)(p := x)" "freed h5 = removeAll p (freed h)" "insert a (set (names h)) \<subseteq> set (names h5)"
    "blank_ok h5" "related h5 a x" "a \<in> set (p_provides x)" "p_version x = p_version (ct_pkg ct)"
    "\<And>b. extends a ((the_apkg h b)\<lparr>a_pkgs := a_pkgs (the_apkg h5 b)\<rparr>) (the_apkg h5 b)"
    "\<And>b. b \<noteq> a \<Longrightarrow> a_pkgs (the_apkg h5 b) = a_pkgs (the_apkg h b)"
    "p_want x = p_want (ct_pkg ct)" "p_flag x = p_flag (ct_pkg ct)" "p_arch x = p_arch (ct_pkg ct)"
proof -
  define h0 where "h0 = set_pkg p (\<lambda>_. parsed_pkg ct) (h\<lparr>freed := removeAll p (freed h)\<rparr>)"
  define h2 where "h2 = set_apkg a (\<lambda>x. status_of (ct_pkg ct) (x\<lparr>a_pkgs := Some (vec_of x)\<rparr>)) (ensure_abstract_pkg_by_name a h0)"
  have b0: "blank_ok h0" using assms(2) by (simp add: h0_def blank_ok_def)
  have n2: "set (names h2) = insert a (set (names h))" by (simp add: h2_def h0_def)
  have a2: "the_apkg h2 = (the_apkg h)(a := status_of (ct_pkg ct) ((the_apkg h a)\<lparr>a_pkgs := Some (vec_of (the_apkg h a))\<rparr>))"
    using ensure_apkg [OF b0] by (simp add: h2_def h0_def)
  have p2: "the_pkg h2 = (the_pkg h)(p := parsed_pkg ct)" "freed h2 = removeAll p (freed h)" by (simp_all add: h2_def h0_def)
  have b2: "blank_ok h2" using assms(2) n2 a2 by (simp add: blank_ok_def)
  from assms(1) obtain h3 h4 where s: "buildDepends p ct h2 = Inr h3"
    "buildConflicts p (conflicts_str ct) (buildProvides a p (provides_str ct) h3) = Inr h4"
    "h1 = (case pkg_vec_insert_merge (vec_of (the_apkg (buildDependedUponBy p a (buildReplaces a p (replaces_str ct) h4)) a)) p
        set_status (buildDependedUponBy p a (buildReplaces a p (replaces_str ct) h4)) of (vec, h6) \<Rightarrow>
        set_pkg p (\<lambda>x. x\<lparr>p_parent := Some a\<rparr>) (set_apkg a (\<lambda>x. x\<lparr>a_pkgs := Some vec\<rparr>) h6))"
    by (auto simp: hash_insert_pkg_def Let_def rbind_eq_Inr h2_def h0_def assms(3) case_prod_unfold)
  obtain c1 where d: "grows a h2 h3" "the_pkg h3 = (the_pkg h2)(p := (the_pkg h2 p)\<lparr>p_depends := c1\<rparr>)" "rel_names c1 \<subseteq> set (names h3)"
    using buildDepends_facts [OF s(1) b2, of a] p2 by (auto simp: parsed_pkg_def)
  define hp where "hp = buildProvides a p (provides_str ct) h3"
  have "a \<in> set (names h3)" using d(1) n2 by (auto simp: grows_def)
  note pr = buildProvides_facts [OF grows_blank [OF d(1)] this, where p = p and strs = "provides_str ct", folded hp_def]
  obtain c2 where c: "grows a hp h4" "the_pkg h4 = (the_pkg hp)(p := (the_pkg hp p)\<lparr>p_conflicts := c2\<rparr>)" "rel_names c2 \<subseteq> set (names h4)"
    using buildConflicts_facts [OF s(2) [folded hp_def] grows_blank [OF pr(1)], of a] pr(2) d(2) p2 by (auto simp: parsed_pkg_def)
  define hr where "hr = buildReplaces a p (replaces_str ct) h4"
  have r: "grows a h4 hr" "the_pkg hr = (the_pkg h4)(p := (the_pkg h4 p)\<lparr>p_replaces := replaces_str ct\<rparr>)"
    using buildReplaces_facts [OF grows_blank [OF c(1)], of p a "replaces_str ct"] c(2) pr(2) d(2) p2
    by (simp_all add: hr_def parsed_pkg_def)
  define h5 where "h5 = buildDependedUponBy p a hr"
  define x where "x = the_pkg h5 p"
  have nm: "set (names h3) \<subseteq> set (names hr)" "set (names h4) \<subseteq> set (names hr)" using pr(1) c(1) r(1) by (auto simp: grows_def)
  have pd: "p_depends (the_pkg hr p) = c1" using r(2) c(2) pr(2) d(2) by simp
  then have "rel_names (p_depends (the_pkg hr p)) \<subseteq> set (names hr)" using d(3) nm by auto
  note u = buildDependedUponBy_facts [OF grows_blank [OF r(1)] this, where a = a, folded h5_def]
  have gp: "grows a hp h5" using c(1) r(1) u(1) grows_trans by blast
  then have g: "grows a h2 h5" using d(1) pr(1) grows_trans by blast
  have x: "the_pkg h5 = (the_pkg h)(p := x)" "p_name x = a" "p_provides x = a # provides_str ct" "p_depends x = c1" "p_conflicts x = c2"
    "p_version x = p_version (ct_pkg ct)" "p_want x = p_want (ct_pkg ct)" "p_flag x = p_flag (ct_pkg ct)" "p_arch x = p_arch (ct_pkg ct)"
    using u(2) r(2) c(2) pr(2) d(2) p2 assms(3) by (auto simp: x_def parsed_pkg_def fun_eq_iff)
  have ap: "a_pkgs (the_apkg h5 b) = a_pkgs (the_apkg h2 b)" for b using g by (simp add: grows_def extends_def)
  show thesis
  proof (rule that [of h5 _ _ x])
    have "vec_of (the_apkg h5 a) = vec_of (the_apkg h a)" using ap [of a] a2 by (simp add: vec_of_def status_of_def)
    then show "pkg_vec_insert_merge (vec_of (the_apkg h a)) p set_status h5 =
        (fst (pkg_vec_insert_merge (vec_of (the_apkg h5 a)) p set_status h5), snd (pkg_vec_insert_merge (vec_of (the_apkg h5 a)) p set_status h5))"
      by simp
    show "h1 = set_pkg p (\<lambda>x. x\<lparr>p_parent := Some a\<rparr>) (set_apkg a (\<lambda>x. x\<lparr>a_pkgs := Some (fst (pkg_vec_insert_merge (vec_of (the_apkg h5 a)) p set_status h5))\<rparr>)
        (snd (pkg_vec_insert_merge (vec_of (the_apkg h5 a)) p set_status h5)))"
      using s(3) by (simp add: h5_def hr_def case_prod_unfold)
    show "freed h5 = removeAll p (freed h)" "blank_ok h5" using g p2(2) by (simp_all add: grows_def)
    show "insert a (set (names h)) \<subseteq> set (names h5)" using g n2 by (simp add: grows_def)
    have "rel_names c1 \<subseteq> set (names h5)" "rel_names c2 \<subseteq> set (names h5)" using d(3) c(3) nm u(1) by (auto simp: grows_def)
    moreover have "a \<in> set (a_provided_by (the_apkg h5 n))" if "n \<in> set (a # provides_str ct)" for n
      using pr(3) [OF that] gp by (auto simp: grows_def extends_def)
    moreover have "depended_names x = depended_names (the_pkg hr p)" using x(4) pd by (simp add: depended_names_def)
    ultimately show "related h5 a x" using x u(3) by (auto simp: related_def)
    show "extends a ((the_apkg h b)\<lparr>a_pkgs := a_pkgs (the_apkg h5 b)\<rparr>) (the_apkg h5 b)" for b
      using g a2 by (auto simp: grows_def extends_def status_of_def split: if_splits)
    show "b \<noteq> a \<Longrightarrow> a_pkgs (the_apkg h5 b) = a_pkgs (the_apkg h b)" for b using ap a2 by simp
  qed (use x in auto)
qed

text \<open>The two ways in which the vector changes: the package is added, or it takes the place of a duplicate.\<close>

lemma insert_merge_cases:
  assumes "pkg_vec_insert_merge vec p set_status h = (vec1, h1)" "p \<notin> set vec"
  obtains (Added) "vec1 = vec @ [p]" "h1 = h"
  | (Merged) pre q post x where "vec = pre @ q # post" "vec1 = pre @ p # post" "the_pkg h1 = (the_pkg h)(p := x)"
      "x = the_pkg h p \<or> x = pkg_merge (the_pkg h p) (the_pkg h q)" "names h1 = names h" "the_apkg h1 = the_apkg h"
      "freed h1 = q # freed h" "duplicate (the_pkg h p) (the_pkg h q)"
proof (cases "dropWhile (\<lambda>q. \<not> duplicate (the_pkg h p) (the_pkg h q)) vec")
  case Nil
  from assms(1) have "vec1 = vec @ [p] \<and> h1 = h" unfolding pkg_vec_insert_merge_def Let_def Nil by simp
  then show thesis using Added by blast
next
  case (Cons q r)
  let ?t = "takeWhile (\<lambda>q. \<not> duplicate (the_pkg h p) (the_pkg h q)) vec"
  have v: "vec = ?t @ q # r" using Cons takeWhile_dropWhile_id by metis
  then have "q \<in> set vec" by (metis in_set_conv_decomp)
  then have "p \<noteq> q" using assms(2) by blast
  moreover have "duplicate (the_pkg h p) (the_pkg h q)" using Cons by (metis dropWhile_eq_Cons_conv)
  ultimately show thesis using assms(1) Cons
    by (intro Merged [OF v, where x = "if set_status then pkg_merge (the_pkg h p) (the_pkg h q) else the_pkg h p"])
      (auto simp: pkg_vec_insert_merge_def Let_def)
qed

lemma vec_of_Some: "q \<in> set (vec_of x) \<longleftrightarrow> (\<exists>v. a_pkgs x = Some v \<and> q \<in> set v)"
  by (cases "a_pkgs x") (auto simp: vec_of_def)

lemma hash_insert_members:
  assumes "hash_insert_pkg p ct set_status h = Inr h1" "db_ok h" "unused p h" "a = p_name (ct_pkg ct)"
  obtains vec where "a_pkgs (the_apkg h1 a) = Some vec" "distinct vec" "p \<in> set vec" "set vec \<subseteq> insert p (set (vec_of (the_apkg h a)))"
    "\<And>b. b \<noteq> a \<Longrightarrow> a_pkgs (the_apkg h1 b) = a_pkgs (the_apkg h b)"
    "\<And>q. q \<noteq> p \<Longrightarrow> the_pkg h1 q = the_pkg h q" "p_parent (the_pkg h1 p) = Some a" "related h1 a (the_pkg h1 p)"
    "p_version (the_pkg h1 p) = p_version (ct_pkg ct)" "a \<in> set (p_provides (the_pkg h1 p))"
    "\<And>b. extends a ((the_apkg h b)\<lparr>a_pkgs := a_pkgs (the_apkg h1 b)\<rparr>) (the_apkg h1 b)"
    "insert a (set (names h)) \<subseteq> set (names h1)" "blank_ok h1" "set (freed h1) \<inter> insert p (set vec) = {}"
    "\<And>b q. b \<noteq> a \<Longrightarrow> q \<in> set (vec_of (the_apkg h b)) \<Longrightarrow> q \<notin> set (freed h1)"
proof -
  let ?v = "vec_of (the_apkg h a)"
  have bl: "blank_ok h" using assms(2) by (simp add: db_ok_def)
  have mem: "q \<in> set (vec_of (the_apkg h b)) \<Longrightarrow> member_ok h b q" for b q
    using assms(2) by (auto simp: db_ok_def vec_of_Some)
  have dv: "distinct ?v" "p \<notin> set ?v" using assms(2,3) by (auto simp: db_ok_def unused_def vec_of_def split: option.splits)
  from insert_relations [OF assms(1) bl assms(4)] obtain h5 x vec h6 where i:
    "pkg_vec_insert_merge ?v p set_status h5 = (vec, h6)"
    "h1 = set_pkg p (\<lambda>x. x\<lparr>p_parent := Some a\<rparr>) (set_apkg a (\<lambda>x. x\<lparr>a_pkgs := Some vec\<rparr>) h6)"
    "the_pkg h5 = (the_pkg h)(p := x)" "freed h5 = removeAll p (freed h)" "insert a (set (names h)) \<subseteq> set (names h5)"
    "blank_ok h5" "related h5 a x" "a \<in> set (p_provides x)" "p_version x = p_version (ct_pkg ct)"
    "\<And>b. extends a ((the_apkg h b)\<lparr>a_pkgs := a_pkgs (the_apkg h5 b)\<rparr>) (the_apkg h5 b)"
    "\<And>b. b \<noteq> a \<Longrightarrow> a_pkgs (the_apkg h5 b) = a_pkgs (the_apkg h b)"
    by metis
  have rel5: "q \<in> set ?v \<Longrightarrow> related h5 a (the_pkg h5 q)" for q
    using mem [of q a] i(3,5,10) dv(2) related_mono [of h a "the_pkg h q" h5]
    by (auto simp: member_ok_def extends_def)
  have s: "names h6 = names h5 \<and> the_apkg h6 = the_apkg h5 \<and> distinct vec \<and> p \<in> set vec \<and> set vec \<subseteq> insert p (set ?v) \<and>
    (\<forall>q. q \<noteq> p \<longrightarrow> the_pkg h6 q = the_pkg h q) \<and> related h5 a (the_pkg h6 p) \<and> p_version (the_pkg h6 p) = p_version x \<and>
    a \<in> set (p_provides (the_pkg h6 p)) \<and> set (freed h6) \<inter> insert p (set vec) = {} \<and> set (freed h6) \<subseteq> set (freed h) \<union> set ?v"
    using i(1) dv(2)
  proof (cases rule: insert_merge_cases)
    case Added
    then show ?thesis using dv i(3,4,7,8) mem [of _ a] by (auto simp: member_ok_def)
  next
    case (Merged pre q post y)
    have q: "q \<in> set ?v" "q \<noteq> p" using Merged(1) dv(2) by auto
    have y: "related h5 a y" "p_version y = p_version x" "a \<in> set (p_provides y)"
      using Merged(4) i(3,7,8) rel5 [OF q(1)] related_merge [of h5 a x "the_pkg h5 q"] by (auto simp: pkg_merge_def)
    have "set (freed h) \<inter> set ?v = {}" using mem [of _ a] by (auto simp: member_ok_def)
    then show ?thesis using Merged dv i(3,4) y q by auto
  qed
  show thesis
  proof (rule that [of vec])
    show "extends a ((the_apkg h b)\<lparr>a_pkgs := a_pkgs (the_apkg h1 b)\<rparr>) (the_apkg h1 b)" for b
      using i(10) [of b] s i(2) by (auto simp: extends_def)
    show "blank_ok h1" using i(2,5,6) s by (auto simp: blank_ok_def)
    show "related h1 a (the_pkg h1 p)" using s i(2) related_mono [of h5 a "the_pkg h6 p" h1] by simp
    show "q \<notin> set (freed h1)" if "b \<noteq> a" "q \<in> set (vec_of (the_apkg h b))" for b q
    proof
      assume "q \<in> set (freed h1)"
      then have "q \<in> set (freed h) \<union> set ?v" using s i(2) by auto
      then show False using mem [OF that(2)] mem [of q a] that(1) by (auto simp: member_ok_def related_def)
    qed
  qed (use s i(2,5,9,11) in auto)
qed

lemma hash_insert_keeps:
  assumes "hash_insert_pkg p ct set_status h = Inr h1" "db_ok h" "unused p h"
  shows "db_ok h1"
proof -
  define a where "a = p_name (ct_pkg ct)"
  from hash_insert_members [OF assms a_def] obtain vec where i:
    "a_pkgs (the_apkg h1 a) = Some vec" "distinct vec" "p \<in> set vec" "set vec \<subseteq> insert p (set (vec_of (the_apkg h a)))"
    "\<And>b. b \<noteq> a \<Longrightarrow> a_pkgs (the_apkg h1 b) = a_pkgs (the_apkg h b)"
    "\<And>q. q \<noteq> p \<Longrightarrow> the_pkg h1 q = the_pkg h q" "p_parent (the_pkg h1 p) = Some a" "related h1 a (the_pkg h1 p)"
    "a \<in> set (p_provides (the_pkg h1 p))"
    "\<And>b. extends a ((the_apkg h b)\<lparr>a_pkgs := a_pkgs (the_apkg h1 b)\<rparr>) (the_apkg h1 b)"
    "insert a (set (names h)) \<subseteq> set (names h1)" "blank_ok h1" "set (freed h1) \<inter> insert p (set vec) = {}"
    "\<And>b q. b \<noteq> a \<Longrightarrow> q \<in> set (vec_of (the_apkg h b)) \<Longrightarrow> q \<notin> set (freed h1)"
    by metis
  have mem: "q \<in> set (vec_of (the_apkg h b)) \<Longrightarrow> member_ok h b q \<and> q \<noteq> p" for b q
    using assms(2,3) by (auto simp: db_ok_def unused_def vec_of_Some)
  have old: "member_ok h1 b q" if "q \<in> set (vec_of (the_apkg h b))" "q \<notin> set (freed h1)" for b q
    using mem [OF that(1)] that(2) i(6,10,11) related_mono [of h b "the_pkg h q" h1]
    by (auto simp: member_ok_def extends_def)
  have new: "member_ok h1 a p" using i(7,8,13) by (auto simp: member_ok_def)
  have vecs: "distinct v \<and> b \<in> set (a_provided_by (the_apkg h1 b)) \<and> (\<forall>q \<in> set v. member_ok h1 b q)"
    if "a_pkgs (the_apkg h1 b) = Some v" for b v
  proof (cases "b = a")
    case True
    then have v: "v = vec" using that i(1) by simp
    have "member_ok h1 a q" if "q \<in> set vec" for q using that new old i(4,13) by (cases "q = p") auto
    moreover have "a \<in> set (a_provided_by (the_apkg h1 a))" using i(8,9) by (simp add: related_def)
    ultimately show ?thesis using v True i(2) by blast
  next
    case False
    then have v: "a_pkgs (the_apkg h b) = Some v" using that i(5) by simp
    then have "distinct v" "b \<in> set (a_provided_by (the_apkg h b))" using assms(2) by (auto simp: db_ok_def)
    moreover have "member_ok h1 b q" if "q \<in> set v" for q using that v old i(14) [OF False] by (auto simp: vec_of_Some)
    ultimately show ?thesis using i(10) [of b] by (auto simp: extends_def)
  qed
  have lists: "a_pkgs (the_apkg h1 c) \<noteq> None"
    if "c \<in> set (a_provided_by (the_apkg h1 b)) \<union> set (a_replaced_by (the_apkg h1 b)) \<union> set (a_depended_by (the_apkg h1 b))" for b c
  proof (cases "c = a")
    case False
    then have "c \<in> set (a_provided_by (the_apkg h b)) \<union> set (a_replaced_by (the_apkg h b)) \<union> set (a_depended_by (the_apkg h b))"
      using that i(10) [of b] by (auto simp: extends_def)
    then show ?thesis using assms(2) i(5) [OF False] unfolding db_ok_def by metis
  qed (use i(1) in simp)
  have "c \<in> set (names h1)" if "p_parent (the_pkg h1 q) = Some c" for q c
  proof (cases "q = p")
    case True
    then show ?thesis using that i(7,11) by auto
  next
    case False
    then have "c \<in> set (names h)" using that i(6) [of q] assms(2) by (auto simp: db_ok_def)
    then show ?thesis using i(11) by auto
  qed
  then show ?thesis unfolding db_ok_def using i(12) vecs lists by blast
qed

lemma loaded_db_ok: "loaded h \<Longrightarrow> db_ok h"
proof (induction rule: loaded.induct)
  case (start memory)
  show ?case by (simp add: db_ok_def pkg_hash_init_def blank_ok_def abstract_pkg_new_def)
next
  case (insert h p ct set_status h1)
  then show ?case using hash_insert_keeps by blast
qed

section \<open>Properties of loaded databases\<close>

text \<open>An insertion into an empty database, for the examples.\<close>

definition demo_control :: control where
  "demo_control = \<lparr>ct_pkg = demo_pkg ''lib'' ''1'' [] None, pre_depends_str = [], depends_str = [], recommends_str = [],
     suggests_str = [], conflicts_str = [], replaces_str = [], provides_str = [''api'']\<rparr>"

definition demo_hash :: pkg_hash where
  "demo_hash = pkg_hash_init (\<lambda>_. demo_pkg [] [] [] None)"

lemma demo_unused: "unused p demo_hash"
  by (simp add: unused_def demo_hash_def pkg_hash_init_def abstract_pkg_new_def vec_of_def)

lemma demo_insert:
  obtains h where "hash_insert_pkg 7 demo_control False demo_hash = Inr h" "loaded demo_hash" "loaded h"
    "7 \<in> set (vec_of (the_apkg h ''lib''))"
proof -
  obtain h where h: "hash_insert_pkg 7 demo_control False demo_hash = Inr h"
    by (simp add: hash_insert_pkg_def buildDepends_def buildConflicts_def demo_control_def case_prod_unfold Let_def)
  have l: "loaded demo_hash" unfolding demo_hash_def by (rule start)
  have "p_name (ct_pkg demo_control) = ''lib''" by (simp add: demo_control_def demo_pkg_def)
  then have "7 \<in> set (vec_of (the_apkg h ''lib''))"
    by (metis hash_insert_members [OF h loaded_db_ok [OF l] demo_unused] vec_of_Some)
  with that h l insert [OF l demo_unused h] show thesis by blast
qed

text \<open>
  C26: The package database stays consistent under every sequence of insertions from package lists and status files.
  A package in the vector of an abstract package has not been freed, bears its name and points to it; the abstract
  package is listed as a provider of everything that the package provides and as a dependent of everything that it
  needs or recommends; every name in its relations is in the table, and no package is in a vector twice.
\<close>

theorem package_database_ok:
  assumes "loaded h" "q \<in> set (vec_of (the_apkg h a))"
  shows "q \<notin> set (freed h) \<and> p_name (the_pkg h q) = a \<and> p_parent (the_pkg h q) = Some a \<and> a \<in> set (names h) \<and>
    distinct (vec_of (the_apkg h a)) \<and>
    (\<forall>n \<in> set (p_provides (the_pkg h q)). a \<in> set (a_provided_by (the_apkg h n))) \<and>
    (\<forall>n \<in> set (depended_names (the_pkg h q)). a \<in> set (a_depended_by (the_apkg h n))) \<and>
    rel_names (p_depends (the_pkg h q)) \<union> rel_names (p_conflicts (the_pkg h q)) \<subseteq> set (names h)"
proof -
  obtain v where v: "a_pkgs (the_apkg h a) = Some v" "q \<in> set v" using assms(2) by (auto simp: vec_of_Some)
  have ok: "db_ok h" using assms(1) by (rule loaded_db_ok)
  then have "member_ok h a q" "distinct v" using v by (auto simp: db_ok_def)
  moreover have "a \<in> set (names h)" using ok \<open>member_ok h a q\<close> by (auto simp: db_ok_def member_ok_def)
  ultimately show ?thesis using v(1) by (simp add: member_ok_def related_def vec_of_def)
qed

theorem package_database_ok_witness:
  "\<exists>h. loaded h \<and> 7 \<in> set (vec_of (the_apkg h ''lib'')) \<and> p_parent (the_pkg h 7) = Some ''lib''"
proof -
  obtain h where "loaded h" "7 \<in> set (vec_of (the_apkg h ''lib''))" using demo_insert by blast
  with package_database_ok [OF this] show ?thesis by blast
qed

text \<open>
  C28: In every database that can be loaded the search for unsatisfied dependencies ends, whatever cycles the
  dependencies have: its recursion is never deeper than the number of names in the table plus one.
\<close>

theorem loaded_search_ends:
  assumes "loaded h" "length (names h) < n"
  shows "\<exists>cnt lost t. fetch_unsatisfied n qs (db h) p search_start = Some (cnt, lost, t)"
proof (rule dependency_search_ends)
  show "finite (set (names h))" "card (set (names h)) < n" using assms(2) card_length [of "names h"] by simp_all
  show "\<forall>q a. p_parent (the_pkg h q) = Some a \<longrightarrow> a \<in> set (names h)"
    using loaded_db_ok [OF assms(1)] by (simp add: db_ok_def)
qed

theorem loaded_search_ends_witness:
  "\<exists>h cnt lost t. loaded h \<and> fetch_unsatisfied (Suc (length (names h))) insertion_sort (db h) 7 search_start = Some (cnt, lost, t)"
proof -
  obtain h where h: "loaded h" using demo_insert by blast
  with loaded_search_ends [OF h, of "Suc (length (names h))" insertion_sort 7] show ?thesis by blast
qed

lemma find_version_found:
  assumes "\<forall>q \<in> set qs. pkg_version_str_alloc (p_version (the_pkg h q)) \<noteq> None"
    and "p \<in> set qs" "pkg_version_str_alloc (p_version (the_pkg h p)) = Some ver"
  shows "\<exists>q \<in> set qs. find_version ver qs h = Inr (Some q) \<and> pkg_version_str_alloc (p_version (the_pkg h q)) = Some ver"
  using assms(1,2)
proof (induction qs)
  case (Cons b qs)
  obtain s where s: "pkg_version_str_alloc (p_version (the_pkg h b)) = Some s" using Cons.prems by auto
  show ?case
  proof (cases "s = ver")
    case True
    then show ?thesis using s by simp
  next
    case False
    then have "p \<in> set qs" using s assms(3) Cons.prems(2) by auto
    then show ?thesis using Cons.IH Cons.prems(1) s False by auto
  qed
qed simp

text \<open>
  After an insertion the package is found under its name and version: the lookup returns a package of that name
  with exactly that version string, provided that no package of that name lacks a version.
\<close>

theorem inserted_package_found:
  assumes "loaded h" "unused p h" "hash_insert_pkg p ct set_status h = Inr h1" "a = p_name (ct_pkg ct)"
    and "\<forall>q \<in> set (vec_of (the_apkg h a)). pkg_version_str_alloc (p_version (the_pkg h q)) \<noteq> None"
    and "pkg_version_str_alloc (p_version (ct_pkg ct)) = Some ver"
  shows "\<exists>q. pkg_hash_fetch_by_name_version a ver h1 = Inr (Some q) \<and> p_name (the_pkg h1 q) = a \<and>
    pkg_version_str_alloc (p_version (the_pkg h1 q)) = Some ver"
proof -
  have ok: "db_ok h" using assms(1) by (rule loaded_db_ok)
  have ok1: "db_ok h1" using hash_insert_keeps [OF assms(3) ok assms(2)] .
  from hash_insert_members [OF assms(3) ok assms(2,4)] obtain vec where v: "a_pkgs (the_apkg h1 a) = Some vec" "p \<in> set vec"
    "set vec \<subseteq> insert p (set (vec_of (the_apkg h a)))" "\<And>q. q \<noteq> p \<Longrightarrow> the_pkg h1 q = the_pkg h q"
    "p_version (the_pkg h1 p) = p_version (ct_pkg ct)" "insert a (set (names h)) \<subseteq> set (names h1)"
    by metis
  have "\<forall>q \<in> set vec. pkg_version_str_alloc (p_version (the_pkg h1 q)) \<noteq> None"
    using v(3,4,5) assms(5,6) by (metis insert_iff option.distinct(1) subsetD)
  from find_version_found [OF this v(2), of ver] v(5) assms(6)
  obtain q where q: "q \<in> set vec" "find_version ver vec h1 = Inr (Some q)" "pkg_version_str_alloc (p_version (the_pkg h1 q)) = Some ver"
    by auto
  moreover have "p_name (the_pkg h1 q) = a" using ok1 v(1) q(1) by (auto simp: db_ok_def member_ok_def related_def)
  ultimately show ?thesis using v(1,6)
    by (auto simp: pkg_hash_fetch_by_name_version_def pkg_vec_fetch_by_name_def abstract_pkg_fetch_by_name_def)
qed

theorem inserted_package_found_witness:
  "\<exists>h q. hash_insert_pkg 7 demo_control False demo_hash = Inr h \<and>
     pkg_hash_fetch_by_name_version ''lib'' ''1'' h = Inr (Some q) \<and> p_name (the_pkg h q) = ''lib''"
proof -
  obtain h where h: "hash_insert_pkg 7 demo_control False demo_hash = Inr h" "loaded demo_hash" using demo_insert by blast
  have n: "''lib'' = p_name (ct_pkg demo_control)" "pkg_version_str_alloc (p_version (ct_pkg demo_control)) = Some ''1''"
    by (simp_all add: demo_control_def demo_pkg_def pkg_version_str_alloc_def)
  have "vec_of (the_apkg demo_hash ''lib'') = []"
    by (simp add: demo_hash_def pkg_hash_init_def abstract_pkg_new_def vec_of_def)
  with inserted_package_found [OF h(2) demo_unused h(1) n(1) _ n(2)] h(1) show ?thesis by auto
qed

section \<open>The merged list of provided names\<close>

lemma provides_any_short: "length ps < n \<Longrightarrow> \<forall>x \<in> set ps. \<not> P x \<Longrightarrow> provides_any P n ps = Inl Overrun"
  by (induction P n ps rule: provides_any.induct) auto

lemma provides_any_full: "n = length ps \<Longrightarrow> provides_any P n ps = Inr (\<exists>x \<in> set ps. P x)"
  by (induction P n ps rule: provides_any.induct) auto

lemma any_of_total: "(\<And>x. x \<in> set xs \<Longrightarrow> f x = Inr (P x)) \<Longrightarrow> any_of f xs = Inr (\<exists>x \<in> set xs. P x)"
  by (induction xs) auto

text \<open>
  The test whether a package replaces another is exact as long as the number of provided names is that of the
  array. A merge with a status file breaks this: if the entry of the status file provides only itself and the known
  package provides more, the merged package gets the larger number with the smaller array, and the test for any other
  name reads behind the array.
\<close>

theorem merged_provides_overrun:
  "(p_provides_count y = length (p_provides y) \<longrightarrow>
      pkg_replaces z y = Inr (\<exists>r \<in> set (p_replaces z). r \<in> set (p_provides y))) \<and>
   (p_provides x = [a] \<and> p_provides_count x = 1 \<and> 1 < p_provides_count y \<and> p_replaces z = r # rs \<and> r \<noteq> a \<longrightarrow>
      pkg_replaces z (pkg_merge x y) = Inl Overrun)"
proof (intro conjI impI)
  assume "p_provides_count y = length (p_provides y)"
  from provides_any_full [OF this] show "pkg_replaces z y = Inr (\<exists>r \<in> set (p_replaces z). r \<in> set (p_provides y))"
    unfolding pkg_replaces_def by (subst any_of_total [where P = "\<lambda>r. r \<in> set (p_provides y)"]) auto
next
  assume a: "p_provides x = [a] \<and> p_provides_count x = 1 \<and> 1 < p_provides_count y \<and> p_replaces z = r # rs \<and> r \<noteq> a"
  then have "provides_any (\<lambda>n. n = r) (p_provides_count y) [a] = Inl Overrun" by (intro provides_any_short) auto
  with a show "pkg_replaces z (pkg_merge x y) = Inl Overrun" by (simp add: pkg_replaces_def pkg_merge_def)
qed

theorem merged_provides_overrun_witness:
  "pkg_replaces ((demo_pkg ''new'' ''1'' [] None)\<lparr>p_replaces := [''old'']\<rparr>)
     (pkg_merge (demo_pkg ''lib'' ''1'' [] None)
       ((demo_pkg ''lib'' ''1'' [] None)\<lparr>p_provides := [''lib'', ''api''], p_provides_count := 2\<rparr>)) = Inl Overrun"
  using merged_provides_overrun [of "(demo_pkg ''lib'' ''1'' [] None)\<lparr>p_provides := [''lib'', ''api''], p_provides_count := 2\<rparr>"
      "(demo_pkg ''new'' ''1'' [] None)\<lparr>p_replaces := [''old'']\<rparr>" "demo_pkg ''lib'' ''1'' [] None" "''lib''" "''old''" "[]"]
  by (simp add: demo_pkg_def)

end
