(* ===== verification/Opkg_Remove.thy ===== *)
theory Opkg_Remove
  imports Opkg_Build
begin

text \<open>
  The removal of packages in opkg, \<^verbatim>\<open>apps/opkg/libopkg/opkg_remove.c\<close>: who depends on a package, the removal of a
  package with its dependents or with the packages it leaves orphaned, and the reasons to refuse it.

  Maintainer scripts and files are events; \<open>scr\<close> gives the result of a script from the events so far. A vector
  that is freed twice is \<open>Overrun\<close>.
\<close>

section \<open>State\<close>

datatype revent = RunScript nat string | RemoveFiles nat | RemoveScripts nat

record remove_conf =
  force_depends :: bool
  force_dependents :: bool
  force_essential :: bool
  force_remove :: bool
  autoremove :: bool

record remover =
  r_hash :: pkg_hash
  checked :: "string set"
  events :: "revent list"

abbreviation r_pkg :: "remover \<Rightarrow> nat \<Rightarrow> pkg" where
  "r_pkg s \<equiv> the_pkg (r_hash s)"

abbreviation r_apkg :: "remover \<Rightarrow> string \<Rightarrow> abstract_pkg" where
  "r_apkg s \<equiv> the_apkg (r_hash s)"

section \<open>Operations\<close>

text \<open>The marks make every dependent appear once in the result; it is as long as the array that holds it, or shorter.\<close>

definition installed_dependers :: "pkg_hash \<Rightarrow> pkg \<Rightarrow> string list" where
  "installed_dependers h x = filter (\<lambda>b. a_status (the_apkg h b) = SS_INSTALLED)
     (concat (map (\<lambda>n. a_depended_by (the_apkg h n)) (take (p_provides_count x) (p_provides x))))"

definition pkg_has_installed_dependents :: "pkg_hash \<Rightarrow> nat \<Rightarrow> (nat \<times> string list) res" where
  "pkg_has_installed_dependents h p =
     (if p_provides_count (the_pkg h p) > length (p_provides (the_pkg h p)) then Inl Overrun
      else let ds = installed_dependers h (the_pkg h p)
           in Inr (length ds, fold (\<lambda>b acc. if b \<in> set acc then acc else acc @ [b]) ds []))"

type_synonym removal = "nat \<Rightarrow> bool \<Rightarrow> remover \<Rightarrow> (int \<times> remover) res"

text \<open>The vector of the installed packages of the dependents that have not been visited.\<close>

fun dependent_vec :: "string list \<Rightarrow> remover \<Rightarrow> nat list res" where
  "dependent_vec [] s = Inr []"
| "dependent_vec (b # bs) s =
     (if b \<in> checked s \<or> a_status (r_apkg s b) \<noteq> SS_INSTALLED then dependent_vec bs s
      else case a_pkgs (r_apkg s b) of
             None \<Rightarrow> Inl Overrun
           | Some v \<Rightarrow> rbind (dependent_vec bs s) (\<lambda>qs. Inr (filter (\<lambda>q. p_status (r_pkg s q) = SS_INSTALLED) v @ qs)))"

text \<open>After an error the vector is freed, and freed again after the loop.\<close>

fun remove_all :: "removal \<Rightarrow> nat list \<Rightarrow> remover \<Rightarrow> (int \<times> remover) res" where
  "remove_all rec [] s = Inr (0, s)"
| "remove_all rec (q # qs) s = rbind (rec q False s) (\<lambda>(err, s1). if err \<noteq> 0 then Inl Overrun else remove_all rec qs s1)"

definition opkg_remove_dependent_pkgs :: "removal \<Rightarrow> string \<Rightarrow> string list \<Rightarrow> remover \<Rightarrow> (int \<times> remover) res" where
  "opkg_remove_dependent_pkgs rec a dependents s =
     (if a \<in> checked s then Inr (0, s)
      else let s1 = s\<lparr>checked := insert a (checked s)\<rparr>
           in rbind (dependent_vec dependents s1) (\<lambda>vec. remove_all rec vec s1))"

fun auto_loop :: "removal \<Rightarrow> string list \<Rightarrow> int \<Rightarrow> remover \<Rightarrow> (int \<times> remover) res" where
  "auto_loop rec [] err s = Inr (err, s)"
| "auto_loop rec (n # ns) err s = (case pkg_hash_fetch_installed_by_name n (r_hash s) of
     None \<Rightarrow> Inr (-1, s)
   | Some q \<Rightarrow>
       if \<not> p_auto (r_pkg s q) then auto_loop rec ns err s
       else rbind (pkg_has_installed_dependents (r_hash s) q) (\<lambda>(n_deps, _).
              if n_deps = 0 then rbind (rec q False s) (\<lambda>(e, s1). auto_loop rec ns (if e \<noteq> 0 then -1 else err) s1)
              else auto_loop rec ns err s))"

definition remove_autoinstalled :: "removal \<Rightarrow> nat \<Rightarrow> remover \<Rightarrow> (int \<times> remover) res" where
  "remove_autoinstalled rec p s = auto_loop rec (depended_names (r_pkg s p)) 0 s"

text \<open>The first half of \<open>opkg_remove_pkg\<close>: a result other than 0 is returned to the caller. \<open>SF_REPLACE\<close> is 4.\<close>

definition check_dependents :: "removal \<Rightarrow> remove_conf \<Rightarrow> nat \<Rightarrow> string \<Rightarrow> remover \<Rightarrow> (int \<times> remover) res" where
  "check_dependents rec cf p a s =
     (if force_depends cf \<or> and (p_flag (r_pkg s p)) 4 \<noteq> 0 then Inr (0, s)
      else rbind (pkg_has_installed_dependents (r_hash s) p) (\<lambda>(n, dependents).
             if n = 0 then Inr (0, s)
             else if \<not> force_dependents cf then Inr (-1, s)
             else opkg_remove_dependent_pkgs rec a dependents s))"

definition add_event :: "revent \<Rightarrow> remover \<Rightarrow> remover" where
  "add_event e s = s\<lparr>events := events s @ [e]\<rparr>"

definition upd :: "nat \<Rightarrow> (pkg \<Rightarrow> pkg) \<Rightarrow> remover \<Rightarrow> remover" where
  "upd p f s = s\<lparr>r_hash := set_pkg p f (r_hash s)\<rparr>"

definition not_installed :: "nat \<Rightarrow> string \<Rightarrow> remover \<Rightarrow> remover" where
  "not_installed p a s0 = (let s = upd p (\<lambda>x. x\<lparr>p_status := SS_NOT_INSTALLED\<rparr>) s0
     in s\<lparr>r_hash := set_apkg a (\<lambda>x. x\<lparr>a_status := SS_NOT_INSTALLED\<rparr>) (r_hash s)\<rparr>)"

text \<open>The second half; \<open>SF_FILELIST_CHANGED\<close> is 128.\<close>

definition take_out :: "removal \<Rightarrow> remove_conf \<Rightarrow> (revent list \<Rightarrow> int) \<Rightarrow> nat \<Rightarrow> string \<Rightarrow> remover \<Rightarrow> (int \<times> remover) res" where
  "take_out rec cf scr p a s0 =
     (let s = add_event (RunScript p ''prerm'') (upd p (\<lambda>x. x\<lparr>p_flag := or (p_flag x) 128, p_want := SW_DEINSTALL\<rparr>) s0) in
      if scr (events s) \<noteq> 0 \<and> \<not> force_remove cf then Inr (-1, s)
      else let s1 = add_event (RunScript p ''postrm'') (add_event (RemoveFiles p) s);
               err = scr (events s1);
               s3 = not_installed p a (add_event (RemoveScripts p) s1)
           in if autoremove cf
              then rbind (remove_autoinstalled rec p s3) (\<lambda>(e, s4). Inr (if e \<noteq> 0 then -1 else err, s4))
              else Inr (err, s3))"

text \<open>
  The first argument bounds the depth of the recursion. The message of a removal by the user names the destination
  of the package, which must not be null.
\<close>

fun opkg_remove_pkg :: "nat \<Rightarrow> remove_conf \<Rightarrow> (revent list \<Rightarrow> int) \<Rightarrow> removal" where
  "opkg_remove_pkg 0 cf scr p from_upgrade s = Inl Hang"
| "opkg_remove_pkg (Suc n) cf scr p from_upgrade s =
     (if p_essential (r_pkg s p) \<and> \<not> from_upgrade \<and> \<not> force_essential cf then Inr (-1, s)
      else case p_parent (r_pkg s p) of
             None \<Rightarrow> Inr (0, s)
           | Some a \<Rightarrow> rbind (check_dependents (opkg_remove_pkg n cf scr) cf p a s) (\<lambda>(err, s1).
               if err \<noteq> 0 then Inr (err, s1)
               else if \<not> from_upgrade \<and> p_dest (r_pkg s1 p) = 0 then Inl Overrun
               else take_out (opkg_remove_pkg n cf scr) cf scr p a s1))"

section \<open>What a removal changes\<close>

text \<open>The parts of the database that no removal changes.\<close>

definition fixed_part :: "pkg \<Rightarrow> pkg" where
  "fixed_part x = x\<lparr>p_want := SW_UNKNOWN, p_flag := 0, p_status := SS_NOT_INSTALLED\<rparr>"

definition on_disk :: "remover \<Rightarrow> nat set" where
  "on_disk s = {q. is_installed (p_status (r_pkg s q))}"

text \<open>
  How a removal progresses: marks are only added, packages are only taken out, the database stays consistent, and the files of an essential
  package are removed only if this is forced.
\<close>

definition progresses :: "remove_conf \<Rightarrow> remover \<Rightarrow> remover \<Rightarrow> bool" where
  "progresses cf s t \<longleftrightarrow> checked s \<subseteq> checked t \<and> on_disk t \<subseteq> on_disk s \<and>
     (\<forall>q. fixed_part (r_pkg t q) = fixed_part (r_pkg s q)) \<and> (db_ok (r_hash s) \<longrightarrow> db_ok (r_hash t)) \<and>
     (\<exists>es. events t = events s @ es \<and> (\<forall>q. RemoveFiles q \<in> set es \<longrightarrow> p_essential (r_pkg s q) \<longrightarrow> force_essential cf))"

lemma fixed_eq: "fixed_part x = fixed_part y \<Longrightarrow>
    p_essential x = p_essential y \<and> p_parent x = p_parent y \<and> p_depends x = p_depends y \<and> p_dest x = p_dest y"
  by (cases x; cases y) (simp add: fixed_part_def)

lemma progresses_refl: "progresses cf s s"
  by (simp add: progresses_def)

lemma progresses_fixed:
  assumes "progresses cf s t"
  shows "p_essential (r_pkg t q) = p_essential (r_pkg s q)" "p_parent (r_pkg t q) = p_parent (r_pkg s q)"
    "p_depends (r_pkg t q) = p_depends (r_pkg s q)"
proof -
  have "fixed_part (r_pkg t q) = fixed_part (r_pkg s q)" using assms by (simp add: progresses_def)
  from fixed_eq [OF this] show "p_essential (r_pkg t q) = p_essential (r_pkg s q)" "p_parent (r_pkg t q) = p_parent (r_pkg s q)"
    "p_depends (r_pkg t q) = p_depends (r_pkg s q)" by simp_all
qed

lemma progresses_trans:
  assumes "progresses cf s t" "progresses cf t u"
  shows "progresses cf s u"
proof -
  obtain es1 es2 where e: "events t = events s @ es1" "events u = events t @ es2"
    "\<forall>q. RemoveFiles q \<in> set es1 \<longrightarrow> p_essential (r_pkg s q) \<longrightarrow> force_essential cf"
    "\<forall>q. RemoveFiles q \<in> set es2 \<longrightarrow> p_essential (r_pkg t q) \<longrightarrow> force_essential cf"
    using assms unfolding progresses_def by (elim conjE exE) (rule that)
  then have "events u = events s @ (es1 @ es2) \<and>
      (\<forall>q. RemoveFiles q \<in> set (es1 @ es2) \<longrightarrow> p_essential (r_pkg s q) \<longrightarrow> force_essential cf)"
    using progresses_fixed(1) [OF assms(1)] by (auto simp del: not_False_eq_True)
  moreover have "checked s \<subseteq> checked u" "on_disk u \<subseteq> on_disk s" "fixed_part (r_pkg u q) = fixed_part (r_pkg s q)"
    "db_ok (r_hash s) \<longrightarrow> db_ok (r_hash u)" for q
    using assms unfolding progresses_def by auto
  ultimately show ?thesis unfolding progresses_def by blast
qed

definition keeps_order :: "remove_conf \<Rightarrow> removal \<Rightarrow> bool" where
  "keeps_order cf rec \<longleftrightarrow> (\<forall>q s e t. rec q False s = Inr (e, t) \<longrightarrow> progresses cf s t)"

lemma remove_all_progresses:
  "keeps_order cf rec \<Longrightarrow> remove_all rec qs s = Inr (e, t) \<Longrightarrow> progresses cf s t"
proof (induction qs arbitrary: s)
  case (Cons q qs)
  then obtain s1 where "rec q False s = Inr (0, s1)" "remove_all rec qs s1 = Inr (e, t)"
    by (auto simp: rbind_eq_Inr split: if_splits)
  with Cons show ?case using progresses_trans unfolding keeps_order_def by blast
qed (simp add: progresses_refl)

lemma dependents_progresses:
  assumes "keeps_order cf rec" "opkg_remove_dependent_pkgs rec a ds s = Inr (e, t)"
  shows "progresses cf s t"
proof (cases "a \<in> checked s")
  case False
  then obtain vec where "remove_all rec vec (s\<lparr>checked := insert a (checked s)\<rparr>) = Inr (e, t)"
    using assms(2) by (auto simp: opkg_remove_dependent_pkgs_def Let_def rbind_eq_Inr)
  from remove_all_progresses [OF assms(1) this] show ?thesis by (auto simp: progresses_def on_disk_def)
qed (use assms(2) in \<open>auto simp: opkg_remove_dependent_pkgs_def progresses_refl\<close>)

lemma check_progresses:
  assumes "keeps_order cf rec" "check_dependents rec cf p a s = Inr (e, t)"
  shows "progresses cf s t"
  using assms(2) dependents_progresses [OF assms(1)] progresses_refl [of cf s]
  by (auto simp: check_dependents_def rbind_eq_Inr split: if_splits)

lemma auto_progresses:
  assumes "keeps_order cf rec" "auto_loop rec ns err s = Inr (e, t)"
  shows "progresses cf s t"
  using assms(2)
proof (induction ns arbitrary: s err)
  case (Cons n ns)
  show ?case
  proof (cases "pkg_hash_fetch_installed_by_name n (r_hash s)")
    case None
    then show ?thesis using Cons.prems by (auto simp: progresses_refl)
  next
    case (Some q)
    then consider (skip) err1 where "auto_loop rec ns err1 s = Inr (e, t)"
      | (removed) e1 s1 err1 where "rec q False s = Inr (e1, s1)" "auto_loop rec ns err1 s1 = Inr (e, t)"
      using Cons.prems by (auto simp: rbind_eq_Inr split: if_splits)
    then show ?thesis
    proof cases
      case skip
      then show ?thesis using Cons.IH by blast
    next
      case removed
      then show ?thesis using Cons.IH assms(1) progresses_trans unfolding keeps_order_def by blast
    qed
  qed
qed (simp add: progresses_refl)

text \<open>Changes of a package or of the status of an abstract package that keep the database consistent.\<close>

lemma db_ok_set_pkg:
  assumes "db_ok h" "\<And>x. fixed_part (f x) = fixed_part x"
  shows "db_ok (set_pkg p f h)"
proof -
  have x: "p_parent (f y) = p_parent y" "p_name (f y) = p_name y" "p_provides (f y) = p_provides y"
    "p_depends (f y) = p_depends y" "p_conflicts (f y) = p_conflicts y" for y
    using assms(2) [of y] by (cases y; cases "f y"; simp add: fixed_part_def)+
  have "member_ok (set_pkg p f h) b q = member_ok h b q" for b q
    using x by (simp add: member_ok_def related_def depended_names_def)
  then show ?thesis using assms(1) x unfolding db_ok_def blank_ok_def by simp
qed

lemma db_ok_set_status:
  assumes "db_ok h" "a \<in> set (names h)"
  shows "db_ok (set_apkg a (\<lambda>x. x\<lparr>a_status := st\<rparr>) h)"
proof -
  let ?h = "set_apkg a (\<lambda>x. x\<lparr>a_status := st\<rparr>) h"
  have x: "a_pkgs (the_apkg ?h b) = a_pkgs (the_apkg h b)" "a_provided_by (the_apkg ?h b) = a_provided_by (the_apkg h b)"
    "a_replaced_by (the_apkg ?h b) = a_replaced_by (the_apkg h b)" "a_depended_by (the_apkg ?h b) = a_depended_by (the_apkg h b)" for b
    by simp_all
  have "member_ok ?h b q = member_ok h b q" for b q unfolding member_ok_def related_def x by simp
  moreover have "blank_ok ?h" using assms by (auto simp: db_ok_def blank_ok_def)
  ultimately show ?thesis using assms(1) unfolding db_ok_def x by simp
qed

text \<open>The steps before and after the orphaned packages are looked for.\<close>

lemma step_progresses:
  "\<forall>q. e = RemoveFiles q \<longrightarrow> p_essential (r_pkg s q) \<longrightarrow> force_essential cf \<Longrightarrow> progresses cf s (add_event e s)"
  "progresses cf s (upd p (\<lambda>x. x\<lparr>p_flag := f (p_flag x), p_want := w\<rparr>) s)"
  "p_parent (r_pkg s p) = Some a \<Longrightarrow> progresses cf s (not_installed p a s)"
proof -
  show "\<forall>q. e = RemoveFiles q \<longrightarrow> p_essential (r_pkg s q) \<longrightarrow> force_essential cf \<Longrightarrow> progresses cf s (add_event e s)"
    by (auto simp: progresses_def add_event_def on_disk_def)
  show "progresses cf s (upd p (\<lambda>x. x\<lparr>p_flag := f (p_flag x), p_want := w\<rparr>) s)"
    by (auto simp: progresses_def upd_def on_disk_def fixed_part_def intro!: db_ok_set_pkg)
  assume a: "p_parent (r_pkg s p) = Some a"
  have "db_ok (r_hash (not_installed p a s))" if "db_ok (r_hash s)"
    unfolding not_installed_def Let_def upd_def
    by (simp, intro db_ok_set_status db_ok_set_pkg that) (use that a in \<open>auto simp: fixed_part_def db_ok_def\<close>)
  then show "progresses cf s (not_installed p a s)"
    by (auto simp: progresses_def upd_def on_disk_def fixed_part_def is_installed_def not_installed_def Let_def)
qed

lemma take_out_progresses:
  assumes "keeps_order cf rec" "take_out rec cf scr p a s = Inr (e, t)" "p_essential (r_pkg s p) \<longrightarrow> force_essential cf"
    and "p_parent (r_pkg s p) = Some a"
  shows "progresses cf s t"
proof -
  define s1 where "s1 = add_event (RunScript p ''prerm'') (upd p (\<lambda>x. x\<lparr>p_flag := or (p_flag x) 128, p_want := SW_DEINSTALL\<rparr>) s)"
  define s2 where "s2 = add_event (RemoveScripts p) (add_event (RunScript p ''postrm'') (add_event (RemoveFiles p) s1))"
  define s4 where "s4 = not_installed p a s2"
  have 1: "progresses cf s s1" unfolding s1_def by (rule progresses_trans [OF step_progresses(2) step_progresses(1)]) simp
  have e: "p_essential (r_pkg s1 p) \<longrightarrow> force_essential cf" using assms(3) by (simp add: s1_def add_event_def upd_def)
  have 2: "progresses cf s1 s2" unfolding s2_def
    by (rule progresses_trans [OF progresses_trans [OF step_progresses(1) step_progresses(1)] step_progresses(1)]) (use e in auto)
  have "progresses cf s2 s4" unfolding s4_def
    by (rule step_progresses(3)) (use assms(4) in \<open>simp add: s2_def s1_def add_event_def upd_def\<close>)
  with 1 2 have 4: "progresses cf s s4" using progresses_trans by blast
  have "t = s1 \<or> t = s4 \<or> (\<exists>e1. remove_autoinstalled rec p s4 = Inr (e1, t))"
    using assms(2) by (auto simp: take_out_def Let_def rbind_eq_Inr s1_def s2_def s4_def split: if_splits)
  then show ?thesis using 1 4 auto_progresses [OF assms(1)] progresses_trans unfolding remove_autoinstalled_def by blast
qed

lemma remove_keeps_order: "keeps_order cf (opkg_remove_pkg n cf scr)"
proof (induction n)
  case (Suc n)
  show ?case unfolding keeps_order_def
  proof (intro allI impI)
    fix p s e t
    assume r: "opkg_remove_pkg (Suc n) cf scr p False s = Inr (e, t)"
    show "progresses cf s t"
    proof (cases "(p_essential (r_pkg s p) \<and> \<not> force_essential cf) \<or> p_parent (r_pkg s p) = None")
      case True
      then show ?thesis using r by (auto simp: progresses_refl split: if_splits)
    next
      case False
      then obtain a where a: "p_parent (r_pkg s p) = Some a" "p_essential (r_pkg s p) \<longrightarrow> force_essential cf" by auto
      then obtain e1 s1 where c: "check_dependents (opkg_remove_pkg n cf scr) cf p a s = Inr (e1, s1)"
        "t = s1 \<or> take_out (opkg_remove_pkg n cf scr) cf scr p a s1 = Inr (e, t)"
        using r by (auto simp: rbind_eq_Inr split: if_splits)
      have 1: "progresses cf s s1" using check_progresses [OF Suc.IH c(1)] .
      then have "p_essential (r_pkg s1 p) = p_essential (r_pkg s p)" "p_parent (r_pkg s1 p) = p_parent (r_pkg s p)"
        by (rule progresses_fixed)+
      then have "take_out (opkg_remove_pkg n cf scr) cf scr p a s1 = Inr (e, t) \<Longrightarrow> progresses cf s1 t"
        using a by (intro take_out_progresses [OF Suc.IH]) simp_all
      then show ?thesis using 1 c(2) progresses_trans by blast
    qed
  qed
qed (simp add: keeps_order_def)

section \<open>Removals end\<close>

text \<open>
  What is left to do: the abstract packages of \<open>A\<close> that have not been visited, and the packages on the disk. A
  package that is not on the disk costs one level more, before its removal goes on with one that is.
\<close>

definition todo :: "string set \<Rightarrow> remover \<Rightarrow> nat" where
  "todo A s = card (A - checked s) + card (on_disk s)"

definition rank :: "string set \<Rightarrow> nat \<Rightarrow> remover \<Rightarrow> nat" where
  "rank A p s = 2 * todo A s + (if p \<in> on_disk s then 0 else 1)"

definition in_bounds :: "string set \<Rightarrow> remover \<Rightarrow> bool" where
  "in_bounds A s \<longleftrightarrow> finite A \<and> finite (on_disk s) \<and> (\<forall>q a. p_parent (r_pkg s q) = Some a \<longrightarrow> a \<in> A)"

definition returns_within :: "string set \<Rightarrow> nat \<Rightarrow> removal \<Rightarrow> bool" where
  "returns_within A n rec \<longleftrightarrow> (\<forall>q b s. in_bounds A s \<longrightarrow> rank A q s < n \<longrightarrow> rec q b s \<noteq> Inl Hang)"

lemma progresses_bounded:
  assumes "progresses cf s t" "in_bounds A s"
  shows "in_bounds A t" "todo A t \<le> todo A s"
proof -
  have "on_disk t \<subseteq> on_disk s" "A - checked t \<subseteq> A - checked s" using assms(1) by (auto simp: progresses_def)
  then show "in_bounds A t" "todo A t \<le> todo A s" using assms(2) progresses_fixed(2) [OF assms(1)]
    by (auto simp: in_bounds_def todo_def intro: finite_subset intro!: add_mono card_mono)
qed

lemma remove_all_ends:
  assumes "returns_within A n rec" "keeps_order cf rec"
  shows "in_bounds A s \<Longrightarrow> 2 * todo A s + 1 < n \<Longrightarrow> remove_all rec qs s \<noteq> Inl Hang"
proof (induction qs arbitrary: s)
  case (Cons q qs)
  have "rank A q s < n" using Cons.prems(2) by (simp add: rank_def)
  then have "rec q False s \<noteq> Inl Hang" using assms(1) Cons.prems(1) unfolding returns_within_def by blast
  moreover have "remove_all rec qs s1 \<noteq> Inl Hang" if "rec q False s = Inr (e, s1)" for e s1
  proof -
    have "progresses cf s s1" using assms(2) that unfolding keeps_order_def by blast
    from progresses_bounded [OF this Cons.prems(1)] Cons.prems(2) show ?thesis by (intro Cons.IH) auto
  qed
  ultimately show ?case by (auto simp: rbind_eq_Inl)
qed simp

lemma dependent_vec_ends: "dependent_vec bs s \<noteq> Inl Hang"
  by (induction bs) (auto simp: rbind_eq_Inl split: option.splits)

lemma dependents_count_ends: "pkg_has_installed_dependents h p \<noteq> Inl Hang"
  by (simp add: pkg_has_installed_dependents_def Let_def)

lemma check_ends:
  assumes "returns_within A n rec" "keeps_order cf rec" "in_bounds A s" "a \<in> A" "rank A p s < Suc n"
  shows "check_dependents rec cf p a s \<noteq> Inl Hang"
proof -
  have "opkg_remove_dependent_pkgs rec a ds s \<noteq> Inl Hang" for ds
  proof (cases "a \<in> checked s")
    case False
    let ?s = "s\<lparr>checked := insert a (checked s)\<rparr>"
    have b: "in_bounds A ?s" using assms(3) by (simp add: in_bounds_def on_disk_def)
    have "A - checked ?s = (A - checked s) - {a}" by auto
    moreover have "finite (A - checked s)" "a \<in> A - checked s" using assms(3,4) False by (auto simp: in_bounds_def)
    ultimately have "card (A - checked ?s) < card (A - checked s)" by (metis card_Diff1_less)
    then have "2 * todo A ?s + 1 < n" using assms(5) by (simp add: todo_def rank_def on_disk_def split: if_splits)
    from remove_all_ends [OF assms(1,2) b this] show ?thesis
      using dependent_vec_ends by (auto simp: opkg_remove_dependent_pkgs_def Let_def rbind_eq_Inl)
  qed (simp add: opkg_remove_dependent_pkgs_def)
  then show ?thesis using dependents_count_ends by (auto simp: check_dependents_def rbind_eq_Inl split: if_splits)
qed

lemma auto_ends:
  assumes "returns_within A n rec" "keeps_order cf rec"
  shows "in_bounds A s \<Longrightarrow> 2 * todo A s < n \<Longrightarrow> auto_loop rec ns err s \<noteq> Inl Hang"
proof (induction ns arbitrary: s err)
  case (Cons m ns)
  show ?case
  proof (cases "pkg_hash_fetch_installed_by_name m (r_hash s)")
    case (Some q)
    then have "q \<in> on_disk s"
      by (auto simp: pkg_hash_fetch_installed_by_name_def on_disk_def find_Some_iff split: option.splits)
    then have "rank A q s < n" using Cons.prems(2) by (simp add: rank_def)
    then have r: "rec q False s \<noteq> Inl Hang" using assms(1) Cons.prems(1) unfolding returns_within_def by blast
    have i: "auto_loop rec ns err1 s1 \<noteq> Inl Hang" if "rec q False s = Inr (e, s1)" for e s1 err1
    proof -
      have "progresses cf s s1" using assms(2) that unfolding keeps_order_def by blast
      from progresses_bounded [OF this Cons.prems(1)] Cons.prems(2) show ?thesis by (intro Cons.IH) auto
    qed
    have "auto_loop rec ns err s \<noteq> Inl Hang" by (rule Cons.IH [OF Cons.prems])
    then show ?thesis using Some r i dependents_count_ends by (auto simp: rbind_eq_Inl split: if_splits)
  qed simp
qed simp

lemma take_out_ends:
  assumes "returns_within A n rec" "keeps_order cf rec" "in_bounds A s0" "progresses cf s0 s" "rank A p s0 < Suc n"
  shows "take_out rec cf scr p a s \<noteq> Inl Hang"
proof -
  have "remove_autoinstalled rec p t \<noteq> Inl Hang"
    if t: "checked t = checked s" "on_disk t = on_disk s - {p}" "\<forall>q. p_parent (r_pkg t q) = p_parent (r_pkg s q)" for t
  proof -
    have b: "in_bounds A t" using progresses_bounded(1) [OF assms(4,3)] t by (simp add: in_bounds_def)
    have f: "finite (on_disk s0)" "on_disk t \<subseteq> on_disk s0 - {p}" using assms(3,4) t(2) by (auto simp: in_bounds_def progresses_def)
    have c: "card (A - checked t) \<le> card (A - checked s0)"
      using assms(3,4) t(1) by (intro card_mono) (auto simp: in_bounds_def progresses_def)
    have "card (on_disk t) \<le> card (on_disk s0 - {p})" using f by (intro card_mono) auto
    moreover have "card (on_disk s0 - {p}) = card (on_disk s0) - (if p \<in> on_disk s0 then 1 else 0)" by simp
    moreover have "p \<in> on_disk s0 \<Longrightarrow> 0 < card (on_disk s0)" using f(1) card_gt_0_iff by blast
    ultimately have "2 * todo A t < n" using c assms(5) by (auto simp: todo_def rank_def split: if_splits)
    then show ?thesis unfolding remove_autoinstalled_def using auto_ends [OF assms(1,2) b] by blast
  qed
  moreover define t where "t = not_installed p a (add_event (RemoveScripts p) (add_event (RunScript p ''postrm'') (add_event (RemoveFiles p)
    (add_event (RunScript p ''prerm'') (upd p (\<lambda>x. x\<lparr>p_flag := or (p_flag x) 128, p_want := SW_DEINSTALL\<rparr>) s)))))"
  moreover have "checked t = checked s" "on_disk t = on_disk s - {p}" "\<forall>q. p_parent (r_pkg t q) = p_parent (r_pkg s q)"
    by (auto simp: t_def not_installed_def Let_def add_event_def upd_def on_disk_def is_installed_def)
  ultimately have "remove_autoinstalled rec p t \<noteq> Inl Hang" by blast
  then show ?thesis by (auto simp: take_out_def Let_def rbind_eq_Inl t_def split: if_splits)
qed

lemma remove_ends: "returns_within A n (opkg_remove_pkg n cf scr)"
proof (induction n)
  case (Suc n)
  show ?case unfolding returns_within_def
  proof (intro allI impI)
    fix p b s
    assume s: "in_bounds A s" "rank A p s < Suc n"
    note k = remove_keeps_order [of cf n scr]
    have "take_out (opkg_remove_pkg n cf scr) cf scr p a s1 \<noteq> Inl Hang"
      if "check_dependents (opkg_remove_pkg n cf scr) cf p a s = Inr (e, s1)" for a e s1
      using take_out_ends [OF Suc.IH k s(1) check_progresses [OF k that] s(2)] .
    moreover have "p_parent (r_pkg s p) = Some a \<Longrightarrow> check_dependents (opkg_remove_pkg n cf scr) cf p a s \<noteq> Inl Hang" for a
      using s(1) check_ends [OF Suc.IH k s(1) _ s(2)] unfolding in_bounds_def by blast
    ultimately show "opkg_remove_pkg (Suc n) cf scr p b s \<noteq> Inl Hang"
      by (auto simp: rbind_eq_Inl split: option.splits if_splits)
  qed
qed (simp add: returns_within_def)

text \<open>
  C31: Every removal ends, with whatever cycles among dependents and automatically installed packages: the recursion is
  never deeper than twice the number of names in the table and of packages on the disk.
\<close>

theorem removal_ends:
  assumes "loaded (r_hash s)" "finite (on_disk s)" "2 * (length (names (r_hash s)) + card (on_disk s)) + 1 < n"
  shows "opkg_remove_pkg n cf scr p from_upgrade s \<noteq> Inl Hang"
proof -
  let ?A = "set (names (r_hash s))"
  have b: "in_bounds ?A s" using loaded_db_ok [OF assms(1)] assms(2) by (simp add: in_bounds_def db_ok_def)
  have "card (?A - checked s) \<le> card ?A" by (intro card_mono) auto
  then have "card (?A - checked s) \<le> length (names (r_hash s))" using card_length le_trans by blast
  then have "rank ?A p s < n" using assms(3) by (simp add: rank_def todo_def)
  with b show ?thesis using remove_ends unfolding returns_within_def by blast
qed

section \<open>What is never removed\<close>

text \<open>
  C29: A package that is needed is not removed. Without one of the two options that force it, and unless the package is
  being replaced, the removal of a package is refused and changes nothing if some package of an installed abstract
  package needs or recommends a name that it provides.
\<close>

theorem needed_package_kept:
  assumes "db_ok (r_hash s)" "\<not> force_depends cf" "\<not> force_dependents cf" "and (p_flag (r_pkg s p)) 4 = 0"
    and "p_parent (r_pkg s p) \<noteq> None" "p_provides_count (r_pkg s p) = length (p_provides (r_pkg s p))"
    and "q \<in> set (vec_of (r_apkg s b))" "a_status (r_apkg s b) = SS_INSTALLED"
    and "m \<in> set (depended_names (r_pkg s q))" "m \<in> set (p_provides (r_pkg s p))"
  shows "opkg_remove_pkg (Suc n) cf scr p from_upgrade s = Inr (-1, s)"
proof -
  have "member_ok (r_hash s) b q" using assms(1,7) by (auto simp: db_ok_def vec_of_Some)
  then have "b \<in> set (a_depended_by (r_apkg s m))" using assms(9) by (simp add: member_ok_def related_def)
  then have "b \<in> set (installed_dependers (r_hash s) (r_pkg s p))"
    using assms(6,8,10) by (auto simp: installed_dependers_def)
  then have "length (installed_dependers (r_hash s) (r_pkg s p)) \<noteq> 0" by auto
  then have "check_dependents rec cf p a s = Inr (-1, s)" for rec a
    using assms(2,3,4,6) by (simp add: check_dependents_def pkg_has_installed_dependents_def Let_def)
  then show ?thesis using assms(5) by auto
qed


section \<open>An example\<close>

text \<open>A database with one package, and one in which it is needed by another.\<close>

definition demo_remover :: "pkg_hash \<Rightarrow> remover" where
  "demo_remover h = \<lparr>r_hash = h, checked = {}, events = []\<rparr>"

definition cautious :: remove_conf where
  "cautious = \<lparr>force_depends = False, force_dependents = False, force_essential = False, force_remove = False, autoremove = True\<rparr>"

lemma demo_on_disk: "on_disk (demo_remover demo_hash) = {}"
  by (simp add: on_disk_def demo_remover_def demo_hash_def pkg_hash_init_def demo_pkg_def is_installed_def)

theorem removal_ends_witness:
  "\<exists>h. loaded h \<and> 7 \<in> set (vec_of (the_apkg h ''lib'')) \<and>
     opkg_remove_pkg (2 * (length (names h) + card (on_disk (demo_remover h))) + 2) cautious (\<lambda>_. 0) 7 False (demo_remover h) \<noteq> Inl Hang"
proof -
  obtain h where h: "hash_insert_pkg 7 demo_control False demo_hash = Inr h" "loaded demo_hash" "loaded h"
    "7 \<in> set (vec_of (the_apkg h ''lib''))" using demo_insert by blast
  have "the_pkg h q = the_pkg demo_hash q" if "q \<noteq> 7" for q
    using hash_insert_members [OF h(1) loaded_db_ok [OF h(2)] demo_unused refl] that by metis
  then have "on_disk (demo_remover h) \<subseteq> insert 7 (on_disk (demo_remover demo_hash))"
    by (auto simp: on_disk_def demo_remover_def)
  then have "on_disk (demo_remover h) \<subseteq> {7}" unfolding demo_on_disk .
  then have "finite (on_disk (demo_remover h))" by (rule finite_subset) simp
  moreover have r: "r_hash (demo_remover h) = h" by (simp add: demo_remover_def)
  ultimately have "opkg_remove_pkg (2 * (length (names h) + card (on_disk (demo_remover h))) + 2) cautious (\<lambda>_. 0) 7 False
      (demo_remover h) \<noteq> Inl Hang"
    using h(3) by (intro removal_ends) simp_all
  with h(3,4) show ?thesis by blast
qed

definition demo_needed :: pkg_hash where
  "demo_needed = \<lparr>names = [''lib'', ''app''], db = \<lparr>
     pkg_at = (\<lambda>q. demo_pkg [] [] [] None)
       (7 := demo_pkg ''lib'' ''1'' [] (Some ''lib''),
        8 := demo_pkg ''app'' ''1'' [\<lparr>cd_type = DEPEND, possibilities = [\<lparr>d_constraint = NONE, d_version = None, d_pkg = ''lib''\<rparr>]\<rparr>] (Some ''app'')),
     apkg_at = (\<lambda>_. abstract_pkg_new)
       (''lib'' := (demo_apkg ''lib'' [7])\<lparr>a_depended_by := [''app'']\<rparr>,
        ''app'' := (demo_apkg ''app'' [8])\<lparr>a_status := SS_INSTALLED\<rparr>)\<rparr>, freed = []\<rparr>"

lemma demo_needed_ok: "db_ok demo_needed"
  unfolding db_ok_def
  by (auto simp: demo_needed_def blank_ok_def abstract_pkg_new_def demo_apkg_def demo_pkg_def member_ok_def related_def
      rel_names_def depended_names_def split: if_splits)

theorem needed_package_kept_witness:
  "opkg_remove_pkg 1 cautious (\<lambda>_. 0) 7 False (demo_remover demo_needed) = Inr (-1, demo_remover demo_needed)"
  using needed_package_kept [of "demo_remover demo_needed" cautious 7 8 "''app''" "''lib''" 0 "\<lambda>_. 0" False] demo_needed_ok
  by (simp add: demo_remover_def cautious_def demo_needed_def demo_pkg_def demo_apkg_def vec_of_def depended_names_def)


end
