(* ===== verification/Spec2Isabelle.thy ===== *)
theory Spec2Isabelle
  imports Strlist Standalone Ftpdataio Cmdio Parseconf Ls Ipaddr Prelogin Session_Policy Commands
    P910nd Hd_Idle Opkg_Remove
begin

text \<open>
  A verification library for services of Snake OS, a distribution for network storage: the FTP server vsftpd 2.2.0
  (\<^verbatim>\<open>apps/vsftpd-2.2.0\<close>), through which files are exchanged with untrusted clients, the printer daemon p910nd
  (\<^verbatim>\<open>apps/p910nd-0.93\<close>), the daemon hd-idle that stops idle disks (\<^verbatim>\<open>apps/hd-idle\<close>), and the package manager
  opkg (\<^verbatim>\<open>apps/opkg/libopkg\<close>). The rest of the repository is the kernel, the boot loader and vendored packages.

  \<^bold>\<open>The FTP server.\<close> A listener (\<^verbatim>\<open>standalone.c\<close>) accepts connections, keeps the number of sessions per address
  in hash tables (\<^verbatim>\<open>hash.c\<close>) and forks a child per session. The child greets and asks for a login
  (\<^verbatim>\<open>prelogin.c\<close>); the decision is taken by a privileged parent (\<^verbatim>\<open>privops.c\<close>, \<^verbatim>\<open>twoprocess.c\<close>,
  \<^verbatim>\<open>postprivparent.c\<close>) over a socket pair (\<^verbatim>\<open>privsock.c\<close>), or in the same process (\<^verbatim>\<open>oneprocess.c\<close>). Then the
  child executes commands (\<^verbatim>\<open>postlogin.c\<close>), with data connections (\<^verbatim>\<open>ftpdataio.c\<close>), listings (\<^verbatim>\<open>ls.c\<close>),
  conversions (\<^verbatim>\<open>ascii.c\<close>), access checks (\<^verbatim>\<open>access.c\<close>) and a log (\<^verbatim>\<open>logging.c\<close>). All of it uses a string library
  (\<^verbatim>\<open>str.c\<close>, \<^verbatim>\<open>strlist.c\<close>), wrappers of the C library (\<^verbatim>\<open>sysutil.c\<close>, \<^verbatim>\<open>sysstr.c\<close>) and settings
  (\<^verbatim>\<open>tunables.c\<close>, \<^verbatim>\<open>parseconf.c\<close>).

  \<^bold>\<open>The other programs.\<close> p910nd accepts one client after the other and copies between the connection and the printer
  through circular buffers, in one direction or, around \<open>select()\<close>, in both. hd-idle reads the disk statistics of the kernel
  periodically, keeps a list of disks and stops those without activity. opkg reads package lists into a database of packages
  and abstract packages, compares versions, finds the packages that a package needs or conflicts with, and decides which may be removed.

  \<^bold>\<open>The theories.\<close>
  \<^item> \<open>Prelude\<close>: faults and the result type (error paths are values: \<open>Bug\<close> for \<open>bug()\<close>, \<open>Die\<close> for \<open>die()\<close>,
    \<open>Exit\<close>, \<open>Overrun\<close> for memory faults and null pointers, \<open>Hang\<close> for exhausted fuel), 32-bit integers, C strings.
  \<^item> \<open>Sysutil\<close>, \<open>Text\<close>, \<open>Mystr\<close>, \<open>Mystr_Spec\<close>, \<open>Strlist\<close>: numbers and characters; strings as texts; \<^verbatim>\<open>str.c\<close> on
    memory with its lengths and buffers, shown to refine the texts; string lists.
  \<^item> \<open>Hash\<close>, \<open>Standalone\<close>: the hash table with its linked nodes, shown to refine a finite map; the listener as a state
    machine over the events the kernel may deliver, with the invariant that its books balance.
  \<^item> \<open>Netio\<close>, \<open>Cmdio\<close>, \<open>Privsock\<close>: the read, write and peek loops on streams whose peer may fragment, interrupt
    and fail; lines, commands and replies; the messages between the processes.
  \<^item> \<open>Ascii\<close>, \<open>Ftpdataio\<close>: both conversions on buffers, the loops of upload, download and listing.
  \<^item> \<open>Tunables\<close>, \<open>Parseconf\<close>, \<open>Ls\<close>, \<open>Ipaddr\<close>, \<open>Sockaddr\<close>: settings and the configuration file; the pattern
    matcher, listings and access checks; addresses.
  \<^item> \<open>Session\<close>, \<open>Syscalls\<close>: the state of a session and of its world, and actions on it. The operating system is a
    function from the calls made so far to an answer, so every theorem holds for every behaviour of files, network
    and other processes. The wrappers of system calls, with the errors that they turn into \<open>die()\<close>.
  \<^item> \<open>Privops\<close>, \<open>Prelogin\<close>, \<open>Procmodel\<close>: the login decision and the session before the login; the privileged
    services, in one process and in two. The locale \<open>privileged_service\<close> states that a service behaves as the
    privileged operation itself, whatever the socket pair does; it is interpreted for every service.
  \<^item> \<open>Logging\<close>, \<open>Dataconn\<close>, \<open>Postlogin\<close>: the log, data connections, and every command after the login.
  \<^item> \<open>Session_Inv\<close>, \<open>Session_Policy\<close>: the invariant of a session after the login and the policy for its system calls,
    kept by every handler. The locale \<open>stage\<close> is the contract between an invariant and the calls; it is
    interpreted on the three invariants that the proofs use.
  \<^item> \<open>Session_Progress\<close>, \<open>Commands\<close>: every command is answered and the loop ends; properties of single commands.
  \<^item> \<open>Lp_Buffer\<close>, \<open>Lp_Copy\<close>, \<open>P910nd\<close>: the circular buffer, shown to be a queue through the locale
    \<open>byte_queue\<close>; the copying of a job; opening, locking and the loop of the server. Descriptors carry a script of what
    their reads return and their writes accept.
  \<^item> \<open>Ctype\<close>, \<open>Hd_Idle\<close>: characters and numbers of the C library; the statistics, the list of disks and the
    decision to stop one, shown to depend on the history of the disk alone.
  \<^item> \<open>Opkg_Version\<close>, \<open>Opkg_Hash\<close>, \<open>Opkg_Depends\<close>, \<open>Opkg_Resolve\<close>, \<open>Opkg_Build\<close>, \<open>Opkg_Remove\<close>: versions, whose comparison is
    shown to be an order through the locales \<open>three_way\<close> and \<open>lexicographic\<close>; the hash table as a map, locale
    \<open>string_map\<close>; the texts of dependencies; the search for dependencies and conflicts; how the database is built, with
    its invariant; the removal of packages with their dependents and orphans.
  \<^item> This theory: what spans the listener and the session.

  \<^bold>\<open>What is shown.\<close> The listener never runs into an error and counts exactly; the limits it enforces are those of the true
  load. A login is granted only by the rules, after a bounded dialogue, and the two-process model agrees with the
  one-process model. A session after the login never reaches \<open>bug()\<close>, a null pointer or the outside of a buffer; its
  calls obey the settings; it connects to no host but its client's; it answers every command and ends. Strings,
  string lists, hash tables and messages refine their specifications; transfers store and send exactly the
  bytes, listings consist of exactly the visible entries, parsers accept exactly what they should. Where the code deviates,
  a theorem says so: the race of the listener with a reaped child, the pattern matcher's first-match rule, short IPv6
  addresses, the null pointer behind \<open>pasv_address\<close>, and the session that a third host can end.

  Print jobs arrive in order and, where the code allows it, completely, and the loops end; a disk is stopped exactly when
  its history says so; the package database stays consistent under every insertion, the search for dependencies ends also
  on cycles and is complete, a needed or essential package is not removed, and every removal ends. The deviations: the end of a job after a short write, the pointer into a dead stack
  frame, the pause of the printer, the disk that could not be stopped, strict version constraints that admit equal
  versions and are weakened by printing, the sort that loses the newest version, and the provided names of merged
  packages.

  \<^bold>\<open>Fuel.\<close> Loops whose length depends on data of the model are total functions with a measure, or have as many rounds as the
  data can feed, and are proved not to need more. Three loops depend on the operating system alone: the rounds of the
  command loop (\<open>k\<close>, proved sufficient above the number of input bytes), the depth of a directory tree and
  the names tried for \<open>STOU\<close> (\<open>n\<close>, proved sufficient if one of them is free). The copying of a print job takes at most
  two rounds per byte and announced write; without a further answer of \<open>select()\<close> the process waits. The depth of opkg's
  search is bounded by the number of names in the table, that of a removal by twice the number of names and installed packages.

  \<^bold>\<open>Not modelled.\<close> This build leaves \<open>VSF_BUILD_SSL\<close> undefined, so SSL functions are their stubs; \<^verbatim>\<open>ssl.c\<close> and
  \<^verbatim>\<open>sslslave.c\<close> call into OpenSSL. Timers, the idle and data alarms, bandwidth pauses, floating point rates, process
  titles, socket options and descriptor flags have no effect on what the theorems state and are left out. Privilege
  dropping, chroot, capabilities, PAM and the process sandbox (\<^verbatim>\<open>ptracesandbox.c\<close>) are operating system
  facilities; the authentication result is a parameter. \<open>qsort\<close>, \<open>inet_ntop\<close>, \<open>inet_aton\<close> and \<open>mktime\<close> are parameters,
  \<open>qsort\<close> with the hypothesis that it sorts. An urgent signal is handled at the end of the transfer loop that it
  interrupts. Of p910nd the start of the daemon and its options, of hd-idle the detachment from the terminal are system calls.
  Of opkg the reading of files, downloads, archives and installation are left out: they consist mostly of file
  operations and scripts. The remaining programs of the repository are vendored.
\<close>

section \<open>From the listener to the session\<close>

text \<open>What \<open>main\<close> does with the launch information of \<open>vsf_standalone_main\<close>.\<close>

definition launch_session :: "vsf_client_launch \<Rightarrow> vsf_session \<Rightarrow> vsf_session" where
  "launch_session ret s =
     s\<lparr>vsf_session.num_clients := num_children ret,
       vsf_session.num_this_ip := vsf_client_launch.num_this_ip ret\<rparr>"



end
